(* ===== verification/Prelude.thy ===== *)
theory Prelude
  imports Main "HOL-Library.Word" "HOL-Library.AList" "HOL-Library.Multiset"
begin

text \<open>
  Shared vocabulary of the development: the machine types of the Rust sources, \<open>Result\<close>, \<open>Poll\<close>
  and \<open>io::Error\<close>, the byte-level helpers of the standard library that the sources use
  (big-endian conversions, \<open>memchr\<close>, ASCII classes, \<open>trim\<close>, \<open>split_once\<close>, UTF-8 validation),
  and the generic list and arithmetic lemmas that the component theories rely on.

  Conventions used everywhere:
  \<^item> \<open>usize\<close> lengths are \<open>nat\<close>; a place where a \<open>usize\<close> or \<open>u64\<close> operation can wrap, saturate or
    overflow writes that out, and wire integers are words of their width;
  \<^item> integer arithmetic follows the release profile of \<^verbatim>\<open>Cargo.toml\<close> (no overflow checks: \<open>+\<close> on
    \<open>u64\<close> wraps);
  \<^item> an operation that can fail returns a \<open>result\<close>; an operation that mutates its arguments returns
    their new values, also on the error path when the caller can observe them;
  \<^item> randomness, clocks and sockets are explicit arguments.
\<close>

unbundle bit_operations_syntax

section \<open>Machine types\<close>

type_synonym byte = "8 word"
type_synonym bytes = "8 word list"
type_synonym u16 = "16 word"
type_synonym u32 = "32 word"
type_synonym u64 = "64 word"

named_theorems wire_simps \<open>unfolding rules for wire formats and their constants\<close>
named_theorems guard_splits \<open>case splits on results and polls\<close>

section \<open>Results, polls and I/O errors\<close>

datatype ('a, 'e) result = Ok 'a | Err 'e

datatype 'a poll = Ready 'a | Pending

datatype error_kind =
    InvalidData | InvalidInput | OtherKind | UnexpectedEof | WriteZero | TimedOut
  | BrokenPipe | ConnectionReset | ConnectionAborted | NotConnected | Interrupted | WouldBlock

datatype io_error = IoError error_kind string

fun err_kind :: "io_error \<Rightarrow> error_kind" where
  "err_kind (IoError k m) = k"

fun rbind :: "('a, 'e) result \<Rightarrow> ('a \<Rightarrow> ('b, 'e) result) \<Rightarrow> ('b, 'e) result" where
  "rbind (Ok a) f = f a"
| "rbind (Err e) f = Err e"

text \<open>A fallible computation that may also panic (\<open>None\<close>): \<open>?\<close> after such a call.\<close>

fun and_then :: "('a, 'e) result option \<Rightarrow> ('a \<Rightarrow> ('b, 'e) result option) \<Rightarrow> ('b, 'e) result option" where
  "and_then None f = None"
| "and_then (Some (Err e)) f = Some (Err e)"
| "and_then (Some (Ok a)) f = f a"

fun map_err :: "('e \<Rightarrow> 'f) \<Rightarrow> ('a, 'e) result \<Rightarrow> ('a, 'f) result" where
  "map_err f (Ok a) = Ok a"
| "map_err f (Err e) = Err (f e)"

fun ok_or :: "'a option \<Rightarrow> 'e \<Rightarrow> ('a, 'e) result" where
  "ok_or (Some a) e = Ok a"
| "ok_or None e = Err e"

fun is_ok :: "('a, 'e) result \<Rightarrow> bool" where
  "is_ok (Ok a) \<longleftrightarrow> True"
| "is_ok (Err e) \<longleftrightarrow> False"

section \<open>Saturating arithmetic on 64-bit words\<close>

definition saturating_sub :: "u64 \<Rightarrow> u64 \<Rightarrow> u64" where
  "saturating_sub a b = (if a < b then 0 else a - b)"

definition saturating_add :: "u64 \<Rightarrow> u64 \<Rightarrow> u64" where
  "saturating_add a b = (if unat a + unat b < 2 ^ 64 then a + b else - 1)"

section \<open>Big-endian integers\<close>

fun be_encode :: "nat \<Rightarrow> nat \<Rightarrow> bytes" where
  "be_encode 0 n = []"
| "be_encode (Suc k) n = be_encode k (n div 256) @ [of_nat n]"

definition be_decode :: "bytes \<Rightarrow> nat" where
  "be_decode bs = foldl (\<lambda>a b. a * 256 + unat b) 0 bs"

definition u16_to_be :: "u16 \<Rightarrow> bytes" where
  "u16_to_be w = be_encode 2 (unat w)"

definition u32_to_be :: "u32 \<Rightarrow> bytes" where
  "u32_to_be w = be_encode 4 (unat w)"

definition u64_to_be :: "u64 \<Rightarrow> bytes" where
  "u64_to_be w = be_encode 8 (unat w)"

definition u16_from_be :: "bytes \<Rightarrow> u16" where
  "u16_from_be bs = of_nat (be_decode bs)"

definition u64_from_be :: "bytes \<Rightarrow> u64" where
  "u64_from_be bs = of_nat (be_decode bs)"

section \<open>Searching and trimming byte and character sequences\<close>

text \<open>\<open>memchr\<close>: the index of the first occurrence.\<close>

fun memchr :: "'a \<Rightarrow> 'a list \<Rightarrow> nat option" where
  "memchr c [] = None"
| "memchr c (x # xs) = (if x = c then Some 0 else map_option Suc (memchr c xs))"

definition strip_prefix :: "'a list \<Rightarrow> 'a list \<Rightarrow> 'a list option" where
  "strip_prefix p xs = (if take (length p) xs = p then Some (drop (length p) xs) else None)"

definition strip_suffix :: "'a list \<Rightarrow> 'a list \<Rightarrow> 'a list option" where
  "strip_suffix s xs =
     (if length s \<le> length xs \<and> drop (length xs - length s) xs = s
      then Some (take (length xs - length s) xs) else None)"

text \<open>\<open>memmem\<close>: the index of the first occurrence of a non-empty needle.\<close>

fun memmem :: "'a list \<Rightarrow> 'a list \<Rightarrow> nat option" where
  "memmem p [] = (if p = [] then Some 0 else None)"
| "memmem p (x # xs) =
     (if take (length p) (x # xs) = p then Some 0 else map_option Suc (memmem p xs))"

text \<open>\<open>str::split_once\<close> and \<open>str::rsplit_once\<close> on a single-character separator.\<close>

definition split_once :: "'a \<Rightarrow> 'a list \<Rightarrow> ('a list \<times> 'a list) option" where
  "split_once c xs = map_option (\<lambda>i. (take i xs, drop (Suc i) xs)) (memchr c xs)"

definition rsplit_once :: "'a \<Rightarrow> 'a list \<Rightarrow> ('a list \<times> 'a list) option" where
  "rsplit_once c xs = map_option (\<lambda>(l, r). (rev r, rev l)) (split_once c (rev xs))"

text \<open>Dropping the longest prefix and suffix whose elements satisfy a predicate.\<close>

definition trim_start_matches :: "('a \<Rightarrow> bool) \<Rightarrow> 'a list \<Rightarrow> 'a list" where
  "trim_start_matches p xs = dropWhile p xs"

definition trim_end_matches :: "('a \<Rightarrow> bool) \<Rightarrow> 'a list \<Rightarrow> 'a list" where
  "trim_end_matches p xs = rev (dropWhile p (rev xs))"

definition trim_matches :: "('a \<Rightarrow> bool) \<Rightarrow> 'a list \<Rightarrow> 'a list" where
  "trim_matches p xs = trim_end_matches p (trim_start_matches p xs)"

text \<open>\<open>Vec::swap_remove\<close> at a valid index: the last element takes the place of the removed one.\<close>

definition swap_remove :: "nat \<Rightarrow> 'a list \<Rightarrow> 'a \<times> 'a list" where
  "swap_remove i xs = (xs ! i, butlast (xs[i := last xs]))"

section \<open>Text\<close>

text \<open>
  A Rust \<open>str\<close> is its UTF-8 bytes; the model writes it as a \<open>string\<close> whose characters are those
  bytes. \<open>as_bytes\<close> and \<open>bytes_to_str\<close> convert without loss.
\<close>

definition as_bytes :: "string \<Rightarrow> bytes" where
  "as_bytes s = map of_char s"

definition bytes_to_str :: "bytes \<Rightarrow> string" where
  "bytes_to_str bs = map (\<lambda>b. char_of (unat b)) bs"

definition is_ascii_digit :: "char \<Rightarrow> bool" where
  "is_ascii_digit c \<longleftrightarrow> (48::nat) \<le> of_char c \<and> of_char c \<le> (57::nat)"

definition to_ascii_lowercase :: "char \<Rightarrow> char" where
  "to_ascii_lowercase c =
     (if (65::nat) \<le> of_char c \<and> of_char c \<le> (90::nat) then char_of ((of_char c :: nat) + 32) else c)"

definition eq_ignore_ascii_case :: "string \<Rightarrow> string \<Rightarrow> bool" where
  "eq_ignore_ascii_case a b \<longleftrightarrow> map to_ascii_lowercase a = map to_ascii_lowercase b"

text \<open>\<open>u8::is_ascii_whitespace\<close>: space, tab, line feed, form feed, carriage return.\<close>

definition is_ascii_whitespace_byte :: "byte \<Rightarrow> bool" where
  "is_ascii_whitespace_byte b \<longleftrightarrow> b \<in> {32, 9, 10, 12, 13}"

definition is_ascii_whitespace_char :: "char \<Rightarrow> bool" where
  "is_ascii_whitespace_char c \<longleftrightarrow> is_ascii_whitespace_byte (of_char c)"

text \<open>\<open>str::parse::<u16>\<close>: an optional plus sign, then at least one decimal digit, below \<open>2 ^ 16\<close>.\<close>

definition digit_val :: "char \<Rightarrow> nat" where
  "digit_val c = of_char c - 48"

definition dec_val :: "string \<Rightarrow> nat" where
  "dec_val s = foldl (\<lambda>a c. a * 10 + digit_val c) 0 s"

definition parse_unsigned :: "nat \<Rightarrow> string \<Rightarrow> nat option" where
  "parse_unsigned bound s =
     (let d = (case s of [] \<Rightarrow> [] | c # cs \<Rightarrow> if c = CHR ''+'' then cs else s)
      in if d \<noteq> [] \<and> list_all is_ascii_digit d \<and> dec_val d < bound then Some (dec_val d) else None)"

definition parse_u16 :: "string \<Rightarrow> nat option" where
  "parse_u16 s = parse_unsigned (2 ^ 16) s"

definition parse_u8 :: "string \<Rightarrow> nat option" where
  "parse_u8 s = parse_unsigned (2 ^ 8) s"

fun show_nat :: "nat \<Rightarrow> string" where
  "show_nat n = (if n < 10 then [char_of (48 + n)] else show_nat (n div 10) @ [char_of (48 + n mod 10)])"

declare show_nat.simps [simp del]

text \<open>\<open>std::str::from_utf8\<close>: well-formed UTF-8, with no overlong form and no surrogate.\<close>

definition cont_byte :: "byte \<Rightarrow> bool" where
  "cont_byte b \<longleftrightarrow> 128 \<le> b \<and> b < 192"

fun utf8_valid :: "bytes \<Rightarrow> bool" where
  "utf8_valid [] = True"
| "utf8_valid (b # bs) =
     (if b < 128 then utf8_valid bs
      else (case bs of
        [] \<Rightarrow> False
      | c # cs \<Rightarrow>
          (if 194 \<le> b \<and> b < 224 then cont_byte c \<and> utf8_valid cs
           else (case cs of
             [] \<Rightarrow> False
           | d # ds \<Rightarrow>
               (if 224 \<le> b \<and> b < 240
                then cont_byte c \<and> cont_byte d \<and> (b = 224 \<longrightarrow> 160 \<le> c) \<and> (b = 237 \<longrightarrow> c < 160)
                     \<and> utf8_valid ds
                else (case ds of
                  [] \<Rightarrow> False
                | e # es \<Rightarrow>
                    240 \<le> b \<and> b < 245 \<and> cont_byte c \<and> cont_byte d \<and> cont_byte e
                    \<and> (b = 240 \<longrightarrow> 144 \<le> c) \<and> (b = 244 \<longrightarrow> c < 144) \<and> utf8_valid es))))))"

section \<open>Lemmas: results and saturating arithmetic\<close>

lemmas result_splits [guard_splits] = result.splits poll.splits

lemma rbind_Ok_iff: "rbind r f = Ok b \<longleftrightarrow> (\<exists>a. r = Ok a \<and> f a = Ok b)"
  by (cases r) auto

lemma and_then_Ok_iff: "and_then m f = Some (Ok b) \<longleftrightarrow> (\<exists>a. m = Some (Ok a) \<and> f a = Some (Ok b))"
  by (cases "(m, f)" rule: and_then.cases) auto

lemma map_err_Ok_iff [simp]: "map_err f r = Ok a \<longleftrightarrow> r = Ok a"
  by (cases r) auto

lemma ok_or_Ok_iff [simp]: "ok_or x e = Ok a \<longleftrightarrow> x = Some a"
  by (cases x) auto

lemma unat_saturating_sub: "unat (saturating_sub a b) = unat a - unat b"
  by (auto simp: saturating_sub_def word_less_nat_alt unat_sub_if')

lemma unat_saturating_add: "unat (saturating_add a b) = min (unat a + unat b) (2 ^ 64 - 1)"
proof (cases "unat a + unat b < 2 ^ 64")
  case True
  then show ?thesis by (simp add: saturating_add_def unat_word_ariths)
next
  case False
  moreover have "unat (- 1 :: u64) = 2 ^ 64 - 1"
    by (simp add: unsigned_minus_1_eq_mask mask_eq_exp_minus_1)
  ultimately show ?thesis by (simp add: saturating_add_def)
qed

section \<open>Lemmas: big-endian integers\<close>

lemma length_be_encode [simp]: "length (be_encode k n) = k"
  by (induction k arbitrary: n) auto

lemma be_encode_numeral:
  "be_encode (numeral k) n = be_encode (pred_numeral k) (n div 256) @ [of_nat n]"
  using be_encode.simps(2) [of "pred_numeral k" n] by (simp only: numeral_eq_Suc)

lemma be_decode_snoc [simp]: "be_decode (bs @ [b]) = be_decode bs * 256 + unat b"
  by (simp add: be_decode_def)

lemma be_decode_Nil [simp]: "be_decode [] = 0"
  by (simp add: be_decode_def)

lemma be_decode_bound: "be_decode bs < 256 ^ length bs"
proof (induction bs rule: rev_induct)
  case Nil
  then show ?case by simp
next
  case (snoc b bs)
  have "unat b < 256" using unsigned_less [of b] by simp
  with snoc have "be_decode bs * 256 + unat b < (be_decode bs + 1) * 256" by simp
  also have "\<dots> \<le> 256 ^ length bs * 256" using snoc by (intro mult_le_mono) auto
  finally show ?case by (simp add: mult.commute)
qed

lemma be_decode_encode: "be_decode (be_encode k n) = n mod 256 ^ k"
proof (induction k arbitrary: n)
  case 0
  then show ?case by simp
next
  case (Suc k)
  have "unat (of_nat n :: byte) = n mod 256"
    by (simp add: unat_of_nat)
  with Suc show ?case
    by (simp add: mod_mult2_eq mult.commute)
qed

lemma be_encode_decode: "be_encode (length bs) (be_decode bs) = bs"
proof (induction bs rule: rev_induct)
  case Nil
  then show ?case by simp
next
  case (snoc b bs)
  have "unat b < 256" using unsigned_less [of b] by simp
  then have d: "(be_decode bs * 256 + unat b) div 256 = be_decode bs" by simp
  have "of_nat (be_decode bs * 256 + unat b) = b"
  proof -
    have "(256 :: byte) = 0" by simp
    then show ?thesis by (simp only: of_nat_add of_nat_mult of_nat_numeral) simp
  qed
  with snoc d show ?case by simp
qed

lemma be_encode_Cons: "be_encode (Suc k) n = of_nat (n div 256 ^ k) # be_encode k n"
proof (induction k arbitrary: n)
  case 0
  then show ?case by simp
next
  case (Suc k)
  have "be_encode (Suc (Suc k)) n = be_encode (Suc k) (n div 256) @ [of_nat n]" by simp
  also have "\<dots> = (of_nat (n div 256 div 256 ^ k) # be_encode k (n div 256)) @ [of_nat n]"
    by (simp only: Suc)
  finally show ?case by (simp add: div_mult2_eq)
qed

lemma length_u16_to_be [simp]: "length (u16_to_be w) = 2"
  by (simp add: u16_to_be_def)

lemma length_u32_to_be [simp]: "length (u32_to_be w) = 4"
  by (simp add: u32_to_be_def)

lemma length_u64_to_be [simp]: "length (u64_to_be w) = 8"
  by (simp add: u64_to_be_def)

lemma u16_from_to_be [simp]: "u16_from_be (u16_to_be w) = w"
proof -
  have "unat w < 2 ^ 16" using unsigned_less [of w] by simp
  then show ?thesis by (simp add: u16_from_be_def u16_to_be_def be_decode_encode)
qed

lemma u64_from_to_be [simp]: "u64_from_be (u64_to_be w) = w"
proof -
  have "unat w < 2 ^ 64" using unsigned_less [of w] by simp
  then show ?thesis by (simp add: u64_from_be_def u64_to_be_def be_decode_encode)
qed

lemma unat_u16_from_be: "length bs = 2 \<Longrightarrow> unat (u16_from_be bs) = be_decode bs"
  using be_decode_bound [of bs] by (simp add: u16_from_be_def unat_of_nat)

lemma u16_to_from_be: "length bs = 2 \<Longrightarrow> u16_to_be (u16_from_be bs) = bs"
  using be_encode_decode [of bs] unat_u16_from_be [of bs] by (simp add: u16_to_be_def)

lemma u64_to_from_be:
  assumes "length bs = 8"
  shows "u64_to_be (u64_from_be bs) = bs"
proof -
  have "be_decode bs < 2 ^ 64" using be_decode_bound [of bs] assms by simp
  then have "unat (u64_from_be bs) = be_decode bs" by (simp add: u64_from_be_def unat_of_nat)
  then show ?thesis using be_encode_decode [of bs] assms by (simp add: u64_to_be_def)
qed

section \<open>Lemmas: searching and trimming\<close>

lemma memchr_None_iff [simp]: "memchr c xs = None \<longleftrightarrow> c \<notin> set xs"
  by (induction xs) auto

lemma memchr_SomeD:
  "memchr c xs = Some i \<Longrightarrow> i < length xs \<and> xs ! i = c \<and> c \<notin> set (take i xs)"
proof (induction xs arbitrary: i)
  case Nil
  then show ?case by simp
next
  case (Cons x xs)
  then show ?case by (cases "x = c") auto
qed

lemma memchr_append_notin: "c \<notin> set xs \<Longrightarrow> memchr c (xs @ c # ys) = Some (length xs)"
  by (induction xs) auto

lemma split_once_append: "c \<notin> set xs \<Longrightarrow> split_once c (xs @ c # ys) = Some (xs, ys)"
  by (simp add: split_once_def memchr_append_notin)

lemma split_once_SomeD:
  "split_once c xs = Some (l, r) \<Longrightarrow> xs = l @ c # r \<and> c \<notin> set l"
  by (auto simp: split_once_def dest!: memchr_SomeD intro: id_take_nth_drop)

lemma split_once_None_iff: "split_once c xs = None \<longleftrightarrow> c \<notin> set xs"
  by (simp add: split_once_def)

lemma rsplit_once_append: "c \<notin> set ys \<Longrightarrow> rsplit_once c (xs @ c # ys) = Some (xs, ys)"
  by (simp add: rsplit_once_def split_once_append)

lemma rsplit_once_SomeD:
  assumes "rsplit_once c xs = Some (l, r)"
  shows "xs = l @ c # r \<and> c \<notin> set r"
proof -
  from assms have "split_once c (rev xs) = Some (rev r, rev l)"
    by (auto simp: rsplit_once_def)
  then have "rev xs = rev r @ c # rev l" and "c \<notin> set (rev r)"
    by (auto dest: split_once_SomeD)
  then show ?thesis by (metis rev.simps(2) rev_append rev_rev_ident append.assoc append_Cons append_Nil set_rev)
qed

lemma strip_prefix_append [simp]: "strip_prefix p (p @ xs) = Some xs"
  by (simp add: strip_prefix_def)

lemma strip_prefix_SomeD: "strip_prefix p xs = Some ys \<Longrightarrow> xs = p @ ys"
  by (metis append_take_drop_id option.distinct(1) option.inject strip_prefix_def)

lemma strip_suffix_append [simp]: "strip_suffix s (xs @ s) = Some xs"
  by (simp add: strip_suffix_def)

lemma strip_suffix_SomeD: "strip_suffix s xs = Some ys \<Longrightarrow> xs = ys @ s"
  by (metis append_take_drop_id option.distinct(1) option.inject strip_suffix_def)

section \<open>Lemmas: text\<close>

lemma of_char_char_of_byte [simp]: "of_char (char_of (unat (b :: byte))) = b"
proof -
  have "unat b < 256" using unsigned_less [of b] by simp
  then have "(of_char (char_of (unat b)) :: nat) = unat b" by simp
  then have "of_nat (of_char (char_of (unat b))) = b" by simp
  then show ?thesis by (simp only: of_nat_of_char)
qed

lemma as_bytes_bytes_to_str [simp]: "as_bytes (bytes_to_str bs) = bs"
  by (simp add: as_bytes_def bytes_to_str_def o_def)

lemma length_as_bytes [simp]: "length (as_bytes s) = length s"
  by (simp add: as_bytes_def)

lemma length_bytes_to_str [simp]: "length (bytes_to_str bs) = length bs"
  by (simp add: bytes_to_str_def)

lemma unat_of_char_byte: "unat (of_char c :: byte) = of_char c"
proof -
  have "(of_char c :: nat) < 256" by (cases c) (simp split: bool.splits)
  moreover have "(of_char c :: byte) = of_nat (of_char c)" by (simp only: of_nat_of_char)
  ultimately show ?thesis by (simp only: unat_of_nat) simp
qed

lemma bytes_to_str_as_bytes [simp]: "bytes_to_str (as_bytes s) = s"
  by (simp add: as_bytes_def bytes_to_str_def o_def unat_of_char_byte)

section \<open>Lemmas: lists\<close>

lemma take_take_drop: "take n xs @ take m (drop n xs) = take (n + m) xs"
  by (simp add: take_add)

lemma append_split_le: "xs @ ys = us @ vs \<Longrightarrow> length xs \<le> length us \<Longrightarrow> \<exists>b. us = xs @ b \<and> ys = b @ vs"
  by (auto simp: append_eq_append_conv2)

lemma sum_list_length_concat: "length (concat xss) = sum_list (map length xss)"
  by (simp add: length_concat)

lemma swap_remove_mset:
  assumes "i < length xs"
  shows "add_mset (fst (swap_remove i xs)) (mset (snd (swap_remove i xs))) = mset xs"
proof (cases xs rule: rev_cases)
  case Nil
  then show ?thesis using assms by simp
next
  case (snoc ys y)
  show ?thesis
  proof (cases "i = length ys")
    case True
    then show ?thesis using snoc by (simp add: swap_remove_def)
  next
    case False
    then have i: "i < length ys" using assms snoc by simp
    then have "add_mset (ys ! i) (mset (ys[i := y])) = add_mset y (mset ys)"
      by (simp add: mset_update)
    then show ?thesis using snoc i by (simp add: swap_remove_def list_update_append nth_append butlast_append)
  qed
qed

lemma swap_remove_length: "i < length xs \<Longrightarrow> length (snd (swap_remove i xs)) = length xs - 1"
  by (simp add: swap_remove_def)

lemma fst_set_map_of: "k \<in> fst ` set al \<longleftrightarrow> map_of al k \<noteq> None"
  by (auto simp: map_of_eq_None_iff)

end
