(* ===== verification/Interfaces.thy ===== *)
theory Interfaces
  imports Prelude
begin

text \<open>
  The contracts that several components share, as locales with the lemmas every client gets from
  them. Each is interpreted on the definitions of the components that provide it:
  \<^item> \<open>prefix_codec\<close>: a self-delimiting encoding (HTTP/3 varints, QPACK integers and strings, frame
    headers of the tunnel);
  \<^item> \<open>retain_store\<close>: the pruning passes of the janitors over the shared maps;
  \<^item> \<open>partial_writer\<close>: bookkeeping of a writer that accepts fewer bytes than offered;
  \<^item> \<open>invariant_machine\<close> and \<open>bounded_machine\<close>: components driven by a list of events.
\<close>

section \<open>Self-delimiting encodings\<close>

locale prefix_codec =
  fixes valid :: "'a \<Rightarrow> bool"
    and put :: "'a \<Rightarrow> bytes"
    and get :: "bytes \<Rightarrow> ('a \<times> nat) option"
  assumes get_put: "valid x \<Longrightarrow> get (put x @ rest) = Some (x, length (put x))"
begin

lemma put_prefix_free:
  assumes "valid x" and "valid y" and "put x @ r = put y @ s"
  shows "x = y \<and> r = s"
proof -
  have "Some (x, length (put x)) = Some (y, length (put y))"
    using get_put [OF assms(1), of r] get_put [OF assms(2), of s] assms(3) by simp
  then have "x = y" by simp
  with assms(3) show ?thesis by simp
qed

lemma put_nonempty:
  assumes "valid x" and "valid y" and "x \<noteq> y"
  shows "put x \<noteq> []"
  using put_prefix_free [OF assms(1,2), of "put y" "[]"] assms(3) by auto

lemma get_put_exact: "valid x \<Longrightarrow> get (put x) = Some (x, length (put x))"
  using get_put [of x "[]"] by simp

lemma get_second:
  "valid y \<Longrightarrow> get (drop (length (put x)) (put x @ put y @ rest)) = Some (y, length (put y))"
  by (simp add: get_put)

end

section \<open>Pruning passes over a shared map\<close>

locale retain_store =
  fixes prune :: "'p \<Rightarrow> ('k \<times> 'v) list \<Rightarrow> ('k \<times> 'v) list \<times> nat"
    and keep :: "'p \<Rightarrow> 'v \<Rightarrow> bool"
  assumes prune_entries: "set (fst (prune p m)) = {(k, v) \<in> set m. keep p v}"
    and prune_distinct: "distinct (map fst m) \<Longrightarrow> distinct (map fst (fst (prune p m)))"
    and prune_count: "snd (prune p m) + length (fst (prune p m)) = length m"
begin

lemma prune_lookup:
  assumes "distinct (map fst m)"
  shows "map_of (fst (prune p m)) k = Some v \<longleftrightarrow> map_of m k = Some v \<and> keep p v"
  using prune_entries [of p m] prune_distinct [OF assms, of p] assms by (auto simp: map_of_eq_Some_iff)

lemma prune_keeps:
  assumes "distinct (map fst m)" and "map_of m k = Some v" and "keep p v"
  shows "map_of (fst (prune p m)) k = Some v"
  using prune_lookup [OF assms(1)] assms(2,3) by simp

lemma prune_adds_nothing:
  assumes "distinct (map fst m)" and "map_of m k = None"
  shows "map_of (fst (prune p m)) k = None"
proof (cases "map_of (fst (prune p m)) k")
  case (Some v)
  then show ?thesis using prune_lookup [OF assms(1)] assms(2) by simp
qed simp

lemma prune_removes:
  assumes "distinct (map fst m)" and "map_of m k = Some v" and "\<not> keep p v"
  shows "map_of (fst (prune p m)) k = None"
proof (cases "map_of (fst (prune p m)) k")
  case (Some w)
  then show ?thesis using prune_lookup [OF assms(1), of p k w] assms(2,3) by simp
qed simp

lemma prune_shrinks: "length (fst (prune p m)) \<le> length m"
  using prune_count [of p m] by simp

end

section \<open>Writers that accept part of what they are offered\<close>

locale partial_writer =
  fixes pending :: "'s \<Rightarrow> bytes"
    and advance :: "nat \<Rightarrow> 's \<Rightarrow> 's"
    and inv :: "'s \<Rightarrow> bool"
  assumes pending_advance: "inv s \<Longrightarrow> n \<le> length (pending s) \<Longrightarrow> pending (advance n s) = drop n (pending s)"
    and inv_advance: "inv s \<Longrightarrow> n \<le> length (pending s) \<Longrightarrow> inv (advance n s)"
begin

lemma advance_split:
  assumes "inv s" and "n \<le> length (pending s)"
  shows "pending s = take n (pending s) @ pending (advance n s)"
  by (simp add: pending_advance [OF assms])

lemma advance_run:
  "inv s \<Longrightarrow> sum_list ns \<le> length (pending s) \<Longrightarrow>
     inv (fold advance ns s) \<and> pending (fold advance ns s) = drop (sum_list ns) (pending s)"
proof (induction ns arbitrary: s)
  case Nil
  then show ?case by simp
next
  case (Cons n ns)
  then have "inv (advance n s)" and "pending (advance n s) = drop n (pending s)"
    by (auto simp: pending_advance inv_advance)
  with Cons.IH [of "advance n s"] Cons.prems show ?case by (simp add: add.commute)
qed

text \<open>However the bytes are accepted, once all of them are gone nothing is pending.\<close>

lemma advance_all:
  "inv s \<Longrightarrow> sum_list ns = length (pending s) \<Longrightarrow> pending (fold advance ns s) = []"
  using advance_run [of s ns] by simp

end

section \<open>Event-driven components\<close>

locale invariant_machine =
  fixes step :: "'e \<Rightarrow> 's \<Rightarrow> 's"
    and inv :: "'s \<Rightarrow> bool"
  assumes inv_step: "inv s \<Longrightarrow> inv (step e s)"
begin

lemma inv_run: "inv s \<Longrightarrow> inv (fold step es s)"
  by (induction es arbitrary: s) (auto simp: inv_step)

end

locale bounded_machine = invariant_machine +
  fixes load :: "'s \<Rightarrow> nat"
    and limit :: nat
  assumes inv_load: "inv s \<Longrightarrow> load s \<le> limit"
begin

lemma load_run: "inv s \<Longrightarrow> load (fold step es s) \<le> limit"
  by (rule inv_load) (rule inv_run)

end

end
