(* ===== verification/H3.thy ===== *)
theory H3
  imports Interfaces
begin

text \<open>
  The HTTP/3 and QPACK wire format of \<^verbatim>\<open>src/src/warp/h3.rs\<close>: variable-length integers, frame headers,
  prefixed integers and strings, the SETTINGS and CONNECT field sections that the client sends, and
  the decoder for the \<open>:status\<close> of the response. Lemmas: round trips of the three encodings
  (through the \<open>prefix_codec\<close> contract), the frame header round trip, minimality and bounds of the
  encodings, and what \<open>decode_status\<close> accepts.
\<close>

section \<open>Constants\<close>

definition FRAME_DATA :: u64 where "FRAME_DATA = 0"
definition FRAME_HEADERS :: u64 where "FRAME_HEADERS = 1"
definition FRAME_SETTINGS :: u64 where "FRAME_SETTINGS = 4"

definition STREAM_CONTROL :: u64 where "STREAM_CONTROL = 0"
definition STREAM_QPACK_ENCODER :: u64 where "STREAM_QPACK_ENCODER = 2"
definition STREAM_QPACK_DECODER :: u64 where "STREAM_QPACK_DECODER = 3"

definition SETTINGS_QPACK_MAX_TABLE_CAPACITY :: u64 where "SETTINGS_QPACK_MAX_TABLE_CAPACITY = 1"
definition SETTINGS_MAX_FIELD_SECTION_SIZE :: u64 where "SETTINGS_MAX_FIELD_SECTION_SIZE = 6"
definition SETTINGS_QPACK_BLOCKED_STREAMS :: u64 where "SETTINGS_QPACK_BLOCKED_STREAMS = 7"

definition INDEXED_STATIC :: byte where "INDEXED_STATIC = 0xC0"
definition STATIC_METHOD_CONNECT :: byte where "STATIC_METHOD_CONNECT = 15"
definition STATIC_AUTHORITY :: byte where "STATIC_AUTHORITY = 0"

definition STATIC_STATUS_FIRST :: u64 where "STATIC_STATUS_FIRST = 24"
definition STATIC_STATUS_VALUES :: "nat list" where
  "STATIC_STATUS_VALUES = [103, 200, 204, 206, 304, 400, 404, 500]"

definition MAX_FIELD_SECTION :: nat where "MAX_FIELD_SECTION = 16 * 1024"

lemmas h3_consts [wire_simps] =
  FRAME_DATA_def FRAME_HEADERS_def FRAME_SETTINGS_def STREAM_CONTROL_def STREAM_QPACK_ENCODER_def
  STREAM_QPACK_DECODER_def SETTINGS_QPACK_MAX_TABLE_CAPACITY_def SETTINGS_MAX_FIELD_SECTION_SIZE_def
  SETTINGS_QPACK_BLOCKED_STREAMS_def INDEXED_STATIC_def STATIC_METHOD_CONNECT_def
  STATIC_AUTHORITY_def STATIC_STATUS_FIRST_def STATIC_STATUS_VALUES_def MAX_FIELD_SECTION_def

section \<open>Variable-length integers\<close>

definition varint_len :: "u64 \<Rightarrow> nat" where
  "varint_len value =
     (if value < push_bit 6 1 then 1
      else if value < push_bit 14 1 then 2
      else if value < push_bit 30 1 then 4
      else 8)"

definition put_varint :: "bytes \<Rightarrow> u64 \<Rightarrow> bytes" where
  "put_varint out value =
     (let len = varint_len value in
      if len = 1 then out @ [ucast value]
      else if len = 2 then out @ u16_to_be (0x4000 OR ucast value)
      else if len = 4 then out @ u32_to_be (0x80000000 OR ucast value)
      else out @ u64_to_be (0xC000000000000000 OR value))"

text \<open>\<open>put_varint_slice\<close> overwrites the front of the slice and returns how many bytes it wrote;
  a slice that is too short panics (\<open>None\<close>).\<close>

definition overwrite :: "bytes \<Rightarrow> bytes \<Rightarrow> bytes option" where
  "overwrite out bs = (if length bs \<le> length out then Some (bs @ drop (length bs) out) else None)"

definition put_varint_slice :: "bytes \<Rightarrow> u64 \<Rightarrow> (bytes \<times> nat) option" where
  "put_varint_slice out value =
     (let len = varint_len value in
      if len = 1 then map_option (\<lambda>o'. (o', 1)) (overwrite out [ucast value])
      else if len = 2 then map_option (\<lambda>o'. (o', 2)) (overwrite out (u16_to_be (0x4000 OR ucast value)))
      else if len = 4 then map_option (\<lambda>o'. (o', 4)) (overwrite out (u32_to_be (0x80000000 OR ucast value)))
      else map_option (\<lambda>o'. (o', 8)) (overwrite out (u64_to_be (0xC000000000000000 OR value))))"

definition get_varint :: "bytes \<Rightarrow> (u64 \<times> nat) option" where
  "get_varint buf =
     (case buf of
        [] \<Rightarrow> None
      | first # _ \<Rightarrow>
          (let prefix = drop_bit 6 first; len = (2::nat) ^ unat prefix in
           if length buf < len then None
           else Some (foldl (\<lambda>value b. push_bit 8 value OR ucast b) (ucast (first AND 0x3F))
                        (take (len - 1) (drop 1 buf)), len)))"

definition get_frame_header :: "bytes \<Rightarrow> (u64 \<times> u64 \<times> nat) option" where
  "get_frame_header buf =
     (case get_varint buf of
        None \<Rightarrow> None
      | Some (ty, n) \<Rightarrow>
          (case get_varint (drop n buf) of
             None \<Rightarrow> None
           | Some (len, m) \<Rightarrow> Some (ty, len, n + m)))"

section \<open>Prefixed integers and strings\<close>

text \<open>The continuation bytes that \<open>put_int\<close> emits after the prefix is full.\<close>

function put_int_tail :: "u64 \<Rightarrow> bytes" where
  "put_int_tail value =
     (if value \<ge> 128 then ((ucast value AND 0x7F) OR 0x80) # put_int_tail (drop_bit 7 value)
      else [ucast value])"
  by pat_completeness auto
termination
proof (relation "measure unat", goal_cases)
  case 1
  then show ?case by simp
next
  case (2 v)
  then have "128 \<le> unat v" by (simp add: word_le_nat_alt)
  then show ?case by (simp add: drop_bit_eq_div unat_div)
qed

declare put_int_tail.simps [simp del]

definition put_int :: "bytes \<Rightarrow> byte \<Rightarrow> nat \<Rightarrow> u64 \<Rightarrow> bytes" where
  "put_int out first prefix_bits value =
     (let mask = (ucast ((push_bit prefix_bits 1 :: u16) - 1) :: u64) in
      if value < mask then out @ [first OR ucast value]
      else out @ [first OR ucast mask] @ put_int_tail (value - mask))"

text \<open>
  The loop of \<open>get_int\<close> from index \<open>idx\<close> with the current \<open>shift\<close>; \<open>checked_add\<close> on \<open>u64\<close> is the
  comparison with \<open>2 ^ 64\<close>. It stops because every iteration consumes a byte.
\<close>

fun get_int_loop :: "bytes \<Rightarrow> u64 \<Rightarrow> nat \<Rightarrow> nat \<Rightarrow> (u64 \<times> nat) option" where
  "get_int_loop [] value shift idx = None"
| "get_int_loop (b # rest) value shift idx =
     (let add = push_bit shift (ucast (b AND 0x7F) :: u64) in
      if unat value + unat add < 2 ^ 64 then
        (let value' = value + add; idx' = idx + 1 in
         if b AND 0x80 = 0 then Some (value', idx')
         else if shift + 7 > 56 then None
         else get_int_loop rest value' (shift + 7) idx')
      else None)"

definition get_int :: "bytes \<Rightarrow> nat \<Rightarrow> (u64 \<times> nat) option" where
  "get_int buf prefix_bits =
     (case buf of
        [] \<Rightarrow> None
      | first # rest \<Rightarrow>
          (let mask = (ucast ((push_bit prefix_bits 1 :: u16) - 1) :: byte);
               value = (ucast (first AND mask) :: u64) in
           if value < ucast mask then Some (value, 1)
           else get_int_loop rest value 0 1))"

definition put_string :: "bytes \<Rightarrow> bytes \<Rightarrow> bytes" where
  "put_string out value = put_int out 0 7 (of_nat (length value)) @ value"

text \<open>\<open>get_string\<close> returns the slice, the end offset and the Huffman flag.\<close>

definition get_string :: "bytes \<Rightarrow> (bytes \<times> nat \<times> bool) option" where
  "get_string buf =
     (case buf of
        [] \<Rightarrow> None
      | first # _ \<Rightarrow>
          (let huffman = (first AND 0x80 \<noteq> 0) in
           case get_int buf 7 of
             None \<Rightarrow> None
           | Some (len, used) \<Rightarrow>
               if used + unat len < 2 ^ 64 then
                 (let end = used + unat len in
                  if end \<le> length buf then Some (take (unat len) (drop used buf), end, huffman)
                  else None)
               else None))"

section \<open>What the client sends\<close>

definition control_stream_bytes :: bytes where
  "control_stream_bytes =
     (let out = put_varint [] STREAM_CONTROL;
          out = put_varint out FRAME_SETTINGS;
          settings = put_varint [] SETTINGS_QPACK_MAX_TABLE_CAPACITY;
          settings = put_varint settings 0;
          settings = put_varint settings SETTINGS_QPACK_BLOCKED_STREAMS;
          settings = put_varint settings 0;
          settings = put_varint settings SETTINGS_MAX_FIELD_SECTION_SIZE;
          settings = put_varint settings (of_nat MAX_FIELD_SECTION);
          out = put_varint out (of_nat (length settings))
      in out @ settings)"

definition encode_connect_headers :: "string \<Rightarrow> bytes" where
  "encode_connect_headers authority =
     (let out = [0, 0, INDEXED_STATIC OR STATIC_METHOD_CONNECT];
          out = put_int out 0x50 4 (ucast STATIC_AUTHORITY)
      in put_string out (as_bytes authority))"

section \<open>Decoding the response status\<close>

definition static_status :: "u64 \<Rightarrow> nat option" where
  "static_status index =
     (if index < STATIC_STATUS_FIRST then None
      else (let offset = unat (index - STATIC_STATUS_FIRST) in
            if offset < length STATIC_STATUS_VALUES then Some (STATIC_STATUS_VALUES ! offset) else None))"

definition byte_is_digit :: "byte \<Rightarrow> bool" where
  "byte_is_digit b \<longleftrightarrow> 48 \<le> b \<and> b \<le> 57"

definition parse_status_code :: "bytes \<Rightarrow> (nat, string) result" where
  "parse_status_code value =
     (if length value \<noteq> 3 \<or> \<not> list_all byte_is_digit value then Err ''malformed :status value''
      else (let code = foldl (\<lambda>code b. code * 10 + unat (b - 48)) 0 value in
            if \<not> (100 \<le> code \<and> code < 600) then Err '':status out of range'' else Ok code))"

text \<open>
  The field loop of \<open>decode_status\<close> on the bytes from \<open>offset\<close> on. Every branch that continues
  consumes at least one byte, which is the termination argument.
\<close>

lemma get_int_loop_used:
  "get_int_loop rest val shift idx = Some (v, n) \<Longrightarrow> idx < n \<and> n \<le> idx + length rest"
  by (induction rest val shift idx arbitrary: v n rule: get_int_loop.induct)
    (fastforce simp: Let_def split: if_splits)+

lemma get_int_used: "get_int buf k = Some (v, n) \<Longrightarrow> 0 < n \<and> n \<le> length buf"
  by (cases buf) (auto simp: get_int_def Let_def split: if_splits dest: get_int_loop_used)

lemma get_string_used: "get_string buf = Some (s, e, h) \<Longrightarrow> 0 < e \<and> e \<le> length buf"
  by (cases buf) (auto simp: get_string_def Let_def split: if_splits option.splits dest: get_int_used)

function status_fields :: "bytes \<Rightarrow> (nat, string) result" where
  "status_fields block =
     (case block of
        [] \<Rightarrow> Err '':status not found in response''
      | first # _ \<Rightarrow>
          if first AND 0x80 \<noteq> 0 then
            (case get_int block 6 of
               None \<Rightarrow> Err ''truncated indexed field''
             | Some (index, used) \<Rightarrow>
                 if first AND 0x40 = 0 then Err ''dynamic table reference''
                 else (case static_status index of
                         Some code \<Rightarrow> Ok code
                       | None \<Rightarrow> status_fields (drop used block)))
          else if first AND 0x40 \<noteq> 0 then
            (case get_int block 4 of
               None \<Rightarrow> Err ''truncated field name''
             | Some (name_index, used) \<Rightarrow>
                 (case get_string (drop used block) of
                    None \<Rightarrow> Err ''truncated field value''
                  | Some (value, used', huffman) \<Rightarrow>
                      if first AND 0x10 \<noteq> 0 \<and> static_status name_index \<noteq> None then
                        (if huffman then Err ''huffman-coded :status'' else parse_status_code value)
                      else status_fields (drop (used + used') block)))
          else if first AND 0x20 \<noteq> 0 then
            (case get_int block 3 of
               None \<Rightarrow> Err ''truncated literal field name''
             | Some (name_len, used) \<Rightarrow>
                 if \<not> used + unat name_len < 2 ^ 64 then Err ''literal field name overflow''
                 else if length block < used + unat name_len then Err ''truncated literal field name''
                 else (let name_end = used + unat name_len;
                           name = take (unat name_len) (drop used block) in
                       case get_string (drop name_end block) of
                         None \<Rightarrow> Err ''truncated literal field value''
                       | Some (value, used', value_huffman) \<Rightarrow>
                           if first AND 0x08 = 0 \<and> name = as_bytes '':status'' then
                             (if value_huffman then Err ''huffman-coded :status'' else parse_status_code value)
                           else status_fields (drop (name_end + used') block)))
          else Err ''post-base index'')"
  by pat_completeness auto
termination
  by (relation "measure length") (auto dest!: get_int_used get_string_used simp: Let_def)

declare status_fields.simps [simp del]

definition decode_status :: "bytes \<Rightarrow> (nat, string) result" where
  "decode_status block =
     (case get_int block 8 of
        None \<Rightarrow> Err ''truncated field section prefix''
      | Some (insert_count, offset) \<Rightarrow>
          if insert_count \<noteq> 0 then Err ''peer referenced the QPACK dynamic table''
          else (case get_int (drop offset block) 7 of
                  None \<Rightarrow> Err ''truncated delta base''
                | Some (_, used) \<Rightarrow> status_fields (drop (offset + used) block)))"

section \<open>Lemmas: variable-length integers\<close>

lemma push_or_add: "push_bit 8 (v :: u64) OR ucast (b :: byte) = v * 256 + ucast b"
proof -
  have "push_bit 8 v AND (ucast b :: u64) = 0"
    by (rule bit_eqI) (auto simp: bit_simps dest: bit_imp_le_length)
  then have "push_bit 8 v OR (ucast b :: u64) = push_bit 8 v + ucast b"
    using word_plus_and_or [of "push_bit 8 v" "ucast b"] by simp
  then show ?thesis by (simp add: push_bit_eq_mult)
qed

lemma fold_be: "foldl (\<lambda>v b. push_bit 8 v OR ucast b) (init :: u64) bs
   = of_nat (unat init * 256 ^ length bs + be_decode bs)"
proof (induction bs rule: rev_induct)
  case Nil
  then show ?case by simp
next
  case (snoc b bs)
  then show ?case by (simp add: push_or_add algebra_simps)
qed

lemma or_disjoint_low:
  fixes c w :: "'a::len word"
  assumes "unat w < 2 ^ n" and "take_bit n c = 0"
  shows "unat (c OR w) = unat c + unat w"
proof -
  have "w = take_bit n w" using assms(1)
    by (metis take_bit_nat_eq_self unsigned_take_bit_eq word_unat_eq_iff)
  then have "c AND w = c AND take_bit n w" by simp
  also have "\<dots> = take_bit n c AND w" by (simp add: bit_eq_iff bit_simps) blast
  finally have z: "c AND w = 0" using assms(2) by simp
  then have "c OR w = c + w" using word_plus_and_or [of c w] by simp
  moreover have "unat (c OR w) = unat c OR unat w" by (simp add: unsigned_or_eq)
  moreover have "unat c AND unat w = 0" using z by (metis unsigned_and_eq unsigned_0)
  ultimately show ?thesis by (simp add: disjunctive_add_eq_or)
qed

lemma drop_bit_6_byte: "unat (drop_bit 6 (b :: byte)) = unat b div 64"
  by (simp add: drop_bit_eq_div unat_div)

lemma low_6_byte: "unat (b AND 0x3F :: byte) = unat b mod 64"
proof -
  have "(0x3F :: byte) = mask 6" by (simp add: mask_eq_exp_minus_1)
  then have "b AND 0x3F = take_bit 6 b" by (simp add: take_bit_eq_mask)
  then show ?thesis by (simp add: take_bit_eq_mod unat_mod)
qed

lemma get_varint_be:
  assumes v: "v < 64 * 256 ^ k" and tag: "tag < 4" and k: "Suc k = 2 ^ tag"
  shows "get_varint (be_encode (Suc k) (tag * (64 * 256 ^ k) + v) @ rest) = Some (of_nat v, Suc k)"
proof -
  let ?n = "tag * (64 * 256 ^ k) + v"
  have hi: "?n div 256 ^ k = tag * 64 + v div 256 ^ k"
    using div_mult_self4 [of "256 ^ k" "tag * 64" v] by (simp add: algebra_simps)
  have lt: "v div 256 ^ k < 64" using v by (simp add: less_mult_imp_div_less mult.commute)
  with hi tag have "?n div 256 ^ k < 256" by simp
  then have first: "unat (of_nat (?n div 256 ^ k) :: byte) = tag * 64 + v div 256 ^ k"
    using hi by (simp only: unat_of_nat) simp
  have pre: "unat (drop_bit 6 (of_nat (?n div 256 ^ k) :: byte)) = tag"
    using lt by (simp only: drop_bit_6_byte first)
  have low: "unat ((of_nat (?n div 256 ^ k) :: byte) AND 0x3F) = v div 256 ^ k"
    using lt by (simp only: low_6_byte first) simp
  have dec: "be_decode (be_encode k ?n) = v mod 256 ^ k"
    by (simp add: be_decode_encode algebra_simps) (metis mod_mult_self2 mult.assoc mult.commute)
  define f1 where "f1 = (of_nat (?n div 256 ^ k) :: byte)"
  have enc: "be_encode (Suc k) ?n = f1 # be_encode k ?n"
    by (simp only: be_encode_Cons f1_def)
  have pre': "2 ^ unat (drop_bit 6 f1) = Suc k" using pre k by (simp only: f1_def)
  have cast: "unat (ucast (f1 AND 0x3F) :: u64) = v div 256 ^ k"
    using low lt unfolding f1_def [symmetric] by (simp add: unsigned_ucast_eq take_bit_eq_mod)
  show ?thesis
    unfolding get_varint_def enc
    by (simp add: pre' fold_be dec cast div_mult_mod_eq del: of_nat_add of_nat_mult)
qed

lemma varint_len_nat:
  "varint_len w = (if unat w < 64 then 1 else if unat w < 2 ^ 14 then 2 else if unat w < 2 ^ 30 then 4 else 8)"
  by (simp add: varint_len_def word_less_nat_alt)

lemma put_varint_be:
  assumes "unat w < 2 ^ 62"
  shows "\<exists>k tag. tag < 4 \<and> Suc k = 2 ^ tag \<and> varint_len w = Suc k \<and> unat w < 64 * 256 ^ k
     \<and> put_varint out w = out @ be_encode (Suc k) (tag * (64 * 256 ^ k) + unat w)"
proof -
  consider "unat w < 64" | "64 \<le> unat w" "unat w < 2 ^ 14" | "2 ^ 14 \<le> unat w" "unat w < 2 ^ 30"
    | "2 ^ 30 \<le> unat w" by linarith
  then show ?thesis
  proof cases
    case 1
    then have "be_encode (Suc 0) (0 * (64 * 256 ^ 0) + unat w) = [ucast w]"
      by (simp add: word_unat_eq_iff unat_of_nat unsigned_ucast_eq take_bit_eq_mod)
    with 1 show ?thesis
      by (intro exI [of _ 0]) (simp add: put_varint_def varint_len_nat)
  next
    case 2
    have "unat (0x4000 OR ucast w :: u16) = 0x4000 + unat (ucast w :: u16)"
      by (subst or_disjoint_low [of _ 14]) (use 2 in \<open>simp_all add: unsigned_ucast_eq take_bit_eq_mod\<close>)
    also have "unat (ucast w :: u16) = unat w" using 2 by (simp add: unsigned_ucast_eq take_bit_eq_mod)
    finally show ?thesis using 2
      by (intro exI [of _ 1]) (simp add: put_varint_def varint_len_nat u16_to_be_def del: One_nat_def be_encode.simps)
  next
    case 3
    have "unat (0x80000000 OR ucast w :: u32) = 0x80000000 + unat (ucast w :: u32)"
      by (subst or_disjoint_low [of _ 30]) (use 3 in \<open>simp_all add: unsigned_ucast_eq take_bit_eq_mod\<close>)
    also have "unat (ucast w :: u32) = unat w" using 3 by (simp add: unsigned_ucast_eq take_bit_eq_mod)
    finally show ?thesis using 3
      by (intro exI [of _ 3] exI [of _ 2]) (simp add: put_varint_def varint_len_nat u32_to_be_def)
  next
    case 4
    have "unat (0xC000000000000000 OR w) = 0xC000000000000000 + unat w"
      by (subst or_disjoint_low [of _ 62]) (use assms in simp_all)
    then show ?thesis using 4 assms
      by (intro exI [of _ 7] exI [of _ 3]) (simp add: put_varint_def varint_len_nat u64_to_be_def)
  qed
qed

lemma get_put_varint:
  assumes "unat w < 2 ^ 62"
  shows "get_varint (put_varint [] w @ rest) = Some (w, length (put_varint [] w))"
proof -
  obtain k tag where *: "tag < 4" "Suc k = 2 ^ tag" "unat w < 64 * 256 ^ k"
      "put_varint [] w = be_encode (Suc k) (tag * (64 * 256 ^ k) + unat w)"
    using put_varint_be [OF assms, of "[]"] unfolding append_Nil by blast
  show ?thesis using get_varint_be [OF *(3,1,2), of rest] unfolding *(4) by simp
qed


section \<open>Lemmas: prefixed integers and strings\<close>

lemma put_varint_append: "put_varint out w = out @ put_varint [] w"
  by (simp add: put_varint_def Let_def)

interpretation varint: prefix_codec "\<lambda>w. unat w < 2 ^ 62" "put_varint []" get_varint
  by unfold_locales (rule get_put_varint)

lemma byte_and_7F: "unat (b AND 0x7F :: byte) = unat b mod 128"
proof -
  have "(0x7F :: byte) = mask 7" by (simp add: mask_eq_exp_minus_1)
  then have "b AND 0x7F = take_bit 7 b" by (simp add: take_bit_eq_mask)
  then show ?thesis by (simp add: take_bit_eq_mod unat_mod)
qed

lemma byte_and_80: "(b AND 0x80 = 0) = (unat (b :: byte) < 128)"
proof -
  have "(b AND 0x80 = 0) = (\<not> bit b 7)"
    using and_exp_eq_0_iff_not_bit [of b 7] by simp
  moreover have "bit b 7 \<longleftrightarrow> odd (unat b div 128)"
    using bit_unsigned_iff [where w = b and n = 7 and ?'a = nat] by (simp add: bit_iff_odd [of "unat b"])
  moreover have "unat b < 256" using unsigned_less [of b] by simp
  then have "unat b div 128 = (if unat b < 128 then 0 else 1)"
    by auto
  then have "odd (unat b div 128) \<longleftrightarrow> \<not> unat b < 128"
    by simp
  ultimately show ?thesis by simp
qed

lemma cont_byte_parts:
  fixes w :: u64
  defines "b \<equiv> (ucast w AND 0x7F) OR 0x80 :: byte"
  shows "unat (b AND 0x7F) = unat w mod 128" and "b AND 0x80 \<noteq> 0"
proof -
  have "b = 0x80 OR (ucast w AND 0x7F)" by (simp add: b_def or.commute)
  then have *: "unat b = 128 + unat (ucast w AND 0x7F :: byte)"
    by (simp only:) (subst or_disjoint_low [of _ 7], simp_all add: byte_and_7F)
  then show "b AND 0x80 \<noteq> 0" by (simp add: byte_and_80)
  from * show "unat (b AND 0x7F) = unat w mod 128"
    by (simp add: byte_and_7F unsigned_ucast_eq take_bit_eq_mod mod_mod_cancel)
qed


lemma unat_push_bit_u64: "unat x * 2 ^ s < 2 ^ 64 \<Longrightarrow> unat (push_bit s (x :: u64)) = unat x * 2 ^ s"
  unfolding unsigned_push_bit_eq by (simp add: take_bit_eq_mod push_bit_eq_mult)

text \<open>The byte that \<open>put_int_tail\<close> writes next, and what reading it back adds to the sum.\<close>

definition tail_byte :: "u64 \<Rightarrow> byte" where
  "tail_byte w = (if 128 \<le> w then (ucast w AND 0x7F) OR 0x80 else ucast w)"

lemma tail_byte_low: "unat (tail_byte w AND 0x7F) = unat w mod 128"
  using cont_byte_parts(1) [of w]
  by (auto simp: tail_byte_def byte_and_7F unsigned_ucast_eq take_bit_eq_mod mod_mod_cancel)

lemma tail_byte_high: "tail_byte w AND 0x80 = 0 \<longleftrightarrow> w < 128"
proof (cases "128 \<le> w")
  case True
  then show ?thesis using cont_byte_parts(2) [of w] by (auto simp: tail_byte_def)
next
  case False
  then have "unat w < 128" by (simp add: word_less_nat_alt not_le)
  then show ?thesis using False by (simp add: tail_byte_def byte_and_80 unsigned_ucast_eq take_bit_eq_mod)
qed

lemma tail_byte_added:
  fixes acc :: u64
  assumes "unat acc + unat w * 2 ^ s < 2 ^ 64"
  shows "push_bit s (ucast (tail_byte w AND 0x7F)) = (of_nat (unat w mod 128 * 2 ^ s) :: u64)"
    and "unat acc + unat (push_bit s (ucast (tail_byte w AND 0x7F)) :: u64) < 2 ^ 64"
    and "unat (acc + push_bit s (ucast (tail_byte w AND 0x7F))) = unat acc + unat w mod 128 * 2 ^ s"
proof -
  have "unat w mod 128 * 2 ^ s \<le> unat w * 2 ^ s" by simp
  with assms have lt: "unat w mod 128 * 2 ^ s < 2 ^ 64" "unat acc + unat w mod 128 * 2 ^ s < 2 ^ 64" by linarith+
  have "unat (ucast (tail_byte w AND 0x7F) :: u64) = unat w mod 128"
    by (simp add: tail_byte_low unsigned_ucast_eq take_bit_eq_mod)
  then have add: "unat (push_bit s (ucast (tail_byte w AND 0x7F)) :: u64) = unat w mod 128 * 2 ^ s"
    using lt(1) by (simp add: unat_push_bit_u64 del: push_bit_eq_mult)
  show "push_bit s (ucast (tail_byte w AND 0x7F)) = (of_nat (unat w mod 128 * 2 ^ s) :: u64)" by (simp only: add [symmetric]) simp
  show "unat acc + unat (push_bit s (ucast (tail_byte w AND 0x7F)) :: u64) < 2 ^ 64" using add lt(2) by simp
  show "unat (acc + push_bit s (ucast (tail_byte w AND 0x7F))) = unat acc + unat w mod 128 * 2 ^ s"
    using lt(2) by (simp add: unat_word_ariths add)
qed

lemma split_low_group: "n mod 128 * 2 ^ s + n div 128 * 2 ^ (s + 7) = n * (2::nat) ^ s"
proof -
  have "m * 2 ^ s + q * 2 ^ (s + 7) = (m + q * 128) * (2::nat) ^ s" for m q
    by (simp add: power_add algebra_simps)
  then show ?thesis by (simp only: mod_div_mult_eq)
qed

lemma get_int_loop_tail:
  assumes "unat w < 2 ^ (63 - s)" and "s \<le> 56" and "7 dvd s" and "unat acc + unat w * 2 ^ s < 2 ^ 64"
  shows "get_int_loop (put_int_tail w @ rest) acc s idx
     = Some (acc + of_nat (unat w * 2 ^ s), idx + length (put_int_tail w))"
  using assms
proof (induction w arbitrary: acc s idx rule: put_int_tail.induct)
  case (1 w)
  let ?x = "push_bit s (ucast (tail_byte w AND 0x7F)) :: u64"
  note byte = tail_byte_added [OF "1.prems"(4)]
  show ?case
  proof (cases "128 \<le> w")
    case True
    have s49: "s \<le> 49"
    proof (rule ccontr)
      assume "\<not> s \<le> 49"
      with "1.prems"(2,3) have "s = 56" by presburger
      with "1.prems"(1) True show False by (simp add: word_le_nat_alt)
    qed
    have w': "unat (drop_bit 7 w) = unat w div 128" by (simp add: drop_bit_eq_div unat_div)
    have pow: "(2::nat) ^ (63 - s) = 2 ^ (63 - (s + 7)) * 128"
      using s49 power_add [of "2::nat" "63 - (s + 7)" 7] by simp
    have "get_int_loop (put_int_tail (drop_bit 7 w) @ rest) (acc + ?x) (s + 7) (idx + 1)
      = Some (acc + ?x + of_nat (unat (drop_bit 7 w) * 2 ^ (s + 7)), idx + 1 + length (put_int_tail (drop_bit 7 w)))"
    proof (rule "1.IH" [OF True])
      show "unat (drop_bit 7 w) < 2 ^ (63 - (s + 7))" using "1.prems"(1) pow by (simp add: w' less_mult_imp_div_less)
      show "s + 7 \<le> 56" "7 dvd s + 7" using s49 "1.prems"(3) by simp_all
      show "unat (acc + ?x) + unat (drop_bit 7 w) * 2 ^ (s + 7) < 2 ^ 64"
        using "1.prems"(4) split_low_group [of "unat w" s] by (simp add: byte(3) w')
    qed
    moreover have "acc + ?x + of_nat (unat (drop_bit 7 w) * 2 ^ (s + 7)) = acc + of_nat (unat w * 2 ^ s)"
      unfolding w' byte(1) by (simp only: add.assoc of_nat_add [symmetric] split_low_group)
    ultimately show ?thesis
      using True tail_byte_high [of w] s49 byte(2) by (subst (1 2) put_int_tail.simps) (simp add: tail_byte_def Let_def)
  next
    case False
    then have "unat w mod 128 = unat w" "w < 128" by (simp_all add: word_less_nat_alt not_le)
    then show ?thesis using False tail_byte_high [of w] byte(1,2)
      by (subst (1 2) put_int_tail.simps) (simp add: tail_byte_def Let_def)
  qed
qed

lemma prefix_mask:
  assumes "1 \<le> p" and "p \<le> 8"
  shows "(ucast ((push_bit p 1 :: u16) - 1) :: byte) = mask p"
    and "unat (ucast ((push_bit p 1 :: u16) - 1) :: u64) = 2 ^ p - 1"
    and "unat (ucast (mask p :: byte) :: u64) = 2 ^ p - 1"
proof -
  have "p \<in> {1, 2, 3, 4, 5, 6, 7, 8}" using assms by auto
  then show "(ucast ((push_bit p 1 :: u16) - 1) :: byte) = mask p"
    by (auto simp: mask_eq_exp_minus_1)
  from \<open>p \<in> {1, 2, 3, 4, 5, 6, 7, 8}\<close> show "unat (ucast ((push_bit p 1 :: u16) - 1) :: u64) = 2 ^ p - 1"
    by auto
  from \<open>p \<in> {1, 2, 3, 4, 5, 6, 7, 8}\<close> show "unat (ucast (mask p :: byte) :: u64) = 2 ^ p - 1"
    by (auto simp: mask_eq_exp_minus_1)
qed

lemma get_put_int:
  assumes p: "1 \<le> p" "p \<le> 8" and f: "take_bit p first = 0" and v: "unat w < 2 ^ 63"
  shows "get_int (put_int [] first p w @ rest) p = Some (w, length (put_int [] first p w))"
proof -
  define m where "m = (ucast ((push_bit p 1 :: u16) - 1) :: u64)"
  have m: "unat m = 2 ^ p - 1" unfolding m_def by (rule prefix_mask(2) [OF p])
  have "(2::nat) ^ p \<le> 2 ^ 8" using p(2) by (intro power_increasing) auto
  then have m255: "2 ^ p - 1 < (256::nat)" by simp
  have lowp: "(first OR x) AND mask p = x" if "unat x < 2 ^ p" for x :: byte
  proof -
    have "take_bit p x = x" using that by (simp add: word_unat_eq_iff unsigned_take_bit_eq take_bit_nat_eq_self)
    then show ?thesis using f by (simp add: take_bit_eq_mask [symmetric] take_bit_or)
  qed
  have cm: "unat (ucast (mask p :: byte) :: u64) = 2 ^ p - 1"
    by (rule prefix_mask(3) [OF p])
  show ?thesis
  proof (cases "w < m")
    case True
    then have lt: "unat w < 2 ^ p - 1" by (simp add: word_less_nat_alt m)
    have "unat (ucast w :: byte) = unat w"
      using lt m255 by (simp add: unsigned_ucast_eq take_bit_eq_mod)
    then have "(first OR ucast w) AND mask p = (ucast w :: byte)" using lt by (intro lowp) simp
    moreover have "(ucast (ucast w :: byte) :: u64) = w"
      using lt m255 by (simp add: word_unat_eq_iff unsigned_ucast_eq take_bit_eq_mod unat_mod)
    moreover have "w < ucast (mask p :: byte)" using lt by (simp add: word_less_nat_alt cm)
    ultimately show ?thesis using True
      unfolding put_int_def get_int_def Let_def prefix_mask(1) [OF p] m_def [symmetric] by simp
  next
    case False
    then have ge: "2 ^ p - 1 \<le> unat w" by (simp add: word_less_nat_alt m not_less)
    have um: "unat (ucast m :: byte) = 2 ^ p - 1"
      using m m255 by (simp add: unsigned_ucast_eq take_bit_eq_mod)
    have "(first OR ucast m) AND mask p = (ucast m :: byte)"
      by (rule lowp) (simp add: um)
    moreover have "(ucast (ucast m :: byte) :: u64) = m"
      by (simp add: word_unat_eq_iff unsigned_ucast_eq [of "ucast m :: byte"] take_bit_eq_mod um m) (use m255 in simp)
    moreover have "\<not> m < ucast (mask p :: byte)" by (simp add: word_less_nat_alt cm m)
    moreover have d: "unat (w - m) = unat w - (2 ^ p - 1)"
      using False by (simp add: unat_sub_if' m word_less_nat_alt)
    moreover have "get_int_loop (put_int_tail (w - m) @ rest) m 0 1
        = Some (m + of_nat (unat (w - m) * 2 ^ 0), 1 + length (put_int_tail (w - m)))"
    proof (rule get_int_loop_tail)
      have "unat (w - m) \<le> unat w" using d by (simp only: diff_le_self)
      then show "unat (w - m) < 2 ^ (63 - 0)" using v by simp
      show "unat m + unat (w - m) * 2 ^ 0 < 2 ^ 64" using v ge d m by simp
    qed simp_all
    moreover have "m + of_nat (unat (w - m) * 2 ^ 0) = w" by simp
    ultimately show ?thesis using False
      unfolding put_int_def get_int_def Let_def prefix_mask(1) [OF p] m_def [symmetric] by simp
  qed
qed

lemma put_int_append: "put_int out first p w = out @ put_int [] first p w"
  by (simp add: put_int_def Let_def)


lemma get_int_first_flag:
  assumes "put_int [] first 7 w = b # bs" and "take_bit 7 first = 0"
  shows "unat b div 128 = unat first div 128"
proof -
  obtain x :: byte where "b = first OR x" and "unat x < 2 ^ 7"
  proof (cases "w < ucast ((push_bit 7 1 :: u16) - 1)")
    case True
    then have "unat w < 127" by (simp add: word_less_nat_alt)
    with True assms(1) that [of "ucast w"] show ?thesis
      by (simp add: put_int_def Let_def unsigned_ucast_eq take_bit_eq_mod)
  next
    case False
    with assms(1) that [of 127] show ?thesis by (simp add: put_int_def Let_def)
  qed
  then have "unat b = unat first + unat x" using or_disjoint_low [of x 7 first] assms(2) by simp
  moreover have "unat first mod 128 = 0"
    using arg_cong [OF assms(2), of unat] by (simp add: take_bit_eq_mod unat_mod)
  ultimately show ?thesis using \<open>unat x < 2 ^ 7\<close> by (auto elim!: dvdE simp: mod_0_imp_dvd dest!: mod_0_imp_dvd)
qed


lemma length_put_int_tail: "unat w < 128 ^ Suc n \<Longrightarrow> length (put_int_tail w) \<le> Suc n"
proof (induction n arbitrary: w)
  case 0
  then show ?case by (subst put_int_tail.simps) (simp add: word_le_nat_alt)
next
  case (Suc n)
  have "unat (drop_bit 7 w) < 128 ^ Suc n"
    using Suc.prems by (simp add: drop_bit_eq_div unat_div less_mult_imp_div_less mult.commute)
  with Suc.IH show ?case by (subst put_int_tail.simps) simp
qed

lemma length_put_int_le: "length (put_int [] first p w) \<le> 11"
proof -
  have "unat x < 128 ^ Suc 9" for x :: u64
    by (rule less_trans [OF unsigned_less]) simp
  then have "length (put_int_tail x) \<le> 10" for x :: u64 using length_put_int_tail [of x 9] by simp
  then show ?thesis by (auto simp: put_int_def Let_def)
qed

interpretation qpack_int: prefix_codec "\<lambda>w. unat w < 2 ^ 63" "put_int [] 0 7" "\<lambda>bs. get_int bs 7"
  by unfold_locales (rule get_put_int, simp_all)

lemma get_put_string:
  assumes "length s < 2 ^ 62"
  shows "get_string (put_string [] s @ rest) = Some (s, length (put_string [] s), False)"
proof -
  have u: "unat (of_nat (length s) :: u64) = length s" using assms by (simp add: unat_of_nat)
  let ?h = "put_int [] 0 7 (of_nat (length s))"
  have g: "get_int (?h @ s @ rest) 7 = Some (of_nat (length s), length ?h)"
    using assms by (intro qpack_int.get_put) (simp add: u)
  obtain b bs where hb: "?h = b # bs" by (cases ?h) (auto simp: put_int_def Let_def split: if_splits)
  have "unat b div 128 = 0" using get_int_first_flag [OF hb] by simp
  then have "b AND 0x80 = 0" by (simp add: byte_and_80 div_eq_0_iff)
  moreover have "length ?h < 2 ^ 63"
    by (rule le_less_trans [of _ 11]) (auto simp: length_put_int_le)
  ultimately show ?thesis
    using g assms hb by (simp add: put_string_def get_string_def Let_def u)
qed


section \<open>Frame headers and the CONNECT request\<close>

lemma put_varint_slice_eq:
  assumes "varint_len w \<le> length out"
  shows "put_varint_slice out w = Some (put_varint [] w @ drop (varint_len w) out, varint_len w)"
  using assms by (simp add: put_varint_slice_def put_varint_def overwrite_def varint_len_nat split: if_splits)

lemma length_put_varint: "length (put_varint [] w) = varint_len w"
  by (auto simp: put_varint_def varint_len_def Let_def)

lemma get_frame_header_put:
  assumes "unat ty < 2 ^ 62" and "unat len < 2 ^ 62"
  shows "get_frame_header (put_varint (put_varint [] ty) len @ payload)
     = Some (ty, len, varint_len ty + varint_len len)"
  using varint.get_put [OF assms(1), of "put_varint [] len @ payload"] varint.get_put [OF assms(2), of payload]
  by (simp add: get_frame_header_def put_varint_append [of "put_varint [] ty"] length_put_varint)

lemma get_varint_append: "get_varint b = Some r \<Longrightarrow> get_varint (b @ c) = Some r"
  by (auto simp: get_varint_def Let_def split: list.splits if_splits)

lemma get_varint_bounds: "get_varint b = Some (v, n) \<Longrightarrow> 0 < n \<and> n \<le> length b"
  by (auto simp: get_varint_def Let_def split: list.splits if_splits)

text \<open>A complete header stays the same when more bytes arrive, and it is inside the buffer.\<close>

lemma get_frame_header_append:
  assumes "get_frame_header b = Some r"
  shows "get_frame_header (b @ c) = Some r"
proof -
  obtain ty n len m where *: "get_varint b = Some (ty, n)" "get_varint (drop n b) = Some (len, m)" "r = (ty, len, n + m)"
    using assms by (auto simp: get_frame_header_def split: option.splits)
  then show ?thesis
    using get_varint_append [OF *(1), of c] get_varint_append [OF *(2), of c] get_varint_bounds [OF *(1)]
    by (simp add: get_frame_header_def)
qed

lemma get_frame_header_bounds:
  assumes "get_frame_header b = Some (ty, len, used)"
  shows "0 < used \<and> used \<le> length b"
proof -
  obtain n m where *: "get_varint b = Some (ty, n)" "get_varint (drop n b) = Some (len, m)" "used = n + m"
    using assms by (auto simp: get_frame_header_def split: option.splits)
  then show ?thesis using get_varint_bounds [OF *(1)] get_varint_bounds [OF *(2)] by auto
qed

text \<open>The header of an HTTP/3 frame (type and length as varints) that the encoder writes is
  read back exactly by \<open>get_frame_header\<close>, which consumes the bytes the encoder produced and
  leaves the payload, for every type and length a varint can carry.\<close>

theorem frame_header_roundtrip:
  assumes "unat ty < 2 ^ 62" and "unat len < 2 ^ 62"
  shows "get_frame_header (put_varint (put_varint [] ty) len @ payload)
     = Some (ty, len, varint_len ty + varint_len len)"
  using assms by (rule get_frame_header_put)

theorem frame_header_roundtrip_witness:
  "get_frame_header (put_varint (put_varint [] 1) 300 @ [7, 7]) = Some (1, 300, 3)"
  using frame_header_roundtrip [of 1 300 "[7, 7]"] by (simp add: varint_len_nat)

text \<open>The field section of a CONNECT request is the two zero prefix bytes, the static index of
  \<open>:method: CONNECT\<close>, the literal \<open>:authority\<close> reference, and a string literal from which the
  peer's string decoder recovers the authority, unhuffmanned, with nothing left over.\<close>

theorem connect_headers_layout:
  assumes "length authority < 2 ^ 62"
  shows "take 4 (encode_connect_headers authority) = [0, 0, 0xCF, 0x50]
    \<and> get_string (drop 4 (encode_connect_headers authority) @ rest)
        = Some (as_bytes authority, length (encode_connect_headers authority) - 4, False)"
proof -
  have "encode_connect_headers authority = [0, 0, 0xCF, 0x50] @ put_string [] (as_bytes authority)"
    by (simp add: encode_connect_headers_def put_string_def put_int_append [of "[0, 0, 0xCF, 0x50]"] wire_simps
        put_int_def [of "[0, 0, 0xCF]"] Let_def)
  then show ?thesis using get_put_string [of "as_bytes authority" rest] assms by simp
qed

theorem connect_headers_layout_witness:
  "get_string (drop 4 (encode_connect_headers ''a:1'') @ []) = Some (as_bytes ''a:1'', length (encode_connect_headers ''a:1'') - 4, False)"
  using connect_headers_layout [of "''a:1''" "[]"] by simp

section \<open>The response status\<close>

lemma parse_status_code_range: "parse_status_code s = Ok c \<Longrightarrow> c \<in> {100..<600}"
  by (auto simp: parse_status_code_def Let_def split: if_splits)

lemma static_status_range: "static_status i = Some c \<Longrightarrow> c \<in> {100..<600}"
proof -
  assume "static_status i = Some c"
  then have "c \<in> set STATIC_STATUS_VALUES"
    by (auto simp: static_status_def Let_def split: if_splits)
  then show ?thesis by (auto simp: STATIC_STATUS_VALUES_def)
qed

lemma status_fields_range: "status_fields block = Ok c \<Longrightarrow> c \<in> {100..<600}"
proof (induction block rule: length_induct)
  case (1 block)
  show ?case
  proof (cases block)
    case Nil
    with "1.prems" show ?thesis by (subst (asm) status_fields.simps) simp
  next
    case (Cons f r)
    have IH: "c \<in> {100..<600}" if "status_fields (drop n (f # r)) = Ok c" "0 < n" for n
    proof -
      have "length (drop n (f # r)) < length block" using that(2) Cons by simp
      with "1.IH" that(1) show ?thesis by blast
    qed
    then have IH': "n = 0 \<or> c \<in> {100..<600}" if "status_fields (drop n (f # r)) = Ok c" for n
      using that by blast
    from "1.prems" show ?thesis unfolding Cons
      by (subst (asm) status_fields.simps)
        (auto simp: Let_def simp del: atLeastLessThan_iff drop_Cons' split: if_splits option.splits
          dest!: IH' parse_status_code_range static_status_range get_int_used)
  qed
qed

lemmas status_ranges = parse_status_code_range static_status_range status_fields_range

text \<open>Whatever bytes the peer sends as the field section of its response, a status that
  \<open>decode_status\<close> accepts is a three-digit code between 100 and 599.\<close>

theorem decode_status_range: "decode_status block = Ok code \<Longrightarrow> 100 \<le> code \<and> code < 600"
  by (auto simp: decode_status_def split: option.splits if_splits dest!: status_fields_range)

theorem decode_status_range_witness: "decode_status [0, 0, 0xD9] = Ok 200 \<and> (100::nat) \<le> 200 \<and> (200::nat) < 600"
proof -
  have "decode_status [0, 0, 0xD9] = Ok 200" by code_simp
  with decode_status_range [OF this] show ?thesis by simp
qed

end
