(* ===== verification/Crypto.thy ===== *)
theory Crypto
  imports Prelude
begin

text \<open>
  The cryptographic layer: \<^verbatim>\<open>src/src/crypto/cipher.rs\<close> (AES-256-GCM sealing with a random nonce in
  front and the tag at the end), the \<open>FrameCipher\<close> trait of \<^verbatim>\<open>src/src/shaper/mod.rs\<close> with its default
  methods, \<^verbatim>\<open>src/src/crypto/handshake.rs\<close> (key derivation) and \<^verbatim>\<open>src/src/crypto/keys.rs\<close> (key encodings).

  The primitives themselves are third-party code and parameters here: \<open>aead\<close> (aws-lc-rs),
  \<open>hkdf\<close> (RustCrypto), \<open>b64\<close> (the base64 crate). \<open>aead_correct\<close>, \<open>hkdf_correct\<close> and \<open>b64_correct\<close>
  state the documented behaviour that the sources rely on. Random nonces are arguments.

  Lemmas: encrypt/decrypt round trips, the in-place methods of \<open>AesFrameCipher\<close> agree with the default
  methods of the trait, and \<open>cipher_contract\<close>, the interface the framing layer uses.
\<close>

section \<open>Parameters: AEAD, HKDF, base64\<close>

definition NONCE_LEN :: nat where "NONCE_LEN = 12"
definition TAG_LEN :: nat where "TAG_LEN = 16"

lemmas crypto_consts [wire_simps] = NONCE_LEN_def TAG_LEN_def

text \<open>Key setup, detached sealing (ciphertext and tag) and opening of \<open>ciphertext @ tag\<close>.\<close>

record 'k aead =
  ae_key :: "bytes \<Rightarrow> 'k option"
  ae_seal :: "'k \<Rightarrow> bytes \<Rightarrow> bytes \<Rightarrow> (bytes \<times> bytes) option"
  ae_open :: "'k \<Rightarrow> bytes \<Rightarrow> bytes \<Rightarrow> bytes option"

text \<open>The longest plaintext AES-GCM accepts under one nonce.\<close>

definition GCM_MAX :: nat where "GCM_MAX = 2 ^ 36 - 32"

definition aead_correct :: "'k aead \<Rightarrow> bool" where
  "aead_correct A \<longleftrightarrow>
     (\<forall>key. length key = 32 \<longrightarrow> ae_key A key \<noteq> None)
   \<and> (\<forall>k n p. length n = NONCE_LEN \<longrightarrow> length p \<le> GCM_MAX \<longrightarrow>
        (\<exists>c t. ae_seal A k n p = Some (c, t) \<and> length c = length p \<and> length t = TAG_LEN
             \<and> ae_open A k n (c @ t) = Some p))
   \<and> (\<forall>k n c p. ae_open A k n c = Some p \<longrightarrow> length p + TAG_LEN = length c)"

text \<open>\<open>Hkdf::<Sha256>::new(salt, ikm).expand(info, out)\<close> with an output of the given length.\<close>

type_synonym hkdf = "bytes option \<Rightarrow> bytes \<Rightarrow> bytes \<Rightarrow> nat \<Rightarrow> bytes"

definition hkdf_correct :: "hkdf \<Rightarrow> bool" where
  "hkdf_correct hk \<longleftrightarrow> (\<forall>salt ikm info n. n \<le> 255 * 32 \<longrightarrow> length (hk salt ikm info n) = n)"

record b64 =
  b64_encode :: "bytes \<Rightarrow> string"
  b64_decode :: "string \<Rightarrow> bytes option"

text \<open>
  \<open>URL_SAFE_NO_PAD\<close>: decoding inverts encoding, the output length, and the alphabet (letters,
  digits, \<open>-\<close> and \<open>_\<close>, so no separator of a cookie and no white space).
\<close>

definition b64_char :: "char \<Rightarrow> bool" where
  "b64_char c \<longleftrightarrow>
     (let n = (of_char c :: nat) in
      (48 \<le> n \<and> n \<le> 57) \<or> (65 \<le> n \<and> n \<le> 90) \<or> (97 \<le> n \<and> n \<le> 122) \<or> n = 45 \<or> n = 95)"

definition b64_correct :: "b64 \<Rightarrow> bool" where
  "b64_correct E \<longleftrightarrow>
     (\<forall>d. b64_decode E (b64_encode E d) = Some d
        \<and> length (b64_encode E d) = (length d * 4 + 2) div 3
        \<and> list_all b64_char (b64_encode E d))"

section \<open>The FrameCipher trait\<close>

text \<open>
  A trait object is the record of its methods. Methods that draw a nonce take it as an argument; a
  method that mutates a buffer returns the new buffer. \<open>fc_decrypt_in_place\<close> also returns the range of
  the plaintext.
\<close>

record frame_cipher =
  fc_encrypt :: "bytes \<Rightarrow> bytes \<Rightarrow> (bytes, io_error) result"
  fc_decrypt :: "bytes \<Rightarrow> (bytes, io_error) result"
  fc_encrypt_into :: "bytes \<Rightarrow> bytes \<Rightarrow> bytes \<Rightarrow> (bytes, io_error) result"
  fc_decrypt_into :: "bytes \<Rightarrow> bytes \<Rightarrow> (bytes, io_error) result"
  fc_decrypt_in_place :: "bytes \<Rightarrow> (bytes \<times> nat \<times> nat, io_error) result"
  fc_seal_in_place :: "bytes \<Rightarrow> bytes \<Rightarrow> nat \<Rightarrow> nat \<Rightarrow> (bytes, io_error) result"

text \<open>The default methods, in terms of \<open>encrypt\<close> and \<open>decrypt\<close>.\<close>

definition default_encrypt_into ::
    "(bytes \<Rightarrow> bytes \<Rightarrow> (bytes, io_error) result) \<Rightarrow> bytes \<Rightarrow> bytes \<Rightarrow> bytes \<Rightarrow> (bytes, io_error) result" where
  "default_encrypt_into enc nonce data out = rbind (enc nonce data) (\<lambda>encrypted. Ok (out @ encrypted))"

definition default_decrypt_into ::
    "(bytes \<Rightarrow> (bytes, io_error) result) \<Rightarrow> bytes \<Rightarrow> bytes \<Rightarrow> (bytes, io_error) result" where
  "default_decrypt_into dec data out = rbind (dec data) (\<lambda>decrypted. Ok (out @ decrypted))"

definition default_decrypt_in_place ::
    "(bytes \<Rightarrow> (bytes, io_error) result) \<Rightarrow> bytes \<Rightarrow> (bytes \<times> nat \<times> nat, io_error) result" where
  "default_decrypt_in_place dec buf =
     rbind (dec buf) (\<lambda>decrypted.
       let len = length decrypted in
       if len > length buf then Err (IoError InvalidData ''decrypted frame too large'')
       else Ok (decrypted @ drop len buf, 0, len))"

text \<open>The callers pass indices inside \<open>out\<close>; \<open>split_off\<close> panics otherwise.\<close>

definition default_seal_in_place ::
    "(bytes \<Rightarrow> bytes \<Rightarrow> (bytes, io_error) result) \<Rightarrow> bytes \<Rightarrow> bytes \<Rightarrow> nat \<Rightarrow> nat \<Rightarrow> (bytes, io_error) result" where
  "default_seal_in_place enc nonce out nonce_start ct_start =
     (let plain = drop ct_start out; out = take ct_start out; out = take nonce_start out in
      rbind (enc nonce plain) (\<lambda>encrypted. Ok (out @ encrypted)))"

definition default_cipher ::
    "(bytes \<Rightarrow> bytes \<Rightarrow> (bytes, io_error) result) \<Rightarrow> (bytes \<Rightarrow> (bytes, io_error) result) \<Rightarrow> frame_cipher" where
  "default_cipher enc dec =
     \<lparr>fc_encrypt = enc, fc_decrypt = dec,
      fc_encrypt_into = default_encrypt_into enc, fc_decrypt_into = default_decrypt_into dec,
      fc_decrypt_in_place = default_decrypt_in_place dec, fc_seal_in_place = default_seal_in_place enc\<rparr>"

section \<open>AES-GCM sealing (cipher.rs)\<close>

definition make_key :: "'k aead \<Rightarrow> bytes \<Rightarrow> ('k, string) result" where
  "make_key A key_z = ok_or (ae_key A key_z) ''invalid key length''"

definition encrypt_with_cipher :: "'k aead \<Rightarrow> 'k \<Rightarrow> bytes \<Rightarrow> bytes \<Rightarrow> (bytes, string) result" where
  "encrypt_with_cipher A cipher nonce_bytes plaintext =
     (let out = nonce_bytes @ plaintext in
      case ae_seal A cipher nonce_bytes (drop NONCE_LEN out) of
        None \<Rightarrow> Err ''encryption error''
      | Some (ct, tag) \<Rightarrow> Ok (take NONCE_LEN out @ ct @ tag))"

definition decrypt_with_cipher :: "'k aead \<Rightarrow> 'k \<Rightarrow> bytes \<Rightarrow> (bytes, string) result" where
  "decrypt_with_cipher A cipher data =
     (if length data < NONCE_LEN + TAG_LEN then Err ''ciphertext too short''
      else (case ae_open A cipher (take NONCE_LEN data) (drop NONCE_LEN data) of
              None \<Rightarrow> Err ''decryption error''
            | Some plaintext \<Rightarrow> Ok plaintext))"

definition encrypt_bytes :: "'k aead \<Rightarrow> bytes \<Rightarrow> bytes \<Rightarrow> bytes \<Rightarrow> (bytes, string) result" where
  "encrypt_bytes A key_z nonce data =
     rbind (make_key A key_z) (\<lambda>cipher. encrypt_with_cipher A cipher nonce data)"

definition decrypt_bytes :: "'k aead \<Rightarrow> bytes \<Rightarrow> bytes \<Rightarrow> (bytes, string) result" where
  "decrypt_bytes A key_z data =
     rbind (make_key A key_z) (\<lambda>cipher. decrypt_with_cipher A cipher data)"

record 'k aes_frame_cipher =
  afc_key :: bytes
  afc_cipher :: 'k

text \<open>\<open>AesFrameCipher::new\<close>; \<open>None\<close> is the panic of \<open>expect\<close>.\<close>

definition aes_new :: "'k aead \<Rightarrow> bytes \<Rightarrow> 'k aes_frame_cipher option" where
  "aes_new A key_z =
     (case make_key A key_z of
        Ok cipher \<Rightarrow> Some \<lparr>afc_key = key_z, afc_cipher = cipher\<rparr>
      | Err e \<Rightarrow> None)"

definition aes_clone :: "'k aead \<Rightarrow> 'k aes_frame_cipher \<Rightarrow> 'k aes_frame_cipher option" where
  "aes_clone A c = aes_new A (afc_key c)"

definition aes_encrypt :: "'k aead \<Rightarrow> 'k \<Rightarrow> bytes \<Rightarrow> bytes \<Rightarrow> (bytes, io_error) result" where
  "aes_encrypt A cipher nonce data = map_err (IoError OtherKind) (encrypt_with_cipher A cipher nonce data)"

definition aes_decrypt :: "'k aead \<Rightarrow> 'k \<Rightarrow> bytes \<Rightarrow> (bytes, io_error) result" where
  "aes_decrypt A cipher data = map_err (IoError OtherKind) (decrypt_with_cipher A cipher data)"

definition aes_encrypt_into :: "'k aead \<Rightarrow> 'k \<Rightarrow> bytes \<Rightarrow> bytes \<Rightarrow> bytes \<Rightarrow> (bytes, io_error) result" where
  "aes_encrypt_into A cipher nonce_bytes data out =
     (let out = out @ nonce_bytes; ct_start = length out; out = out @ data in
      case ae_seal A cipher nonce_bytes (drop ct_start out) of
        None \<Rightarrow> Err (IoError OtherKind ''encryption error'')
      | Some (ct, tag) \<Rightarrow> Ok (take ct_start out @ ct @ tag))"

definition aes_decrypt_into :: "'k aead \<Rightarrow> 'k \<Rightarrow> bytes \<Rightarrow> bytes \<Rightarrow> (bytes, io_error) result" where
  "aes_decrypt_into A cipher data out =
     (if length data < NONCE_LEN + TAG_LEN then Err (IoError InvalidData ''ciphertext too short'')
      else (let pt_start = length out; out = out @ drop NONCE_LEN data in
            case ae_open A cipher (take NONCE_LEN data) (drop pt_start out) of
              None \<Rightarrow> Err (IoError InvalidData ''decryption error'')
            | Some pt \<Rightarrow> Ok (take pt_start out @ pt)))"

text \<open>
  Opening in place leaves the plaintext after the nonce; the bytes behind it are whatever the tag
  left there and are outside the returned range.
\<close>

definition aes_decrypt_in_place :: "'k aead \<Rightarrow> 'k \<Rightarrow> bytes \<Rightarrow> (bytes \<times> nat \<times> nat, io_error) result" where
  "aes_decrypt_in_place A cipher buf =
     (if length buf < NONCE_LEN + TAG_LEN then Err (IoError InvalidData ''ciphertext too short'')
      else (case ae_open A cipher (take NONCE_LEN buf) (drop NONCE_LEN buf) of
              None \<Rightarrow> Err (IoError InvalidData ''decryption error'')
            | Some pt \<Rightarrow>
                Ok (take NONCE_LEN buf @ pt @ drop (NONCE_LEN + length pt) buf,
                    NONCE_LEN, NONCE_LEN + length pt)))"

definition aes_seal_in_place :: "'k aead \<Rightarrow> 'k \<Rightarrow> bytes \<Rightarrow> bytes \<Rightarrow> nat \<Rightarrow> nat \<Rightarrow> (bytes, io_error) result" where
  "aes_seal_in_place A cipher nonce_bytes out nonce_start ct_start =
     (let out = take nonce_start out @ nonce_bytes @ drop ct_start out in
      case ae_seal A cipher nonce_bytes (drop ct_start out) of
        None \<Rightarrow> Err (IoError OtherKind ''encryption error'')
      | Some (ct, tag) \<Rightarrow> Ok (take ct_start out @ ct @ tag))"

definition aes_cipher :: "'k aead \<Rightarrow> 'k aes_frame_cipher \<Rightarrow> frame_cipher" where
  "aes_cipher A c =
     \<lparr>fc_encrypt = aes_encrypt A (afc_cipher c), fc_decrypt = aes_decrypt A (afc_cipher c),
      fc_encrypt_into = aes_encrypt_into A (afc_cipher c),
      fc_decrypt_into = aes_decrypt_into A (afc_cipher c),
      fc_decrypt_in_place = aes_decrypt_in_place A (afc_cipher c),
      fc_seal_in_place = aes_seal_in_place A (afc_cipher c)\<rparr>"

section \<open>Key derivation (handshake.rs) and key encodings (keys.rs)\<close>

definition derive_handshake_key :: "hkdf \<Rightarrow> bytes \<Rightarrow> bytes" where
  "derive_handshake_key hk shared = hk None shared (as_bytes ''mlkem_handshake_key'') 32"

definition derive_initial_master :: "hkdf \<Rightarrow> bytes \<Rightarrow> bytes \<Rightarrow> bytes" where
  "derive_initial_master hk mlkem_ss x25519_ss =
     (let ikm = mlkem_ss @ x25519_ss in hk (Some (as_bytes ''initial_master_salt'')) ikm [] 32)"

definition derive_cookie_stream_key :: "hkdf \<Rightarrow> bytes \<Rightarrow> bytes" where
  "derive_cookie_stream_key hk master = hk None master (as_bytes ''cookie_stream_key'') 32"

definition derive_connection_keys :: "hkdf \<Rightarrow> bytes \<Rightarrow> bytes \<Rightarrow> bytes \<times> bytes \<times> bytes" where
  "derive_connection_keys hk master stream_id =
     (let info = stream_id @ as_bytes ''connection_keys'';
          buf = hk None master info 96
      in (take 32 buf, take 32 (drop 32 buf), drop 64 buf))"

definition encode_fixed_32 :: "b64 \<Rightarrow> bytes \<Rightarrow> string" where
  "encode_fixed_32 E key = b64_encode E key"

definition decode_fixed_32 :: "b64 \<Rightarrow> string \<Rightarrow> (bytes, string) result" where
  "decode_fixed_32 E s =
     (case b64_decode E s of
        None \<Rightarrow> Err ''base64''
      | Some decoded \<Rightarrow> if length decoded \<noteq> 32 then Err ''invalid key length'' else Ok decoded)"

section \<open>Lemmas: sealing and opening\<close>

lemma aead_sealE:
  assumes "aead_correct A" and "length n = NONCE_LEN" and "length p \<le> GCM_MAX"
  obtains c t where "ae_seal A k n p = Some (c, t)" and "length c = length p" and "length t = TAG_LEN"
    and "ae_open A k n (c @ t) = Some p"
proof -
  from assms(1) have "\<forall>k n p. length n = NONCE_LEN \<longrightarrow> length p \<le> GCM_MAX \<longrightarrow>
      (\<exists>c t. ae_seal A k n p = Some (c, t) \<and> length c = length p \<and> length t = TAG_LEN
           \<and> ae_open A k n (c @ t) = Some p)"
    by (simp add: aead_correct_def)
  with assms(2,3) that show thesis by blast
qed

lemma aead_open_length: "aead_correct A \<Longrightarrow> ae_open A k n c = Some p \<Longrightarrow> length p + TAG_LEN = length c"
  by (simp add: aead_correct_def)

lemma encrypt_decrypt_with_cipher:
  assumes "aead_correct A" and "length nonce = NONCE_LEN" and "length p \<le> GCM_MAX"
  shows "\<exists>s. encrypt_with_cipher A k nonce p = Ok s \<and> length s = length p + 28
             \<and> decrypt_with_cipher A k s = Ok p"
proof -
  obtain c t where "ae_seal A k nonce p = Some (c, t)" "length c = length p" "length t = TAG_LEN"
      "ae_open A k nonce (c @ t) = Some p"
    using aead_sealE [OF assms] by blast
  then show ?thesis using assms(2)
    by (simp add: encrypt_with_cipher_def decrypt_with_cipher_def wire_simps)
qed

text \<open>Whatever is encrypted under a 32-byte key with \<open>encrypt_bytes\<close> (the target and stream id of a
  session cookie are) is returned unchanged by \<open>decrypt_bytes\<close> under the same key, and sealing costs
  exactly the nonce and the tag, 28 bytes.\<close>

theorem encrypt_decrypt_bytes:
  assumes "aead_correct A" and "length key = 32" and "length nonce = NONCE_LEN" and "length data \<le> GCM_MAX"
  shows "\<exists>s. encrypt_bytes A key nonce data = Ok s \<and> length s = length data + 28
             \<and> decrypt_bytes A key s = Ok data"
proof -
  from assms(1,2) obtain k where "ae_key A key = Some k" by (auto simp: aead_correct_def)
  then show ?thesis
    using encrypt_decrypt_with_cipher [OF assms(1,3,4), of k]
    by (auto simp: encrypt_bytes_def decrypt_bytes_def make_key_def)
qed

section \<open>The in-place methods agree with the trait's defaults\<close>

lemma aes_encrypt_into_default:
  "length nonce = NONCE_LEN \<Longrightarrow>
     aes_encrypt_into A k nonce data out = default_encrypt_into (aes_encrypt A k) nonce data out"
  by (auto simp: aes_encrypt_into_def default_encrypt_into_def aes_encrypt_def encrypt_with_cipher_def
      split: option.splits)

lemma aes_seal_in_place_default:
  assumes "length nonce = NONCE_LEN" and "ct_start = nonce_start + NONCE_LEN" and "ct_start \<le> length out"
  shows "aes_seal_in_place A k nonce out nonce_start ct_start
       = default_seal_in_place (aes_encrypt A k) nonce out nonce_start ct_start"
  using assms
  by (auto simp: aes_seal_in_place_def default_seal_in_place_def aes_encrypt_def encrypt_with_cipher_def
      min_def split: option.splits)

text \<open>The plaintext a cipher's \<open>decrypt_in_place\<close> exposes.\<close>

definition in_place_plain :: "(bytes \<times> nat \<times> nat, io_error) result \<Rightarrow> bytes option" where
  "in_place_plain r = (case r of Ok (buf, s, e) \<Rightarrow> Some (take (e - s) (drop s buf)) | Err _ \<Rightarrow> None)"

lemma aes_decrypt_in_place_plain:
  assumes "aead_correct A"
  shows "in_place_plain (aes_decrypt_in_place A k buf)
       = (case decrypt_with_cipher A k buf of Ok p \<Rightarrow> Some p | Err _ \<Rightarrow> None)"
  using aead_open_length [OF assms, of k "take NONCE_LEN buf" "drop NONCE_LEN buf"]
  by (auto simp: in_place_plain_def aes_decrypt_in_place_def decrypt_with_cipher_def wire_simps
      split: option.splits)

lemma default_decrypt_in_place_plain:
  assumes "\<And>p. dec buf = Ok p \<Longrightarrow> length p \<le> length buf"
  shows "in_place_plain (default_decrypt_in_place dec buf) = (case dec buf of Ok p \<Rightarrow> Some p | Err _ \<Rightarrow> None)"
  using assms by (cases "dec buf") (auto simp: in_place_plain_def default_decrypt_in_place_def Let_def)

text \<open>The three methods that \<open>AesFrameCipher\<close> overrides for speed compute what the trait's default
  methods compute from \<open>encrypt\<close> and \<open>decrypt\<close>: sealing in place and encrypting into a buffer append the
  same bytes, and decrypting in place accepts the same inputs and exposes the same plaintext.\<close>

theorem aes_overrides_match_defaults:
  assumes "aead_correct A" and "length nonce = NONCE_LEN"
    and "ct_start = nonce_start + NONCE_LEN" and "ct_start \<le> length out"
  shows "fc_seal_in_place (aes_cipher A c) nonce out nonce_start ct_start
       = default_seal_in_place (fc_encrypt (aes_cipher A c)) nonce out nonce_start ct_start
    \<and> fc_encrypt_into (aes_cipher A c) nonce data out
       = default_encrypt_into (fc_encrypt (aes_cipher A c)) nonce data out
    \<and> in_place_plain (fc_decrypt_in_place (aes_cipher A c) buf)
       = in_place_plain (default_decrypt_in_place (fc_decrypt (aes_cipher A c)) buf)"
proof -
  have len: "length p \<le> length buf" if "aes_decrypt A (afc_cipher c) buf = Ok p" for p
    using that aead_open_length [OF assms(1), of "afc_cipher c" "take NONCE_LEN buf" "drop NONCE_LEN buf" p]
    by (auto simp: aes_decrypt_def decrypt_with_cipher_def split: if_splits option.splits)
  have "in_place_plain (default_decrypt_in_place (aes_decrypt A (afc_cipher c)) buf)
      = in_place_plain (aes_decrypt_in_place A (afc_cipher c) buf)"
    using default_decrypt_in_place_plain [of "aes_decrypt A (afc_cipher c)", OF len] aes_decrypt_in_place_plain [OF assms(1), of "afc_cipher c" buf]
    by (simp add: aes_decrypt_def split: result.splits)
  then show ?thesis
    using aes_seal_in_place_default [OF assms(2-4), of A "afc_cipher c"]
      aes_encrypt_into_default [OF assms(2), of A "afc_cipher c" data out]
    by (simp add: aes_cipher_def)
qed

section \<open>The contract of a frame cipher\<close>

text \<open>
  What the framing layer needs of a \<open>FrameCipher\<close>: sealing in place succeeds, adds 28 bytes in all to
  the plaintext, leaves what is in front of the nonce alone, and opening what was sealed exposes the
  plaintext; encrypting into a buffer appends a sealed message of the same kind.
\<close>

definition opens_to :: "frame_cipher \<Rightarrow> bytes \<Rightarrow> bytes \<Rightarrow> bool" where
  "opens_to C s p \<longleftrightarrow>
     (\<exists>buf a e. fc_decrypt_in_place C s = Ok (buf, a, e) \<and> a + length p = e \<and> e \<le> length buf
        \<and> take (length p) (drop a buf) = p)"

definition cipher_contract :: "frame_cipher \<Rightarrow> bool" where
  "cipher_contract C \<longleftrightarrow>
     (\<forall>nonce out ns p. length nonce = NONCE_LEN \<longrightarrow> length p \<le> GCM_MAX \<longrightarrow> ns + NONCE_LEN = length out \<longrightarrow>
        (\<exists>s. fc_seal_in_place C nonce (out @ p) ns (length out) = Ok (take ns out @ s)
            \<and> length s = length p + 28 \<and> opens_to C s p))
   \<and> (\<forall>nonce out p. length nonce = NONCE_LEN \<longrightarrow> length p \<le> GCM_MAX \<longrightarrow>
        (\<exists>s. fc_encrypt_into C nonce p out = Ok (out @ s) \<and> length s = length p + 28 \<and> opens_to C s p))"

lemma cipher_contract_seal:
  assumes "cipher_contract C" and "length nonce = NONCE_LEN" and "length p \<le> GCM_MAX"
    and "ns + NONCE_LEN = length out"
  obtains s where "fc_seal_in_place C nonce (out @ p) ns (length out) = Ok (take ns out @ s)"
    and "length s = length p + 28" and "opens_to C s p"
  using assms unfolding cipher_contract_def by blast

lemma cipher_contract_encrypt:
  assumes "cipher_contract C" and "length nonce = NONCE_LEN" and "length p \<le> GCM_MAX"
  obtains s where "fc_encrypt_into C nonce p out = Ok (out @ s)"
    and "length s = length p + 28" and "opens_to C s p"
  using assms unfolding cipher_contract_def by blast

lemma aes_opens_to:
  assumes "aead_correct A" and "length nonce = NONCE_LEN" and "length c = length p" and "length t = TAG_LEN"
    and "ae_open A (afc_cipher k) nonce (c @ t) = Some p"
  shows "opens_to (aes_cipher A k) (nonce @ c @ t) p"
  using assms by (auto simp: opens_to_def aes_cipher_def aes_decrypt_in_place_def wire_simps)

lemma aes_cipher_contract:
  assumes "aead_correct A"
  shows "cipher_contract (aes_cipher A k)"
  unfolding cipher_contract_def
proof (intro conjI allI impI)
  fix nonce out p :: bytes and ns
  assume n: "length nonce = NONCE_LEN" and p: "length p \<le> GCM_MAX" and ns: "ns + NONCE_LEN = length out"
  obtain c t where ct: "ae_seal A (afc_cipher k) nonce p = Some (c, t)" "length c = length p"
      "length t = TAG_LEN" "ae_open A (afc_cipher k) nonce (c @ t) = Some p"
    using aead_sealE [OF assms n p] by blast
  have "fc_seal_in_place (aes_cipher A k) nonce (out @ p) ns (length out) = Ok (take ns out @ nonce @ c @ t)"
    using ct n ns [symmetric] by (simp add: aes_cipher_def aes_seal_in_place_def)
  then show "\<exists>s. fc_seal_in_place (aes_cipher A k) nonce (out @ p) ns (length out) = Ok (take ns out @ s)
        \<and> length s = length p + 28 \<and> opens_to (aes_cipher A k) s p"
    using aes_opens_to [OF assms n ct(2-4)] ct n by (auto simp: wire_simps)
next
  fix nonce out p :: bytes
  assume n: "length nonce = NONCE_LEN" and p: "length p \<le> GCM_MAX"
  obtain c t where ct: "ae_seal A (afc_cipher k) nonce p = Some (c, t)" "length c = length p"
      "length t = TAG_LEN" "ae_open A (afc_cipher k) nonce (c @ t) = Some p"
    using aead_sealE [OF assms n p] by blast
  have "fc_encrypt_into (aes_cipher A k) nonce p out = Ok (out @ nonce @ c @ t)"
    using ct by (simp add: aes_cipher_def aes_encrypt_into_def)
  then show "\<exists>s. fc_encrypt_into (aes_cipher A k) nonce p out = Ok (out @ s)
        \<and> length s = length p + 28 \<and> opens_to (aes_cipher A k) s p"
    using aes_opens_to [OF assms n ct(2-4)] ct n by (auto simp: wire_simps)
qed

text \<open>The derived connection keys are three 32-byte keys.\<close>

lemma derive_connection_keys_lengths:
  assumes "hkdf_correct hk" and "derive_connection_keys hk master sid = (u, d, t)"
  shows "length u = 32 \<and> length d = 32 \<and> length t = 32"
  using assms by (auto simp: derive_connection_keys_def Let_def hkdf_correct_def)

text \<open>Reading back an encoded 32-byte key.\<close>

lemma decode_encode_fixed_32:
  "b64_correct E \<Longrightarrow> length key = 32 \<Longrightarrow> decode_fixed_32 E (encode_fixed_32 E key) = Ok key"
  by (simp add: b64_correct_def decode_fixed_32_def encode_fixed_32_def)

section \<open>A concrete AEAD for the examples\<close>

text \<open>
  An instance of the parameter that satisfies \<open>aead_correct\<close>: the ciphertext is the plaintext and the
  tag is sixteen zero bytes. It only shows that the hypotheses can hold together.
\<close>

definition plain_aead :: "bytes aead" where
  "plain_aead = \<lparr>ae_key = (\<lambda>key. if length key = 32 then Some key else None),
     ae_seal = (\<lambda>k n p. Some (p, replicate 16 0)),
     ae_open = (\<lambda>k n c. if 16 \<le> length c \<and> drop (length c - 16) c = replicate 16 0
                         then Some (take (length c - 16) c) else None)\<rparr>"

lemma plain_aead_correct: "aead_correct plain_aead"
  by (auto simp: aead_correct_def plain_aead_def wire_simps split: if_splits)

text \<open>The URL-safe alphabet without padding, as an instance of \<open>b64_correct\<close>.\<close>

definition sextet_char :: "nat \<Rightarrow> char" where
  "sextet_char n = char_of (if n < 26 then 65 + n else if n < 52 then 71 + n else if n < 62 then n - 4 else if n = 62 then 45 else 95)"

definition char_sextet :: "char \<Rightarrow> nat option" where
  "char_sextet c =
     (let n = (of_char c :: nat) in
      if 65 \<le> n \<and> n \<le> 90 then Some (n - 65) else if 97 \<le> n \<and> n \<le> 122 then Some (n - 71)
      else if 48 \<le> n \<and> n \<le> 57 then Some (n + 4) else if n = 45 then Some 62 else if n = 95 then Some 63 else None)"

fun sextets :: "nat list \<Rightarrow> nat list" where
  "sextets [] = []"
| "sextets [a] = [a div 4, a mod 4 * 16]"
| "sextets [a, b] = [a div 4, a mod 4 * 16 + b div 16, b mod 16 * 4]"
| "sextets (a # b # c # bs) = a div 4 # (a mod 4 * 16 + b div 16) # (b mod 16 * 4 + c div 64) # c mod 64 # sextets bs"

fun octets :: "nat list \<Rightarrow> nat list option" where
  "octets [] = Some []"
| "octets [a] = None"
| "octets [a, b] = Some [a * 4 + b div 16]"
| "octets [a, b, c] = Some [a * 4 + b div 16, b mod 16 * 16 + c div 4]"
| "octets (a # b # c # d # ss) = map_option (\<lambda>r. (a * 4 + b div 16) # (b mod 16 * 16 + c div 4) # (c mod 4 * 64 + d) # r) (octets ss)"

definition url_b64 :: b64 where
  "url_b64 = \<lparr>b64_encode = (\<lambda>d. map sextet_char (sextets (map unat d))),
     b64_decode = (\<lambda>s. if None \<in> set (map char_sextet s) then None
                        else map_option (map of_nat) (octets (map (\<lambda>c. the (char_sextet c)) s)))\<rparr>"

lemma char_sextet_char: "n < 64 \<Longrightarrow> char_sextet (sextet_char n) = Some n \<and> b64_char (sextet_char n)"
  by (auto simp: sextet_char_def char_sextet_def b64_char_def Let_def)

lemma sextets_lt: "\<forall>x \<in> set bs. x < 256 \<Longrightarrow> \<forall>y \<in> set (sextets bs). y < 64"
  by (induction bs rule: sextets.induct) auto

lemma octets_sextets: "\<forall>x \<in> set bs. x < 256 \<Longrightarrow> octets (sextets bs) = Some bs"
  by (induction bs rule: sextets.induct) auto

lemma length_sextets: "length (sextets bs) = (length bs * 4 + 2) div 3"
  by (induction bs rule: sextets.induct) auto

lemma url_b64_correct: "b64_correct url_b64"
proof -
  have "b64_decode url_b64 (b64_encode url_b64 d) = Some d \<and> length (b64_encode url_b64 d) = (length d * 4 + 2) div 3
        \<and> list_all b64_char (b64_encode url_b64 d)" for d
  proof -
    have lt: "\<forall>x \<in> set (map unat d). x < 256" using unsigned_less [where 'b = 8] by auto
    then have c: "\<forall>y \<in> set (sextets (map unat d)). char_sextet (sextet_char y) = Some y \<and> b64_char (sextet_char y)"
      using sextets_lt char_sextet_char by blast
    then have "map (\<lambda>y. the (char_sextet (sextet_char y))) (sextets (map unat d)) = sextets (map unat d)"
      by (intro map_idI) simp
    then show ?thesis using c octets_sextets [OF lt]
      by (auto simp: url_b64_def length_sextets list_all_iff comp_def)
  qed
  then show ?thesis by (simp add: b64_correct_def)
qed

theorem encrypt_decrypt_bytes_witness:
  "\<exists>s. encrypt_bytes plain_aead (replicate 32 7) (replicate 12 1) [1, 2, 3] = Ok s \<and> length s = 31
       \<and> decrypt_bytes plain_aead (replicate 32 7) s = Ok [1, 2, 3]"
  using encrypt_decrypt_bytes [OF plain_aead_correct, of "replicate 32 7" "replicate 12 1" "[1, 2, 3]"]
  by (simp add: wire_simps GCM_MAX_def)

theorem aes_overrides_match_defaults_witness:
  "fc_seal_in_place (aes_cipher plain_aead \<lparr>afc_key = [], afc_cipher = []\<rparr>) (replicate 12 1) (replicate 13 0) 0 12
     = default_seal_in_place (fc_encrypt (aes_cipher plain_aead \<lparr>afc_key = [], afc_cipher = []\<rparr>))
         (replicate 12 1) (replicate 13 0) 0 12"
  by (rule aes_overrides_match_defaults [OF plain_aead_correct, THEN conjunct1]) (simp_all add: NONCE_LEN_def)

end
