(* ===== verification/Framing.thy ===== *)
theory Framing
  imports Crypto Interfaces
begin

text \<open>
  The wire format of the tunnel, the first part of \<^verbatim>\<open>src/src/shaper/mod.rs\<close>: a frame is a 64-bit sequence
  number, a 16-bit payload length, the payload and zero padding, sealed by a \<open>FrameCipher\<close>, and written
  either with a 16-bit length prefix (\<open>Binary\<close>) or as one line of JSON whose field is base122 text
  (\<open>Json\<close>). Also the configuration of the shaper and its resolution.

  Parameters: \<open>base122\<close> (the crate base122-fast, whose functions overwrite their output buffer) and \<open>rr\<close>,
  which draws from an inclusive range (\<open>None\<close> is the panic on an empty one).

  Lemmas: encoding and decoding are inverse for both encodings in front of any continuation, an incomplete
  frame is left untouched, frame lengths stay within the limits that the decoders check.
\<close>

section \<open>Parameters\<close>

record base122 =
  b_enc :: "bytes \<Rightarrow> bytes"
  b_dec :: "bytes \<Rightarrow> (bytes, string) result"

text \<open>
  base122: decoding inverts encoding; the text contains neither a quote nor a line feed (they are escaped);
  seven payload bits per output byte, so at most one byte in seven more than the input and two for the tail.
\<close>

definition base122_correct :: "base122 \<Rightarrow> bool" where
  "base122_correct B \<longleftrightarrow>
     (\<forall>d. b_dec B (b_enc B d) = Ok d \<and> 34 \<notin> set (b_enc B d) \<and> 10 \<notin> set (b_enc B d)
        \<and> length (b_enc B d) \<le> length d + length d div 7 + 2)"

type_synonym range_rng = "nat \<Rightarrow> nat \<Rightarrow> nat option"

definition rng_correct :: "range_rng \<Rightarrow> bool" where
  "rng_correct rr \<longleftrightarrow>
     (\<forall>lo hi. if lo \<le> hi then (\<exists>v. rr lo hi = Some v \<and> lo \<le> v \<and> v \<le> hi) else rr lo hi = None)"

section \<open>Constants\<close>

definition MAX_RAW_PAYLOAD :: nat where "MAX_RAW_PAYLOAD = 16 * 1024"
definition READ_HIGH_WATER :: nat where "READ_HIGH_WATER = 32 * 1024"
definition HEADER_LEN :: nat where "HEADER_LEN = 10"
definition JSON_PAYLOAD_CAP :: nat where "JSON_PAYLOAD_CAP = 14320 - HEADER_LEN - NONCE_LEN - TAG_LEN"
definition TABLE_SIZE :: nat where "TABLE_SIZE = 8192"
definition DELIMITER :: byte where "DELIMITER = 10"
definition MAX_BINARY_FRAME_LEN :: nat where "MAX_BINARY_FRAME_LEN = MAX_RAW_PAYLOAD + 38"
definition MAX_JSON_LINE_LEN :: nat where "MAX_JSON_LINE_LEN = MAX_RAW_PAYLOAD + 2396"

lemmas framing_consts [wire_simps] =
  MAX_RAW_PAYLOAD_def READ_HIGH_WATER_def HEADER_LEN_def JSON_PAYLOAD_CAP_def TABLE_SIZE_def
  DELIMITER_def MAX_BINARY_FRAME_LEN_def MAX_JSON_LINE_LEN_def

section \<open>Configuration\<close>

datatype encoding_type = Json | Binary

record padding_config =
  pc_threshold :: nat
  pc_range :: "nat \<times> nat"

record stage_config =
  sc_count :: "nat option"
  sc_count_range :: "(nat \<times> nat) option"
  sc_threshold :: nat
  sc_range :: "nat \<times> nat"

record traffic_config =
  tc_global :: padding_config
  tc_stages :: "stage_config list"
  tc_encoding_type :: encoding_type
  tc_max_download_bytes :: "u64 option"

record resolved_stage =
  rs_end_count :: nat
  rs_threshold :: nat
  rs_range :: "nat \<times> nat"

record resolved_config =
  rc_stages :: "resolved_stage list"
  rc_global_threshold :: nat
  rc_global_range :: "nat \<times> nat"
  rc_encoding :: encoding_type

definition max_encoded_frame_len :: "encoding_type \<Rightarrow> nat" where
  "max_encoded_frame_len encoding =
     (case encoding of Binary \<Rightarrow> MAX_BINARY_FRAME_LEN + 2 | Json \<Rightarrow> MAX_JSON_LINE_LEN + 1)"

fun validate_stages :: "nat \<Rightarrow> stage_config list \<Rightarrow> (unit, string) result" where
  "validate_stages i [] = Ok ()"
| "validate_stages i (stage # stages) =
     (if fst (sc_range stage) > snd (sc_range stage)
      then Err (''traffic_shaping.stages['' @ show_nat i @ ''].padding_range low ('' @ show_nat (fst (sc_range stage))
                @ '') > high ('' @ show_nat (snd (sc_range stage)) @ '')'')
      else validate_stages (Suc i) stages)"

definition validate_traffic :: "traffic_config \<Rightarrow> (unit, string) result" where
  "validate_traffic cfg =
     (let r = pc_range (tc_global cfg) in
      if fst r > snd r
      then Err (''traffic_shaping.global.padding_range low ('' @ show_nat (fst r) @ '') > high ('' @ show_nat (snd r) @ '')'')
      else validate_stages 0 (tc_stages cfg))"

definition resolve_stage :: "stage_config \<Rightarrow> resolved_stage" where
  "resolve_stage s =
     \<lparr>rs_end_count = (case sc_count s of Some c \<Rightarrow> c
                       | None \<Rightarrow> (case sc_count_range s of Some (lo, hi) \<Rightarrow> hi | None \<Rightarrow> 0)),
      rs_threshold = sc_threshold s, rs_range = sc_range s\<rparr>"

text \<open>
  \<open>ResolvedShaperConfig::resolve\<close>. The order of stages with equal counts after \<open>sort_unstable_by_key\<close> is not
  specified; the model takes the order of the configuration.
\<close>

definition resolve_config :: "traffic_config \<Rightarrow> resolved_config" where
  "resolve_config cfg =
     \<lparr>rc_stages = sort_key rs_end_count (map resolve_stage (tc_stages cfg)),
      rc_global_threshold = pc_threshold (tc_global cfg), rc_global_range = pc_range (tc_global cfg),
      rc_encoding = tc_encoding_type cfg\<rparr>"

section \<open>Parsing helpers\<close>

text \<open>\<open>read_u64_be\<close> and \<open>read_u16_be\<close> read the first 8 or 2 bytes; every caller has checked the length.\<close>

definition read_u64_be :: "bytes \<Rightarrow> u64" where
  "read_u64_be data = u64_from_be (take 8 data)"

definition read_u16_be :: "bytes \<Rightarrow> u16" where
  "read_u16_be data = u16_from_be (take 2 data)"

definition extract_frame_range :: "bytes \<Rightarrow> (u64 \<times> nat \<times> nat, io_error) result" where
  "extract_frame_range payload =
     (if length payload < HEADER_LEN then Err (IoError InvalidData ''payload too short'')
      else (let seq = read_u64_be (take 8 payload);
                orig_len = unat (read_u16_be (take 2 (drop 8 payload)));
                total = HEADER_LEN + orig_len
            in if length payload < total
               then Err (IoError InvalidData ''payload shorter than declared original length'')
               else Ok (seq, HEADER_LEN, total)))"

definition trim_bytes :: "bytes \<Rightarrow> bytes" where
  "trim_bytes b = trim_matches is_ascii_whitespace_byte b"

definition JSON_OPEN :: bytes where "JSON_OPEN = as_bytes ''{\"data\":\"''"
definition JSON_FIELD :: bytes where "JSON_FIELD = as_bytes ''\"data\":\"''"
definition JSON_CLOSE :: bytes where "JSON_CLOSE = as_bytes ''\"}''"

definition parse_json_payload_into :: "base122 \<Rightarrow> bytes \<Rightarrow> (bytes, io_error) result" where
  "parse_json_payload_into B json =
     (let json = trim_bytes json in
      case Option.bind (strip_prefix JSON_OPEN json) (strip_suffix JSON_CLOSE) of
        Some payload \<Rightarrow> map_err (IoError InvalidData) (b_dec B payload)
      | None \<Rightarrow>
          (case memmem JSON_FIELD json of
             None \<Rightarrow> Err (IoError InvalidData ''missing 'data' field'')
           | Some start \<Rightarrow>
               (let remaining = drop (start + length JSON_FIELD) json in
                case memchr 34 remaining of
                  None \<Rightarrow> Err (IoError InvalidData ''malformed JSON structure'')
                | Some data_end \<Rightarrow> map_err (IoError InvalidData) (b_dec B (take data_end remaining)))))"

definition frame_raw_limit :: "encoding_type \<Rightarrow> nat" where
  "frame_raw_limit encoding = (case encoding of Json \<Rightarrow> JSON_PAYLOAD_CAP | Binary \<Rightarrow> MAX_RAW_PAYLOAD)"

definition resolve_frame_padding :: "range_rng \<Rightarrow> nat \<Rightarrow> nat \<Rightarrow> nat \<times> nat \<Rightarrow> nat \<Rightarrow> nat option" where
  "resolve_frame_padding rr raw_len padding_threshold padding_range raw_limit =
     (if raw_len < padding_threshold
      then (let max_pad = raw_limit - raw_len in
            map_option (\<lambda>wanted. min wanted max_pad) (rr (fst padding_range) (snd padding_range)))
      else Some 0)"

section \<open>Encoding\<close>

definition frame_payload :: "u64 \<Rightarrow> bytes \<Rightarrow> nat \<Rightarrow> bytes" where
  "frame_payload seq data padding_len =
     u64_to_be seq @ u16_to_be (of_nat (length data)) @ data @ replicate padding_len 0"

text \<open>
  The two wire forms. \<open>seal_into\<close> and \<open>encode_frame_into\<close> write the same bytes in the binary case; in the
  JSON case \<open>encode_frame_into\<close> calls \<open>encrypt_into\<close> on a separate buffer and \<open>seal_into\<close> seals in place.
\<close>

definition put_binary_frame :: "frame_cipher \<Rightarrow> bytes \<Rightarrow> bytes \<Rightarrow> u64 \<Rightarrow> bytes \<Rightarrow> nat \<Rightarrow> (bytes, io_error) result" where
  "put_binary_frame C nonce out seq data padding_len =
     (let payload_len = HEADER_LEN + length data + padding_len;
          enc_len = NONCE_LEN + payload_len + TAG_LEN;
          out = out @ u16_to_be (of_nat enc_len);
          nonce_start = length out;
          out = out @ replicate NONCE_LEN 0;
          ct_start = length out;
          out = out @ frame_payload seq data padding_len
      in fc_seal_in_place C nonce out nonce_start ct_start)"

definition put_json_line :: "base122 \<Rightarrow> bytes \<Rightarrow> bytes \<Rightarrow> bytes" where
  "put_json_line B out sealed = out @ JSON_OPEN @ b_enc B sealed @ JSON_CLOSE @ [DELIMITER]"

definition encode_frame_into ::
    "base122 \<Rightarrow> range_rng \<Rightarrow> bytes \<Rightarrow> bytes \<Rightarrow> u64 \<Rightarrow> frame_cipher \<Rightarrow> nat \<Rightarrow> nat \<times> nat \<Rightarrow> encoding_type
      \<Rightarrow> bytes \<Rightarrow> (bytes, io_error) result option" where
  "encode_frame_into B rr nonce data seq C padding_threshold padding_range encoding out =
     (let raw_len = length data; raw_limit = frame_raw_limit encoding in
      if raw_len > raw_limit
      then Some (Err (IoError InvalidInput
             (''frame payload too large: '' @ show_nat raw_len @ '' > '' @ show_nat raw_limit)))
      else (case resolve_frame_padding rr raw_len padding_threshold padding_range raw_limit of
              None \<Rightarrow> None
            | Some padding_len \<Rightarrow>
                (case encoding of
                   Binary \<Rightarrow> Some (put_binary_frame C nonce out seq data padding_len)
                 | Json \<Rightarrow>
                     Some (rbind (fc_encrypt_into C nonce (frame_payload seq data padding_len) [])
                             (\<lambda>sealed. Ok (put_json_line B out sealed))))))"

definition encode_frame ::
    "base122 \<Rightarrow> range_rng \<Rightarrow> bytes \<Rightarrow> bytes \<Rightarrow> u64 \<Rightarrow> frame_cipher \<Rightarrow> nat \<Rightarrow> nat \<times> nat \<Rightarrow> encoding_type
      \<Rightarrow> (bytes, io_error) result option" where
  "encode_frame B rr nonce data seq C padding_threshold padding_range encoding =
     encode_frame_into B rr nonce data seq C padding_threshold padding_range encoding []"

section \<open>Decoding\<close>

datatype decoded_frame = InJsonScratch u64 nat nat | Owned u64 bytes

text \<open>
  \<open>decode_frame\<close> returns the buffer that is left and, on success, the scratch buffer and the frame. Bytes
  consumed before a decryption or header error stay consumed. The scratch contents after an error are not
  represented: every reader of the scratch overwrites it first.
\<close>

definition decode_frame_binary ::
    "frame_cipher \<Rightarrow> bytes \<Rightarrow> bytes \<Rightarrow> bytes \<times> (bytes \<times> decoded_frame option, io_error) result" where
  "decode_frame_binary C src scratch =
     (if length src < 2 then (src, Ok (scratch, None))
      else (let frame_len = unat (read_u16_be (take 2 src)) in
            if frame_len > MAX_BINARY_FRAME_LEN
            then (src, Err (IoError InvalidData ''binary frame length exceeds limit''))
            else if length src < 2 + frame_len then (src, Ok (scratch, None))
            else (let src = drop 2 src; view = take frame_len src; src = drop frame_len src in
                  (src, rbind (fc_decrypt_in_place C view) (\<lambda>(view, offset, end_offset).
                          rbind (extract_frame_range (drop offset view)) (\<lambda>(seq, start, e).
                            Ok (scratch, Some (Owned seq (take (e - start) (drop (offset + start) view))))))))))"

definition decode_frame_json ::
    "base122 \<Rightarrow> frame_cipher \<Rightarrow> bytes \<Rightarrow> bytes \<Rightarrow> bytes \<times> (bytes \<times> decoded_frame option, io_error) result" where
  "decode_frame_json B C src scratch =
     (case memchr DELIMITER src of
        Some pos \<Rightarrow>
          (if pos > MAX_JSON_LINE_LEN
           then (src, Err (IoError InvalidData ''JSON line exceeds maximum allowed length''))
           else (let line = take pos src; src = drop 1 (drop pos src) in
                 if line = [] then (src, Err (IoError InvalidData ''empty frame line''))
                 else (src, rbind (parse_json_payload_into B line) (\<lambda>scratch.
                              rbind (fc_decrypt_in_place C scratch) (\<lambda>(scratch, ps, pe).
                                rbind (extract_frame_range (take (pe - ps) (drop ps scratch))) (\<lambda>(seq, start, e).
                                  Ok (scratch, Some (InJsonScratch seq (ps + start) (ps + e)))))))))
      | None \<Rightarrow>
          (if length src > MAX_JSON_LINE_LEN
           then (src, Err (IoError InvalidData ''incomplete JSON line is too long''))
           else (src, Ok (scratch, None))))"

definition decode_frame ::
    "base122 \<Rightarrow> frame_cipher \<Rightarrow> encoding_type \<Rightarrow> bytes \<Rightarrow> bytes
      \<Rightarrow> bytes \<times> (bytes \<times> decoded_frame option, io_error) result" where
  "decode_frame B C encoding src scratch =
     (case encoding of
        Binary \<Rightarrow> decode_frame_binary C src scratch
      | Json \<Rightarrow> decode_frame_json B C src scratch)"

text \<open>The payload a decoded frame stands for, given the scratch buffer it may point into.\<close>

fun frame_contents :: "bytes \<Rightarrow> decoded_frame \<Rightarrow> u64 \<times> bytes" where
  "frame_contents scratch (InJsonScratch seq start e) = (seq, take (e - start) (drop start scratch))"
| "frame_contents scratch (Owned seq data) = (seq, data)"

definition decode_from_buffer ::
    "base122 \<Rightarrow> frame_cipher \<Rightarrow> encoding_type \<Rightarrow> bytes \<Rightarrow> bytes \<times> ((u64 \<times> bytes) option, io_error) result" where
  "decode_from_buffer B C encoding src =
     (let (src, r) = decode_frame B C encoding src [] in
      (src, rbind r (\<lambda>(scratch, f). Ok (map_option (frame_contents scratch) f))))"

section \<open>Lemmas: payload and header\<close>

lemma length_frame_payload [simp]: "length (frame_payload seq data pad) = 10 + length data + pad"
  by (simp add: frame_payload_def)

lemma read_u16_be_prefix [simp]: "read_u16_be (u16_to_be w @ rest) = w"
  by (simp add: read_u16_be_def)

lemma read_u16_be_exact [simp]: "read_u16_be (u16_to_be w) = w"
  by (simp add: read_u16_be_def)

lemma read_u16_be_take [simp]: "read_u16_be (take 2 xs) = read_u16_be xs"
  by (simp add: read_u16_be_def)

lemma read_u64_be_take [simp]: "read_u64_be (take 8 xs) = read_u64_be xs"
  by (simp add: read_u64_be_def)

lemma read_u64_be_prefix [simp]: "read_u64_be (u64_to_be w @ rest) = w"
  by (simp add: read_u64_be_def)

lemma read_u16_be_payload: "read_u16_be (drop 8 (frame_payload seq data pad @ rest)) = of_nat (length data)"
  by (simp add: frame_payload_def)

lemma read_u64_be_payload: "read_u64_be (frame_payload seq data pad @ rest) = seq"
  by (simp add: frame_payload_def)

lemma read_u64_be_payload_exact: "read_u64_be (frame_payload seq data pad) = seq"
  using read_u64_be_payload [of seq data pad "[]"] by simp

lemma extract_frame_payload:
  assumes "length data < 2 ^ 16"
  shows "extract_frame_range (frame_payload seq data pad @ rest) = Ok (seq, 10, 10 + length data)"
proof -
  have "unat (of_nat (length data) :: u16) = length data" using assms by (simp add: unat_of_nat)
  then show ?thesis
    by (simp add: extract_frame_range_def wire_simps Let_def read_u64_be_payload read_u64_be_payload_exact
        read_u16_be_payload
        del: drop_append)
qed

lemma frame_payload_data: "take (length data) (drop 10 (frame_payload seq data pad @ rest)) = data"
  by (simp add: frame_payload_def)

text \<open>A successful header extraction stays inside the payload.\<close>

lemma extract_frame_range_bounds:
  "extract_frame_range p = Ok (seq, s, e) \<Longrightarrow> s = 10 \<and> s \<le> e \<and> e \<le> length p \<and> e \<le> 10 + 65535"
proof -
  assume a: "extract_frame_range p = Ok (seq, s, e)"
  have "unat (read_u16_be (take 2 (drop 8 p))) < 2 ^ LENGTH(16)" by (rule unsigned_less)
  then have "unat (read_u16_be (take 2 (drop 8 p))) \<le> 65535" by simp
  then show ?thesis using a by (auto simp: extract_frame_range_def Let_def wire_simps split: if_splits)
qed

section \<open>Lemmas: what a well-formed frame decodes to\<close>

text \<open>
  \<open>decodes_as\<close> is the contract between the encoders and the decoders: in front of any continuation the frame
  is taken off and yields the sequence number and the payload, a strict prefix is left alone, and the length
  is one a receiver accepts.
\<close>

definition decodes_as :: "base122 \<Rightarrow> frame_cipher \<Rightarrow> encoding_type \<Rightarrow> bytes \<Rightarrow> u64 \<Rightarrow> bytes \<Rightarrow> bool" where
  "decodes_as B C encoding f seq data \<longleftrightarrow>
     f \<noteq> [] \<and> length f \<le> max_encoded_frame_len encoding
   \<and> (\<forall>rest scratch. \<exists>scratch' fr. decode_frame B C encoding (f @ rest) scratch = (rest, Ok (scratch', Some fr))
         \<and> frame_contents scratch' fr = (seq, data))
   \<and> (\<forall>n scratch. n < length f \<longrightarrow> decode_frame B C encoding (take n f) scratch = (take n f, Ok (scratch, None)))"

lemma decodes_asE:
  assumes "decodes_as B C encoding f seq data"
  obtains scratch' fr where "decode_frame B C encoding (f @ rest) scratch = (rest, Ok (scratch', Some fr))"
    and "frame_contents scratch' fr = (seq, data)"
  using assms unfolding decodes_as_def by blast

lemma decodes_as_prefix:
  "decodes_as B C encoding f seq data \<Longrightarrow> n < length f \<Longrightarrow>
     decode_frame B C encoding (take n f) scratch = (take n f, Ok (scratch, None))"
  by (simp add: decodes_as_def)

lemma decodes_as_from_buffer:
  assumes "decodes_as B C encoding f seq data"
  shows "decode_from_buffer B C encoding (f @ rest) = (rest, Ok (Some (seq, data)))"
proof -
  obtain scratch' fr where "decode_frame B C encoding (f @ rest) [] = (rest, Ok (scratch', Some fr))"
      and "frame_contents scratch' fr = (seq, data)"
    using assms by (rule decodes_asE)
  then show ?thesis by (simp add: decode_from_buffer_def)
qed

lemma decodes_as_binary:
  assumes "opens_to C s (frame_payload seq data pad)"
    and "length s = length data + pad + 38" and "length data + pad \<le> MAX_RAW_PAYLOAD"
  shows "decodes_as B C Binary (u16_to_be (of_nat (length s)) @ s) seq data"
proof -
  let ?f = "u16_to_be (of_nat (length s)) @ s"
  have len: "length s \<le> 16422" and small: "length data < 2 ^ 16"
    using assms(2,3) by (auto simp: wire_simps)
  then have fl: "unat (of_nat (length s) :: u16) = length s" by (simp add: unat_of_nat)
  obtain buf a where dec: "fc_decrypt_in_place C s = Ok (buf, a, a + (10 + length data + pad))"
      and le: "a + (10 + length data + pad) \<le> length buf"
      and tk: "take (10 + length data + pad) (drop a buf) = frame_payload seq data pad"
    using assms(1) unfolding opens_to_def by auto
  define tl where "tl = drop (10 + length data + pad) (drop a buf)"
  have view: "drop a buf = frame_payload seq data pad @ tl"
    unfolding tl_def using tk by (metis append_take_drop_id)
  have data: "take (length data) (drop (a + 10) buf) = data"
    using frame_payload_data [of data seq pad tl] view by (metis add.commute drop_drop)
  have ext: "extract_frame_range (drop a buf) = Ok (seq, 10, 10 + length data)"
    using extract_frame_payload [OF small, of seq pad tl] view by simp
  have whole: "decode_frame B C Binary (?f @ rest) scratch = (rest, Ok (scratch, Some (Owned seq data)))" for rest scratch
    using len dec ext data by (simp add: decode_frame_def decode_frame_binary_def fl wire_simps)
  have part: "decode_frame B C Binary (take n ?f) scratch = (take n ?f, Ok (scratch, None))" if "n < length ?f" for n scratch
  proof (cases "n < 2")
    case True
    then show ?thesis by (simp add: decode_frame_def decode_frame_binary_def)
  next
    case False
    then have "take n ?f = u16_to_be (of_nat (length s)) @ take (n - 2) s" by simp
    moreover have "n - 2 < length s" using that False by simp
    ultimately show ?thesis using len by (simp add: decode_frame_def decode_frame_binary_def fl wire_simps Let_def)
  qed
  have "length ?f \<noteq> 0" by simp
  then have ne: "?f \<noteq> []" by (metis list.size(3))
  have bound: "length ?f \<le> max_encoded_frame_len Binary" using len by (simp add: max_encoded_frame_len_def wire_simps)
  show ?thesis
    unfolding decodes_as_def using ne bound whole part frame_contents.simps(2) by metis
qed

lemma trim_matches_id:
  assumes "xs \<noteq> []" and "\<not> p (hd xs)" and "\<not> p (last xs)"
  shows "trim_matches p xs = xs"
proof -
  have "dropWhile p xs = xs" using assms(1,2) by (cases xs) auto
  moreover have "dropWhile p (rev xs) = rev xs"
    using assms(1,3) by (cases xs rule: rev_cases) auto
  ultimately show ?thesis
    by (simp add: trim_matches_def trim_start_matches_def trim_end_matches_def)
qed

lemma json_line_parses:
  assumes "base122_correct B"
  shows "parse_json_payload_into B (JSON_OPEN @ b_enc B s @ JSON_CLOSE) = Ok s"
proof -
  have "trim_bytes (JSON_OPEN @ b_enc B s @ JSON_CLOSE) = JSON_OPEN @ b_enc B s @ JSON_CLOSE"
    unfolding trim_bytes_def
    by (rule trim_matches_id) (simp_all add: JSON_OPEN_def JSON_CLOSE_def as_bytes_def is_ascii_whitespace_byte_def)
  then show ?thesis using assms by (simp add: parse_json_payload_into_def base122_correct_def)
qed

lemma decodes_as_json:
  assumes B: "base122_correct B" and op: "opens_to C s (frame_payload seq data pad)"
    and len: "length s = length data + pad + 38" and cap: "length data + pad \<le> JSON_PAYLOAD_CAP"
  shows "decodes_as B C Json (put_json_line B [] s) seq data
       \<and> length (put_json_line B [] s) \<le> MAX_RAW_PAYLOAD"
proof -
  let ?line = "JSON_OPEN @ b_enc B s @ JSON_CLOSE"
  let ?f = "put_json_line B [] s"
  have f: "?f = ?line @ [DELIMITER]" by (simp add: put_json_line_def)
  have nodel: "DELIMITER \<notin> set ?line"
    using B by (auto simp: base122_correct_def wire_simps JSON_OPEN_def JSON_CLOSE_def as_bytes_def)
  have sl: "length s \<le> 14320" using len cap by (simp add: wire_simps)
  have enc: "length (b_enc B s) \<le> length s + length s div 7 + 2"
    using B by (simp add: base122_correct_def)
  also have "length s div 7 \<le> 14320 div 7" using sl by (rule div_le_mono)
  finally have line_len: "length ?line \<le> 16378"
    using sl by (simp add: JSON_OPEN_def JSON_CLOSE_def)
  have small: "length data < 2 ^ 16" using cap by (simp add: wire_simps)
  obtain buf a where dec: "fc_decrypt_in_place C s = Ok (buf, a, a + (10 + length data + pad))"
      and tk: "take (10 + length data + pad) (drop a buf) = frame_payload seq data pad"
    using op unfolding opens_to_def by auto
  have ext: "extract_frame_range (frame_payload seq data pad) = Ok (seq, 10, 10 + length data)"
    using extract_frame_payload [OF small, of seq pad "[]"] by simp
  have "drop a buf = frame_payload seq data pad @ drop (10 + length data + pad) (drop a buf)"
    using tk by (metis append_take_drop_id)
  then have data: "take (length data) (drop (a + 10) buf) = data"
    using frame_payload_data [of data seq pad] by (metis add.commute drop_drop)
  have whole: "decode_frame B C Json (?f @ rest) scratch
      = (rest, Ok (buf, Some (InJsonScratch seq (a + 10) (a + (10 + length data)))))" for rest scratch
  proof -
    have "memchr DELIMITER (?f @ rest) = Some (length ?line)"
      unfolding f using memchr_append_notin [OF nodel, of rest] by simp
    moreover have "?line \<noteq> []" by (simp add: JSON_OPEN_def as_bytes_def)
    ultimately show ?thesis
      using line_len json_line_parses [OF B, of s] dec tk ext
      by (simp add: decode_frame_def decode_frame_json_def f wire_simps)
  qed
  have part: "decode_frame B C Json (take n ?f) scratch = (take n ?f, Ok (scratch, None))" if "n < length ?f" for n scratch
  proof -
    have "take n ?f = take n ?line" using that by (simp add: f)
    moreover have "DELIMITER \<notin> set (take n ?line)" using nodel by (meson in_set_takeD)
    then have "memchr DELIMITER (take n ?line) = None" by simp
    moreover have "length (take n ?line) \<le> MAX_JSON_LINE_LEN" using line_len by (simp add: wire_simps)
    ultimately show ?thesis
      by (simp only: decode_frame_def decode_frame_json_def encoding_type.case option.case not_less [symmetric] if_False)
  qed
  have bound: "length ?f \<le> MAX_RAW_PAYLOAD" using line_len by (simp add: f wire_simps)
  have "frame_contents buf (InJsonScratch seq (a + 10) (a + (10 + length data))) = (seq, data)"
    using data by simp
  with whole part bound show ?thesis
    unfolding decodes_as_def by (auto simp: max_encoded_frame_len_def f wire_simps)
qed

section \<open>Lemmas: the encoders produce well-formed frames\<close>

lemma rng_correctE:
  assumes "rng_correct rr" and "lo \<le> hi"
  obtains v where "rr lo hi = Some v" and "lo \<le> v" and "v \<le> hi"
  using assms unfolding rng_correct_def by meson

lemma small_payload_GCM: "n \<le> MAX_RAW_PAYLOAD \<Longrightarrow> 10 + n \<le> GCM_MAX"
  by (simp add: wire_simps GCM_MAX_def)

lemma put_binary_frame_ok:
  assumes "cipher_contract C" and "length nonce = NONCE_LEN" and "length data + pad \<le> MAX_RAW_PAYLOAD"
  shows "\<exists>f. put_binary_frame C nonce out seq data pad = Ok (out @ f) \<and> decodes_as B C Binary f seq data"
proof -
  let ?len = "of_nat (NONCE_LEN + (HEADER_LEN + length data + pad) + TAG_LEN) :: u16"
  let ?out = "out @ u16_to_be ?len @ replicate NONCE_LEN 0"
  have "length (frame_payload seq data pad) \<le> GCM_MAX"
    using small_payload_GCM [OF assms(3)] by simp
  then obtain s where s: "fc_seal_in_place C nonce (?out @ frame_payload seq data pad) (length out + 2) (length ?out)
        = Ok (take (length out + 2) ?out @ s)"
      and len: "length s = length (frame_payload seq data pad) + 28"
      and op: "opens_to C s (frame_payload seq data pad)"
    by (rule cipher_contract_seal [OF assms(1,2), of "frame_payload seq data pad" "length out + 2" ?out]) simp_all
  have l: "length s = length data + pad + 38" using len by simp
  then have "?len = of_nat (length s)" by (simp add: wire_simps algebra_simps)
  then have "put_binary_frame C nonce out seq data pad = Ok (out @ u16_to_be (of_nat (length s)) @ s)"
    using s by (simp add: put_binary_frame_def Let_def)
  moreover have "decodes_as B C Binary (u16_to_be (of_nat (length s)) @ s) seq data"
    using op l assms(3) by (rule decodes_as_binary)
  ultimately show ?thesis by blast
qed

lemma put_json_line_append: "put_json_line B out s = out @ put_json_line B [] s"
  by (simp add: put_json_line_def)

lemma JSON_PAYLOAD_CAP_le: "JSON_PAYLOAD_CAP \<le> MAX_RAW_PAYLOAD"
  by (simp add: wire_simps)

lemma resolve_frame_padding_ok:
  assumes "rng_correct rr" and "lo \<le> hi" and "raw_len \<le> limit"
  shows "\<exists>pad. resolve_frame_padding rr raw_len th (lo, hi) limit = Some pad \<and> raw_len + pad \<le> limit
           \<and> (th \<le> raw_len \<longrightarrow> pad = 0) \<and> (raw_len < th \<longrightarrow> min lo (limit - raw_len) \<le> pad \<and> pad \<le> hi)"
proof -
  obtain v where "rr lo hi = Some v" "lo \<le> v" "v \<le> hi" using assms(1,2) by (rule rng_correctE)
  then show ?thesis using assms(3) by (auto simp: resolve_frame_padding_def Let_def)
qed

lemma encode_frame_into_ok:
  assumes C: "cipher_contract C" and B: "base122_correct B" and rr: "rng_correct rr" and r: "lo \<le> hi"
    and n: "length nonce = NONCE_LEN" and d: "length data \<le> frame_raw_limit encoding"
  shows "\<exists>f. encode_frame_into B rr nonce data seq C th (lo, hi) encoding out = Some (Ok (out @ f))
             \<and> decodes_as B C encoding f seq data"
proof -
  obtain pad where pad: "resolve_frame_padding rr (length data) th (lo, hi) (frame_raw_limit encoding) = Some pad"
      and cap: "length data + pad \<le> frame_raw_limit encoding"
    using resolve_frame_padding_ok [OF rr r d] by blast
  show ?thesis
  proof (cases encoding)
    case Binary
    then have "length data + pad \<le> MAX_RAW_PAYLOAD" using cap by (simp add: frame_raw_limit_def)
    from put_binary_frame_ok [OF C n this] pad d Binary show ?thesis
      by (simp add: encode_frame_into_def)
  next
    case Json
    then have c: "length data + pad \<le> JSON_PAYLOAD_CAP" using cap by (simp add: frame_raw_limit_def)
    then have "length (frame_payload seq data pad) \<le> GCM_MAX"
      using small_payload_GCM [of "length data + pad"] JSON_PAYLOAD_CAP_le by simp
    then obtain s where "fc_encrypt_into C nonce (frame_payload seq data pad) [] = Ok ([] @ s)"
        and "length s = length (frame_payload seq data pad) + 28" and op: "opens_to C s (frame_payload seq data pad)"
      by (rule cipher_contract_encrypt [OF C n])
    then have "encode_frame_into B rr nonce data seq C th (lo, hi) Json out = Some (Ok (out @ put_json_line B [] s))"
      and "length s = length data + pad + 38"
      using pad d Json by (simp_all add: encode_frame_into_def put_json_line_append [of B out])
    moreover from decodes_as_json [OF B op this(2) c] have "decodes_as B C Json (put_json_line B [] s) seq data" ..
    ultimately show ?thesis using Json by blast
  qed
qed

section \<open>Properties\<close>

text \<open>C1: encoding and decoding a frame. For both encodings and any payload within the limit,
  \<open>encode_frame\<close> succeeds, the frame is no longer than \<open>max_encoded_frame_len\<close>, and \<open>decode_from_buffer\<close> takes
  exactly that frame off a buffer, whatever follows it, and returns the sequence number and the payload
  without the padding.\<close>

theorem encode_frame_roundtrip:
  assumes "cipher_contract C" and "base122_correct B" and "rng_correct rr" and "lo \<le> hi"
    and "length nonce = NONCE_LEN" and "length data \<le> frame_raw_limit encoding"
  shows "\<exists>f. encode_frame B rr nonce data seq C threshold (lo, hi) encoding = Some (Ok f)
             \<and> length f \<le> max_encoded_frame_len encoding
             \<and> (\<forall>rest. decode_from_buffer B C encoding (f @ rest) = (rest, Ok (Some (seq, data))))"
proof -
  obtain f where "encode_frame_into B rr nonce data seq C threshold (lo, hi) encoding [] = Some (Ok ([] @ f))"
      and "decodes_as B C encoding f seq data"
    using encode_frame_into_ok [OF assms] by blast
  moreover from this(2) have "length f \<le> max_encoded_frame_len encoding" by (simp add: decodes_as_def)
  ultimately show ?thesis by (auto simp: encode_frame_def decodes_as_from_buffer)
qed

text \<open>An incomplete frame is never consumed and never an error. When only the first bytes of an
  encoded frame have arrived, \<open>decode_frame\<close> asks for more and leaves the buffer and the scratch buffer as
  they are, in both encodings and wherever the frame is cut.\<close>

theorem incomplete_frame_waits:
  assumes "cipher_contract C" and "base122_correct B" and "rng_correct rr" and "lo \<le> hi"
    and "length nonce = NONCE_LEN"
    and "encode_frame B rr nonce data seq C threshold (lo, hi) encoding = Some (Ok f)" and "n < length f"
  shows "decode_frame B C encoding (take n f) scratch = (take n f, Ok (scratch, None))"
proof -
  have "length data \<le> frame_raw_limit encoding"
    using assms(6) by (auto simp: encode_frame_def encode_frame_into_def Let_def split: if_splits)
  then obtain g where "encode_frame_into B rr nonce data seq C threshold (lo, hi) encoding [] = Some (Ok ([] @ g))"
      and "decodes_as B C encoding g seq data"
    using encode_frame_into_ok [OF assms(1-5)] by blast
  with assms(6,7) show ?thesis by (simp add: encode_frame_def decodes_as_prefix)
qed

section \<open>Concrete parameters for the examples\<close>

text \<open>
  Instances that satisfy the hypotheses on the parameters: a positional encoding in base 128 with the digits
  128 to 255 for base122, and a generator that always draws the lower bound.
\<close>

fun digits128 :: "nat \<Rightarrow> nat \<Rightarrow> bytes" where
  "digits128 0 n = []"
| "digits128 (Suc k) n = digits128 k (n div 128) @ [of_nat (128 + n mod 128)]"

definition value128 :: "bytes \<Rightarrow> nat" where
  "value128 bs = foldl (\<lambda>a b. a * 128 + (unat b - 128)) 0 bs"

definition positional122 :: base122 where
  "positional122 =
     \<lparr>b_enc = (\<lambda>d. digits128 ((8 * length d + 6) div 7) (be_decode d)),
      b_dec = (\<lambda>t. Ok (be_encode (7 * length t div 8) (value128 t)))\<rparr>"

definition low_rng :: range_rng where
  "low_rng lo hi = (if lo \<le> hi then Some lo else None)"

lemma low_rng_correct: "rng_correct low_rng"
  by (simp add: rng_correct_def low_rng_def)

lemma length_digits128 [simp]: "length (digits128 k n) = k"
  by (induction k arbitrary: n) auto

lemma unat_digit128: "unat (of_nat (128 + n mod 128) :: byte) = 128 + n mod 128"
proof -
  have "128 + n mod 128 < 2 ^ LENGTH(8)" by simp
  then show ?thesis by (simp only: unat_of_nat mod_less)
qed

lemma digits128_high: "b \<in> set (digits128 k n) \<Longrightarrow> 128 \<le> unat b"
  by (induction k arbitrary: n) (auto simp: unat_digit128 simp del: of_nat_add of_nat_mod)

lemma value128_digits128: "value128 (digits128 k n) = n mod 128 ^ k"
proof (induction k arbitrary: n)
  case 0
  then show ?case by (simp add: value128_def)
next
  case (Suc k)
  have "value128 (digits128 (Suc k) n) = value128 (digits128 k (n div 128)) * 128 + n mod 128"
    by (simp add: value128_def unat_digit128 del: of_nat_add of_nat_mod)
  then show ?case by (simp add: Suc mod_mult2_eq mult.commute)
qed

lemma positional122_correct: "base122_correct positional122"
proof -
  have "be_encode (7 * length (digits128 ((8 * length d + 6) div 7) (be_decode d)) div 8)
          (value128 (digits128 ((8 * length d + 6) div 7) (be_decode d))) = d" for d :: bytes
  proof -
    let ?L = "(8 * length d + 6) div 7"
    have L: "8 * length d \<le> 7 * ?L" by presburger
    have len: "7 * ?L div 8 = length d" by presburger
    have "be_decode d < (2 ^ 8) ^ length d" using be_decode_bound [of d] by simp
    also have "(2 ^ 8) ^ length d = (2 :: nat) ^ (8 * length d)" by (simp only: power_mult)
    also have "\<dots> \<le> 2 ^ (7 * ?L)" using L by (intro power_increasing) simp_all
    also have "(2 :: nat) ^ (7 * ?L) = (2 ^ 7) ^ ?L" by (simp only: power_mult)
    also have "\<dots> = 128 ^ ?L" by simp
    finally have "value128 (digits128 ?L (be_decode d)) = be_decode d" by (simp add: value128_digits128)
    then show ?thesis using len be_encode_decode [of d] by simp
  qed
  moreover have "34 \<notin> set (digits128 k n)" and "10 \<notin> set (digits128 k n)" for k n
    using digits128_high [of 34 k n] digits128_high [of 10 k n] by auto
  moreover have "(8 * length d + 6) div 7 \<le> length d + length d div 7 + 2" for d :: bytes
  proof -
    have "8 * length d + 6 = (length d + 6) + length d * 7" by simp
    then have "(8 * length d + 6) div 7 = length d + (length d + 6) div 7"
      by (simp only: div_mult_self1 zero_neq_numeral not_False_eq_True)
    moreover have "(length d + 6) div 7 \<le> (length d + 7) div 7" by (rule div_le_mono) simp
    ultimately show ?thesis by simp
  qed
  ultimately show ?thesis by (simp add: base122_correct_def positional122_def)
qed

definition example_cipher :: frame_cipher where
  "example_cipher = aes_cipher plain_aead \<lparr>afc_key = replicate 32 7, afc_cipher = replicate 32 7\<rparr>"

lemma example_cipher_contract: "cipher_contract example_cipher"
  unfolding example_cipher_def by (rule aes_cipher_contract [OF plain_aead_correct])

lemmas example_params = example_cipher_contract positional122_correct low_rng_correct

theorem encode_frame_roundtrip_witness:
  "\<exists>f. encode_frame positional122 low_rng (replicate 12 1) [104, 105] 7 example_cipher 100 (4, 9) Json = Some (Ok f)
       \<and> length f \<le> max_encoded_frame_len Json
       \<and> (\<forall>rest. decode_from_buffer positional122 example_cipher Json (f @ rest) = (rest, Ok (Some (7, [104, 105]))))"
  by (rule encode_frame_roundtrip [OF example_params]) (simp_all add: wire_simps frame_raw_limit_def)

lemma example_binary_frame:
  "encode_frame positional122 low_rng (replicate 12 1) [104, 105] 7 example_cipher 0 (0, 0) Binary
     = Some (Ok ([0, 40] @ replicate 12 1 @ [0, 0, 0, 0, 0, 0, 0, 7, 0, 2, 104, 105] @ replicate 16 0))"
  by (simp add: encode_frame_def encode_frame_into_def frame_raw_limit_def wire_simps resolve_frame_padding_def
      put_binary_frame_def frame_payload_def example_cipher_def aes_cipher_def aes_seal_in_place_def
      plain_aead_def u16_to_be_def u64_to_be_def be_encode_numeral)

theorem incomplete_frame_waits_witness:
  "decode_frame positional122 example_cipher Binary
     (take 20 ([0, 40] @ replicate 12 1 @ [0, 0, 0, 0, 0, 0, 0, 7, 0, 2, 104, 105] @ replicate 16 0)) []
   = (take 20 ([0, 40] @ replicate 12 1 @ [0, 0, 0, 0, 0, 0, 0, 7, 0, 2, 104, 105] @ replicate 16 0), Ok ([], None))"
  by (rule incomplete_frame_waits [OF example_params _ _ example_binary_frame]) (simp_all add: wire_simps)

end
