(* ===== verification/Streams.thy ===== *)
theory Streams
  imports Interfaces
begin

text \<open>
  Byte streams as the components see them. A readable stream is a script of read events and a writable one a
  script of how much each write attempt accepts, so that a theorem about all scripts is one about all
  behaviours of the peer and the kernel. \<open>write_all\<close> is tokio's and quinn's loop of that name.
\<close>

section \<open>Readable streams\<close>

datatype read_event = RData bytes | RPending | RErr io_error

text \<open>
  One \<open>poll_read\<close> into a buffer with room for \<open>limit\<close> bytes. The end of the script is the end of the stream,
  which reads as zero bytes; data beyond the limit stays for the next read.
\<close>

fun poll_read :: "read_event list \<Rightarrow> nat \<Rightarrow> read_event list \<times> (bytes, io_error) result poll" where
  "poll_read [] limit = ([], Ready (Ok []))"
| "poll_read (RData d # es) limit =
     (if length d \<le> limit then es else RData (drop limit d) # es, Ready (Ok (take limit d)))"
| "poll_read (RPending # es) limit = (es, Pending)"
| "poll_read (RErr e # es) limit = (es, Ready (Err e))"

fun script_bytes :: "read_event list \<Rightarrow> bytes" where
  "script_bytes [] = []"
| "script_bytes (RData d # es) = d @ script_bytes es"
| "script_bytes (RPending # es) = script_bytes es"
| "script_bytes (RErr e # es) = script_bytes es"

lemma poll_read_outcome:
  assumes "poll_read rd limit = (rd', p)" and "0 < limit"
  shows "(case p of Ready (Ok got) \<Rightarrow> script_bytes rd = got @ script_bytes rd' \<and> length got \<le> limit
             \<and> (got = [] \<and> RData [] \<notin> set rd \<longrightarrow> rd = [] \<and> rd' = [])
         | Ready (Err e) \<Rightarrow> script_bytes rd' = script_bytes rd \<and> RErr e \<in> set rd
         | Pending \<Rightarrow> script_bytes rd' = script_bytes rd)
       \<and> (RData [] \<notin> set rd \<longrightarrow> RData [] \<notin> set rd') \<and> (\<forall>e. RErr e \<in> set rd' \<longrightarrow> RErr e \<in> set rd)"
  using assms by (cases "(rd, limit)" rule: poll_read.cases) (auto split: if_splits)

section \<open>Writable streams\<close>

datatype write_event = Accept nat | WFail io_error

record sock =
  sk_script :: "write_event list"
  sk_sent :: bytes

text \<open>One write attempt; \<open>None\<close> is an attempt that never completes.\<close>

definition sock_write :: "bytes \<Rightarrow> sock \<Rightarrow> sock \<times> (nat, io_error) result option" where
  "sock_write data sk =
     (case sk_script sk of
        [] \<Rightarrow> (sk, None)
      | WFail e # es \<Rightarrow> (sk\<lparr>sk_script := es\<rparr>, Some (Err e))
      | Accept n # es \<Rightarrow>
          (let k = min n (length data) in
           (sk\<lparr>sk_script := es, sk_sent := sk_sent sk @ take k data\<rparr>, Some (Ok k))))"

definition write_zero :: io_error where
  "write_zero = IoError WriteZero ''write zero''"

function write_all :: "bytes \<Rightarrow> sock \<Rightarrow> sock \<times> (unit, io_error) result option" where
  "write_all data sk =
     (if data = [] then (sk, Some (Ok ()))
      else (case sk_script sk of
              [] \<Rightarrow> (sk, None)
            | WFail e # es \<Rightarrow> (sk\<lparr>sk_script := es\<rparr>, Some (Err e))
            | Accept n # es \<Rightarrow>
                (let k = min n (length data);
                     sk = sk\<lparr>sk_script := es, sk_sent := sk_sent sk @ take k data\<rparr>
                 in if k = 0 then (sk, Some (Err write_zero)) else write_all (drop k data) sk)))"
  by pat_completeness auto
termination by (relation "measure (\<lambda>(data, sk). length (sk_script sk))") auto

declare write_all.simps [simp del]

text \<open>What \<open>sk'\<close> has sent since \<open>sk\<close>: a prefix of \<open>data\<close>, and all of it after success.\<close>

definition sent_prefix :: "bytes \<Rightarrow> sock \<Rightarrow> sock \<times> (unit, 'e) result option \<Rightarrow> bool" where
  "sent_prefix data sk r \<longleftrightarrow>
     (\<exists>k \<le> length data. sk_sent (fst r) = sk_sent sk @ take k data \<and> (snd r = Some (Ok ()) \<longrightarrow> k = length data))"

lemma sent_prefixI:
  "k \<le> length data \<Longrightarrow> sk_sent sk' = sk_sent sk @ take k data \<Longrightarrow> (r = Some (Ok ()) \<Longrightarrow> k = length data)
   \<Longrightarrow> sent_prefix data sk (sk', r)"
  by (auto simp: sent_prefix_def)

lemma sent_prefix_ok: "sent_prefix data sk (sk', Some (Ok ())) \<Longrightarrow> sk_sent sk' = sk_sent sk @ data"
  by (auto simp: sent_prefix_def)

text \<open>First \<open>a\<close>, then \<open>b\<close>.\<close>

lemma sent_prefix_append:
  assumes "sk_sent sk1 = sk_sent sk @ a" and "sent_prefix b sk1 r"
  shows "sent_prefix (a @ b) sk r"
proof -
  from assms(2) obtain k where "k \<le> length b" "sk_sent (fst r) = sk_sent sk1 @ take k b"
      "snd r = Some (Ok ()) \<longrightarrow> k = length b"
    by (auto simp: sent_prefix_def)
  with assms(1) show ?thesis
    unfolding sent_prefix_def by (intro exI [of _ "length a + k"]) auto
qed

lemma sent_prefix_extend:
  assumes "sent_prefix a sk (sk', r)" and "r \<noteq> Some (Ok ())"
  shows "sent_prefix (a @ b) sk (sk', r)"
proof -
  from assms obtain k where "k \<le> length a" "sk_sent sk' = sk_sent sk @ take k a" by (auto simp: sent_prefix_def)
  then show ?thesis using assms(2) by (intro sent_prefixI [of k]) auto
qed

lemma write_all_sent: "sent_prefix data sk (write_all data sk)"
proof (induction data sk rule: write_all.induct)
  case (1 data sk)
  show ?case
  proof (cases "data = []")
    case True
    then show ?thesis by (simp add: write_all.simps sent_prefix_def)
  next
    case False
    note u = write_all.simps [of data sk]
    show ?thesis
    proof (cases "sk_script sk")
      case Nil
      then show ?thesis using False u by (auto intro!: sent_prefixI [of 0])
    next
      case (Cons ev es)
      show ?thesis
      proof (cases ev)
        case (WFail e)
        then show ?thesis using False u Cons by (auto intro!: sent_prefixI [of 0])
      next
        case (Accept n)
        let ?k = "min n (length data)"
        let ?sk = "sk\<lparr>sk_script := es, sk_sent := sk_sent sk @ take ?k data\<rparr>"
        show ?thesis
        proof (cases "?k = 0")
          case True
          then show ?thesis using False u Cons Accept by (auto intro!: sent_prefixI [of 0])
        next
          case ne: False
          have "sent_prefix (drop ?k data) ?sk (write_all (drop ?k data) ?sk)"
            by (rule 1 [OF False Cons Accept refl refl ne])
          then have "sent_prefix (take ?k data @ drop ?k data) sk (write_all (drop ?k data) ?sk)"
            by (intro sent_prefix_append [of ?sk]) simp_all
          then show ?thesis using False u Cons Accept ne by (simp add: Let_def)
        qed
      qed
    qed
  qed
qed

text \<open>A peer that keeps accepting bytes gets everything.\<close>

lemma write_all_progress:
  assumes "\<forall>ev\<in>set (sk_script sk). \<exists>n. ev = Accept n \<and> 0 < n" and "length data \<le> length (sk_script sk)"
  shows "snd (write_all data sk) = Some (Ok ())"
  using assms
proof (induction data sk rule: write_all.induct)
  case (1 data sk)
  show ?case
  proof (cases "data = []")
    case True
    then show ?thesis by (simp add: write_all.simps)
  next
    case False
    then obtain n es where s: "sk_script sk = Accept n # es" and n: "0 < n"
      using 1(2,3) by (cases "sk_script sk") auto
    let ?k = "min n (length data)"
    have k: "?k \<noteq> 0" using n False by simp
    have "snd (write_all (drop ?k data) (sk\<lparr>sk_script := es, sk_sent := sk_sent sk @ take ?k data\<rparr>)) = Some (Ok ())"
      by (rule 1(1) [OF False s refl refl refl k]) (use 1(2,3) s k in auto)
    then show ?thesis using False s k by (simp add: write_all.simps [of data sk] Let_def)
  qed
qed

end
