(* ===== verification/Traffic_Shaper.thy ===== *)
theory Traffic_Shaper
  imports Framing Streams
begin

text \<open>
  \<open>TrafficShaper\<close>, the second part of \<^verbatim>\<open>src/src/shaper/mod.rs\<close>: it reads an upstream or browser socket,
  collects bytes until a full frame or until the jitter timer fires, pads according to the stage of the
  configuration and seals the frame.

  The socket is a script of read events; the jitter table, the timer wheel (\<open>elapsed deadline\<close> tells whether a
  timer has fired), the draws of the generator and the nonces (both indexed by the packet count, one draw per
  packet) are arguments. \<open>None\<close> as the result of an operation is the panic of \<open>random_range\<close> on an empty range.
  The scratch buffers \<open>enc_buf\<close> and \<open>json_buf\<close> are overwritten before every use and are not part of the state;
  the output buffer after a failing seal is not represented, since every caller drops it.

  Lemmas: the stage pointer finds the stage a search from the start would find, every sealed frame decodes to
  the bytes it took from the front of the buffer, and no byte is lost, duplicated or reordered.
\<close>

section \<open>The shaper\<close>

record shaper =
  sh_raw_buf :: bytes
  sh_timer :: nat
  sh_timer_armed :: bool
  sh_cursor :: nat
  sh_stages :: "resolved_stage list"
  sh_global_threshold :: nat
  sh_global_range :: "nat \<times> nat"
  sh_packet_count :: nat
  sh_stage_idx :: nat
  sh_cipher :: frame_cipher
  sh_encoding :: encoding_type
  sh_seal_threshold :: nat
  sh_frame_capacity :: nat
  sh_seq :: u64

text \<open>The randomness and the clock of the shaper.\<close>

record shaper_env =
  se_b122 :: base122
  se_rng :: "nat \<Rightarrow> range_rng"
  se_nonce :: "nat \<Rightarrow> bytes"
  se_jitter :: "nat \<Rightarrow> nat"

definition seal_threshold_of :: "encoding_type \<Rightarrow> nat" where
  "seal_threshold_of encoding =
     (case encoding of
        Binary \<Rightarrow> MAX_RAW_PAYLOAD - (NONCE_LEN + TAG_LEN + HEADER_LEN + 2)
      | Json \<Rightarrow> JSON_PAYLOAD_CAP)"

definition with_seq :: "nat \<Rightarrow> nat \<Rightarrow> resolved_config \<Rightarrow> frame_cipher \<Rightarrow> u64 \<Rightarrow> shaper" where
  "with_seq now rnd config cipher start_seq =
     \<lparr>sh_raw_buf = [], sh_timer = now, sh_timer_armed = False, sh_cursor = rnd mod TABLE_SIZE,
      sh_stages = rc_stages config, sh_global_threshold = rc_global_threshold config,
      sh_global_range = rc_global_range config, sh_packet_count = 0, sh_stage_idx = 0, sh_cipher = cipher,
      sh_encoding = rc_encoding config, sh_seal_threshold = seal_threshold_of (rc_encoding config),
      sh_frame_capacity = max_encoded_frame_len (rc_encoding config), sh_seq = start_seq\<rparr>"

text \<open>The loop of \<open>resolve_padding\<close> that moves the stage pointer.\<close>

function skip_stages :: "resolved_stage list \<Rightarrow> nat \<Rightarrow> nat \<Rightarrow> nat" where
  "skip_stages stages pc si =
     (if si < length stages \<and> pc > rs_end_count (stages ! si) then skip_stages stages pc (Suc si) else si)"
  by pat_completeness auto
termination by (relation "measure (\<lambda>(stages, pc, si). length stages - si)") auto

declare skip_stages.simps [simp del]

definition resolve_padding :: "shaper_env \<Rightarrow> shaper \<Rightarrow> nat \<Rightarrow> (shaper \<times> nat \<times> nat) option" where
  "resolve_padding env sh raw_len =
     (let pc = sh_packet_count sh + 1;
          stages = sh_stages sh;
          si = skip_stages stages pc (sh_stage_idx sh);
          sh = sh\<lparr>sh_packet_count := pc, sh_stage_idx := si\<rparr>;
          (threshold, range) = (if si < length stages then (rs_threshold (stages ! si), rs_range (stages ! si))
                                else (sh_global_threshold sh, sh_global_range sh))
      in case (if raw_len < threshold
               then (let max_pad = sh_seal_threshold sh - raw_len in
                     map_option (\<lambda>wanted. min wanted max_pad) (se_rng env pc (fst range) (snd range)))
               else Some 0) of
           None \<Rightarrow> None
         | Some padding_len \<Rightarrow> Some (sh, HEADER_LEN + raw_len + padding_len, padding_len))"

definition seal_into ::
    "shaper_env \<Rightarrow> shaper \<Rightarrow> bytes \<Rightarrow> (shaper \<times> (u64 \<times> bytes, io_error) result) option" where
  "seal_into env sh out =
     (let raw_len = min (length (sh_raw_buf sh)) (sh_seal_threshold sh);
          seq = sh_seq sh;
          sh = sh\<lparr>sh_timer_armed := False, sh_seq := seq + 1\<rparr>;
          data = take raw_len (sh_raw_buf sh)
      in case resolve_padding env sh raw_len of
           None \<Rightarrow> None
         | Some (sh, payload_len, padding_len) \<Rightarrow>
             (let nonce = se_nonce env (sh_packet_count sh);
                  r = (case sh_encoding sh of
                         Binary \<Rightarrow> put_binary_frame (sh_cipher sh) nonce out seq data padding_len
                       | Json \<Rightarrow>
                           rbind (fc_seal_in_place (sh_cipher sh) nonce
                                    (replicate NONCE_LEN 0 @ frame_payload seq data padding_len) 0 NONCE_LEN)
                             (\<lambda>enc_buf. Ok (put_json_line (se_b122 env) out enc_buf)))
              in (case r of
                    Err e \<Rightarrow> Some (sh, Err e)
                  | Ok out \<Rightarrow> Some (sh\<lparr>sh_raw_buf := drop raw_len (sh_raw_buf sh)\<rparr>, Ok (seq, out)))))"

type_synonym seal_poll = "shaper \<times> read_event list \<times> ((u64 \<times> bytes) option, io_error) result poll"

definition seal_now :: "shaper_env \<Rightarrow> shaper \<Rightarrow> read_event list \<Rightarrow> bytes \<Rightarrow> seal_poll option" where
  "seal_now env sh rd out =
     map_option (\<lambda>(sh, r). (sh, rd, Ready (rbind r (\<lambda>x. Ok (Some x))))) (seal_into env sh out)"

text \<open>
  \<open>poll_fill_and_seal\<close>: the loop ends because every round either returns or adds at least one byte to a buffer
  that is below the threshold.
\<close>

function poll_fill_and_seal ::
    "shaper_env \<Rightarrow> (nat \<Rightarrow> bool) \<Rightarrow> nat \<Rightarrow> shaper \<Rightarrow> read_event list \<Rightarrow> bytes \<Rightarrow> seal_poll option" where
  "poll_fill_and_seal env elapsed now sh rd out =
     (if length (sh_raw_buf sh) \<ge> sh_seal_threshold sh then seal_now env sh rd out
      else (let remaining = READ_HIGH_WATER - length (sh_raw_buf sh) in
            case poll_read rd remaining of
              (rd, Ready (Ok got)) \<Rightarrow>
                (if got = []
                 then (if sh_raw_buf sh = [] then Some (sh, rd, Ready (Ok None)) else seal_now env sh rd out)
                 else poll_fill_and_seal env elapsed now (sh\<lparr>sh_raw_buf := sh_raw_buf sh @ got\<rparr>) rd out)
            | (rd, Pending) \<Rightarrow>
                (if sh_raw_buf sh = [] then Some (sh, rd, Pending)
                 else if length (sh_raw_buf sh) \<ge> sh_seal_threshold sh then seal_now env sh rd out
                 else (let sh = (if \<not> sh_timer_armed sh
                                 then sh\<lparr>sh_timer := now + se_jitter env (sh_cursor sh),
                                         sh_cursor := (sh_cursor sh + 1) mod TABLE_SIZE, sh_timer_armed := True\<rparr>
                                 else sh)
                       in if elapsed (sh_timer sh) then seal_now env sh rd out else Some (sh, rd, Pending)))
            | (rd, Ready (Err e)) \<Rightarrow> Some (sh, rd, Ready (Err e))))"
  by pat_completeness auto
termination
proof (relation "measure (\<lambda>(env, elapsed, now, sh, rd, out). sh_seal_threshold sh - length (sh_raw_buf sh))", goal_cases)
  case 1
  show ?case by simp
next
  case (2 env elapsed now sh rd out remaining rd' got)
  then show ?case by (auto simp flip: length_greater_0_conv)
qed

declare poll_fill_and_seal.simps [simp del]

text \<open>\<open>Stream::poll_next\<close>: a pooled buffer, empty at the start, receives the frame.\<close>

definition shaper_poll_next ::
    "shaper_env \<Rightarrow> (nat \<Rightarrow> bool) \<Rightarrow> nat \<Rightarrow> shaper \<Rightarrow> read_event list
      \<Rightarrow> (shaper \<times> read_event list \<times> (u64 \<times> bytes, io_error) result option poll) option" where
  "shaper_poll_next env elapsed now sh rd =
     map_option (\<lambda>(sh, rd, p).
        (sh, rd, case p of
                   Ready (Ok (Some (seq, frame))) \<Rightarrow> Ready (Some (Ok (seq, frame)))
                 | Ready (Ok None) \<Rightarrow> Ready None
                 | Ready (Err e) \<Rightarrow> Ready (Some (Err e))
                 | Pending \<Rightarrow> Pending))
       (poll_fill_and_seal env elapsed now sh rd [])"

text \<open>A consumer that polls at the given times and collects the frames until the stream ends or fails.\<close>

fun collect_frames ::
    "shaper_env \<Rightarrow> ((nat \<Rightarrow> bool) \<times> nat) list \<Rightarrow> shaper \<Rightarrow> read_event list
      \<Rightarrow> (shaper \<times> read_event list \<times> (u64 \<times> bytes) list \<times> (unit, io_error) result option) option" where
  "collect_frames env [] sh rd = Some (sh, rd, [], None)"
| "collect_frames env ((elapsed, now) # polls) sh rd =
     (case shaper_poll_next env elapsed now sh rd of
        None \<Rightarrow> None
      | Some (sh, rd, Pending) \<Rightarrow> collect_frames env polls sh rd
      | Some (sh, rd, Ready None) \<Rightarrow> Some (sh, rd, [], Some (Ok ()))
      | Some (sh, rd, Ready (Some (Err e))) \<Rightarrow> Some (sh, rd, [], Some (Err e))
      | Some (sh, rd, Ready (Some (Ok f))) \<Rightarrow>
          map_option (\<lambda>(sh, rd, fs, stop). (sh, rd, f # fs, stop)) (collect_frames env polls sh rd))"

section \<open>Lemmas: stages\<close>

text \<open>The stage a search from the first stage would find for packet number \<open>pc\<close>.\<close>

definition stage_padding :: "shaper \<Rightarrow> nat \<Rightarrow> nat \<times> nat \<times> nat" where
  "stage_padding sh pc =
     (case find (\<lambda>s. pc \<le> rs_end_count s) (sh_stages sh) of
        Some s \<Rightarrow> (rs_threshold s, rs_range s)
      | None \<Rightarrow> (sh_global_threshold sh, sh_global_range sh))"

definition stage_pointer_ok :: "shaper \<Rightarrow> bool" where
  "stage_pointer_ok sh \<longleftrightarrow>
     sh_stage_idx sh \<le> length (sh_stages sh)
   \<and> (\<forall>i < sh_stage_idx sh. rs_end_count (sh_stages sh ! i) < sh_packet_count sh)"

lemma skip_stages_spec:
  assumes "si \<le> length stages" and "\<forall>i < si. rs_end_count (stages ! i) < pc"
  shows "let r = skip_stages stages pc si in
         r \<le> length stages \<and> (\<forall>i < r. rs_end_count (stages ! i) < pc)
       \<and> (r < length stages \<longrightarrow> pc \<le> rs_end_count (stages ! r))"
  using assms
proof (induction stages pc si rule: skip_stages.induct)
  case (1 stages pc si)
  show ?case
  proof (cases "si < length stages \<and> pc > rs_end_count (stages ! si)")
    case True
    then have "\<forall>i < Suc si. rs_end_count (stages ! i) < pc" using 1(3) by (simp add: less_Suc_eq)
    with 1(1) True show ?thesis by (subst skip_stages.simps) (auto simp: Let_def)
  next
    case False
    then have "skip_stages stages pc si = si" by (subst skip_stages.simps) auto
    with 1(2,3) False show ?thesis by (auto simp: Let_def)
  qed
qed

lemma find_first_index:
  assumes "\<forall>i < r. \<not> P (xs ! i)" and "r \<le> length xs" and "r < length xs \<longrightarrow> P (xs ! r)"
  shows "find P xs = (if r < length xs then Some (xs ! r) else None)"
proof (cases "r < length xs")
  case True
  then show ?thesis using assms by (auto simp: find_Some_iff)
next
  case False
  then show ?thesis using assms by (auto simp: find_None_iff in_set_conv_nth)
qed

text \<open>What \<open>resolve_padding\<close> returns, in terms of the search.\<close>

lemma resolve_padding_eq:
  assumes "stage_pointer_ok sh"
  shows "resolve_padding env sh raw_len =
     (let pc = sh_packet_count sh + 1; (threshold, range) = stage_padding sh pc in
      map_option (\<lambda>pad. (sh\<lparr>sh_packet_count := pc, sh_stage_idx := skip_stages (sh_stages sh) pc (sh_stage_idx sh)\<rparr>,
                         HEADER_LEN + raw_len + pad, pad))
        (if raw_len < threshold
         then map_option (\<lambda>wanted. min wanted (sh_seal_threshold sh - raw_len)) (se_rng env pc (fst range) (snd range))
         else Some 0))"
proof -
  let ?pc = "sh_packet_count sh + 1"
  let ?r = "skip_stages (sh_stages sh) ?pc (sh_stage_idx sh)"
  have "?r \<le> length (sh_stages sh) \<and> (\<forall>i < ?r. rs_end_count (sh_stages sh ! i) < ?pc)
      \<and> (?r < length (sh_stages sh) \<longrightarrow> ?pc \<le> rs_end_count (sh_stages sh ! ?r))"
    using skip_stages_spec [of "sh_stage_idx sh" "sh_stages sh" ?pc] assms
    by (auto simp: stage_pointer_ok_def Let_def less_Suc_eq)
  then have "find (\<lambda>s. ?pc \<le> rs_end_count s) (sh_stages sh)
      = (if ?r < length (sh_stages sh) then Some (sh_stages sh ! ?r) else None)"
    by (intro find_first_index) auto
  then show ?thesis
    by (auto simp: resolve_padding_def stage_padding_def Let_def split: option.splits prod.splits)
qed

lemma stage_pointer_ok_resolve:
  assumes "stage_pointer_ok sh"
  shows "stage_pointer_ok (sh\<lparr>sh_packet_count := sh_packet_count sh + 1,
           sh_stage_idx := skip_stages (sh_stages sh) (sh_packet_count sh + 1) (sh_stage_idx sh)\<rparr>)"
  using skip_stages_spec [of "sh_stage_idx sh" "sh_stages sh" "sh_packet_count sh + 1"] assms
  by (auto simp: stage_pointer_ok_def Let_def less_Suc_eq)

section \<open>Lemmas: well-formed shapers\<close>

definition range_ok :: "nat \<times> nat \<Rightarrow> bool" where
  "range_ok r \<longleftrightarrow> fst r \<le> snd r"

definition shaper_ok :: "shaper \<Rightarrow> bool" where
  "shaper_ok sh \<longleftrightarrow>
     stage_pointer_ok sh \<and> sh_seal_threshold sh = seal_threshold_of (sh_encoding sh)
   \<and> cipher_contract (sh_cipher sh) \<and> range_ok (sh_global_range sh)
   \<and> (\<forall>s\<in>set (sh_stages sh). range_ok (rs_range s)) \<and> length (sh_raw_buf sh) \<le> READ_HIGH_WATER"

definition env_ok :: "shaper_env \<Rightarrow> bool" where
  "env_ok env \<longleftrightarrow>
     base122_correct (se_b122 env) \<and> (\<forall>i. rng_correct (se_rng env i)) \<and> (\<forall>i. length (se_nonce env i) = NONCE_LEN)"

lemma validate_stages_ok: "validate_stages i ss = Ok () \<Longrightarrow> s \<in> set ss \<Longrightarrow> range_ok (sc_range s)"
  by (induction i ss rule: validate_stages.induct) (auto simp: range_ok_def split: if_splits)

lemma validated_ranges:
  assumes "validate_traffic cfg = Ok ()"
  shows "range_ok (rc_global_range (resolve_config cfg))"
    and "\<forall>s\<in>set (rc_stages (resolve_config cfg)). range_ok (rs_range s)"
  using assms validate_stages_ok [of 0 "tc_stages cfg"]
  by (auto simp: validate_traffic_def Let_def resolve_config_def resolve_stage_def range_ok_def split: if_splits)

text \<open>A shaper built from a validated configuration is well formed.\<close>

lemma with_seq_ok:
  assumes "validate_traffic cfg = Ok ()" and "cipher_contract C"
  shows "shaper_ok (with_seq now rnd (resolve_config cfg) C seq)"
  using assms validated_ranges [OF assms(1)]
  by (simp add: shaper_ok_def with_seq_def stage_pointer_ok_def)

lemma stage_padding_range: "shaper_ok sh \<Longrightarrow> range_ok (snd (stage_padding sh pc))"
  by (auto simp: shaper_ok_def stage_padding_def find_Some_iff split: option.splits)

lemma seal_threshold_bounds:
  "0 < seal_threshold_of e" "seal_threshold_of e \<le> frame_raw_limit e" "seal_threshold_of e \<le> READ_HIGH_WATER"
  by (cases e; simp add: seal_threshold_of_def frame_raw_limit_def wire_simps)+

lemma resolve_padding_ok:
  assumes "shaper_ok sh" and "env_ok env" and "raw_len \<le> sh_seal_threshold sh"
  obtains sh' pad where "resolve_padding env sh raw_len = Some (sh', HEADER_LEN + raw_len + pad, pad)"
    and "shaper_ok sh'" and "raw_len + pad \<le> sh_seal_threshold sh"
    and "sh' = sh\<lparr>sh_packet_count := sh_packet_count sh + 1, sh_stage_idx := sh_stage_idx sh'\<rparr>"
proof -
  let ?pc = "sh_packet_count sh + 1"
  obtain th lo hi where st: "stage_padding sh ?pc = (th, lo, hi)" by (metis prod.collapse)
  have "lo \<le> hi" using stage_padding_range [OF assms(1), of ?pc] st by (simp add: range_ok_def)
  moreover have "rng_correct (se_rng env ?pc)" using assms(2) by (simp add: env_ok_def)
  ultimately obtain v where "se_rng env ?pc lo hi = Some v" by (metis rng_correctE)
  then have "resolve_padding env sh raw_len =
     (let pad = (if raw_len < th then min v (sh_seal_threshold sh - raw_len) else 0) in
      Some (sh\<lparr>sh_packet_count := ?pc, sh_stage_idx := skip_stages (sh_stages sh) ?pc (sh_stage_idx sh)\<rparr>,
            HEADER_LEN + raw_len + pad, pad))"
    using assms(1) st by (simp add: resolve_padding_eq shaper_ok_def Let_def)
  moreover have "shaper_ok (sh\<lparr>sh_packet_count := ?pc, sh_stage_idx := skip_stages (sh_stages sh) ?pc (sh_stage_idx sh)\<rparr>)"
    using assms(1) stage_pointer_ok_resolve [of sh] by (simp add: shaper_ok_def)
  ultimately show thesis using assms(3) by (intro that) (auto simp: Let_def)
qed

section \<open>Lemmas: sealing and polling\<close>

definition same_wire :: "shaper \<Rightarrow> shaper \<Rightarrow> bool" where
  "same_wire sh sh' \<longleftrightarrow> sh_cipher sh' = sh_cipher sh \<and> sh_encoding sh' = sh_encoding sh"

text \<open>The bytes a shaper still has to send: what it has buffered, then what the script will deliver.\<close>

definition unsent :: "shaper \<Rightarrow> read_event list \<Rightarrow> bytes" where
  "unsent sh rd = sh_raw_buf sh @ script_bytes rd"

lemma seal_payload_ok:
  assumes "cipher_contract C" and "base122_correct B" and n: "length nonce = NONCE_LEN"
    and cap: "length data + pad \<le> frame_raw_limit encoding"
  shows "\<exists>f. (case encoding of
                Binary \<Rightarrow> put_binary_frame C nonce out seq data pad
              | Json \<Rightarrow> rbind (fc_seal_in_place C nonce (replicate NONCE_LEN 0 @ frame_payload seq data pad) 0 NONCE_LEN)
                         (\<lambda>enc_buf. Ok (put_json_line B out enc_buf))) = Ok (out @ f)
           \<and> decodes_as B C encoding f seq data"
proof (cases encoding)
  case Binary
  then show ?thesis using put_binary_frame_ok [OF assms(1) n] cap by (simp add: frame_raw_limit_def)
next
  case Json
  then have c: "length data + pad \<le> JSON_PAYLOAD_CAP" using cap by (simp add: frame_raw_limit_def)
  then have "length (frame_payload seq data pad) \<le> GCM_MAX"
    using small_payload_GCM [of "length data + pad"] JSON_PAYLOAD_CAP_le by simp
  then obtain s where "fc_seal_in_place C nonce (replicate NONCE_LEN 0 @ frame_payload seq data pad) 0 NONCE_LEN = Ok s"
      and "length s = length (frame_payload seq data pad) + 28" and op: "opens_to C s (frame_payload seq data pad)"
    using cipher_contract_seal [OF assms(1) n, of "frame_payload seq data pad" 0 "replicate NONCE_LEN 0"] by auto
  then have "length s = length data + pad + 38" by simp
  from decodes_as_json [OF assms(2) op this c] have "decodes_as B C Json (put_json_line B [] s) seq data" ..
  with \<open>fc_seal_in_place C nonce _ 0 NONCE_LEN = Ok s\<close> Json show ?thesis
    by (auto simp: put_json_line_append [of B out])
qed

lemma seal_into_ok:
  assumes ok: "shaper_ok sh" and env: "env_ok env" and ne: "sh_raw_buf sh \<noteq> []"
  shows "\<exists>sh' f data. seal_into env sh out = Some (sh', Ok (sh_seq sh, out @ f))
     \<and> decodes_as (se_b122 env) (sh_cipher sh) (sh_encoding sh) f (sh_seq sh) data
     \<and> data \<noteq> [] \<and> sh_raw_buf sh = data @ sh_raw_buf sh'
     \<and> shaper_ok sh' \<and> same_wire sh sh' \<and> sh_seq sh' = sh_seq sh + 1"
proof -
  let ?n = "min (length (sh_raw_buf sh)) (sh_seal_threshold sh)"
  let ?sh = "sh\<lparr>sh_timer_armed := False, sh_seq := sh_seq sh + 1\<rparr>"
  let ?data = "take ?n (sh_raw_buf sh)"
  have okt: "shaper_ok ?sh" using ok by (simp add: shaper_ok_def stage_pointer_ok_def)
  have le: "?n \<le> sh_seal_threshold ?sh" by simp
  obtain sh1 pad where rp: "resolve_padding env ?sh ?n = Some (sh1, HEADER_LEN + ?n + pad, pad)"
      and ok1: "shaper_ok sh1" and cap: "?n + pad \<le> sh_seal_threshold ?sh"
      and sh1: "sh1 = ?sh\<lparr>sh_packet_count := sh_packet_count ?sh + 1, sh_stage_idx := sh_stage_idx sh1\<rparr>"
    by (rule resolve_padding_ok [OF okt env le])
  have th: "0 < sh_seal_threshold sh" "sh_seal_threshold sh \<le> frame_raw_limit (sh_encoding sh)"
    using ok seal_threshold_bounds by (simp_all add: shaper_ok_def)
  have fields: "sh_cipher sh1 = sh_cipher sh" "sh_encoding sh1 = sh_encoding sh" "sh_raw_buf sh1 = sh_raw_buf sh"
      "sh_seq sh1 = sh_seq sh + 1"
    by (subst sh1, simp)+
  have "length ?data + pad \<le> frame_raw_limit (sh_encoding sh)" using cap th by simp
  then obtain f where "(case sh_encoding sh of
         Binary \<Rightarrow> put_binary_frame (sh_cipher sh) (se_nonce env (sh_packet_count sh1)) out (sh_seq sh) ?data pad
       | Json \<Rightarrow> rbind (fc_seal_in_place (sh_cipher sh) (se_nonce env (sh_packet_count sh1))
                  (replicate NONCE_LEN 0 @ frame_payload (sh_seq sh) ?data pad) 0 NONCE_LEN)
                  (\<lambda>enc_buf. Ok (put_json_line (se_b122 env) out enc_buf))) = Ok (out @ f)"
      and dec: "decodes_as (se_b122 env) (sh_cipher sh) (sh_encoding sh) f (sh_seq sh) ?data"
    using seal_payload_ok [of "sh_cipher sh" "se_b122 env" "se_nonce env (sh_packet_count sh1)" ?data pad "sh_encoding sh" "sh_seq sh" out]
      ok env by (auto simp: shaper_ok_def env_ok_def)
  then have "seal_into env sh out
      = Some (sh1\<lparr>sh_raw_buf := drop ?n (sh_raw_buf sh)\<rparr>, Ok (sh_seq sh, out @ f))"
    using rp fields by (cases "sh_encoding sh") (simp_all add: seal_into_def Let_def)
  moreover have "shaper_ok (sh1\<lparr>sh_raw_buf := drop ?n (sh_raw_buf sh)\<rparr>)"
    using ok1 ok by (auto simp: shaper_ok_def stage_pointer_ok_def)
  moreover have "?data \<noteq> []" using ne th by simp
  moreover have "sh_raw_buf sh = ?data @ drop ?n (sh_raw_buf sh)" by simp
  ultimately show ?thesis using dec fields
    by (intro exI [of _ "sh1\<lparr>sh_raw_buf := drop ?n (sh_raw_buf sh)\<rparr>"] exI [of _ f] exI [of _ ?data])
      (simp add: same_wire_def)
qed

text \<open>What one poll may have done, by its result.\<close>

definition seal_outcome :: "base122 \<Rightarrow> shaper \<Rightarrow> read_event list \<Rightarrow> bytes \<Rightarrow> seal_poll \<Rightarrow> bool" where
  "seal_outcome B sh rd out r \<longleftrightarrow>
     (let (sh', rd', p) = r in
      shaper_ok sh' \<and> same_wire sh sh' \<and> (RData [] \<notin> set rd \<longrightarrow> RData [] \<notin> set rd')
    \<and> (case p of
         Pending \<Rightarrow> unsent sh' rd' = unsent sh rd \<and> sh_seq sh' = sh_seq sh
       | Ready (Err e) \<Rightarrow> unsent sh' rd' = unsent sh rd \<and> sh_seq sh' = sh_seq sh \<and> RErr e \<in> set rd
       | Ready (Ok None) \<Rightarrow> unsent sh' rd' = unsent sh rd \<and> sh_seq sh' = sh_seq sh \<and> sh_raw_buf sh' = []
                            \<and> (RData [] \<notin> set rd \<longrightarrow> rd' = [])
       | Ready (Ok (Some (seq, buf))) \<Rightarrow>
           seq = sh_seq sh \<and> sh_seq sh' = sh_seq sh + 1
         \<and> (\<exists>f data. buf = out @ f \<and> decodes_as B (sh_cipher sh) (sh_encoding sh) f seq data \<and> data \<noteq> []
              \<and> unsent sh rd = data @ unsent sh' rd')))"

lemma seal_now_outcome:
  assumes "shaper_ok sh" and "env_ok env" and "sh_raw_buf sh \<noteq> []"
  shows "\<exists>r. seal_now env sh rd out = Some r \<and> seal_outcome (se_b122 env) sh rd out r"
proof -
  obtain sh' f data where "seal_into env sh out = Some (sh', Ok (sh_seq sh, out @ f))"
      and "decodes_as (se_b122 env) (sh_cipher sh) (sh_encoding sh) f (sh_seq sh) data"
      and "data \<noteq> []" and "sh_raw_buf sh = data @ sh_raw_buf sh'"
      and "shaper_ok sh'" and "same_wire sh sh'" and "sh_seq sh' = sh_seq sh + 1"
    using seal_into_ok [OF assms] by blast
  then show ?thesis by (auto simp: seal_now_def seal_outcome_def unsent_def)
qed

text \<open>A poll that only read into the buffer first has the outcome of the rest of the poll.\<close>

lemma seal_outcome_trans:
  assumes "seal_outcome B sh1 rd1 out r" and "unsent sh1 rd1 = unsent sh rd" and "sh_seq sh1 = sh_seq sh"
    and "same_wire sh sh1" and "RData [] \<notin> set rd \<longrightarrow> RData [] \<notin> set rd1"
    and "\<forall>e. RErr e \<in> set rd1 \<longrightarrow> RErr e \<in> set rd"
  shows "seal_outcome B sh rd out r"
  using assms by (cases r) (auto simp: seal_outcome_def same_wire_def split: guard_splits option.splits)

lemma seal_outcome_quiet:
  assumes "shaper_ok sh1" and "same_wire sh sh1" and "RData [] \<notin> set rd \<longrightarrow> RData [] \<notin> set rd1"
    and "unsent sh1 rd1 = unsent sh rd" and "sh_seq sh1 = sh_seq sh"
  shows "seal_outcome B sh rd out (sh1, rd1, Pending)"
  using assms by (simp add: seal_outcome_def)

lemma arm_timer_ok:
  assumes "shaper_ok sh" and "sh1 = (if \<not> sh_timer_armed sh then sh\<lparr>sh_timer := d, sh_cursor := c, sh_timer_armed := True\<rparr> else sh)"
  shows "shaper_ok sh1 \<and> same_wire sh sh1 \<and> sh_raw_buf sh1 = sh_raw_buf sh \<and> sh_seq sh1 = sh_seq sh"
  using assms by (auto simp: shaper_ok_def stage_pointer_ok_def same_wire_def)

lemma seal_after_read:
  assumes ok: "shaper_ok sh1" and env: "env_ok env" and raw: "sh_raw_buf sh1 = sh_raw_buf sh" "sh_raw_buf sh \<noteq> []"
    and same: "same_wire sh sh1" "sh_seq sh1 = sh_seq sh" "script_bytes rd' = script_bytes rd"
    and mono: "RData [] \<notin> set rd \<longrightarrow> RData [] \<notin> set rd'" "\<forall>e. RErr e \<in> set rd' \<longrightarrow> RErr e \<in> set rd"
  shows "\<exists>r. seal_now env sh1 rd' out = Some r \<and> seal_outcome (se_b122 env) sh rd out r"
proof -
  obtain r where "seal_now env sh1 rd' out = Some r" and "seal_outcome (se_b122 env) sh1 rd' out r"
    using seal_now_outcome [OF ok env, of rd' out] raw by metis
  with raw same mono show ?thesis by (auto intro: seal_outcome_trans simp: unsent_def)
qed

lemma pending_outcome:
  assumes env: "env_ok env" and ok: "shaper_ok sh" and below: "length (sh_raw_buf sh) < sh_seal_threshold sh"
    and pr: "poll_read rd (READ_HIGH_WATER - length (sh_raw_buf sh)) = (rd', Pending)"
    and bytes: "script_bytes rd' = script_bytes rd"
    and mono: "RData [] \<notin> set rd \<longrightarrow> RData [] \<notin> set rd'" "\<forall>e. RErr e \<in> set rd' \<longrightarrow> RErr e \<in> set rd"
  shows "\<exists>r. poll_fill_and_seal env elapsed now sh rd out = Some r \<and> seal_outcome (se_b122 env) sh rd out r"
proof (cases "sh_raw_buf sh = []")
  case True
  then have "poll_fill_and_seal env elapsed now sh rd out = Some (sh, rd', Pending)"
    using below pr by (simp add: poll_fill_and_seal.simps [of env elapsed now sh])
  moreover have "seal_outcome (se_b122 env) sh rd out (sh, rd', Pending)"
    using ok bytes mono by (intro seal_outcome_quiet) (auto simp: unsent_def same_wire_def)
  ultimately show ?thesis by blast
next
  case False
  define sh1 where "sh1 = (if \<not> sh_timer_armed sh
      then sh\<lparr>sh_timer := now + se_jitter env (sh_cursor sh),
              sh_cursor := (sh_cursor sh + 1) mod TABLE_SIZE, sh_timer_armed := True\<rparr> else sh)"
  note a = arm_timer_ok [OF ok sh1_def]
  have eq: "poll_fill_and_seal env elapsed now sh rd out
      = (if elapsed (sh_timer sh1) then seal_now env sh1 rd' out else Some (sh1, rd', Pending))"
    using False below pr by (simp add: poll_fill_and_seal.simps [of env elapsed now sh] sh1_def Let_def)
  have "seal_outcome (se_b122 env) sh rd out (sh1, rd', Pending)"
    using a bytes mono by (intro seal_outcome_quiet) (auto simp: unsent_def)
  moreover have "\<exists>r. seal_now env sh1 rd' out = Some r \<and> seal_outcome (se_b122 env) sh rd out r"
    using a env False bytes mono by (intro seal_after_read) auto
  ultimately show ?thesis using eq by auto
qed

lemma poll_fill_and_seal_outcome:
  "env_ok env \<Longrightarrow> shaper_ok sh \<Longrightarrow>
     \<exists>r. poll_fill_and_seal env elapsed now sh rd out = Some r \<and> seal_outcome (se_b122 env) sh rd out r"
proof (induction env elapsed now sh rd out rule: poll_fill_and_seal.induct)
  case (1 env elapsed now sh rd out)
  note env = \<open>env_ok env\<close> and ok = \<open>shaper_ok sh\<close>
  note unfold = poll_fill_and_seal.simps [of env elapsed now sh rd out]
  have thr: "0 < sh_seal_threshold sh" "sh_seal_threshold sh \<le> READ_HIGH_WATER"
    using ok seal_threshold_bounds by (simp_all add: shaper_ok_def)
  let ?rem = "READ_HIGH_WATER - length (sh_raw_buf sh)"
  obtain rd' p where pr: "poll_read rd ?rem = (rd', p)" by fastforce
  consider (full) "length (sh_raw_buf sh) \<ge> sh_seal_threshold sh"
    | (pending) "\<not> length (sh_raw_buf sh) \<ge> sh_seal_threshold sh" "p = Pending"
    | (err) e where "\<not> length (sh_raw_buf sh) \<ge> sh_seal_threshold sh" "p = Ready (Err e)"
    | (eof) "\<not> length (sh_raw_buf sh) \<ge> sh_seal_threshold sh" "p = Ready (Ok [])"
    | (got) got where "\<not> length (sh_raw_buf sh) \<ge> sh_seal_threshold sh" "p = Ready (Ok got)" "got \<noteq> []"
    by (metis poll.exhaust result.exhaust)
  then show ?case
  proof cases
    case full
    then have "sh_raw_buf sh \<noteq> []" using thr by auto
    from seal_now_outcome [OF ok env this] full unfold show ?thesis by simp
  next
    case pending
    with poll_read_outcome [OF pr] thr show ?thesis by (intro pending_outcome [OF env ok _ pr [unfolded pending(2)]]) auto
  next
    case err
    with poll_read_outcome [OF pr] thr unfold pr ok show ?thesis
      by (auto simp: seal_outcome_def unsent_def same_wire_def)
  next
    case eof
    have "\<exists>r. seal_now env sh rd' out = Some r \<and> seal_outcome (se_b122 env) sh rd out r" if "sh_raw_buf sh \<noteq> []"
      using that poll_read_outcome [OF pr] eof thr ok env by (intro seal_after_read) (auto simp: same_wire_def)
    with poll_read_outcome [OF pr] thr unfold pr ok eof show ?thesis
      by (cases "sh_raw_buf sh = []") (auto simp: seal_outcome_def unsent_def same_wire_def)
  next
    case got
    note out = poll_read_outcome [OF pr]
    let ?sh = "sh\<lparr>sh_raw_buf := sh_raw_buf sh @ got\<rparr>"
    have "shaper_ok ?sh" using ok out got thr by (auto simp: shaper_ok_def stage_pointer_ok_def)
    then obtain r where r: "poll_fill_and_seal env elapsed now ?sh rd' out = Some r"
        and so: "seal_outcome (se_b122 env) ?sh rd' out r"
      using 1(1) [OF got(1) refl pr [symmetric, unfolded got(2)] refl refl got(3) env] by blast
    have "seal_outcome (se_b122 env) sh rd out r"
      using so out got thr by (intro seal_outcome_trans [OF so]) (auto simp: unsent_def same_wire_def)
    then show ?thesis using unfold pr got r by simp
  qed
qed

section \<open>Lemmas: a whole stream\<close>

definition frame_list_ok :: "base122 \<Rightarrow> frame_cipher \<Rightarrow> encoding_type \<Rightarrow> u64 \<Rightarrow> (u64 \<times> bytes) list \<Rightarrow> bytes list \<Rightarrow> bool" where
  "frame_list_ok B C encoding seq fs ds \<longleftrightarrow>
     map fst fs = map (\<lambda>i. seq + of_nat i) [0..<length fs]
   \<and> list_all2 (\<lambda>(n, f) d. decodes_as B C encoding f n d \<and> d \<noteq> []) fs ds"

lemma frame_list_ok_Nil: "frame_list_ok B C encoding seq [] []"
  by (simp add: frame_list_ok_def)

lemma frame_list_ok_Cons:
  assumes "frame_list_ok B C encoding (seq + 1) fs ds" and "decodes_as B C encoding f seq d" and "d \<noteq> []"
  shows "frame_list_ok B C encoding seq ((seq, f) # fs) (d # ds)"
proof -
  have "map (\<lambda>i. seq + of_nat i) [0..<length ((seq, f) # fs)] = seq # map (\<lambda>i. seq + 1 + of_nat i) [0..<length fs]"
    by (simp add: upt_conv_Cons map_Suc_upt [symmetric] o_def algebra_simps del: upt_Suc)
  then show ?thesis using assms by (simp add: frame_list_ok_def del: upt_Suc)
qed

lemma frame_list_ok_ConsE:
  assumes "frame_list_ok B C encoding seq ((n, f) # fs) ds"
  obtains d ds' where "ds = d # ds'" and "n = seq" and "decodes_as B C encoding f seq d" and "d \<noteq> []"
    and "frame_list_ok B C encoding (seq + 1) fs ds'"
proof -
  have "map (\<lambda>i. seq + of_nat i) [0..<length ((n, f) # fs)] = seq # map (\<lambda>i. seq + 1 + of_nat i) [0..<length fs]"
    by (simp add: upt_conv_Cons map_Suc_upt [symmetric] o_def algebra_simps del: upt_Suc)
  then show thesis using assms that by (auto simp: frame_list_ok_def list_all2_Cons1 simp del: upt_Suc)
qed

lemma frame_list_ok_snoc:
  assumes "frame_list_ok B C enc seq fs ds" and "decodes_as B C enc f (seq + of_nat (length fs)) d" and "d \<noteq> []"
  shows "frame_list_ok B C enc seq (fs @ [(seq + of_nat (length fs), f)]) (ds @ [d])"
  using assms by (auto simp: frame_list_ok_def list_all2_appendI)

lemma collect_frames_outcome:
  assumes env: "env_ok env"
  shows "shaper_ok sh \<Longrightarrow> \<exists>sh' rd' fs stop ds. collect_frames env polls sh rd = Some (sh', rd', fs, stop)
     \<and> frame_list_ok (se_b122 env) (sh_cipher sh) (sh_encoding sh) (sh_seq sh) fs ds
     \<and> unsent sh rd = concat ds @ unsent sh' rd'
     \<and> (stop = Some (Ok ()) \<and> RData [] \<notin> set rd \<longrightarrow> unsent sh' rd' = [])"
proof (induction polls arbitrary: sh rd)
  case Nil
  then show ?case by (auto intro: frame_list_ok_Nil exI [of _ "[]"])
next
  case (Cons poll polls)
  obtain elapsed now where poll: "poll = (elapsed, now)" by fastforce
  obtain sh1 rd1 p where r: "poll_fill_and_seal env elapsed now sh rd [] = Some (sh1, rd1, p)"
      and so: "seal_outcome (se_b122 env) sh rd [] (sh1, rd1, p)"
    using poll_fill_and_seal_outcome [OF env Cons.prems, of elapsed now rd "[]"] by (metis prod.collapse)
  note step = poll r shaper_poll_next_def
  have ok1: "shaper_ok sh1" and sw: "same_wire sh sh1" and mono: "RData [] \<notin> set rd \<longrightarrow> RData [] \<notin> set rd1"
    using so by (auto simp: seal_outcome_def)
  note IH = Cons.IH [OF ok1, of rd1]
  show ?case
  proof (cases p)
    case Pending
    with IH so sw step mono show ?thesis by (auto simp: seal_outcome_def same_wire_def)
  next
    case (Ready res)
    consider (err) e where "res = Err e" | (eof) "res = Ok None" | (frame) seq f where "res = Ok (Some (seq, f))"
      by (metis option.exhaust result.exhaust surj_pair)
    then show ?thesis
    proof cases
      case err
      with Ready so step show ?thesis by (auto simp: seal_outcome_def intro: frame_list_ok_Nil exI [of _ "[]"])
    next
      case eof
      with Ready so step show ?thesis
        by (auto simp: seal_outcome_def unsent_def intro: frame_list_ok_Nil exI [of _ "[]"])
    next
      case frame
      with so Ready obtain d where seq: "seq = sh_seq sh" "sh_seq sh1 = sh_seq sh + 1"
          and d: "decodes_as (se_b122 env) (sh_cipher sh) (sh_encoding sh) f (sh_seq sh) d" "d \<noteq> []"
          and u: "unsent sh rd = d @ unsent sh1 rd1"
        by (auto simp: seal_outcome_def)
      have wire: "sh_cipher sh1 = sh_cipher sh" "sh_encoding sh1 = sh_encoding sh" using sw by (simp_all add: same_wire_def)
      from IH obtain sh' rd' fs stop ds where run: "collect_frames env polls sh1 rd1 = Some (sh', rd', fs, stop)"
          and fl: "frame_list_ok (se_b122 env) (sh_cipher sh) (sh_encoding sh) (sh_seq sh + 1) fs ds"
          and u1: "unsent sh1 rd1 = concat ds @ unsent sh' rd'"
          and fin: "stop = Some (Ok ()) \<and> RData [] \<notin> set rd1 \<longrightarrow> unsent sh' rd' = []"
        unfolding wire seq(2) by blast
      have "collect_frames env (poll # polls) sh rd = Some (sh', rd', (sh_seq sh, f) # fs, stop)"
        using step Ready frame run seq by simp
      moreover note frame_list_ok_Cons [OF fl d]
      moreover have "unsent sh rd = concat (d # ds) @ unsent sh' rd'" using u u1 by simp
      ultimately show ?thesis using fin mono by blast
    qed
  qed
qed

section \<open>Properties\<close>

text \<open>C2: the shaper neither loses, duplicates nor reorders a byte. However the socket delivers its data and
  whenever the consumer polls, a well-formed shaper does not panic, the frames carry consecutive sequence
  numbers from the current one, each decodes to a non-empty payload, the payloads in order followed by what is
  still buffered or unread are exactly the input, and when the stream reports its end nothing is left.\<close>

theorem shaper_conserves_bytes:
  assumes "env_ok env" and "shaper_ok sh"
  shows "\<exists>sh' rd' fs stop ds. collect_frames env polls sh rd = Some (sh', rd', fs, stop)
     \<and> map fst fs = map (\<lambda>i. sh_seq sh + of_nat i) [0..<length fs]
     \<and> list_all2 (\<lambda>(n, f) d. decodes_as (se_b122 env) (sh_cipher sh) (sh_encoding sh) f n d \<and> d \<noteq> []) fs ds
     \<and> sh_raw_buf sh @ script_bytes rd = concat ds @ sh_raw_buf sh' @ script_bytes rd'
     \<and> (stop = Some (Ok ()) \<and> RData [] \<notin> set rd \<longrightarrow> sh_raw_buf sh' @ script_bytes rd' = [])"
  using collect_frames_outcome [OF assms, of polls rd] by (simp add: frame_list_ok_def unsent_def)

text \<open>The moving stage pointer of \<open>resolve_padding\<close> is an optimisation only. From a well-formed state the
  threshold and range it uses are those of the first stage, searched from the start, whose end count has not
  been passed by the packet number, or the global ones; the padded payload never exceeds the seal threshold.\<close>

theorem resolve_padding_stage:
  assumes "shaper_ok sh" and "env_ok env" and "raw_len \<le> sh_seal_threshold sh"
    and "stage_padding sh (sh_packet_count sh + 1) = (threshold, lo, hi)"
  shows "\<exists>sh' pad. resolve_padding env sh raw_len = Some (sh', HEADER_LEN + raw_len + pad, pad)
     \<and> raw_len + pad \<le> sh_seal_threshold sh \<and> shaper_ok sh' \<and> sh_packet_count sh' = sh_packet_count sh + 1
     \<and> (if raw_len < threshold then min lo (sh_seal_threshold sh - raw_len) \<le> pad \<and> pad \<le> hi else pad = 0)"
proof -
  obtain sh' pad where rp: "resolve_padding env sh raw_len = Some (sh', HEADER_LEN + raw_len + pad, pad)"
      and ok: "shaper_ok sh'" "raw_len + pad \<le> sh_seal_threshold sh"
      and sh': "sh' = sh\<lparr>sh_packet_count := sh_packet_count sh + 1, sh_stage_idx := sh_stage_idx sh'\<rparr>"
    using assms(1-3) by (rule resolve_padding_ok)
  have "sh_packet_count sh' = sh_packet_count sh + 1" by (subst sh') simp
  moreover have "lo \<le> hi" using stage_padding_range [OF assms(1)] assms(4) by (metis fst_conv range_ok_def snd_conv)
  then obtain v where "se_rng env (sh_packet_count sh + 1) lo hi = Some v" "lo \<le> v" "v \<le> hi"
    using assms(2) by (metis env_ok_def rng_correctE)
  ultimately show ?thesis
    using rp ok assms(1,4) by (auto simp: resolve_padding_eq shaper_ok_def Let_def split: if_splits)
qed

section \<open>Examples\<close>

definition example_env :: shaper_env where
  "example_env = \<lparr>se_b122 = positional122, se_rng = (\<lambda>_. low_rng), se_nonce = (\<lambda>_. replicate 12 1), se_jitter = (\<lambda>_. 5)\<rparr>"

definition example_config :: traffic_config where
  "example_config = \<lparr>tc_global = \<lparr>pc_threshold = 64, pc_range = (3, 9)\<rparr>,
     tc_stages = [\<lparr>sc_count = Some 2, sc_count_range = None, sc_threshold = 100, sc_range = (5, 8)\<rparr>],
     tc_encoding_type = Binary, tc_max_download_bytes = None\<rparr>"

lemma example_env_ok: "env_ok example_env"
  by (simp add: env_ok_def example_env_def positional122_correct low_rng_correct wire_simps)

lemma example_shaper_ok: "shaper_ok (with_seq 0 0 (resolve_config example_config) example_cipher 40)"
  by (rule with_seq_ok [OF _ example_cipher_contract]) (simp add: validate_traffic_def example_config_def)

theorem shaper_conserves_bytes_witness:
  "\<exists>sh' rd' fs stop ds.
     collect_frames example_env [(\<lambda>_. False, 0), (\<lambda>_. True, 9), (\<lambda>_. True, 9)]
       (with_seq 0 0 (resolve_config example_config) example_cipher 40) [RData [1, 2], RPending, RPending]
       = Some (sh', rd', fs, stop)
     \<and> map fst fs = map (\<lambda>i. 40 + of_nat i) [0..<length fs]
     \<and> [1, 2] = concat ds @ sh_raw_buf sh' @ script_bytes rd'"
  using shaper_conserves_bytes [OF example_env_ok example_shaper_ok,
      of "[(\<lambda>_. False, 0), (\<lambda>_. True, 9), (\<lambda>_. True, 9)]" "[RData [1, 2], RPending, RPending]"]
  by (simp add: with_seq_def) blast

theorem resolve_padding_stage_witness:
  "\<exists>sh' pad. resolve_padding example_env (with_seq 0 0 (resolve_config example_config) example_cipher 40) 7
       = Some (sh', HEADER_LEN + 7 + pad, pad) \<and> 5 \<le> pad \<and> pad \<le> 8"
proof -
  let ?sh = "with_seq 0 0 (resolve_config example_config) example_cipher 40"
  have "stage_padding ?sh (sh_packet_count ?sh + 1) = (100, 5, 8)"
    by (simp add: stage_padding_def with_seq_def resolve_config_def example_config_def resolve_stage_def)
  moreover have t: "sh_seal_threshold ?sh = 16344"
    by (simp add: with_seq_def resolve_config_def example_config_def seal_threshold_of_def wire_simps)
  ultimately show ?thesis
    using resolve_padding_stage [OF example_shaper_ok example_env_ok, of 7 100 5 8] by fastforce
qed

end
