(* ===== verification/Buf_Pool.thy ===== *)
theory Buf_Pool
  imports Interfaces
begin

text \<open>
  The per-thread pool of byte buffers, \<^verbatim>\<open>src/src/shaper/bufpool.rs\<close>. A \<open>Vec<u8>\<close> is its capacity and its
  contents; \<open>alloc\<close> stands for the allocator, which returns at least the requested capacity.

  Lemmas: \<open>take\<close> returns an empty buffer that is large enough and the best fit, the byte count is exact, and
  the pool never holds more than 64 buffers or 16 MB (an interpretation of \<open>bounded_machine\<close>).
\<close>

section \<open>The pool\<close>

definition MAX_FREE :: nat where "MAX_FREE = 64"
definition MAX_BUFFER :: nat where "MAX_BUFFER = 4 * 1024 * 1024"
definition MAX_BYTES :: nat where "MAX_BYTES = 16 * 1024 * 1024"

record vec =
  v_cap :: nat
  v_data :: bytes

record free_list =
  fl_bufs :: "vec list"
  fl_bytes :: nat

definition empty_free :: free_list where
  "empty_free = \<lparr>fl_bufs = [], fl_bytes = 0\<rparr>"

text \<open>The search loop of \<open>take\<close>: the index of the first buffer with the smallest sufficient capacity.\<close>

function best_fit :: "vec list \<Rightarrow> nat \<Rightarrow> nat \<Rightarrow> nat option \<Rightarrow> nat option" where
  "best_fit bufs min_capacity i best =
     (if i < length bufs
      then (if v_cap (bufs ! i) < min_capacity then best_fit bufs min_capacity (Suc i) best
            else if (case best of None \<Rightarrow> True | Some b \<Rightarrow> v_cap (bufs ! i) < v_cap (bufs ! b))
                 then best_fit bufs min_capacity (Suc i) (Some i)
                 else best_fit bufs min_capacity (Suc i) best)
      else best)"
  by pat_completeness auto
termination by (relation "measure (\<lambda>(bufs, n, i, best). length bufs - i)") auto

declare best_fit.simps [simp del]

definition pool_take :: "(nat \<Rightarrow> nat) \<Rightarrow> nat \<Rightarrow> free_list \<Rightarrow> vec \<times> free_list" where
  "pool_take alloc min_capacity free =
     (case best_fit (fl_bufs free) min_capacity 0 None of
        Some idx \<Rightarrow>
          (let (buf, rest) = swap_remove idx (fl_bufs free) in
           (buf\<lparr>v_data := []\<rparr>, free\<lparr>fl_bufs := rest, fl_bytes := fl_bytes free - v_cap buf\<rparr>))
      | None \<Rightarrow> (\<lparr>v_cap = alloc min_capacity, v_data = []\<rparr>, free))"

definition pool_put :: "vec \<Rightarrow> free_list \<Rightarrow> free_list" where
  "pool_put buf free =
     (let cap = v_cap buf in
      if \<not> (1024 \<le> cap \<and> cap \<le> MAX_BUFFER) then free
      else (let buf = buf\<lparr>v_data := []\<rparr> in
            if length (fl_bufs free) \<ge> MAX_FREE \<or> fl_bytes free + cap > MAX_BYTES then free
            else free\<lparr>fl_bytes := fl_bytes free + cap, fl_bufs := fl_bufs free @ [buf]\<rparr>))"

text \<open>\<open>PooledBuf\<close>: the owner of a \<open>Bytes\<close>; dropping it returns the buffer to the pool once.\<close>

record pooled_buf =
  pb_buf :: "vec option"

definition frame_bytes :: "vec \<Rightarrow> pooled_buf" where
  "frame_bytes buf = \<lparr>pb_buf = Some buf\<rparr>"

definition pooled_as_ref :: "pooled_buf \<Rightarrow> bytes" where
  "pooled_as_ref p = (case pb_buf p of Some buf \<Rightarrow> v_data buf | None \<Rightarrow> [])"

definition pooled_drop :: "pooled_buf \<Rightarrow> free_list \<Rightarrow> pooled_buf \<times> free_list" where
  "pooled_drop p free =
     (case pb_buf p of
        Some buf \<Rightarrow> (p\<lparr>pb_buf := None\<rparr>, pool_put buf free)
      | None \<Rightarrow> (p, free))"

section \<open>Lemmas\<close>

text \<open>What the search knows after looking at the first \<open>i\<close> buffers.\<close>

definition fit_inv :: "vec list \<Rightarrow> nat \<Rightarrow> nat \<Rightarrow> nat option \<Rightarrow> bool" where
  "fit_inv bufs n i best \<longleftrightarrow>
     (case best of
        None \<Rightarrow> \<forall>j < i. v_cap (bufs ! j) < n
      | Some b \<Rightarrow> b < i \<and> n \<le> v_cap (bufs ! b)
           \<and> (\<forall>j < i. n \<le> v_cap (bufs ! j) \<longrightarrow> v_cap (bufs ! b) \<le> v_cap (bufs ! j)))"

lemma fit_inv_skip: "fit_inv bufs n i best \<Longrightarrow> v_cap (bufs ! i) < n \<Longrightarrow> fit_inv bufs n (Suc i) best"
  by (auto simp: fit_inv_def less_Suc_eq split: option.splits)

lemma fit_inv_better:
  "fit_inv bufs n i best \<Longrightarrow> \<not> v_cap (bufs ! i) < n
   \<Longrightarrow> (case best of None \<Rightarrow> True | Some b \<Rightarrow> v_cap (bufs ! i) < v_cap (bufs ! b)) \<Longrightarrow> fit_inv bufs n (Suc i) (Some i)"
  by (auto simp: fit_inv_def less_Suc_eq split: option.splits)

lemma fit_inv_worse:
  "fit_inv bufs n i best \<Longrightarrow> \<not> v_cap (bufs ! i) < n
   \<Longrightarrow> \<not> (case best of None \<Rightarrow> True | Some b \<Rightarrow> v_cap (bufs ! i) < v_cap (bufs ! b)) \<Longrightarrow> fit_inv bufs n (Suc i) best"
  by (auto simp: fit_inv_def less_Suc_eq split: option.splits)

lemma best_fit_spec:
  "i \<le> length bufs \<Longrightarrow> fit_inv bufs n i best \<Longrightarrow> fit_inv bufs n (length bufs) (best_fit bufs n i best)"
proof (induction bufs n i best rule: best_fit.induct)
  case (1 bufs n i best)
  note u = best_fit.simps [of bufs n i best]
  let ?better = "case best of None \<Rightarrow> True | Some b \<Rightarrow> v_cap (bufs ! i) < v_cap (bufs ! b)"
  consider "\<not> i < length bufs" | "i < length bufs" "v_cap (bufs ! i) < n"
    | "i < length bufs" "\<not> v_cap (bufs ! i) < n" ?better | "i < length bufs" "\<not> v_cap (bufs ! i) < n" "\<not> ?better"
    by blast
  then show ?case
  proof cases
    case 1
    then show ?thesis using "1.prems" u by simp
  next
    case 2
    then show ?thesis using "1.IH"(1) "1.prems" u by (simp add: fit_inv_skip)
  next
    case 3
    then show ?thesis using "1.IH"(2) "1.prems" u fit_inv_better [of bufs n i best] by simp
  next
    case 4
    then show ?thesis using "1.IH"(3) "1.prems" u fit_inv_worse [of bufs n i best] by simp
  qed
qed

definition pool_ok :: "free_list \<Rightarrow> bool" where
  "pool_ok free \<longleftrightarrow>
     fl_bytes free = sum_list (map v_cap (fl_bufs free)) \<and> fl_bytes free \<le> MAX_BYTES
   \<and> length (fl_bufs free) \<le> MAX_FREE
   \<and> (\<forall>b\<in>set (fl_bufs free). v_data b = [] \<and> 1024 \<le> v_cap b \<and> v_cap b \<le> MAX_BUFFER)"

lemma pool_ok_limits: "pool_ok free \<Longrightarrow> length (fl_bufs free) \<le> MAX_FREE" "pool_ok free \<Longrightarrow> fl_bytes free \<le> MAX_BYTES"
  by (simp_all add: pool_ok_def)

lemma best_fit_start:
  "case best_fit bufs n 0 None of
     None \<Rightarrow> \<forall>b\<in>set bufs. v_cap b < n
   | Some i \<Rightarrow> i < length bufs \<and> n \<le> v_cap (bufs ! i) \<and> (\<forall>b\<in>set bufs. n \<le> v_cap b \<longrightarrow> v_cap (bufs ! i) \<le> v_cap b)"
  using best_fit_spec [of 0 bufs n None] by (auto simp: fit_inv_def in_set_conv_nth split: option.splits)

lemma pool_put_ok: "pool_ok free \<Longrightarrow> pool_ok (pool_put buf free)"
  by (auto simp: pool_ok_def pool_put_def Let_def)

lemma swap_remove_sum:
  fixes f :: "'a \<Rightarrow> nat"
  assumes "i < length xs"
  shows "f (xs ! i) + sum_list (map f (snd (swap_remove i xs))) = sum_list (map f xs)"
proof -
  have "sum_mset (image_mset f (add_mset (fst (swap_remove i xs)) (mset (snd (swap_remove i xs)))))
      = sum_mset (image_mset f (mset xs))"
    using swap_remove_mset [OF assms] by simp
  then show ?thesis by (simp add: swap_remove_def sum_mset_sum_list [symmetric])
qed

lemma swap_remove_subset: "i < length xs \<Longrightarrow> set (snd (swap_remove i xs)) \<subseteq> set xs"
  using swap_remove_mset [of i xs] by (metis add_mset_remove_trivial in_diffD set_mset_mset subsetI)

lemma pool_take_ok:
  assumes "pool_ok free"
  shows "pool_ok (snd (pool_take alloc n free))"
proof (cases "best_fit (fl_bufs free) n 0 None")
  case None
  then show ?thesis using assms by (simp add: pool_take_def)
next
  case (Some i)
  have i: "i < length (fl_bufs free)" using best_fit_start [of "fl_bufs free" n] Some by simp
  show ?thesis
    using assms Some swap_remove_sum [OF i, of v_cap] swap_remove_subset [OF i] swap_remove_length [OF i]
    by (auto simp: pool_ok_def pool_take_def swap_remove_def)
qed

text \<open>The pool under any sequence of requests.\<close>

datatype pool_event = PoolTake nat | PoolPut vec

fun pool_step :: "(nat \<Rightarrow> nat) \<Rightarrow> pool_event \<Rightarrow> free_list \<Rightarrow> free_list" where
  "pool_step alloc (PoolTake n) free = snd (pool_take alloc n free)"
| "pool_step alloc (PoolPut b) free = pool_put b free"

lemma pool_step_ok: "pool_ok free \<Longrightarrow> pool_ok (pool_step alloc e free)"
  by (cases e) (simp_all add: pool_take_ok pool_put_ok)

interpretation pool_count: bounded_machine "pool_step alloc" pool_ok "\<lambda>f. length (fl_bufs f)" MAX_FREE for alloc
  by unfold_locales (simp_all add: pool_step_ok pool_ok_limits)

interpretation pool_mem: bounded_machine "pool_step alloc" pool_ok fl_bytes MAX_BYTES for alloc
  by unfold_locales (simp_all add: pool_step_ok pool_ok_limits)

section \<open>Properties\<close>

text \<open>The memory the pool retains is bounded. Whatever sequence of takes and puts a thread makes,
  starting from the empty pool, the recorded byte count equals the capacity held, and there are never more than
  64 buffers nor more than 16 MB.\<close>

theorem pool_bounded:
  "let free = fold (pool_step alloc) es empty_free in
     fl_bytes free = sum_list (map v_cap (fl_bufs free)) \<and> fl_bytes free \<le> MAX_BYTES
   \<and> length (fl_bufs free) \<le> MAX_FREE"
proof -
  have ok: "pool_ok empty_free" by (simp add: pool_ok_def empty_free_def)
  then have "pool_ok (fold (pool_step alloc) es empty_free)" by (rule pool_count.inv_run)
  then show ?thesis
    using pool_count.load_run [OF ok, of alloc es] pool_mem.load_run [OF ok, of alloc es]
    by (simp add: pool_ok_def Let_def)
qed

text \<open>A buffer from the pool is always usable. The returned buffer is empty and at least as large as
  asked for; if a pooled buffer suffices, the returned one is a pooled one of the smallest sufficient capacity
  and exactly that buffer leaves the pool, otherwise the pool is unchanged.\<close>

theorem pool_take_best_fit:
  assumes "pool_ok free" and "\<forall>n. n \<le> alloc n" and "pool_take alloc n free = (buf, free')"
  shows "v_data buf = [] \<and> n \<le> v_cap buf
    \<and> (if \<exists>b\<in>set (fl_bufs free). n \<le> v_cap b
       then add_mset buf (mset (fl_bufs free')) = mset (fl_bufs free)
          \<and> (\<forall>b\<in>set (fl_bufs free). n \<le> v_cap b \<longrightarrow> v_cap buf \<le> v_cap b)
       else free' = free)"
proof (cases "best_fit (fl_bufs free) n 0 None")
  case None
  then show ?thesis using assms best_fit_start [of "fl_bufs free" n] by (auto simp: pool_take_def)
next
  case (Some i)
  have i: "i < length (fl_bufs free)" "n \<le> v_cap (fl_bufs free ! i)"
      "\<forall>b\<in>set (fl_bufs free). n \<le> v_cap b \<longrightarrow> v_cap (fl_bufs free ! i) \<le> v_cap b"
    using best_fit_start [of "fl_bufs free" n] Some by auto
  have "v_data (fl_bufs free ! i) = []" using assms(1) i(1) by (simp add: pool_ok_def)
  then have "buf = fl_bufs free ! i" and "fl_bufs free' = snd (swap_remove i (fl_bufs free))"
    using assms(3) Some by (auto simp: pool_take_def swap_remove_def)
  then show ?thesis
    using i \<open>v_data _ = []\<close> swap_remove_mset [OF i(1)] nth_mem [OF i(1)] by (auto simp: swap_remove_def)
qed

theorem pool_take_best_fit_witness:
  "v_data (fst (pool_take id 1500 \<lparr>fl_bufs = [\<lparr>v_cap = 4096, v_data = []\<rparr>, \<lparr>v_cap = 2048, v_data = []\<rparr>], fl_bytes = 6144\<rparr>)) = []
   \<and> 1500 \<le> v_cap (fst (pool_take id 1500 \<lparr>fl_bufs = [\<lparr>v_cap = 4096, v_data = []\<rparr>, \<lparr>v_cap = 2048, v_data = []\<rparr>], fl_bytes = 6144\<rparr>))"
  using pool_take_best_fit [OF _ _ prod.collapse [symmetric],
      of "\<lparr>fl_bufs = [\<lparr>v_cap = 4096, v_data = []\<rparr>, \<lparr>v_cap = 2048, v_data = []\<rparr>], fl_bytes = 6144\<rparr>" id 1500]
  by (auto simp: pool_ok_def MAX_BYTES_def MAX_FREE_def MAX_BUFFER_def)

end
