(* ===== verification/Frame_Decoder.thy ===== *)
theory Frame_Decoder
  imports Framing
begin

text \<open>
  \<open>FrameDecoder\<close>, \<^verbatim>\<open>src/src/server/stream.rs\<close>: turns the body of an upload request, a stream of chunks cut at
  arbitrary places, into frames. The body is a script of chunk events; the end of the script is the end of the
  body.

  Lemmas: however the bytes of a sequence of frames are cut into chunks, the decoder yields exactly these
  frames in order, then the end of the stream or, if the body stops inside a frame, an error; the limit on the
  buffer is never reached with the size the server configures.
\<close>

section \<open>The decoder\<close>

datatype chunk_event = Chunk bytes | CPending | CErr io_error

record frame_decoder =
  fd_buf :: bytes
  fd_scratch :: bytes
  fd_cipher :: frame_cipher
  fd_encoding :: encoding_type
  fd_max_buf_size :: nat
  fd_eos :: bool

definition decoder_new :: "frame_cipher \<Rightarrow> encoding_type \<Rightarrow> nat \<Rightarrow> frame_decoder" where
  "decoder_new cipher encoding max_buf_size =
     \<lparr>fd_buf = [], fd_scratch = [], fd_cipher = cipher, fd_encoding = encoding,
      fd_max_buf_size = max_buf_size, fd_eos = False\<rparr>"

type_synonym decoder_poll = "frame_decoder \<times> chunk_event list \<times> (u64 \<times> bytes, io_error) result option poll"

text \<open>
  The part of the loop body up to the point where the inner stream is polled: \<open>Inl\<close> is a return, \<open>Inr\<close> goes
  on. A JSON frame takes the scratch buffer with it.
\<close>

definition decode_step ::
    "base122 \<Rightarrow> frame_decoder \<Rightarrow> (frame_decoder \<times> (u64 \<times> bytes, io_error) result option) + frame_decoder" where
  "decode_step B d =
     (let (buf, r) = decode_frame B (fd_cipher d) (fd_encoding d) (fd_buf d) (fd_scratch d);
          d = d\<lparr>fd_buf := buf\<rparr>
      in case r of
           Err e \<Rightarrow> Inl (d, Some (Err e))
         | Ok (scratch, Some frame) \<Rightarrow>
             Inl (d\<lparr>fd_scratch := (case frame of InJsonScratch seq start e \<Rightarrow> [] | Owned seq data \<Rightarrow> scratch)\<rparr>,
                  Some (Ok (frame_contents scratch frame)))
         | Ok (scratch, None) \<Rightarrow>
             (let d = d\<lparr>fd_scratch := scratch\<rparr> in
              if fd_eos d
              then (if fd_buf d = [] then Inl (d, None)
                    else Inl (d, Some (Err (IoError InvalidData ''trailing data after last frame''))))
              else if length (fd_buf d) > fd_max_buf_size d
                   then Inl (d, Some (Err (IoError InvalidData ''frame buffer exceeded maximum size'')))
                   else Inr d))"

lemma decode_step_eos: "decode_step B d = Inr d' \<Longrightarrow> \<not> fd_eos d \<and> \<not> fd_eos d'"
  by (auto simp: decode_step_def Let_def split: prod.splits result.splits option.splits if_splits)

function decoder_poll_next :: "base122 \<Rightarrow> frame_decoder \<Rightarrow> chunk_event list \<Rightarrow> decoder_poll" where
  "decoder_poll_next B d inner =
     (case decode_step B d of
        Inl (d, r) \<Rightarrow> (d, inner, Ready r)
      | Inr d \<Rightarrow>
          (case inner of
             Chunk chunk # rest \<Rightarrow>
               decoder_poll_next B (d\<lparr>fd_buf := (if fd_buf d = [] then chunk else fd_buf d @ chunk)\<rparr>) rest
           | CErr e # rest \<Rightarrow> (d, rest, Ready (Some (Err e)))
           | [] \<Rightarrow> decoder_poll_next B (d\<lparr>fd_eos := True\<rparr>) []
           | CPending # rest \<Rightarrow> (d, rest, Pending)))"
  by pat_completeness auto
termination
  by (relation "measure (\<lambda>(B, d, inner). 2 * length inner + (if fd_eos d then 0 else 1))")
    (auto dest: decode_step_eos)

declare decoder_poll_next.simps [simp del]

text \<open>A consumer that polls \<open>n\<close> times and stops at the end of the stream or at an error.\<close>

fun decode_stream ::
    "base122 \<Rightarrow> nat \<Rightarrow> frame_decoder \<Rightarrow> chunk_event list \<Rightarrow> (u64 \<times> bytes) list \<times> (unit, io_error) result option" where
  "decode_stream B 0 d inner = ([], None)"
| "decode_stream B (Suc n) d inner =
     (case decoder_poll_next B d inner of
        (d, inner, Pending) \<Rightarrow> decode_stream B n d inner
      | (d, inner, Ready None) \<Rightarrow> ([], Some (Ok ()))
      | (d, inner, Ready (Some (Err e))) \<Rightarrow> ([], Some (Err e))
      | (d, inner, Ready (Some (Ok f))) \<Rightarrow> (let (fs, r) = decode_stream B n d inner in (f # fs, r)))"

section \<open>Lemmas\<close>

fun chunk_bytes :: "chunk_event list \<Rightarrow> bytes" where
  "chunk_bytes [] = []"
| "chunk_bytes (Chunk c # es) = c @ chunk_bytes es"
| "chunk_bytes (CPending # es) = chunk_bytes es"
| "chunk_bytes (CErr e # es) = chunk_bytes es"

fun no_errors :: "chunk_event list \<Rightarrow> bool" where
  "no_errors [] = True"
| "no_errors (CErr e # es) = False"
| "no_errors (c # es) = no_errors es"

text \<open>An undecided buffer is short, in either encoding.\<close>

lemma undecided_length:
  "decode_frame B C encoding src scratch = (src', Ok (scratch', None)) \<Longrightarrow> src' = src \<and> length src \<le> MAX_JSON_LINE_LEN"
  by (cases encoding)
    (auto simp: decode_frame_def decode_frame_binary_def decode_frame_json_def Let_def rbind_Ok_iff wire_simps
      split: if_splits option.splits prod.splits)

lemma decode_frame_Nil: "decode_frame B C encoding [] scratch = ([], Ok (scratch, None))"
  by (cases encoding) (simp_all add: decode_frame_def decode_frame_binary_def decode_frame_json_def)

text \<open>
  \<open>awaits B d inner fs part\<close>: what is buffered and what is still to come are the frames \<open>fs\<close> followed by the
  beginning \<open>part\<close> of a frame.
\<close>

definition part_of_frame :: "base122 \<Rightarrow> frame_cipher \<Rightarrow> encoding_type \<Rightarrow> bytes \<Rightarrow> bool" where
  "part_of_frame B C encoding part \<longleftrightarrow>
     part = [] \<or> (\<exists>f seq data n. decodes_as B C encoding f seq data \<and> n < length f \<and> part = take n f)"

definition awaits :: "base122 \<Rightarrow> frame_decoder \<Rightarrow> chunk_event list \<Rightarrow> (bytes \<times> u64 \<times> bytes) list \<Rightarrow> bytes \<Rightarrow> bool" where
  "awaits B d inner fs part \<longleftrightarrow>
     (\<forall>(f, seq, data)\<in>set fs. decodes_as B (fd_cipher d) (fd_encoding d) f seq data)
   \<and> part_of_frame B (fd_cipher d) (fd_encoding d) part
   \<and> fd_buf d @ chunk_bytes inner = concat (map fst fs) @ part
   \<and> MAX_JSON_LINE_LEN \<le> fd_max_buf_size d \<and> no_errors inner \<and> (fd_eos d \<longrightarrow> inner = [])"

lemma part_undecided:
  assumes "part_of_frame B C encoding (p @ q)"
  shows "decode_frame B C encoding p scratch = (p, Ok (scratch, None))"
proof (cases "p = []")
  case True
  then show ?thesis by (simp add: decode_frame_Nil)
next
  case False
  with assms obtain f seq data n where f: "decodes_as B C encoding f seq data" "n < length f" "p @ q = take n f"
    by (auto simp: part_of_frame_def)
  then have n: "length (p @ q) \<le> n" by (metis length_take min.cobounded2)
  have "p = take (length p) (take n f)" using f(3) by (metis append_eq_conv_conj)
  then have "p = take (length p) f" using n by (simp add: min_def)
  moreover have "length p < length f" using n f(2) by simp
  ultimately show ?thesis using decodes_as_prefix [OF f(1)] by metis
qed

definition trailing_error :: io_error where
  "trailing_error = IoError InvalidData ''trailing data after last frame''"

text \<open>The result a consumer sees when only \<open>part\<close> is left.\<close>

definition end_result :: "bytes \<Rightarrow> (u64 \<times> bytes, io_error) result option" where
  "end_result part = (if part = [] then None else Some (Err trailing_error))"

lemma decode_step_undecided:
  assumes "decode_frame B (fd_cipher d) (fd_encoding d) (fd_buf d) (fd_scratch d) = (fd_buf d, Ok (fd_scratch d, None))"
    and "MAX_JSON_LINE_LEN \<le> fd_max_buf_size d"
  shows "decode_step B d = (if fd_eos d then Inl (d, end_result (fd_buf d)) else Inr d)"
  using assms undecided_length [OF assms(1)] by (simp add: decode_step_def Let_def end_result_def trailing_error_def)

lemma decode_step_none:
  assumes "awaits B d inner [] part"
  shows "decode_step B d = (if fd_eos d then Inl (d, end_result part) else Inr d)"
proof -
  have "part_of_frame B (fd_cipher d) (fd_encoding d) (fd_buf d @ chunk_bytes inner)"
    using assms by (simp add: awaits_def)
  from part_undecided [OF this] decode_step_undecided [of B d] assms show ?thesis by (auto simp: awaits_def)
qed

lemma decode_step_frame:
  assumes a: "awaits B d inner ((f, seq, data) # fs) part"
  shows "(\<exists>d'. decode_step B d = Inl (d', Some (Ok (seq, data))) \<and> awaits B d' inner fs part)
       \<or> (decode_step B d = Inr d \<and> \<not> fd_eos d)"
proof -
  have dec: "decodes_as B (fd_cipher d) (fd_encoding d) f seq data" using a by (simp add: awaits_def)
  have eq: "fd_buf d @ chunk_bytes inner = f @ concat (map fst fs) @ part" using a by (simp add: awaits_def)
  show ?thesis
  proof (cases "length f \<le> length (fd_buf d)")
    case True
    then have buf: "fd_buf d = f @ drop (length f) (fd_buf d)"
      using eq by (metis append_eq_append_conv_if append_take_drop_id)
    obtain scratch' fr where df: "decode_frame B (fd_cipher d) (fd_encoding d) (fd_buf d) (fd_scratch d)
          = (drop (length f) (fd_buf d), Ok (scratch', Some fr))" and fc: "frame_contents scratch' fr = (seq, data)"
      using decodes_asE [OF dec, of "drop (length f) (fd_buf d)"] buf by metis
    have "drop (length f) (fd_buf d) @ chunk_bytes inner = concat (map fst fs) @ part"
      using eq True by (metis append_eq_append_conv_if append_eq_conv_conj)
    then show ?thesis using a df fc by (auto simp: decode_step_def awaits_def Let_def)
  next
    case False
    then have "fd_buf d = take (length (fd_buf d)) f"
      using eq by (metis append_eq_append_conv_if append_eq_conv_conj linorder_le_cases)
    then have "decode_frame B (fd_cipher d) (fd_encoding d) (fd_buf d) (fd_scratch d) = (fd_buf d, Ok (fd_scratch d, None))"
      using decodes_as_prefix [OF dec, of "length (fd_buf d)"] False by (metis not_le)
    moreover have "\<not> fd_eos d"
    proof
      assume "fd_eos d"
      then have "fd_buf d = f @ concat (map fst fs) @ part" using a eq by (simp add: awaits_def)
      then show False using False by simp
    qed
    ultimately show ?thesis using decode_step_undecided [of B d] a by (simp add: awaits_def)
  qed
qed

lemma awaits_read:
  "awaits B d (Chunk c # rest) fs part \<Longrightarrow>
     awaits B (d\<lparr>fd_buf := (if fd_buf d = [] then c else fd_buf d @ c)\<rparr>) rest fs part"
  "awaits B d (CPending # rest) fs part \<Longrightarrow> awaits B d rest fs part"
  "awaits B d [] fs part \<Longrightarrow> awaits B (d\<lparr>fd_eos := True\<rparr>) [] fs part"
  by (auto simp: awaits_def)

text \<open>What one poll returns to a consumer that awaits the frames \<open>fs\<close> and then \<open>part\<close>.\<close>

definition poll_answer :: "base122 \<Rightarrow> nat \<Rightarrow> (bytes \<times> u64 \<times> bytes) list \<Rightarrow> bytes \<Rightarrow> decoder_poll \<Rightarrow> bool" where
  "poll_answer B n fs part r \<longleftrightarrow>
     (case r of
        (d', inner', Pending) \<Rightarrow> awaits B d' inner' fs part \<and> length inner' < n
      | (d', inner', Ready x) \<Rightarrow>
          (case fs of
             [] \<Rightarrow> x = end_result part
           | (f, seq, data) # fs' \<Rightarrow> x = Some (Ok (seq, data)) \<and> awaits B d' inner' fs' part \<and> length inner' \<le> n))"

lemma poll_answer_mono: "poll_answer B n fs part r \<Longrightarrow> n \<le> m \<Longrightarrow> poll_answer B m fs part r"
  by (auto simp: poll_answer_def split: prod.splits poll.splits list.splits)

lemma decoder_poll_answer:
  "awaits B d inner fs part \<Longrightarrow> poll_answer B (length inner) fs part (decoder_poll_next B d inner)"
proof (induction B d inner rule: decoder_poll_next.induct)
  case (1 B d inner)
  note unfold = decoder_poll_next.simps [of B d inner]
  consider (ret) d' r where "decode_step B d = Inl (d', r)" "poll_answer B (length inner) fs part (d', inner, Ready r)"
    | (go) "decode_step B d = Inr d" "\<not> fd_eos d"
  proof (cases fs)
    case Nil
    then show ?thesis using that decode_step_none [of B d inner part] 1(3) by (cases "fd_eos d") (auto simp: poll_answer_def)
  next
    case (Cons x fs')
    then show ?thesis using that decode_step_frame [of B d inner "fst x" "fst (snd x)" "snd (snd x)" fs' part] 1(3)
      by (cases x) (auto simp: poll_answer_def)
  qed
  then show ?case
  proof cases
    case ret
    then show ?thesis using unfold by simp
  next
    case go
    show ?thesis
    proof (cases inner)
      case Nil
      then show ?thesis using unfold go 1(1) [OF go(1) Nil awaits_read(3)] 1(3) by simp
    next
      case (Cons ev rest)
      show ?thesis
      proof (cases ev)
        case (Chunk c)
        then have "poll_answer B (length rest) fs part
            (decoder_poll_next B (d\<lparr>fd_buf := (if fd_buf d = [] then c else fd_buf d @ c)\<rparr>) rest)"
          using 1(2) [OF go(1) Cons Chunk awaits_read(1)] Cons Chunk 1(3) by simp
        then show ?thesis using unfold go Cons Chunk by (auto intro: poll_answer_mono)
      next
        case CPending
        then show ?thesis using unfold go Cons awaits_read(2) [of B d rest fs part] 1(3) by (simp add: poll_answer_def)
      next
        case (CErr e)
        then show ?thesis using 1(3) Cons by (simp add: awaits_def)
      qed
    qed
  qed
qed

lemma decode_stream_awaits:
  "awaits B d inner fs part \<Longrightarrow> length fs + length inner < n \<Longrightarrow>
     decode_stream B n d inner = (map snd fs, Some (if part = [] then Ok () else Err trailing_error))"
proof (induction n arbitrary: d inner fs)
  case 0
  then show ?case by simp
next
  case (Suc n)
  obtain d' inner' p where poll: "decoder_poll_next B d inner = (d', inner', p)" by (metis prod.collapse)
  have ans: "poll_answer B (length inner) fs part (d', inner', p)"
    using decoder_poll_answer [OF Suc.prems(1)] poll by simp
  show ?case
  proof (cases p)
    case Pending
    then show ?thesis using ans poll Suc.IH [of d' inner' fs] Suc.prems(2) by (simp add: poll_answer_def)
  next
    case (Ready x)
    then show ?thesis
      using ans poll Suc.IH [of d' inner' "tl fs"] Suc.prems(2)
      by (cases fs) (auto simp: poll_answer_def end_result_def)
  qed
qed

section \<open>Properties\<close>

definition MAX_FRAME_BUF_SIZE :: nat where "MAX_FRAME_BUF_SIZE = 18781"

lemma decode_whole_frames:
  assumes "\<forall>(f, seq, data)\<in>set fs. decodes_as B C encoding f seq data" and "chunk_bytes chunks = concat (map fst fs)"
    and "no_errors chunks" and "length fs + length chunks < n"
  shows "decode_stream B n (decoder_new C encoding MAX_FRAME_BUF_SIZE) chunks = (map snd fs, Some (Ok ()))"
proof -
  have "awaits B (decoder_new C encoding MAX_FRAME_BUF_SIZE) chunks fs []"
    using assms(1-3) by (simp add: awaits_def decoder_new_def MAX_FRAME_BUF_SIZE_def wire_simps part_of_frame_def)
  then show ?thesis using decode_stream_awaits assms(4) by fastforce
qed

text \<open>C3: decoding does not depend on how the network cuts the body. When the chunks of an upload body
  concatenate to a sequence of well-formed frames followed by a strict prefix of one, the decoder the server
  builds yields exactly these frames in order, and then the end of the stream or, when the body stops inside a
  frame, the error about trailing data, however many empty or pending reads are in between.\<close>

theorem decoder_chunking_independent:
  assumes "\<forall>(f, seq, data)\<in>set fs. decodes_as B C encoding f seq data" and "part_of_frame B C encoding part"
    and "chunk_bytes chunks = concat (map fst fs) @ part" and "no_errors chunks"
    and "length fs + length chunks < n"
  shows "decode_stream B n (decoder_new C encoding MAX_FRAME_BUF_SIZE) chunks
       = (map snd fs, Some (if part = [] then Ok () else Err trailing_error))"
proof -
  have "awaits B (decoder_new C encoding MAX_FRAME_BUF_SIZE) chunks fs part"
    using assms(1-4) by (simp add: awaits_def decoder_new_def MAX_FRAME_BUF_SIZE_def wire_simps)
  then show ?thesis using assms(5) by (rule decode_stream_awaits)
qed

text \<open>The check on the size of the frame buffer is dead code at the configured size. Whatever the peer
  sends, when the framing layer asks for more bytes the buffer is within the limit, so the decoder goes on to
  read the next chunk and never reports that the frame buffer exceeded its maximum size.\<close>

theorem frame_buffer_limit_unreachable:
  assumes "MAX_FRAME_BUF_SIZE \<le> fd_max_buf_size d" and "\<not> fd_eos d"
    and "decode_frame B (fd_cipher d) (fd_encoding d) (fd_buf d) (fd_scratch d) = (buf, Ok (scratch, None))"
  shows "decode_step B d = Inr (d\<lparr>fd_buf := buf, fd_scratch := scratch\<rparr>)"
  using undecided_length [OF assms(3)] assms by (simp add: decode_step_def MAX_FRAME_BUF_SIZE_def wire_simps)

section \<open>Examples\<close>

text \<open>The frame of the framing examples, cut inside its header and inside its payload.\<close>

lemma example_frame_decodes:
  "decodes_as positional122 example_cipher Binary
     ([0, 40] @ replicate 12 1 @ [0, 0, 0, 0, 0, 0, 0, 7, 0, 2, 104, 105] @ replicate 16 0) 7 [104, 105]"
proof -
  obtain f where "encode_frame_into positional122 low_rng (replicate 12 1) [104, 105] 7 example_cipher 0 (0, 0) Binary []
        = Some (Ok ([] @ f))" and "decodes_as positional122 example_cipher Binary f 7 [104, 105]"
    using encode_frame_into_ok [OF example_params, of 0 0 "replicate 12 1" "[104, 105]" Binary 7 0 "[]"]
    by (auto simp: wire_simps frame_raw_limit_def)
  then show ?thesis using example_binary_frame by (simp add: encode_frame_def)
qed

theorem decoder_chunking_independent_witness:
  "decode_stream positional122 9 (decoder_new example_cipher Binary MAX_FRAME_BUF_SIZE)
     [Chunk [0], CPending, Chunk ([40] @ replicate 12 1 @ [0, 0, 0, 0, 0, 0, 0, 7, 0, 2, 104]), Chunk ([105] @ replicate 16 0), Chunk [0]]
   = ([(7, [104, 105])], Some (Err trailing_error))"
proof -
  let ?f = "[0, 40] @ replicate 12 1 @ [0, 0, 0, 0, 0, 0, 0, 7, 0, 2, 104, 105] @ replicate 16 0 :: bytes"
  have "part_of_frame positional122 example_cipher Binary [0]"
    unfolding part_of_frame_def using example_frame_decodes
    by (intro disjI2 exI [of _ ?f] exI [of _ 7] exI [of _ "[104, 105]"] exI [of _ 1]) simp
  then show ?thesis
    using decoder_chunking_independent [of "[(?f, 7, [104, 105])]" positional122 example_cipher Binary "[0]"
        "[Chunk [0], CPending, Chunk ([40] @ replicate 12 1 @ [0, 0, 0, 0, 0, 0, 0, 7, 0, 2, 104]), Chunk ([105] @ replicate 16 0), Chunk [0]]" 9]
      example_frame_decodes by simp
qed

theorem frame_buffer_limit_unreachable_witness:
  "decode_step positional122 (decoder_new example_cipher Binary MAX_FRAME_BUF_SIZE)
     = Inr ((decoder_new example_cipher Binary MAX_FRAME_BUF_SIZE)\<lparr>fd_buf := [], fd_scratch := []\<rparr>)"
  by (rule frame_buffer_limit_unreachable) (simp_all add: decoder_new_def decode_frame_Nil)

end
