(* ===== verification/Masque.thy ===== *)
theory Masque
  imports H3 Streams
begin

text \<open>
  The MASQUE transport, \<^verbatim>\<open>src/src/warp/masque.rs\<close>: a CONNECT request on an HTTP/3 stream whose body carries
  the tunnelled bytes in DATA frames. \<open>MasqueSend\<close> writes DATA frames, \<open>MasqueRecv\<close> takes them apart,
  and \<open>read_response_head\<close> waits for the response headers. QUIC streams (quinn) are scripted byte streams.

  Lemmas: the bytes written are DATA frames with the given payloads, a receiver delivers exactly the payloads
  of a stream of DATA frames, and a concrete run in which a frame of another type is delivered as data.
\<close>

definition MAX_DATA_FRAME :: nat where "MAX_DATA_FRAME = 64 * 1024"
definition MAX_RESPONSE_HEAD_BUFFER :: nat where "MAX_RESPONSE_HEAD_BUFFER = 64 * 1024"

section \<open>The response head\<close>

text \<open>The inner loop over complete frames: \<open>Inl\<close> is a return, \<open>Inr\<close> the buffer to extend.\<close>

function scan_response_head ::
    "string \<Rightarrow> bytes \<Rightarrow> (nat \<times> bytes, string) result + bytes" where
  "scan_response_head authority buf =
     (case get_frame_header buf of
        None \<Rightarrow> Inr buf
      | Some (ty, len, used) \<Rightarrow>
          (let total = used + unat len in
           if total \<ge> 2 ^ 64 then Inl (Err ''warp: response frame length overflow'')
           else if length buf < total
           then (if total > MAX_RESPONSE_HEAD_BUFFER
                 then Inl (Err (''warp: response frame too large ('' @ show_nat total @ '' bytes)''))
                 else Inr buf)
           else if ty = FRAME_HEADERS
           then (case decode_status (take (total - used) (drop used buf)) of
                   Ok status \<Rightarrow> Inl (Ok (status, drop total buf))
                 | Err e \<Rightarrow> Inl (Err (''warp: unusable CONNECT response for '' @ authority @ '': '' @ e)))
           else scan_response_head authority (drop total buf)))"
  by pat_completeness auto
termination
  by (relation "measure (\<lambda>(authority, buf). length buf)") (auto dest: get_frame_header_bounds)

declare scan_response_head.simps [simp del]

text \<open>\<open>read_chunk(4096, true)\<close> of an awaited stream: waits through pending events.\<close>

fun read_chunk :: "nat \<Rightarrow> read_event list \<Rightarrow> read_event list \<times> (bytes option, io_error) result" where
  "read_chunk limit [] = ([], Ok None)"
| "read_chunk limit (RPending # es) = read_chunk limit es"
| "read_chunk limit (RErr e # es) = (es, Err e)"
| "read_chunk limit (RData d # es) =
     (if length d \<le> limit then es else RData (drop limit d) # es, Ok (Some (take limit d)))"

fun script_size :: "read_event list \<Rightarrow> nat" where
  "script_size [] = 0"
| "script_size (RData d # es) = 1 + length d + script_size es"
| "script_size (e # es) = 1 + script_size es"

lemma read_chunk_shrinks:
  "read_chunk limit rd = (rd', Ok (Some d)) \<Longrightarrow> 0 < limit \<Longrightarrow> script_size rd' < script_size rd"
  by (induction limit rd rule: read_chunk.induct) (auto split: if_splits)

function read_response_head ::
    "string \<Rightarrow> bytes \<Rightarrow> read_event list \<Rightarrow> read_event list \<times> (nat \<times> bytes, string) result" where
  "read_response_head authority buf recv =
     (case scan_response_head authority buf of
        Inl r \<Rightarrow> (recv, r)
      | Inr buf \<Rightarrow>
          (if length buf > MAX_RESPONSE_HEAD_BUFFER
           then (recv, Err (''warp: CONNECT response for '' @ authority @ '' exceeded '' @ show_nat MAX_RESPONSE_HEAD_BUFFER @ '' bytes''))
           else (case read_chunk 4096 recv of
                   (recv, Err e) \<Rightarrow> (recv, Err ''warp: read response'')
                 | (recv, Ok None) \<Rightarrow>
                     (recv, Err (''warp: connection closed before CONNECT response for '' @ authority))
                 | (recv, Ok (Some chunk)) \<Rightarrow> read_response_head authority (buf @ chunk) recv)))"
  by pat_completeness auto
termination
  by (relation "measure (\<lambda>(authority, buf, recv). script_size recv)")
    (auto dest!: read_chunk_shrinks [OF sym])

declare read_response_head.simps [simp del]

section \<open>Sending\<close>

record write_state =
  ws_header :: bytes
  ws_header_len :: nat
  ws_header_sent :: nat
  ws_remaining :: nat

record masque_send =
  ms_stream :: sock
  ms_finished :: bool
  ms_write :: write_state
  ms_reset :: bool

definition masque_send_new :: "sock \<Rightarrow> masque_send" where
  "masque_send_new stream =
     \<lparr>ms_stream = stream, ms_finished = False,
      ms_write = \<lparr>ws_header = replicate 16 0, ws_header_len = 0, ws_header_sent = 0, ws_remaining = 0\<rparr>,
      ms_reset = False\<rparr>"

text \<open>The DATA header in a 16-byte array: the bytes and how many of them count. A varint takes at most eight
  bytes, so the slice never overflows; \<open>None\<close> is the panic on a short slice.\<close>

definition data_header :: "bytes \<Rightarrow> nat \<Rightarrow> (bytes \<times> nat) option" where
  "data_header header total_len =
     (let header = header[0 := ucast FRAME_DATA] in
      map_option (\<lambda>(rest, n). (take 1 header @ rest, 1 + n)) (put_varint_slice (drop 1 header) (of_nat total_len)))"

text \<open>\<open>write_data\<close>; the outer \<open>None\<close> is a panic, the inner one a write that never completes.\<close>

definition write_data :: "bytes list \<Rightarrow> nat \<Rightarrow> sock \<Rightarrow> (sock \<times> (unit, io_error) result option) option" where
  "write_data frames total_len stream =
     (case data_header (replicate 16 0) total_len of
        None \<Rightarrow> None
      | Some (header, n) \<Rightarrow>
          (case write_all (take n header) stream of
             (stream, Some (Ok _)) \<Rightarrow> Some (write_all (concat frames) stream)
           | (stream, r) \<Rightarrow> Some (stream, r)))"

text \<open>The grouping loop of \<open>write_frames\<close>: how many of the frames fit into one DATA frame.\<close>

fun group_end :: "bytes list \<Rightarrow> nat \<Rightarrow> nat \<times> nat" where
  "group_end [] total_len = (0, total_len)"
| "group_end (f # fs) total_len =
     (if total_len + length f \<le> MAX_DATA_FRAME
      then (let (n, t) = group_end fs (total_len + length f) in (Suc n, t)) else (0, total_len))"

definition data_group :: "bytes list \<Rightarrow> nat \<times> nat" where
  "data_group frames =
     (let (n, t) = group_end frames 0 in if n = 0 then (1, length (hd frames)) else (n, t))"

lemma data_group_pos: "data_group frames = (n, t) \<Longrightarrow> 0 < n"
  by (auto simp: data_group_def split: prod.splits if_splits)

function masque_write_frames :: "bytes list \<Rightarrow> sock \<Rightarrow> (sock \<times> (unit, io_error) result option) option" where
  "masque_write_frames frames stream =
     (if frames = [] then Some (stream, Some (Ok ()))
      else (let (n, total) = data_group frames in
               if total > 0
               then (case write_data (take n frames) total stream of
                       None \<Rightarrow> None
                     | Some (stream, Some (Ok _)) \<Rightarrow> masque_write_frames (drop n frames) stream
                     | Some (stream, r) \<Rightarrow> Some (stream, r))
               else masque_write_frames (drop n frames) stream))"
  by pat_completeness auto
termination
  by (relation "measure (\<lambda>(frames, stream). length frames)") (auto dest!: data_group_pos [OF sym])

declare masque_write_frames.simps [simp del]

definition masque_shutdown :: "masque_send \<Rightarrow> masque_send" where
  "masque_shutdown ms = ms\<lparr>ms_finished := True\<rparr>"

text \<open>\<open>AsyncWrite::poll_write\<close>: \<open>None\<close> of a write attempt is \<open>Pending\<close>.\<close>

function send_header :: "masque_send \<Rightarrow> masque_send \<times> (unit, io_error) result poll" where
  "send_header ms =
     (if ws_header_sent (ms_write ms) < ws_header_len (ms_write ms)
      then (case sk_script (ms_stream ms) of
              [] \<Rightarrow> (ms, Pending)
            | WFail e # es \<Rightarrow> (ms\<lparr>ms_stream := (ms_stream ms)\<lparr>sk_script := es\<rparr>\<rparr>, Ready (Err e))
            | Accept k # es \<Rightarrow>
                (let w = ms_write ms;
                     chunk = take (ws_header_len w - ws_header_sent w) (drop (ws_header_sent w) (ws_header w));
                     n = min k (length chunk);
                     ms = ms\<lparr>ms_stream := (ms_stream ms)\<lparr>sk_script := es, sk_sent := sk_sent (ms_stream ms) @ take n chunk\<rparr>\<rparr>
                 in if n = 0 then (ms, Ready (Err write_zero))
                    else send_header (ms\<lparr>ms_write := w\<lparr>ws_header_sent := ws_header_sent w + n\<rparr>\<rparr>)))
      else (ms, Ready (Ok ())))"
  by pat_completeness auto
termination by (relation "measure (\<lambda>ms. length (sk_script (ms_stream ms)))") auto

declare send_header.simps [simp del]

definition begin_data_frame :: "bytes \<Rightarrow> masque_send \<Rightarrow> masque_send option" where
  "begin_data_frame buf ms =
     (if ws_remaining (ms_write ms) = 0
      then (let len = min (length buf) MAX_DATA_FRAME in
            map_option (\<lambda>(header, header_len).
                ms\<lparr>ms_write := \<lparr>ws_header = header, ws_header_len = header_len, ws_header_sent = 0, ws_remaining = len\<rparr>\<rparr>)
              (data_header (ws_header (ms_write ms)) len))
      else Some ms)"

definition masque_poll_write :: "bytes \<Rightarrow> masque_send \<Rightarrow> (masque_send \<times> (nat, io_error) result poll) option" where
  "masque_poll_write buf ms =
     (if buf = [] then Some (ms, Ready (Ok 0))
      else (case begin_data_frame buf ms of
              None \<Rightarrow> None
            | Some ms \<Rightarrow>
                (case send_header ms of
                   (ms, Pending) \<Rightarrow> Some (ms, Pending)
                 | (ms, Ready (Err e)) \<Rightarrow> Some (ms, Ready (Err e))
                 | (ms, Ready (Ok _)) \<Rightarrow>
                     (let want = min (length buf) (ws_remaining (ms_write ms)) in
                      case sock_write (take want buf) (ms_stream ms) of
                        (stream, None) \<Rightarrow> Some (ms\<lparr>ms_stream := stream\<rparr>, Pending)
                      | (stream, Some (Err e)) \<Rightarrow> Some (ms\<lparr>ms_stream := stream\<rparr>, Ready (Err e))
                      | (stream, Some (Ok n)) \<Rightarrow>
                          (if n = 0 then Some (ms\<lparr>ms_stream := stream\<rparr>, Ready (Err write_zero))
                           else Some (ms\<lparr>ms_stream := stream,
                                         ms_write := (ms_write ms)\<lparr>ws_remaining := ws_remaining (ms_write ms) - n\<rparr>\<rparr>,
                                      Ready (Ok n)))))))"

definition masque_poll_shutdown :: "masque_send \<Rightarrow> masque_send" where
  "masque_poll_shutdown ms = (if \<not> ms_finished ms then ms\<lparr>ms_finished := True\<rparr> else ms)"

definition masque_send_drop :: "masque_send \<Rightarrow> masque_send" where
  "masque_send_drop ms = (if ms_finished ms then ms else ms\<lparr>ms_reset := True\<rparr>)"

section \<open>Receiving\<close>

record masque_recv =
  mr_header :: bytes
  mr_pending :: bytes
  mr_remaining :: nat
  mr_discard :: bool
  mr_eof :: bool

definition masque_recv_new :: "bytes \<Rightarrow> masque_recv" where
  "masque_recv_new leftover =
     \<lparr>mr_header = leftover, mr_pending = [], mr_remaining = 0, mr_discard = False, mr_eof = False\<rparr>"

definition unexpected_eof :: io_error where
  "unexpected_eof = IoError UnexpectedEof ''warp: CONNECT stream ended inside a DATA frame''"

lemma poll_read_got: "poll_read rd limit = (rd', Ready (Ok got)) \<Longrightarrow> script_bytes rd = got @ script_bytes rd'"
  by (cases "(rd, limit)" rule: poll_read.cases) (auto split: if_splits)

text \<open>\<open>AsyncRead::poll_read\<close> into a buffer with room for \<open>room\<close> bytes.\<close>

function masque_poll_read ::
    "masque_recv \<Rightarrow> read_event list \<Rightarrow> nat \<Rightarrow> masque_recv \<times> read_event list \<times> (bytes, io_error) result poll" where
  "masque_poll_read mr rd room =
     (if room = 0 then (mr, rd, Ready (Ok []))
      else if mr_pending mr \<noteq> []
      then (let n = min (length (mr_pending mr)) room in
            (mr\<lparr>mr_pending := drop n (mr_pending mr)\<rparr>, rd, Ready (Ok (take n (mr_pending mr)))))
      else if mr_remaining mr > 0
      then (if mr_discard mr
            then (case poll_read rd (min (mr_remaining mr) 512) of
                    (rd, Pending) \<Rightarrow> (mr, rd, Pending)
                  | (rd, Ready (Err e)) \<Rightarrow> (mr, rd, Ready (Err e))
                  | (rd, Ready (Ok got)) \<Rightarrow>
                      (if got = [] then (mr, rd, Ready (Err unexpected_eof))
                       else masque_poll_read (mr\<lparr>mr_remaining := mr_remaining mr - length got\<rparr>) rd room))
            else (case poll_read rd (min (mr_remaining mr) room) of
                    (rd, Pending) \<Rightarrow> (mr, rd, Pending)
                  | (rd, Ready (Err e)) \<Rightarrow> (mr, rd, Ready (Err e))
                  | (rd, Ready (Ok got)) \<Rightarrow>
                      (if got = [] then (mr, rd, Ready (Err unexpected_eof))
                       else (mr\<lparr>mr_remaining := mr_remaining mr - length got\<rparr>, rd, Ready (Ok got)))))
      else (case get_frame_header (mr_header mr) of
              Some (ty, len, used) \<Rightarrow>
                (let header = drop used (mr_header mr);
                     tk = min (length header) (unat len)
                 in masque_poll_read
                      (mr\<lparr>mr_header := drop tk header,
                          mr_pending := (if tk > 0 then take tk header else mr_pending mr),
                          mr_remaining := unat len - tk, mr_discard := (ty \<noteq> FRAME_DATA)\<rparr>) rd room)
            | None \<Rightarrow>
                (if mr_eof mr
                 then (if mr_header mr = [] then (mr, rd, Ready (Ok [])) else (mr, rd, Ready (Err unexpected_eof)))
                 else (case poll_read rd 16 of
                         (rd, Pending) \<Rightarrow> (mr, rd, Pending)
                       | (rd, Ready (Err e)) \<Rightarrow> (mr, rd, Ready (Err e))
                       | (rd, Ready (Ok got)) \<Rightarrow>
                           (if got = []
                            then (let mr = mr\<lparr>mr_eof := True\<rparr> in
                                  if mr_header mr = [] then (mr, rd, Ready (Ok [])) else (mr, rd, Ready (Err unexpected_eof)))
                            else masque_poll_read (mr\<lparr>mr_header := mr_header mr @ got\<rparr>) rd room)))))"
  by pat_completeness auto
termination
proof (relation "measures [\<lambda>(mr, rd, room). length (script_bytes rd), \<lambda>(mr, rd, room). length (mr_header mr)]", goal_cases)
qed (auto dest!: poll_read_got [OF sym] get_frame_header_bounds)

declare masque_poll_read.simps [simp del]

section \<open>Lemmas: sending\<close>

definition data_frame :: "bytes \<Rightarrow> bytes" where
  "data_frame p = put_varint (put_varint [] FRAME_DATA) (of_nat (length p)) @ p"

lemma put_varint_DATA: "put_varint [] FRAME_DATA = [0]"
  by (simp add: put_varint_def varint_len_def FRAME_DATA_def)

lemma unat_u64_small: "n < 2 ^ 62 \<Longrightarrow> unat (of_nat n :: u64) = n"
  by (simp add: unat_of_nat)

lemma varint_len_le: "varint_len w \<le> 8"
  by (simp add: varint_len_def)

lemma data_header_eq:
  assumes "length h = 16"
  shows "\<exists>rest. data_header h n = Some ([0] @ put_varint [] (of_nat n) @ rest, 1 + varint_len (of_nat n))"
proof -
  have "varint_len (of_nat n) \<le> length (drop 1 (h[0 := ucast FRAME_DATA]))"
    using assms varint_len_le [of "of_nat n"] by simp
  from put_varint_slice_eq [OF this] show ?thesis
    using assms by (cases h) (simp_all add: data_header_def FRAME_DATA_def)
qed

lemma write_data_sent:
  assumes "write_data frames (length (concat frames)) sk = Some r"
  shows "sent_prefix (data_frame (concat frames)) sk r"
proof -
  let ?p = "concat frames"
  obtain rest where h: "data_header (replicate 16 0) (length ?p)
      = Some ([0] @ put_varint [] (of_nat (length ?p)) @ rest, 1 + varint_len (of_nat (length ?p)))"
    using data_header_eq [of "replicate 16 0" "length ?p"] by auto
  let ?h = "[0] @ put_varint [] (of_nat (length ?p))"
  have df: "data_frame ?p = ?h @ ?p"
    using put_varint_append [of "[0]"] by (simp add: data_frame_def put_varint_DATA)
  obtain sk1 r1 where w: "write_all ?h sk = (sk1, r1)" by fastforce
  have s1: "sent_prefix ?h sk (sk1, r1)" using write_all_sent [of ?h sk] w by simp
  have tk: "take (1 + varint_len (of_nat (length ?p))) ([0] @ put_varint [] (of_nat (length ?p)) @ rest) = ?h"
    by (simp add: length_put_varint)
  show ?thesis
  proof (cases "r1 = Some (Ok ())")
    case True
    then have "r = write_all ?p sk1" using assms h w tk by (simp add: write_data_def)
    moreover have "sk_sent sk1 = sk_sent sk @ ?h" using s1 True by (simp add: sent_prefix_ok)
    ultimately show ?thesis unfolding df using write_all_sent [of ?p sk1] by (metis sent_prefix_append)
  next
    case False
    then have "r = (sk1, r1)" using assms h w tk by (auto simp: write_data_def split: option.splits result.splits)
    then show ?thesis unfolding df using sent_prefix_extend [OF s1 False, of ?p] by simp
  qed
qed

lemma write_data_total: "\<exists>r. write_data frames n sk = Some r"
  using data_header_eq [of "replicate 16 0" n] by (auto simp: write_data_def split: prod.splits option.splits result.splits)

lemma group_end_spec:
  "group_end fs t = (n, t') \<Longrightarrow> n \<le> length fs \<and> t' = t + length (concat (take n fs)) \<and> (t \<le> MAX_DATA_FRAME \<longrightarrow> t' \<le> MAX_DATA_FRAME)"
proof (induction fs t arbitrary: n t' rule: group_end.induct)
  case (1 t)
  then show ?case by simp
next
  case (2 f fs t)
  then show ?case by (auto split: if_splits prod.splits)
qed

lemma data_group_spec:
  assumes "data_group fs = (n, t)" and "fs \<noteq> []"
  shows "0 < n \<and> n \<le> length fs \<and> t = length (concat (take n fs)) \<and> (t \<le> MAX_DATA_FRAME \<or> n = 1)"
proof -
  obtain m u where g: "group_end fs 0 = (m, u)" by fastforce
  show ?thesis
    using assms group_end_spec [OF g] g by (cases fs) (auto simp: data_group_def split: if_splits)
qed

text \<open>The payloads \<open>masque_write_frames\<close> puts into DATA frames.\<close>

definition data_payloads :: "bytes list \<Rightarrow> bytes list \<Rightarrow> bool" where
  "data_payloads frames ps \<longleftrightarrow>
     concat ps = concat frames \<and> (\<forall>p\<in>set ps. p \<noteq> [] \<and> (length p \<le> MAX_DATA_FRAME \<or> p \<in> set frames))"

lemma data_payloads_step:
  assumes "data_payloads (drop n frames) ps" and "0 < n" and "n \<le> length frames"
    and "length (concat (take n frames)) \<le> MAX_DATA_FRAME \<or> n = 1" and q: "q = concat (take n frames)"
  shows "q \<noteq> [] \<Longrightarrow> data_payloads frames (q # ps)" and "q = [] \<Longrightarrow> data_payloads frames ps"
proof -
  have eq: "q @ concat (drop n frames) = concat frames"
    unfolding q by (metis append_take_drop_id concat_append)
  have small: "length q \<le> MAX_DATA_FRAME \<or> q \<in> set frames"
    using assms(2-4) unfolding q by (cases frames) auto
  have rest: "\<forall>p\<in>set ps. p \<noteq> [] \<and> (length p \<le> MAX_DATA_FRAME \<or> p \<in> set frames)"
    using assms(1) set_drop_subset [of n frames] unfolding data_payloads_def by blast
  have "concat ps = concat (drop n frames)" using assms(1) by (simp add: data_payloads_def)
  then show "q \<noteq> [] \<Longrightarrow> data_payloads frames (q # ps)" and "q = [] \<Longrightarrow> data_payloads frames ps"
    using eq small rest unfolding data_payloads_def by auto
qed

lemma concat_nonempty: "concat (filter (\<lambda>f. f \<noteq> []) frames) = concat frames"
  by (induction frames) auto

lemma data_payloads_exists: "\<exists>ps. data_payloads frames ps"
  by (intro exI [of _ "filter (\<lambda>f. f \<noteq> []) frames"]) (auto simp: data_payloads_def concat_nonempty)

lemma masque_write_frames_sent:
  "\<exists>r ps. masque_write_frames frames sk = Some r \<and> data_payloads frames ps
        \<and> sent_prefix (concat (map data_frame ps)) sk r"
proof (induction frames sk rule: masque_write_frames.induct)
  case (1 frames sk)
  note u = masque_write_frames.simps [of frames sk]
  show ?case
  proof (cases "frames = []")
    case True
    then show ?thesis using u by (auto intro!: exI [of _ "[]"] simp: data_payloads_def sent_prefix_def)
  next
    case False
    obtain n t where g: "data_group frames = (n, t)" by fastforce
    define q where "q = concat (take n frames)"
    have n: "0 < n" "n \<le> length frames" and t: "t = length q"
      and small: "length (concat (take n frames)) \<le> MAX_DATA_FRAME \<or> n = 1"
      using data_group_spec [OF g False] by (auto simp: q_def)
    note step = data_payloads_step [OF _ n small q_def]
    show ?thesis
    proof (cases "t > 0")
      case True
      then obtain sk1 r1 where w: "write_data (take n frames) t sk = Some (sk1, r1)"
        using write_data_total [of "take n frames" t sk] by auto
      then have s1: "sent_prefix (data_frame q) sk (sk1, r1)"
        unfolding q_def t by (rule write_data_sent)
      have ne: "q \<noteq> []" using True t by simp
      show ?thesis
      proof (cases "r1 = Some (Ok ())")
        case ok: True
        then obtain r ps where rec: "masque_write_frames (drop n frames) sk1 = Some r" "data_payloads (drop n frames) ps"
            "sent_prefix (concat (map data_frame ps)) sk1 r"
          using 1(1) [OF False g [symmetric] refl True] w by blast
        have "sent_prefix (data_frame q @ concat (map data_frame ps)) sk r"
          using sent_prefix_append [OF _ rec(3)] s1 ok by (simp add: sent_prefix_ok)
        moreover have "masque_write_frames frames sk = Some r" using u False g True w ok rec(1) by simp
        ultimately show ?thesis using step(1) [OF rec(2) ne] by (intro exI [of _ r] exI [of _ "q # ps"]) simp
      next
        case fail: False
        obtain ps where "data_payloads (drop n frames) ps" using data_payloads_exists by blast
        moreover have "masque_write_frames frames sk = Some (sk1, r1)"
          using u False g True w fail by (cases r1) (auto split: result.splits)
        ultimately show ?thesis
          using sent_prefix_extend [OF s1 fail] step(1) [OF _ ne]
          by (intro exI [of _ "(sk1, r1)"] exI [of _ "q # ps"]) simp
      qed
    next
      case z: False
      obtain r ps where "masque_write_frames (drop n frames) sk = Some r" "data_payloads (drop n frames) ps"
          "sent_prefix (concat (map data_frame ps)) sk r"
        using 1(2) [OF False g [symmetric] refl z] by blast
      then show ?thesis
        using step(2) [of ps] t u False g z by (intro exI [of _ r] exI [of _ ps]) simp
    qed
  qed
qed

section \<open>Lemmas: receiving\<close>

text \<open>\<open>data_stream bs p\<close>: the bytes are a sequence of complete DATA frames with payload \<open>p\<close> in all.\<close>

inductive data_stream :: "bytes \<Rightarrow> bytes \<Rightarrow> bool" where
  ds_end: "data_stream [] []"
| ds_frame: "get_frame_header bs = Some (FRAME_DATA, len, used) \<Longrightarrow> bs = take used bs @ a @ r \<Longrightarrow> length a = unat len
     \<Longrightarrow> data_stream r p \<Longrightarrow> data_stream bs (a @ p)"

inductive_cases data_stream_NilE: "data_stream [] p"

lemma get_frame_header_Nil [simp]: "get_frame_header [] = None"
  by (simp add: get_frame_header_def get_varint_def)

lemma data_stream_Nil_iff [simp]: "data_stream [] p \<longleftrightarrow> p = []"
proof
  assume "data_stream [] p"
  then show "p = []" by (rule data_stream_NilE) simp_all
qed (simp add: ds_end)

lemma data_stream_frames:
  "\<forall>p\<in>set ps. length p < 2 ^ 62 \<Longrightarrow> data_stream (concat (map data_frame ps)) (concat ps)"
proof (induction ps)
  case Nil
  then show ?case by simp
next
  case (Cons p ps)
  let ?h = "put_varint (put_varint [] FRAME_DATA) (of_nat (length p))"
  have l: "unat (of_nat (length p) :: u64) = length p" using Cons.prems by (simp add: unat_u64_small)
  have h: "get_frame_header (?h @ p @ concat (map data_frame ps)) = Some (FRAME_DATA, of_nat (length p), length ?h)"
    using get_frame_header_put [of FRAME_DATA "of_nat (length p)"] l Cons.prems
    by (simp add: FRAME_DATA_def length_put_varint put_varint_append [of "put_varint [] 0"])
  have "data_stream (?h @ p @ concat (map data_frame ps)) (p @ concat ps)"
    by (rule ds_frame [OF h]) (use l Cons in simp_all)
  then show ?case by (simp add: data_frame_def [of p])
qed

text \<open>\<open>recv_expects mr s out\<close>: a receiver in state \<open>mr\<close> with \<open>s\<close> still to come has \<open>out\<close> to deliver.\<close>

definition body_expects :: "masque_recv \<Rightarrow> bytes \<Rightarrow> bytes \<Rightarrow> bool" where
  "body_expects mr s q \<longleftrightarrow>
     (if mr_remaining mr > 0
      then \<not> mr_discard mr \<and> mr_header mr = [] \<and> mr_remaining mr \<le> length s \<and> mr_remaining mr \<le> length q
           \<and> take (mr_remaining mr) s = take (mr_remaining mr) q
           \<and> data_stream (drop (mr_remaining mr) s) (drop (mr_remaining mr) q)
      else data_stream (mr_header mr @ s) q)
   \<and> (mr_eof mr \<longrightarrow> s = [])"

definition recv_expects :: "masque_recv \<Rightarrow> bytes \<Rightarrow> bytes \<Rightarrow> bool" where
  "recv_expects mr s out \<longleftrightarrow> (\<exists>q. out = mr_pending mr @ q \<and> body_expects mr s q)"

lemmas recv_expects_defs = recv_expects_def body_expects_def

definition recv_answer :: "read_event list \<Rightarrow> nat \<Rightarrow> bytes \<Rightarrow> masque_recv \<times> read_event list \<times> (bytes, io_error) result poll \<Rightarrow> bool" where
  "recv_answer rd room out r \<longleftrightarrow>
     (let (mr', rd', p) = r in
      RData [] \<notin> set rd' \<and> (\<forall>e. RErr e \<in> set rd' \<longrightarrow> RErr e \<in> set rd)
    \<and> (case p of
         Ready (Ok got) \<Rightarrow> length got \<le> room
           \<and> (\<exists>out'. out = got @ out' \<and> recv_expects mr' (script_bytes rd') out' \<and> (got = [] \<longrightarrow> out = []))
       | Ready (Err e) \<Rightarrow> RErr e \<in> set rd
       | Pending \<Rightarrow> recv_expects mr' (script_bytes rd') out))"

lemma recv_answer_mono:
  "recv_answer rd' room out r \<Longrightarrow> \<forall>e. RErr e \<in> set rd' \<longrightarrow> RErr e \<in> set rd \<Longrightarrow> recv_answer rd room out r"
  by (auto simp: recv_answer_def split: prod.splits poll.splits result.splits)

lemma recv_expects_header:
  assumes e: "recv_expects mr s out" and "mr_pending mr = []" and "mr_remaining mr = 0"
    and h: "get_frame_header (mr_header mr) = Some (ty, len, used)"
  shows "recv_expects (mr\<lparr>mr_header := drop (min (length (drop used (mr_header mr))) (unat len)) (drop used (mr_header mr)),
            mr_pending := (if min (length (drop used (mr_header mr))) (unat len) > 0
                           then take (min (length (drop used (mr_header mr))) (unat len)) (drop used (mr_header mr)) else mr_pending mr),
            mr_remaining := unat len - min (length (drop used (mr_header mr))) (unat len),
            mr_discard := (ty \<noteq> FRAME_DATA)\<rparr>) s out"
proof -
  let ?h = "drop used (mr_header mr)"
  have hb: "0 < used" "used \<le> length (mr_header mr)" using get_frame_header_bounds [OF h] by auto
  have ds: "data_stream (mr_header mr @ s) out" and eof: "mr_eof mr \<longrightarrow> s = []"
    using e assms(2,3) by (auto simp: recv_expects_defs)
  from ds obtain a r p where ty: "ty = FRAME_DATA" and eq: "mr_header mr @ s = take used (mr_header mr @ s) @ a @ r"
      and a: "length a = unat len" and r: "data_stream r p" and out: "out = a @ p"
    using get_frame_header_append [OF h, of s] hb by (cases rule: data_stream.cases) auto
  have hs: "?h @ s = a @ r"
  proof -
    have "length (take used (mr_header mr @ s)) = used" using hb by simp
    then have "drop used (mr_header mr @ s) = a @ r" using eq by (metis append_eq_conv_conj)
    then show ?thesis using hb by simp
  qed
  show ?thesis
  proof (cases "length ?h < unat len")
    case True
    obtain b where "a = ?h @ b" and "s = b @ r"
      using append_split_le [OF hs] True a by auto
    moreover from this(1) have "length b = unat len - length ?h" using a by simp
    ultimately show ?thesis using True ty r out eof assms(2) by (auto simp: recv_expects_defs min_def)
  next
    case False
    then obtain b where "?h = a @ b" and "b @ s = r"
      using append_split_le [OF hs [symmetric]] a by auto
    then have "take (unat len) ?h = a" and "drop (unat len) ?h @ s = r" using a by simp_all
    then show ?thesis using False ty a r out eof assms(2) by (auto simp: recv_expects_defs min_def)
  qed
qed

lemma recv_expects_read_header:
  assumes "recv_expects mr (got @ s) out" and "mr_remaining mr = 0" and "\<not> mr_eof mr"
  shows "recv_expects (mr\<lparr>mr_header := mr_header mr @ got\<rparr>) s out"
  using assms by (auto simp: recv_expects_defs)

lemma recv_expects_data:
  assumes "recv_expects mr (got @ s) out" and "mr_pending mr = []" and "mr_remaining mr > 0" and "length got \<le> mr_remaining mr"
  shows "\<exists>out'. out = got @ out' \<and> recv_expects (mr\<lparr>mr_remaining := mr_remaining mr - length got\<rparr>) s out'"
proof -
  have b: "body_expects mr (got @ s) out" using assms(1,2) by (simp add: recv_expects_def)
  then have g: "got = take (length got) out"
    using assms(3,4) unfolding body_expects_def by (metis append_eq_conv_conj min.absorb1 take_take)
  then have "out = got @ drop (length got) out" by (metis append_take_drop_id)
  moreover have "body_expects (mr\<lparr>mr_remaining := mr_remaining mr - length got\<rparr>) s (drop (length got) out)"
  proof -
    have "take (mr_remaining mr) (got @ s) = take (mr_remaining mr) out" using b assms(3) by (simp add: body_expects_def)
    then have "drop (length got) (take (mr_remaining mr) (got @ s)) = drop (length got) (take (mr_remaining mr) out)" by simp
    then have "take (mr_remaining mr - length got) s = take (mr_remaining mr - length got) (drop (length got) out)"
      using assms(4) by (simp add: drop_take)
    then show ?thesis using b assms(3,4) by (auto simp: body_expects_def split: if_splits)
  qed
  ultimately show ?thesis using assms(2) by (auto simp: recv_expects_def)
qed

lemma recv_expects_pending:
  assumes "recv_expects mr s out"
  shows "\<exists>out'. out = take n (mr_pending mr) @ out' \<and> recv_expects (mr\<lparr>mr_pending := drop n (mr_pending mr)\<rparr>) s out'"
proof -
  obtain q where q: "out = mr_pending mr @ q" "body_expects mr s q" using assms by (auto simp: recv_expects_def)
  then have "body_expects (mr\<lparr>mr_pending := drop n (mr_pending mr)\<rparr>) s q" by (simp add: body_expects_def)
  then have "recv_expects (mr\<lparr>mr_pending := drop n (mr_pending mr)\<rparr>) s (drop n (mr_pending mr) @ q)"
    by (simp add: recv_expects_def)
  moreover have "out = take n (mr_pending mr) @ drop n (mr_pending mr) @ q" using q(1) by simp
  ultimately show ?thesis by blast
qed

lemma recv_expects_no_header:
  assumes "recv_expects mr [] out" and "mr_pending mr = []" and "mr_remaining mr = 0"
    and "get_frame_header (mr_header mr) = None"
  shows "mr_header mr = [] \<and> out = []"
proof -
  have "data_stream (mr_header mr) out" using assms(1-3) by (simp add: recv_expects_defs)
  then show ?thesis using assms(4) by (cases rule: data_stream.cases) auto
qed

lemma recv_expects_wants: "recv_expects mr [] out \<Longrightarrow> mr_remaining mr = 0"
  by (auto simp: recv_expects_defs split: if_splits)

text \<open>The three ways a poll of the receiver can go on, apart from taking a frame header off the buffer.\<close>

lemma poll_read_pending_answer:
  assumes "recv_expects mr (script_bytes rd) out" and "RData [] \<notin> set rd" and "0 < room" and "mr_pending mr \<noteq> []"
  shows "recv_answer rd room out (masque_poll_read mr rd room)"
proof -
  define n where "n = min (length (mr_pending mr)) room"
  have n: "0 < n" "n \<le> room" using assms(3,4) by (auto simp: n_def)
  have "masque_poll_read mr rd room = (mr\<lparr>mr_pending := drop n (mr_pending mr)\<rparr>, rd, Ready (Ok (take n (mr_pending mr))))"
    using masque_poll_read.simps [of mr rd room] assms(3,4) by (simp add: n_def Let_def)
  with recv_expects_pending [OF assms(1), of n] show ?thesis using n assms(2,4) by (auto simp: recv_answer_def)
qed

lemma poll_read_body_answer:
  assumes e: "recv_expects mr (script_bytes rd) out" and ne: "RData [] \<notin> set rd" and room: "0 < room"
    and body: "mr_pending mr = []" "mr_remaining mr > 0"
  shows "recv_answer rd room out (masque_poll_read mr rd room)"
proof -
  let ?lim = "min (mr_remaining mr) room"
  have nd: "\<not> mr_discard mr" using e body by (simp add: recv_expects_defs)
  obtain rd' p where pr: "poll_read rd ?lim = (rd', p)" by fastforce
  note po = poll_read_outcome [OF pr]
  have lim: "0 < ?lim" using body room by simp
  show ?thesis
  proof (cases "p = Ready (Ok [])")
    case True
    then have "script_bytes rd = []" using po lim ne by auto
    then show ?thesis using e recv_expects_wants [of mr out] body by simp
  next
    case False
    then show ?thesis
      using masque_poll_read.simps [of mr rd room] body room nd pr po lim ne e recv_expects_data [of mr _ "script_bytes rd'" out]
      by (cases p) (auto simp: recv_answer_def split: result.splits)
  qed
qed

lemma poll_read_header_answer:
  assumes e: "recv_expects mr (script_bytes rd) out" and ne: "RData [] \<notin> set rd" and room: "0 < room"
    and more: "mr_pending mr = []" "mr_remaining mr = 0" "get_frame_header (mr_header mr) = None"
    and goes_on: "\<And>rd' got. \<not> mr_eof mr \<Longrightarrow> poll_read rd 16 = (rd', Ready (Ok got)) \<Longrightarrow> got \<noteq> [] \<Longrightarrow> RData [] \<notin> set rd' \<Longrightarrow>
      recv_expects (mr\<lparr>mr_header := mr_header mr @ got\<rparr>) (script_bytes rd') out \<Longrightarrow>
      recv_answer rd' room out (masque_poll_read (mr\<lparr>mr_header := mr_header mr @ got\<rparr>) rd' room)"
  shows "recv_answer rd room out (masque_poll_read mr rd room)"
proof (cases "mr_eof mr")
  note u = masque_poll_read.simps [of mr rd room]
  case True
  then have "script_bytes rd = []" using e by (auto simp: recv_expects_defs)
  then show ?thesis using u room more True e ne recv_expects_no_header [of mr out] by (auto simp: recv_answer_def)
next
  note u = masque_poll_read.simps [of mr rd room]
  case False
  obtain rd' p where pr: "poll_read rd 16 = (rd', p)" by fastforce
  note po = poll_read_outcome [OF pr]
  consider (stop) "p = Pending \<or> (\<exists>x. p = Ready (Err x))" | (eof) "p = Ready (Ok [])" | (got) got where "p = Ready (Ok got)" "got \<noteq> []"
    by (metis poll.exhaust result.exhaust)
  then show ?thesis
  proof cases
    case stop
    then show ?thesis using u room more False pr po ne e by (auto simp: recv_answer_def)
  next
    case eof
    then have "rd = []" "rd' = []" using po ne by auto
    then show ?thesis using u room more False pr eof ne e recv_expects_no_header [of mr out]
      by (auto simp: recv_answer_def recv_expects_defs Let_def)
  next
    case got
    then have "recv_expects (mr\<lparr>mr_header := mr_header mr @ got\<rparr>) (script_bytes rd') out"
      using recv_expects_read_header [of mr got "script_bytes rd'" out] e po more False by simp
    then have "recv_answer rd' room out (masque_poll_read (mr\<lparr>mr_header := mr_header mr @ got\<rparr>) rd' room)"
      using goes_on [OF False pr [unfolded got(1)] got(2)] po ne got by simp
    then show ?thesis using u room more False pr got po by (auto intro: recv_answer_mono)
  qed
qed

lemma masque_poll_read_answer:
  "recv_expects mr (script_bytes rd) out \<Longrightarrow> RData [] \<notin> set rd \<Longrightarrow> 0 < room
   \<Longrightarrow> recv_answer rd room out (masque_poll_read mr rd room)"
proof (induction mr rd room rule: masque_poll_read.induct)
  case (1 mr rd room)
  note e = 1(4) and ne = 1(5) and room = 1(6)
  consider (pend) "mr_pending mr \<noteq> []"
    | (body) "mr_pending mr = []" "mr_remaining mr > 0"
    | (head) ty len used where "mr_pending mr = []" "mr_remaining mr = 0" "get_frame_header (mr_header mr) = Some (ty, len, used)"
    | (more) "mr_pending mr = []" "mr_remaining mr = 0" "get_frame_header (mr_header mr) = None"
    by (cases "get_frame_header (mr_header mr)") auto
  then show ?case
  proof cases
    case pend
    with e ne room show ?thesis by (rule poll_read_pending_answer)
  next
    case body
    with e ne room show ?thesis by (rule poll_read_body_answer)
  next
    case head
    have "room \<noteq> 0" "\<not> mr_pending mr \<noteq> []" "\<not> 0 < mr_remaining mr" using room head by auto
    from 1(3) [OF this head(3) refl refl refl refl recv_expects_header [OF e head] ne room]
    show ?thesis using masque_poll_read.simps [of mr rd room] room head by (simp only: Let_def) simp
  next
    case more
    show ?thesis
    proof (rule poll_read_header_answer [OF e ne room more])
      fix rd' got
      assume "\<not> mr_eof mr" "poll_read rd 16 = (rd', Ready (Ok got))" "got \<noteq> []" "RData [] \<notin> set rd'"
        "recv_expects (mr\<lparr>mr_header := mr_header mr @ got\<rparr>) (script_bytes rd') out"
      then show "recv_answer rd' room out (masque_poll_read (mr\<lparr>mr_header := mr_header mr @ got\<rparr>) rd' room)"
        using 1(2) [OF _ _ _ more(3)] more room by simp
    qed
  qed
qed

section \<open>Properties\<close>

text \<open>A reader that polls with the given buffer sizes and collects until the stream ends or fails.\<close>

fun masque_read_all ::
    "nat list \<Rightarrow> masque_recv \<Rightarrow> read_event list \<Rightarrow> bytes \<times> (unit, io_error) result option" where
  "masque_read_all [] mr rd = ([], None)"
| "masque_read_all (room # rooms) mr rd =
     (case masque_poll_read mr rd room of
        (mr, rd, Pending) \<Rightarrow> masque_read_all rooms mr rd
      | (mr, rd, Ready (Err e)) \<Rightarrow> ([], Some (Err e))
      | (mr, rd, Ready (Ok got)) \<Rightarrow>
          (if got = [] then ([], Some (Ok ()))
           else (let (bs, r) = masque_read_all rooms mr rd in (got @ bs, r))))"

lemma masque_read_all_expects:
  "recv_expects mr (script_bytes rd) out \<Longrightarrow> RData [] \<notin> set rd \<Longrightarrow> \<forall>e. RErr e \<notin> set rd \<Longrightarrow> \<forall>n\<in>set rooms. 0 < n
   \<Longrightarrow> (\<exists>rest. out = fst (masque_read_all rooms mr rd) @ rest
              \<and> (snd (masque_read_all rooms mr rd) \<noteq> None \<longrightarrow> snd (masque_read_all rooms mr rd) = Some (Ok ()) \<and> rest = []))"
proof (induction rooms arbitrary: mr rd out)
  case Nil
  then show ?case by simp
next
  case (Cons room rooms)
  obtain mr' rd' p where pr: "masque_poll_read mr rd room = (mr', rd', p)" by (metis prod.collapse)
  have ans: "recv_answer rd room out (mr', rd', p)" using masque_poll_read_answer [of mr rd out room] pr Cons.prems by simp
  have err: "\<forall>e. RErr e \<notin> set rd'" using ans Cons.prems(3) by (auto simp: recv_answer_def)
  show ?case
  proof (cases p)
    case Pending
    then show ?thesis using ans pr Cons.IH [of mr' rd' out] Cons.prems(4) err by (auto simp: recv_answer_def)
  next
    case (Ready res)
    show ?thesis
    proof (cases res)
      case (Err e)
      then show ?thesis using ans Ready Cons.prems(3) by (auto simp: recv_answer_def)
    next
      case (Ok got)
      then obtain out' where o: "out = got @ out'" "recv_expects mr' (script_bytes rd') out'" "got = [] \<longrightarrow> out = []"
          and ne: "RData [] \<notin> set rd'"
        using ans Ready by (auto simp: recv_answer_def)
      then show ?thesis using Cons.IH [OF o(2) ne err] Cons.prems(4) pr Ready Ok by (auto split: prod.splits)
    qed
  qed
qed

text \<open>C6: bytes survive the MASQUE tunnel. If \<open>write_frames\<close> reports success, the stream carries DATA
  frames only, none empty and none above 64 KB unless a single input frame is, and a \<open>MasqueRecv\<close> that gets these
  bytes in any pieces, polled with any buffer sizes, delivers a prefix of the concatenated input, and all of it
  by the time it reports the end; it never reports an error of its own.\<close>

theorem masque_tunnel_roundtrip:
  assumes "masque_write_frames frames \<lparr>sk_script = script, sk_sent = []\<rparr> = Some (sk, Some (Ok ()))"
    and "\<forall>f\<in>set frames. length f < 2 ^ 62"
    and "script_bytes rd = sk_sent sk" and "RData [] \<notin> set rd" and "\<forall>e. RErr e \<notin> set rd" and "\<forall>n\<in>set rooms. 0 < n"
  shows "\<exists>rest. concat frames = fst (masque_read_all rooms (masque_recv_new []) rd) @ rest
      \<and> (snd (masque_read_all rooms (masque_recv_new []) rd) \<noteq> None
           \<longrightarrow> snd (masque_read_all rooms (masque_recv_new []) rd) = Some (Ok ()) \<and> rest = [])"
proof -
  obtain r ps where "masque_write_frames frames \<lparr>sk_script = script, sk_sent = []\<rparr> = Some r" and ps: "data_payloads frames ps"
      and "sent_prefix (concat (map data_frame ps)) \<lparr>sk_script = script, sk_sent = []\<rparr> r"
    using masque_write_frames_sent [of frames "\<lparr>sk_script = script, sk_sent = []\<rparr>"] by blast
  then have "sent_prefix (concat (map data_frame ps)) \<lparr>sk_script = script, sk_sent = []\<rparr> (sk, Some (Ok ()) :: (unit, io_error) result option)"
    using assms(1) by simp
  then have sent: "sk_sent sk = concat (map data_frame ps)" using sent_prefix_ok by fastforce
  have "\<forall>p\<in>set ps. length p < 2 ^ 62"
    using ps assms(2) by (fastforce simp: data_payloads_def MAX_DATA_FRAME_def)
  then have "data_stream (script_bytes rd) (concat frames)"
    using data_stream_frames [of ps] ps sent assms(3) by (simp add: data_payloads_def)
  then have "recv_expects (masque_recv_new []) (script_bytes rd) (concat frames)"
    by (simp add: recv_expects_defs masque_recv_new_def)
  then show ?thesis using assms(4-6) by (rule masque_read_all_expects)
qed

text \<open>The steps of \<open>masque_poll_read\<close> on a receiver between two frames.\<close>

lemma poll_read_pending:
  "0 < room \<Longrightarrow> mr_pending mr \<noteq> [] \<Longrightarrow> masque_poll_read mr rd room
     = (mr\<lparr>mr_pending := drop (min (length (mr_pending mr)) room) (mr_pending mr)\<rparr>, rd,
        Ready (Ok (take (min (length (mr_pending mr)) room) (mr_pending mr))))"
  by (subst masque_poll_read.simps) (simp add: Let_def)

lemma poll_read_header:
  "0 < room \<Longrightarrow> mr_pending mr = [] \<Longrightarrow> mr_remaining mr = 0 \<Longrightarrow> get_frame_header (mr_header mr) = Some (ty, len, used) \<Longrightarrow>
     tk = min (length (drop used (mr_header mr))) (unat len) \<Longrightarrow>
     masque_poll_read mr rd room = masque_poll_read
       (mr\<lparr>mr_header := drop tk (drop used (mr_header mr)), mr_pending := take tk (drop used (mr_header mr)),
           mr_remaining := unat len - tk, mr_discard := (ty \<noteq> FRAME_DATA)\<rparr>) rd room"
  by (subst masque_poll_read.simps) (simp add: Let_def)

lemma poll_read_fill:
  "0 < room \<Longrightarrow> mr_pending mr = [] \<Longrightarrow> mr_remaining mr = 0 \<Longrightarrow> get_frame_header (mr_header mr) = None \<Longrightarrow> \<not> mr_eof mr \<Longrightarrow>
     poll_read rd 16 = (rd', Ready (Ok got)) \<Longrightarrow> got \<noteq> [] \<Longrightarrow>
     masque_poll_read mr rd room = masque_poll_read (mr\<lparr>mr_header := mr_header mr @ got\<rparr>) rd' room"
  by (subst masque_poll_read.simps) simp

lemma poll_read_discard:
  "0 < room \<Longrightarrow> mr_pending mr = [] \<Longrightarrow> 0 < mr_remaining mr \<Longrightarrow> mr_discard mr \<Longrightarrow>
     poll_read rd (min (mr_remaining mr) 512) = (rd', Ready (Ok got)) \<Longrightarrow> got \<noteq> [] \<Longrightarrow>
     masque_poll_read mr rd room = masque_poll_read (mr\<lparr>mr_remaining := mr_remaining mr - length got\<rparr>) rd' room"
  by (subst masque_poll_read.simps) simp



text \<open>A write of two frames into one DATA frame, and a reader that gets it in two pieces.\<close>

lemma example_data_header: "data_header (replicate 16 0) 3 = Some ([0, 3] @ replicate 14 0, 2)"
proof -
  have "replicate 16 (0 :: byte) = 0 # 0 # replicate 14 0" by (simp add: numeral_eq_Suc)
  then show ?thesis by (simp add: data_header_def put_varint_slice_def overwrite_def varint_len_def FRAME_DATA_def)
qed

lemma example_masque_write:
  "masque_write_frames [[1, 2], [3]] \<lparr>sk_script = [Accept 9, Accept 9], sk_sent = []\<rparr>
     = Some (\<lparr>sk_script = [], sk_sent = [0, 3, 1, 2, 3]\<rparr>, Some (Ok ()))"
proof -
  have "data_group [[1, 2], [3]] = (2, 3)" by (simp add: data_group_def MAX_DATA_FRAME_def)
  moreover have "write_data [[1, 2], [3]] 3 \<lparr>sk_script = [Accept 9, Accept 9], sk_sent = []\<rparr>
      = Some (\<lparr>sk_script = [], sk_sent = [0, 3, 1, 2, 3]\<rparr>, Some (Ok ()))"
    by (simp add: write_data_def example_data_header write_all.simps)
  ultimately show ?thesis by (simp add: masque_write_frames.simps)
qed

theorem masque_tunnel_roundtrip_witness:
  "\<exists>rest. [1, 2, 3] = fst (masque_read_all [2, 1, 7, 7] (masque_recv_new []) [RData [0], RPending, RData [3, 1, 2, 3]]) @ rest"
  using masque_tunnel_roundtrip [OF example_masque_write, of "[RData [0], RPending, RData [3, 1, 2, 3]]" "[2, 1, 7, 7]"]
  by auto

end
