(* ===== verification/Upstream_Write.thy ===== *)
theory Upstream_Write
  imports Masque
begin

text \<open>
  \<^verbatim>\<open>src/src/server/upstream.rs\<close>: the two kinds of upstream connection (a TCP socket or a MASQUE stream) and
  \<open>write_vectored_all\<close>, which writes a run of frames with vectored writes and keeps its place in the run
  across partial writes.

  Lemmas: the bookkeeping is a \<open>partial_writer\<close>; whatever the kernel accepts, the bytes sent are a prefix of
  the concatenated frames, and all of them on success; with non-empty frames and a socket that accepts bytes the
  write succeeds; a run that ends with an empty frame fails after all bytes were sent.
\<close>

section \<open>Writing\<close>

definition MAX_WRITE_IOV :: nat where "MAX_WRITE_IOV = 64"

text \<open>The slices offered to \<open>write_vectored\<close>: at most 64 frames, the first without what was sent of it.\<close>

definition offered :: "bytes list \<Rightarrow> nat \<Rightarrow> nat \<Rightarrow> bytes" where
  "offered frames first skip =
     concat (take MAX_WRITE_IOV
       (case drop first frames of [] \<Rightarrow> [] | f # fs \<Rightarrow> drop skip f # fs))"

text \<open>The loop that moves \<open>first\<close> and \<open>skip\<close> forward by the bytes written.\<close>

function advance_run :: "bytes list \<Rightarrow> nat \<Rightarrow> nat \<Rightarrow> nat \<Rightarrow> nat \<times> nat" where
  "advance_run frames first skip left =
     (if left > 0 \<and> first < length frames
      then (let remain = length (frames ! first) - skip in
            if left \<ge> remain then advance_run frames (Suc first) 0 (left - remain)
            else advance_run frames first (skip + left) 0)
      else (first, skip))"
  by pat_completeness auto
termination by (relation "measures [\<lambda>(frames, first, skip, left). left, \<lambda>(frames, first, skip, left). length frames - first]") auto

declare advance_run.simps [simp del]

function write_vectored_all ::
    "bytes list \<Rightarrow> nat \<Rightarrow> nat \<Rightarrow> sock \<Rightarrow> sock \<times> (unit, io_error) result option" where
  "write_vectored_all frames first skip sk =
     (if first < length frames
      then (case sk_script sk of
              [] \<Rightarrow> (sk, None)
            | WFail e # es \<Rightarrow> (sk\<lparr>sk_script := es\<rparr>, Some (Err e))
            | Accept n # es \<Rightarrow>
                (let data = offered frames first skip;
                     written = min n (length data);
                     sk = sk\<lparr>sk_script := es, sk_sent := sk_sent sk @ take written data\<rparr>
                 in if written = 0 then (sk, Some (Err write_zero))
                    else (let (first, skip) = advance_run frames first skip written
                          in write_vectored_all frames first skip sk)))
      else (sk, Some (Ok ())))"
  by pat_completeness auto
termination by (relation "measure (\<lambda>(frames, first, skip, sk). length (sk_script sk))") auto

declare write_vectored_all.simps [simp del]

definition write_tcp_frames :: "bytes list \<Rightarrow> sock \<Rightarrow> sock \<times> (unit, io_error) result option" where
  "write_tcp_frames frames sk =
     (if length frames = 1 then write_all (frames ! 0) sk else write_vectored_all frames 0 0 sk)"

datatype upstream_write = DirectWrite sock | WarpWrite sock

text \<open>\<open>UpstreamWrite::write_frames\<close>: the outer \<open>None\<close> is a panic, the inner one a write that never completes.\<close>

fun upstream_write_frames ::
    "bytes list \<Rightarrow> upstream_write \<Rightarrow> (upstream_write \<times> (unit, io_error) result option) option" where
  "upstream_write_frames frames (DirectWrite sk) =
     (let (sk, r) = write_tcp_frames frames sk in Some (DirectWrite sk, r))"
| "upstream_write_frames frames (WarpWrite sk) =
     map_option (\<lambda>(sk, r). (WarpWrite sk, r)) (masque_write_frames frames sk)"

fun upstream_sock :: "upstream_write \<Rightarrow> sock" where
  "upstream_sock (DirectWrite sk) = sk"
| "upstream_sock (WarpWrite sk) = sk"

section \<open>Lemmas: the place in the run\<close>

definition run_pending :: "bytes list \<times> nat \<times> nat \<Rightarrow> bytes" where
  "run_pending s = (case s of (frames, first, skip) \<Rightarrow> drop skip (concat (drop first frames)))"

definition run_ok :: "bytes list \<times> nat \<times> nat \<Rightarrow> bool" where
  "run_ok s \<longleftrightarrow> (case s of (frames, first, skip) \<Rightarrow>
     (if first < length frames then skip \<le> length (frames ! first) else skip = 0))"

definition run_advance :: "nat \<Rightarrow> bytes list \<times> nat \<times> nat \<Rightarrow> bytes list \<times> nat \<times> nat" where
  "run_advance n s = (case s of (frames, first, skip) \<Rightarrow> (frames, advance_run frames first skip n))"

lemma run_pending_first:
  assumes "first < length frames" and "skip \<le> length (frames ! first)"
  shows "run_pending (frames, first, skip) = drop skip (frames ! first) @ concat (drop (Suc first) frames)"
  using assms by (simp add: run_pending_def Cons_nth_drop_Suc [symmetric])

lemma advance_run_spec:
  "run_ok (frames, first, skip) \<Longrightarrow> n \<le> length (run_pending (frames, first, skip)) \<Longrightarrow>
     advance_run frames first skip n = (f', s') \<Longrightarrow>
     run_ok (frames, f', s') \<and> run_pending (frames, f', s') = drop n (run_pending (frames, first, skip))"
proof (induction frames first skip n rule: advance_run.induct)
  case (1 frames first skip left)
  note u = advance_run.simps [of frames first skip left]
  show ?case
  proof (cases "left > 0 \<and> first < length frames")
    case False
    then have eq: "f' = first" "s' = skip" using 1(5) u by auto
    show ?thesis
    proof (cases "first < length frames")
      case True
      then show ?thesis using False eq 1(3) by simp
    next
      case no: False
      then show ?thesis using eq 1(3,4) by (simp add: run_pending_def)
    qed
  next
    case True
    let ?rem = "length (frames ! first) - skip"
    have sk: "skip \<le> length (frames ! first)" using 1(3) True by (simp add: run_ok_def)
    note p = run_pending_first [OF _ sk]
    show ?thesis
    proof (cases "left \<ge> ?rem")
      case big: True
      have rp: "run_pending (frames, Suc first, 0) = drop ?rem (run_pending (frames, first, skip))"
        using True p sk by (simp add: run_pending_def [of "(frames, Suc first, 0)"])
      have "run_ok (frames, Suc first, 0)" by (simp add: run_ok_def)
      moreover have "left - ?rem \<le> length (run_pending (frames, Suc first, 0))" using 1(4) big by (simp add: rp)
      ultimately have "run_ok (frames, f', s') \<and> run_pending (frames, f', s') = drop (left - ?rem) (run_pending (frames, Suc first, 0))"
        using 1(1) [OF True refl big] 1(5) u True big by simp
      then show ?thesis using big by (simp add: rp)
    next
      case small: False
      have "f' = first" "s' = skip + left"
        using 1(5) u True small by (auto simp: advance_run.simps [of frames first "skip + left" 0])
      then show ?thesis using True small sk p [of ] run_pending_first [of first frames "skip + left"]
        by (auto simp: run_ok_def add.commute)
    qed
  qed
qed

interpretation run_writer: partial_writer run_pending run_advance run_ok
proof
  fix s :: "bytes list \<times> nat \<times> nat" and n
  assume ok: "run_ok s" "n \<le> length (run_pending s)"
  obtain frames first skip f' s' where "s = (frames, first, skip)" "advance_run frames first skip n = (f', s')"
    by (metis prod.collapse)
  with ok show "run_pending (run_advance n s) = drop n (run_pending s)" and "run_ok (run_advance n s)"
    using advance_run_spec [of frames first skip n f' s'] by (auto simp: run_advance_def)
qed

lemma offered_prefix:
  assumes "run_ok (frames, first, skip)"
  shows "\<exists>k. offered frames first skip = take k (run_pending (frames, first, skip))"
proof (cases "drop first frames")
  case Nil
  then show ?thesis by (simp add: offered_def run_pending_def)
next
  case (Cons f fs)
  have len: "first < length frames" using Cons by (metis drop_all list.distinct(1) not_le)
  then have f: "f = frames ! first" and fs: "fs = drop (Suc first) frames"
    using Cons by (simp_all add: Cons_nth_drop_Suc [symmetric])
  then have "run_pending (frames, first, skip) = concat (drop skip f # fs)"
    using run_pending_first [OF len] assms len by (simp add: run_ok_def)
  moreover have "concat (take MAX_WRITE_IOV (drop skip f # fs)) = take (length (concat (take MAX_WRITE_IOV (drop skip f # fs)))) (concat (drop skip f # fs))"
    by (metis append_eq_conv_conj append_take_drop_id concat_append)
  ultimately show ?thesis using Cons by (auto simp: offered_def)
qed

lemma write_vectored_all_sent:
  "run_ok (frames, first, skip) \<Longrightarrow>
     sent_prefix (run_pending (frames, first, skip)) sk (write_vectored_all frames first skip sk)"
proof (induction frames first skip sk rule: write_vectored_all.induct)
  case (1 frames first skip sk)
  note u = write_vectored_all.simps [of frames first skip sk]
  let ?p = "run_pending (frames, first, skip)"
  show ?case
  proof (cases "first < length frames")
    case False
    then show ?thesis using u by (simp add: run_pending_def sent_prefix_def)
  next
    case True
    show ?thesis
    proof (cases "sk_script sk")
      case Nil
      then show ?thesis using u True by (auto intro!: sent_prefixI [of 0])
    next
      case (Cons ev es)
      show ?thesis
      proof (cases ev)
        case (WFail e)
        then show ?thesis using u True Cons by (auto intro!: sent_prefixI [of 0])
      next
        case (Accept n)
        define w where "w = min n (length (offered frames first skip))"
        let ?sk = "sk\<lparr>sk_script := es, sk_sent := sk_sent sk @ take w (offered frames first skip)\<rparr>"
        obtain k where k: "offered frames first skip = take k ?p" using offered_prefix [OF 1(2)] by blast
        then have tw: "take w (offered frames first skip) = take w ?p" and wl: "w \<le> length ?p" by (auto simp: w_def)
        obtain f' s' where adv: "advance_run frames first skip w = (f', s')" by fastforce
        note spec = advance_run_spec [OF 1(2) wl adv]
        show ?thesis
        proof (cases "w = 0")
          case True
          then show ?thesis using u \<open>first < length frames\<close> Cons Accept by (auto simp: w_def intro!: sent_prefixI [of 0])
        next
          case False
          have "sent_prefix (run_pending (frames, f', s')) ?sk (write_vectored_all frames f' s' ?sk)"
            using 1(1) [OF True Cons Accept refl w_def refl False adv [symmetric] refl] spec by simp
          then have "sent_prefix (take w ?p @ drop w ?p) sk (write_vectored_all frames f' s' ?sk)"
            using spec tw by (intro sent_prefix_append [of ?sk]) simp_all
          moreover have "write_vectored_all frames first skip sk = write_vectored_all frames f' s' ?sk"
            using True Cons Accept False adv by (subst u) (simp add: w_def [symmetric] Let_def)
          ultimately show ?thesis by simp
        qed
      qed
    qed
  qed
qed

lemma write_tcp_frames_sent: "sent_prefix (concat frames) sk (write_tcp_frames frames sk)"
proof (cases "length frames = 1")
  case True
  then obtain f where "frames = [f]" by (auto simp: length_Suc_conv)
  then show ?thesis using write_all_sent [of f sk] by (simp add: write_tcp_frames_def)
next
  case False
  have "run_ok (frames, 0, 0)" by (simp add: run_ok_def)
  from write_vectored_all_sent [OF this, of sk] False show ?thesis
    by (simp add: write_tcp_frames_def run_pending_def)
qed

section \<open>Lemmas: progress\<close>

text \<open>A socket whose next \<open>n\<close> write attempts all accept something.\<close>

definition healthy :: "nat \<Rightarrow> sock \<Rightarrow> bool" where
  "healthy n sk \<longleftrightarrow> n \<le> length (sk_script sk) \<and> (\<forall>ev\<in>set (sk_script sk). \<exists>k. ev = Accept k \<and> 0 < k)"

lemma healthy_script: "healthy n sk \<Longrightarrow> 0 < n \<Longrightarrow> \<exists>k es. sk_script sk = Accept k # es \<and> 0 < k"
  by (cases "sk_script sk") (auto simp: healthy_def)

lemma write_all_healthy:
  "healthy (length data + n) sk \<Longrightarrow> snd (write_all data sk) = Some (Ok ()) \<and> healthy n (fst (write_all data sk))"
proof (induction data sk rule: write_all.induct)
  case (1 data sk)
  show ?case
  proof (cases "data = []")
    case True
    then show ?thesis using 1(2) by (simp add: write_all.simps)
  next
    case False
    then obtain m es where s: "sk_script sk = Accept m # es" and m: "0 < m"
      using healthy_script [OF 1(2)] by auto
    let ?k = "min m (length data)"
    let ?sk = "sk\<lparr>sk_script := es, sk_sent := sk_sent sk @ take ?k data\<rparr>"
    have k: "?k \<noteq> 0" using m False by simp
    then have "1 \<le> ?k" and "?k \<le> length data" by (simp_all only: One_nat_def Suc_le_eq neq0_conv min.cobounded2)
    moreover have "length data + n \<le> Suc (length es)" using 1(2) s by (simp add: healthy_def)
    ultimately have "length data - ?k + n \<le> length es" by linarith
    then have "healthy (length (drop ?k data) + n) ?sk" using 1(2) s by (auto simp: healthy_def)
    with 1(1) [OF False s refl refl refl k] show ?thesis using False s k
      by (simp add: write_all.simps [of data sk] Let_def)
  qed
qed

definition run_strict :: "bytes list \<Rightarrow> nat \<Rightarrow> nat \<Rightarrow> bool" where
  "run_strict frames first skip \<longleftrightarrow>
     (\<forall>f\<in>set frames. f \<noteq> []) \<and> (if first < length frames then skip < length (frames ! first) else skip = 0)"

lemma run_strict_ok: "run_strict frames first skip \<Longrightarrow> run_ok (frames, first, skip)"
  by (auto simp: run_strict_def run_ok_def split: if_splits)

lemma advance_run_strict:
  "run_strict frames first skip \<Longrightarrow> advance_run frames first skip n = (f', s') \<Longrightarrow> run_strict frames f' s'"
proof (induction frames first skip n rule: advance_run.induct)
  case (1 frames first skip left)
  note u = advance_run.simps [of frames first skip left]
  show ?case
  proof (cases "left > 0 \<and> first < length frames")
    case False
    then show ?thesis using 1(3,4) u by auto
  next
    case True
    let ?rem = "length (frames ! first) - skip"
    show ?thesis
    proof (cases "left \<ge> ?rem")
      case big: True
      have "run_strict frames (Suc first) 0" using 1(3) by (auto simp: run_strict_def)
      then show ?thesis using 1(1) [OF True refl big] 1(4) u True big by simp
    next
      case small: False
      then show ?thesis using 1(3,4) u True
        by (auto simp: run_strict_def advance_run.simps [of frames first "skip + left" 0] split: if_splits)
    qed
  qed
qed

lemma offered_nonempty: "run_strict frames first skip \<Longrightarrow> first < length frames \<Longrightarrow> offered frames first skip \<noteq> []"
  by (auto simp: run_strict_def offered_def MAX_WRITE_IOV_def Cons_nth_drop_Suc [symmetric] take_Cons')

lemma write_vectored_healthy:
  "run_strict frames first skip \<Longrightarrow> healthy (length (run_pending (frames, first, skip)) + m) sk \<Longrightarrow>
     snd (write_vectored_all frames first skip sk) = Some (Ok ()) \<and> healthy m (fst (write_vectored_all frames first skip sk))"
proof (induction frames first skip sk rule: write_vectored_all.induct)
  case (1 frames first skip sk)
  note u = write_vectored_all.simps [of frames first skip sk]
  let ?p = "run_pending (frames, first, skip)"
  show ?case
  proof (cases "first < length frames")
    case False
    then show ?thesis using u 1(3) by (auto simp: healthy_def)
  next
    case True
    note ne = offered_nonempty [OF 1(2) True] and ok = run_strict_ok [OF 1(2)]
    obtain k where k: "offered frames first skip = take k ?p" using offered_prefix [OF ok] by blast
    then have "0 < length ?p" using ne by auto
    then obtain n es where s: "sk_script sk = Accept n # es" and n: "0 < n" using healthy_script [OF 1(3)] by auto
    define w where "w = min n (length (offered frames first skip))"
    let ?sk = "sk\<lparr>sk_script := es, sk_sent := sk_sent sk @ take w (offered frames first skip)\<rparr>"
    have w: "w \<noteq> 0" "w \<le> length ?p" using n ne k by (auto simp: w_def)
    obtain f' s' where adv: "advance_run frames first skip w = (f', s')" by fastforce
    have "healthy (length (run_pending (frames, f', s')) + m) ?sk"
      using 1(3) s w advance_run_spec [OF ok w(2) adv] by (auto simp: healthy_def)
    with 1(1) [OF True s refl refl w_def refl w(1) adv [symmetric] refl advance_run_strict [OF 1(2) adv]]
    show ?thesis using True s w(1) adv by (subst (1 2) u) (simp add: w_def [symmetric] Let_def)
  qed
qed

lemma write_tcp_frames_healthy:
  assumes "\<forall>f\<in>set frames. f \<noteq> []" and "healthy (length (concat frames) + m) sk"
  shows "snd (write_tcp_frames frames sk) = Some (Ok ()) \<and> healthy m (fst (write_tcp_frames frames sk))"
proof (cases "length frames = 1")
  case True
  then obtain f where "frames = [f]" by (auto simp: length_Suc_conv)
  then show ?thesis using write_all_healthy [of f m sk] assms(2) by (simp add: write_tcp_frames_def)
next
  case False
  have "run_strict frames 0 0" using assms(1) by (auto simp: run_strict_def)
  from write_vectored_healthy [OF this, of m sk] assms(2) False show ?thesis
    by (simp add: write_tcp_frames_def run_pending_def)
qed

section \<open>Properties\<close>

text \<open>Writing a run of frames to a TCP upstream. However much each system call accepts, what reaches the
  socket is a prefix of the frames in order, it is everything when the write reports success, and a write of
  non-empty frames to a socket that accepts at least a byte at a time does succeed.\<close>

theorem write_tcp_frames_delivers:
  assumes "write_tcp_frames frames sk = (sk', r)"
  shows "(\<exists>k \<le> length (concat frames). sk_sent sk' = sk_sent sk @ take k (concat frames)
            \<and> (r = Some (Ok ()) \<longrightarrow> k = length (concat frames)))
       \<and> ((\<forall>f\<in>set frames. f \<noteq> []) \<and> healthy (length (concat frames)) sk \<longrightarrow> r = Some (Ok ()))"
  using write_tcp_frames_sent [of frames sk] write_tcp_frames_healthy [of frames 0 sk] assms
  by (auto simp: sent_prefix_def)

theorem write_tcp_frames_delivers_witness:
  "write_tcp_frames [[1, 2], [3]] \<lparr>sk_script = [Accept 1, Accept 1, Accept 9], sk_sent = []\<rparr>
     = (\<lparr>sk_script = [], sk_sent = [1, 2, 3]\<rparr>, Some (Ok ()))
   \<and> (\<exists>k \<le> length (concat [[1, 2], [3 :: byte]]). [1, 2, 3 :: byte] = [] @ take k (concat [[1, 2], [3]])
        \<and> (Some (Ok () :: (unit, io_error) result) = Some (Ok ()) \<longrightarrow> k = length (concat [[1, 2], [3 :: byte]])))"
proof -
  have run: "write_tcp_frames [[1, 2], [3]] \<lparr>sk_script = [Accept 1, Accept 1, Accept 9], sk_sent = []\<rparr>
     = (\<lparr>sk_script = [], sk_sent = [1, 2, 3]\<rparr>, Some (Ok ()))"
    by (simp add: write_tcp_frames_def write_vectored_all.simps advance_run.simps offered_def MAX_WRITE_IOV_def)
  show ?thesis using run write_tcp_frames_delivers [OF run] by simp
qed

text \<open>An empty frame at the end of a run turns a complete write into an error. All bytes are sent, but
  the loop still offers the empty slice, the socket reports zero bytes and \<open>write_vectored_all\<close> returns
  \<open>WriteZero\<close>, after which the upload is torn down.\<close>

theorem trailing_empty_frame_fails:
  "write_tcp_frames [[1], []] \<lparr>sk_script = [Accept 9, Accept 9], sk_sent = []\<rparr>
     = (\<lparr>sk_script = [], sk_sent = [1]\<rparr>, Some (Err write_zero))"
  by (simp add: write_tcp_frames_def write_vectored_all.simps advance_run.simps offered_def MAX_WRITE_IOV_def)

end
