(* ===== verification/Upload_Actor.thy ===== *)
theory Upload_Actor
  imports Upstream_Write Errors
begin

text \<open>
  The upload actor of a tunnel, \<^verbatim>\<open>src/src/server/actor/upload.rs\<close>: frames of one tunnel arrive over several
  requests and in any order; the actor reorders them by sequence number, writes runs of consecutive frames to
  the upstream and acknowledges the end-of-segment markers once everything up to them has been written.

  The \<open>BTreeMap\<close> of pending frames is an association list with distinct keys, an acknowledgement channel is a
  number and the answers are recorded in the order they are sent, and the upstream is kept after it has been
  dropped so that what it received can be stated. The scratch vector \<open>run_buf\<close> is local to a run.

  Lemmas: the invariant of the reorder buffer (bounds, byte count, keys above the next sequence number); the
  upstream receives the frames of the sender in sequence order without gap or repetition, under any loss,
  duplication and reordering; an acknowledgement means that everything up to its marker is written; every
  marker is answered exactly once.
\<close>

section \<open>Constants and state\<close>

definition MAX_PENDING_BYTES :: nat where "MAX_PENDING_BYTES = 2 * 1024 * 1024"
definition MAX_PENDING_FRAMES :: nat where "MAX_PENDING_FRAMES = 8 * 1024"
definition MAX_EOS_WAITERS :: nat where "MAX_EOS_WAITERS = 256"
definition MAX_REORDER_SECS :: nat where "MAX_REORDER_SECS = 10"

type_synonym ack = nat

datatype upload_cmd = UFrame u64 bytes | UEos u64 ack | UShutdown

record reorder =
  ro_next_seq :: u64
  ro_pending :: "(u64 \<times> bytes) list"
  ro_pending_bytes :: nat
  ro_eos_waiters :: "(u64 \<times> ack) list"

datatype upload_phase = Reordering reorder | UDraining "ack list" | UClosed

record upload_actor =
  ua_phase :: upload_phase
  ua_upstream :: "upstream_write option"
  ua_last_activity :: nat
  ua_answers :: "(ack \<times> (unit, server_error) result) list"
  ua_dropped :: "upstream_write list"

definition upload_new :: "nat \<Rightarrow> upstream_write \<Rightarrow> u64 \<Rightarrow> upload_actor" where
  "upload_new now upstream initial_seq =
     \<lparr>ua_phase = Reordering \<lparr>ro_next_seq = initial_seq, ro_pending = [], ro_pending_bytes = 0, ro_eos_waiters = []\<rparr>,
      ua_upstream = Some upstream, ua_last_activity = now, ua_answers = [], ua_dropped = []\<rparr>"

section \<open>Writing runs\<close>

text \<open>
  \<open>write_run\<close>: the write within the timeout succeeded. A write that never completes is a timeout. A panic of
  the writer does not occur (\<open>masque_write_frames\<close> is total); it would count as a failure here.
\<close>

definition write_run :: "upstream_write option \<Rightarrow> bytes list \<Rightarrow> upstream_write option \<times> bool" where
  "write_run upstream frames =
     (case upstream of
        None \<Rightarrow> (None, False)
      | Some up \<Rightarrow>
          (case upstream_write_frames frames up of
             Some (up, Some (Ok _)) \<Rightarrow> (Some up, True)
           | Some (up, _) \<Rightarrow> (Some up, False)
           | None \<Rightarrow> (Some up, False)))"

text \<open>\<open>pending.remove(next_seq)\<close>, with the byte count.\<close>

definition remove_next :: "reorder \<Rightarrow> (bytes \<times> reorder) option" where
  "remove_next ro =
     (case map_of (ro_pending ro) (ro_next_seq ro) of
        None \<Rightarrow> None
      | Some d \<Rightarrow> Some (d, ro\<lparr>ro_pending := AList.delete (ro_next_seq ro) (ro_pending ro),
                             ro_pending_bytes := ro_pending_bytes ro - length d\<rparr>))"

text \<open>The inner loop: extend the run while it is shorter than \<open>MAX_WRITE_IOV\<close> and the next frame is there.\<close>

fun collect_run :: "nat \<Rightarrow> reorder \<Rightarrow> bytes list \<Rightarrow> reorder \<times> bytes list" where
  "collect_run 0 ro run = (ro, run)"
| "collect_run (Suc budget) ro run =
     (case remove_next ro of
        None \<Rightarrow> (ro, run)
      | Some (d, ro) \<Rightarrow> collect_run budget (ro\<lparr>ro_next_seq := ro_next_seq ro + 1\<rparr>) (run @ [d]))"

lemma remove_next_length:
  "remove_next ro = Some (d, ro') \<Longrightarrow> length (ro_pending ro') < length (ro_pending ro)"
proof -
  assume "remove_next ro = Some (d, ro')"
  then have k: "ro_next_seq ro \<in> fst ` set (ro_pending ro)" and
      p: "ro_pending ro' = AList.delete (ro_next_seq ro) (ro_pending ro)"
    by (auto simp: remove_next_def split: option.splits dest: map_of_SomeD intro: rev_image_eqI)
  have "length (AList.delete k al) < length al" if "k \<in> fst ` set al" for k and al :: "(u64 \<times> bytes) list"
    using that by (induction al) (auto simp: le_imp_less_Suc AList.length_delete_le)
  with k p show ?thesis by simp
qed

lemma collect_run_length: "collect_run n ro run = (ro', run') \<Longrightarrow> length (ro_pending ro') \<le> length (ro_pending ro)"
proof (induction n ro run rule: collect_run.induct)
  case (1 ro run)
  then show ?case by simp
next
  case (2 n ro run)
  show ?case
  proof (cases "remove_next ro")
    case None
    then show ?thesis using 2(2) by simp
  next
    case (Some x)
    then obtain d ro1 where x: "x = (d, ro1)" "remove_next ro = Some (d, ro1)" by (cases x) auto
    then show ?thesis using 2 remove_next_length [OF x(2)] by fastforce
  qed
qed

lemma collect_run_waiters: "collect_run n ro run = (ro', run') \<Longrightarrow> ro_eos_waiters ro' = ro_eos_waiters ro"
proof (induction n ro run rule: collect_run.induct)
  case (2 n ro run)
  show ?case
  proof (cases "remove_next ro")
    case None
    then show ?thesis using 2(2) by simp
  next
    case (Some x)
    then obtain d ro1 where x: "x = (d, ro1)" "remove_next ro = Some (d, ro1)" by (cases x) auto
    then have "ro_eos_waiters ro1 = ro_eos_waiters ro" by (auto simp: remove_next_def split: option.splits)
    with 2(1) [OF x(2) refl] 2(2) x show ?thesis by simp
  qed
qed simp

text \<open>The outer loop; the flag is false after a failed write.\<close>

function drain_runs :: "bytes \<Rightarrow> reorder \<Rightarrow> upstream_write option \<Rightarrow> reorder \<times> upstream_write option \<times> bool" where
  "drain_runs head ro upstream =
     (let (ro, run) = collect_run (MAX_WRITE_IOV - 1) (ro\<lparr>ro_next_seq := ro_next_seq ro + 1\<rparr>) [head];
          (upstream, ok) = write_run upstream run
      in if \<not> ok then (ro, upstream, False)
         else (case remove_next ro of
                 Some (d, ro) \<Rightarrow> drain_runs d ro upstream
               | None \<Rightarrow> (ro, upstream, True)))"
  by pat_completeness auto
termination
  by (relation "measure (\<lambda>(head, ro, upstream). length (ro_pending ro))")
    (auto dest!: collect_run_length [OF sym] remove_next_length)

declare drain_runs.simps [simp del]

text \<open>The loop over the waiters with \<open>swap_remove\<close>: returns the ones kept and the acknowledged ones in order.\<close>

function release_waiters :: "u64 \<Rightarrow> nat \<Rightarrow> (u64 \<times> ack) list \<Rightarrow> ack list \<Rightarrow> (u64 \<times> ack) list \<times> ack list" where
  "release_waiters next_seq i waiters acked =
     (if i < length waiters
      then (if next_seq > fst (waiters ! i)
            then (let removed = swap_remove i waiters in
                  release_waiters next_seq i (snd removed) (acked @ [snd (fst removed)]))
            else release_waiters next_seq (Suc i) waiters acked)
      else (waiters, acked))"
  by pat_completeness auto
termination
  by (relation "measure (\<lambda>(next_seq, i, waiters, acked). length waiters - i)") (auto simp: swap_remove_def)

declare release_waiters.simps [simp del]

section \<open>Commands\<close>

text \<open>\<open>shutdown_and_drain\<close>: the write half is shut down and dropped, which \<open>ua_dropped\<close> records. The result of
  \<open>upstream.shutdown()\<close> is ignored by the code, and it adds nothing to the bytes written.\<close>

definition shutdown_and_drain :: "upload_actor \<Rightarrow> upload_actor" where
  "shutdown_and_drain ua =
     ua\<lparr>ua_dropped := ua_dropped ua @ (case ua_upstream ua of Some up \<Rightarrow> [up] | None \<Rightarrow> []),
        ua_upstream := None,
        ua_phase := (case ua_phase ua of
                       Reordering ro \<Rightarrow> UDraining (map snd (ro_eos_waiters ro))
                     | UDraining ws \<Rightarrow> UDraining ws
                     | UClosed \<Rightarrow> UClosed)\<rparr>"

definition answer :: "ack list \<Rightarrow> (unit, server_error) result \<Rightarrow> upload_actor \<Rightarrow> upload_actor" where
  "answer acks r ua = ua\<lparr>ua_answers := ua_answers ua @ map (\<lambda>a. (a, r)) acks\<rparr>"

definition upload_handle_frame :: "u64 \<Rightarrow> bytes \<Rightarrow> upload_actor \<Rightarrow> upload_actor \<times> bool" where
  "upload_handle_frame seq data ua =
     (case ua_phase ua of
        Reordering ro \<Rightarrow>
          (if seq < ro_next_seq ro then (ua, False)
           else if seq = ro_next_seq ro
           then (let (ro, upstream, ok) = drain_runs data ro (ua_upstream ua) in
                 if \<not> ok
                 then (shutdown_and_drain (ua\<lparr>ua_phase := Reordering ro, ua_upstream := upstream\<rparr>), True)
                 else (let (waiters, acked) = release_waiters (ro_next_seq ro) 0 (ro_eos_waiters ro) [] in
                       (answer acked (Ok ())
                          (ua\<lparr>ua_phase := Reordering (ro\<lparr>ro_eos_waiters := waiters\<rparr>), ua_upstream := upstream\<rparr>), False)))
           else if map_of (ro_pending ro) seq \<noteq> None then (ua, False)
           else if length (ro_pending ro) \<ge> MAX_PENDING_FRAMES \<or> ro_pending_bytes ro + length data > MAX_PENDING_BYTES
           then (shutdown_and_drain ua, True)
           else (ua\<lparr>ua_phase := Reordering (ro\<lparr>ro_pending := (seq, data) # ro_pending ro,
                                                ro_pending_bytes := ro_pending_bytes ro + length data\<rparr>)\<rparr>, False))
      | UDraining ws \<Rightarrow> (ua, False)
      | UClosed \<Rightarrow> (ua, False))"

definition upload_handle_eos :: "u64 \<Rightarrow> ack \<Rightarrow> upload_actor \<Rightarrow> upload_actor \<times> bool" where
  "upload_handle_eos max_seq a ua =
     (case ua_phase ua of
        Reordering ro \<Rightarrow>
          (if ro_next_seq ro > max_seq then (answer [a] (Ok ()) ua, False)
           else if length (ro_eos_waiters ro) \<ge> MAX_EOS_WAITERS
           then (answer [a] (Err (bad_gateway ''upload EOS waiters overflow'')) ua, True)
           else (ua\<lparr>ua_phase := Reordering (ro\<lparr>ro_eos_waiters := ro_eos_waiters ro @ [(max_seq, a)]\<rparr>)\<rparr>, False))
      | UDraining ws \<Rightarrow> (ua\<lparr>ua_phase := UDraining (ws @ [a])\<rparr>, False)
      | UClosed \<Rightarrow> (answer [a] (Err (bad_gateway ''upload actor closed'')) ua, True))"

definition upload_dispatch :: "nat \<Rightarrow> upload_cmd \<Rightarrow> upload_actor \<Rightarrow> upload_actor \<times> bool" where
  "upload_dispatch now cmd ua =
     (let ua = ua\<lparr>ua_last_activity := now\<rparr> in
      case cmd of
        UShutdown \<Rightarrow> (shutdown_and_drain ua, True)
      | UFrame seq data \<Rightarrow> upload_handle_frame seq data ua
      | UEos max_seq a \<Rightarrow> upload_handle_eos max_seq a ua)"

definition ack_all_waiters :: "upload_actor \<Rightarrow> upload_actor" where
  "ack_all_waiters ua =
     (let err = gateway_timeout ''upload drain timeout'';
          ws = (case ua_phase ua of Reordering ro \<Rightarrow> map snd (ro_eos_waiters ro) | UDraining ws \<Rightarrow> ws | UClosed \<Rightarrow> [])
      in answer ws (Err err) (ua\<lparr>ua_phase := UClosed\<rparr>))"

text \<open>The event loop of \<open>run\<close>: a command, the closed channel, or the reorder timer.\<close>

datatype upload_event = UCmd nat upload_cmd | UChannelClosed | UReorderTimer nat

definition has_pending :: "upload_actor \<Rightarrow> bool" where
  "has_pending ua =
     (case ua_phase ua of Reordering ro \<Rightarrow> ro_pending ro \<noteq> [] \<or> ro_eos_waiters ro \<noteq> [] | _ \<Rightarrow> False)"

definition upload_step :: "upload_event \<Rightarrow> upload_actor \<Rightarrow> upload_actor \<times> bool" where
  "upload_step ev ua =
     (case ev of
        UCmd now cmd \<Rightarrow> upload_dispatch now cmd ua
      | UChannelClosed \<Rightarrow> (shutdown_and_drain ua, True)
      | UReorderTimer now \<Rightarrow>
          (if has_pending ua \<and> ua_last_activity ua + MAX_REORDER_SECS \<le> now then (shutdown_and_drain ua, True)
           else (ua, False)))"

fun upload_run :: "upload_event list \<Rightarrow> upload_actor \<Rightarrow> upload_actor \<times> bool" where
  "upload_run [] ua = (ua, False)"
| "upload_run (ev # evs) ua =
     (let (ua, finished) = upload_step ev ua in
      if finished then (ack_all_waiters ua, True) else upload_run evs ua)"

section \<open>Lemmas: the reorder buffer\<close>

text \<open>
  \<open>ro_below le ro\<close>: keys are distinct, the byte count is exact, and every key is above the next sequence number
  in the sense of \<open>le\<close> (\<open><\<close> between commands, \<open>\<le>\<close> while a run is being collected).
\<close>

definition ro_below :: "(u64 \<Rightarrow> u64 \<Rightarrow> bool) \<Rightarrow> reorder \<Rightarrow> bool" where
  "ro_below le ro \<longleftrightarrow>
     distinct (map fst (ro_pending ro)) \<and> ro_pending_bytes ro = sum_list (map (length \<circ> snd) (ro_pending ro))
   \<and> (\<forall>k\<in>fst ` set (ro_pending ro). le (ro_next_seq ro) k)"

text \<open>The frames in the buffer are those of the sender \<open>D\<close>.\<close>

definition ro_data :: "(u64 \<Rightarrow> bytes) \<Rightarrow> reorder \<Rightarrow> bool" where
  "ro_data D ro \<longleftrightarrow> (\<forall>(k, d)\<in>set (ro_pending ro). d = D k)"

definition stream_from :: "(u64 \<Rightarrow> bytes) \<Rightarrow> u64 \<Rightarrow> nat \<Rightarrow> bytes list" where
  "stream_from D s n = map (\<lambda>i. D (s + of_nat i)) [0..<n]"

lemma stream_from_Suc: "stream_from D s (Suc n) = D s # stream_from D (s + 1) n"
proof -
  have "stream_from D s (Suc n) = D s # map (\<lambda>i. D (s + of_nat i)) (map Suc [0..<n])"
    by (simp add: stream_from_def upt_conv_Cons map_Suc_upt del: upt_Suc map_map)
  then show ?thesis by (simp add: stream_from_def o_def algebra_simps)
qed

lemma stream_from_0 [simp]: "stream_from D s 0 = []"
  by (simp add: stream_from_def)

lemma stream_from_add: "stream_from D s (m + n) = stream_from D s m @ stream_from D (s + of_nat m) n"
proof (induction m arbitrary: s)
  case 0
  then show ?case by simp
next
  case (Suc m)
  then show ?case by (simp add: stream_from_Suc algebra_simps)
qed

lemma sum_list_delete:
  "distinct (map fst al) \<Longrightarrow> map_of al k = Some d \<Longrightarrow>
     length d + sum_list (map (length \<circ> snd) (AList.delete k al)) = sum_list (map (length \<circ> snd) al)"
proof (induction al)
  case Nil
  then show ?case by simp
next
  case (Cons x al)
  show ?case
  proof (cases "fst x = k")
    case True
    then have "k \<notin> fst ` set al" using Cons.prems by auto
    then have "AList.delete k al = al" by (rule AList.delete_id)
    then show ?thesis using Cons.prems True by (cases x) auto
  next
    case False
    then show ?thesis using Cons by (cases x) auto
  qed
qed

text \<open>Removing the next frame of a buffer whose keys are not below it.\<close>

lemma remove_next_spec:
  assumes "remove_next ro = Some (d, ro')" and "ro_below (\<le>) ro" and "ro_data D ro"
  shows "d = D (ro_next_seq ro) \<and> ro_below (<) ro' \<and> ro_data D ro' \<and> ro_next_seq ro' = ro_next_seq ro
       \<and> ro_eos_waiters ro' = ro_eos_waiters ro \<and> ro_pending_bytes ro' \<le> ro_pending_bytes ro
       \<and> (\<forall>k\<in>fst ` set (ro_pending ro). k = ro_next_seq ro \<or> k \<in> fst ` set (ro_pending ro'))"
proof -
  have d: "map_of (ro_pending ro) (ro_next_seq ro) = Some d"
      and ro': "ro' = ro\<lparr>ro_pending := AList.delete (ro_next_seq ro) (ro_pending ro),
                         ro_pending_bytes := ro_pending_bytes ro - length d\<rparr>"
    using assms(1) by (auto simp: remove_next_def split: option.splits)
  have mem: "(ro_next_seq ro, d) \<in> set (ro_pending ro)" using d by (rule map_of_SomeD)
  have bytes: "length d + sum_list (map (length \<circ> snd) (AList.delete (ro_next_seq ro) (ro_pending ro))) = ro_pending_bytes ro"
    using sum_list_delete [OF _ d] assms(2) by (simp add: ro_below_def)
  have "distinct (map fst (AList.delete (ro_next_seq ro) (ro_pending ro)))"
    using assms(2) by (simp add: ro_below_def AList.distinct_delete)
  moreover have "\<forall>k\<in>fst ` set (AList.delete (ro_next_seq ro) (ro_pending ro)). ro_next_seq ro < k"
    using assms(2) by (fastforce simp: ro_below_def AList.delete_eq order.strict_iff_order)
  ultimately show ?thesis
    using ro' mem assms(2,3) bytes by (auto simp: ro_below_def ro_data_def AList.delete_eq rev_image_eqI)
qed

lemma ro_below_next:
  assumes "ro_below (<) ro"
  shows "ro_below (\<le>) (ro\<lparr>ro_next_seq := ro_next_seq ro + 1\<rparr>)"
proof -
  have "x + 1 \<le> k" if "x < k" for x k :: u64
    using that by (simp add: inc_le)
  with assms show ?thesis by (auto simp: ro_below_def)
qed

text \<open>What a run takes out of the buffer: \<open>m\<close> consecutive frames.\<close>

definition took :: "(u64 \<Rightarrow> bytes) \<Rightarrow> reorder \<Rightarrow> nat \<Rightarrow> reorder \<Rightarrow> bool" where
  "took D ro m ro' \<longleftrightarrow>
     ro_below (\<le>) ro' \<and> ro_data D ro' \<and> ro_next_seq ro' = ro_next_seq ro + of_nat m
   \<and> ro_eos_waiters ro' = ro_eos_waiters ro \<and> length (ro_pending ro') + m \<le> length (ro_pending ro)
   \<and> ro_pending_bytes ro' \<le> ro_pending_bytes ro
   \<and> (\<forall>k\<in>fst ` set (ro_pending ro). (\<exists>i < m. k = ro_next_seq ro + of_nat i) \<or> k \<in> fst ` set (ro_pending ro'))"

lemma took_keys:
  "took D ro m ro' \<Longrightarrow> k \<in> fst ` set (ro_pending ro)
   \<Longrightarrow> (\<exists>i < m. k = ro_next_seq ro + of_nat i) \<or> k \<in> fst ` set (ro_pending ro')"
  unfolding took_def by blast

lemma took_0: "ro_below (\<le>) ro \<Longrightarrow> ro_data D ro \<Longrightarrow> took D ro 0 ro"
  by (simp add: took_def)

lemma took_trans:
  assumes "took D ro m ro1" and "took D ro1 n ro2"
  shows "took D ro (m + n) ro2"
proof -
  have "(\<exists>i < m + n. k = ro_next_seq ro + of_nat i) \<or> k \<in> fst ` set (ro_pending ro2)"
    if k: "k \<in> fst ` set (ro_pending ro)" for k
  proof -
    consider i where "i < m" "k = ro_next_seq ro + of_nat i" | j where "j < n" "k = ro_next_seq ro1 + of_nat j"
      | "k \<in> fst ` set (ro_pending ro2)"
      using took_keys [OF assms(1) k] took_keys [OF assms(2)] by blast
    then show ?thesis
    proof cases
      case 1
      then have "i < m + n" by simp
      with 1(2) show ?thesis by blast
    next
      case 2
      then have "m + j < m + n" "k = ro_next_seq ro + of_nat (m + j)" using assms(1) by (auto simp: took_def)
      then show ?thesis by blast
    qed auto
  qed
  moreover have "ro_next_seq ro2 = ro_next_seq ro + of_nat (m + n)" using assms by (simp add: took_def add.assoc)
  ultimately show ?thesis using assms unfolding took_def by simp
qed

lemma took_one:
  assumes "remove_next ro = Some (d, ro')" and "ro_below (\<le>) ro" and "ro_data D ro"
  shows "took D ro 1 (ro'\<lparr>ro_next_seq := ro_next_seq ro' + 1\<rparr>)"
  using remove_next_spec [OF assms] remove_next_length [OF assms(1)] ro_below_next [of ro']
  by (auto simp: took_def ro_data_def)

lemma collect_run_spec:
  "ro_below (\<le>) ro \<Longrightarrow> ro_data D ro \<Longrightarrow> collect_run b ro run = (ro', run') \<Longrightarrow>
     \<exists>m. took D ro m ro' \<and> run' = run @ stream_from D (ro_next_seq ro) m"
proof (induction b ro run rule: collect_run.induct)
  case (1 ro run)
  then show ?case by (auto intro: took_0 exI [of _ 0])
next
  case (2 b ro run)
  show ?case
  proof (cases "remove_next ro")
    case None
    then show ?thesis using 2 by (auto intro: took_0 exI [of _ 0])
  next
    case (Some x)
    then obtain d ro1 where x: "x = (d, ro1)" "remove_next ro = Some (d, ro1)" by (cases x) auto
    let ?ro = "ro1\<lparr>ro_next_seq := ro_next_seq ro1 + 1\<rparr>"
    have t: "took D ro 1 ?ro" using took_one x 2(2,3) by blast
    have "collect_run b ?ro (run @ [d]) = (ro', run')" using 2(4) x by simp
    with t obtain m where m: "took D ?ro m ro'" "run' = (run @ [d]) @ stream_from D (ro_next_seq ?ro) m"
      using 2(1) [OF x(2) refl] by (auto simp: took_def)
    have "d = D (ro_next_seq ro)" "ro_next_seq ro1 = ro_next_seq ro" using remove_next_spec [OF x(2) 2(2,3)] by auto
    then have "run' = run @ stream_from D (ro_next_seq ro) (Suc m)" using m(2) by (simp add: stream_from_Suc)
    then show ?thesis using took_trans [OF t m(1)] by auto
  qed
qed

section \<open>Lemmas: what reaches the upstream\<close>

text \<open>The upstream has been given the bytes \<open>bs\<close>: plainly, or as the payload of DATA frames.\<close>

fun carries :: "upstream_write \<Rightarrow> bytes \<Rightarrow> bool" where
  "carries (DirectWrite sk) bs \<longleftrightarrow> sk_sent sk = bs"
| "carries (WarpWrite sk) bs \<longleftrightarrow> (\<exists>ps. sk_sent sk = concat (map data_frame ps) \<and> concat ps = bs)"

lemma upstream_write_carries:
  assumes "upstream_write_frames frames up = Some (up', Some (Ok u))" and "carries up bs"
  shows "carries up' (bs @ concat frames)"
proof (cases up)
  case (DirectWrite sk)
  then obtain sk' where w: "write_tcp_frames frames sk = (sk', Some (Ok ()))" and up': "up' = DirectWrite sk'"
    using assms(1) by (auto split: prod.splits)
  have "sent_prefix (concat frames) sk (sk', Some (Ok ()) :: (unit, io_error) result option)"
    using write_tcp_frames_sent [of frames sk] w by simp
  then show ?thesis using sent_prefix_ok assms(2) DirectWrite up' by fastforce
next
  case (WarpWrite sk)
  then obtain sk' where w: "masque_write_frames frames sk = Some (sk', Some (Ok ()))" and up': "up' = WarpWrite sk'"
    using assms(1) by (auto split: prod.splits)
  obtain r ps where "masque_write_frames frames sk = Some r" "data_payloads frames ps" "sent_prefix (concat (map data_frame ps)) sk r"
    using masque_write_frames_sent [of frames sk] by blast
  then have ps: "concat ps = concat frames" "sk_sent sk' = sk_sent sk @ concat (map data_frame ps)"
    using w sent_prefix_ok by (fastforce simp: data_payloads_def)+
  obtain qs where "sk_sent sk = concat (map data_frame qs)" "concat qs = bs" using assms(2) WarpWrite by auto
  then show ?thesis using ps up' by (auto intro!: exI [of _ "qs @ ps"])
qed

lemma write_run_carries:
  assumes "write_run (Some up) frames = (up', True)" and "carries up bs"
  shows "\<exists>up1. up' = Some up1 \<and> carries up1 (bs @ concat frames)"
  using assms upstream_write_carries [of frames up _ _ bs]
  by (auto simp: write_run_def split: option.splits result.splits prod.splits)

text \<open>
  A frame that arrives in sequence: the loop hands \<open>m \<ge> 1\<close> consecutive frames of the sender to the upstream and
  stops only where the next one is missing, or at a failed write.
\<close>

lemma drain_runs_spec:
  "ro_below (<) ro \<Longrightarrow> ro_data D ro \<Longrightarrow> head = D (ro_next_seq ro) \<Longrightarrow> upstream = Some up \<Longrightarrow> carries up bs
   \<Longrightarrow> drain_runs head ro upstream = (ro', upstream', True)
   \<Longrightarrow> \<exists>m up'. took D (ro\<lparr>ro_next_seq := ro_next_seq ro + 1\<rparr>) m ro' \<and> ro_below (<) ro'
        \<and> upstream' = Some up' \<and> carries up' (bs @ concat (stream_from D (ro_next_seq ro) (Suc m)))"
proof (induction head ro upstream arbitrary: up bs rule: drain_runs.induct)
  case (1 head ro upstream)
  let ?ro = "ro\<lparr>ro_next_seq := ro_next_seq ro + 1\<rparr>"
  obtain ro1 run where c: "collect_run (MAX_WRITE_IOV - 1) ?ro [head] = (ro1, run)" by fastforce
  have b: "ro_below (\<le>) ?ro" "ro_data D ?ro" using ro_below_next [OF 1(2)] 1(3) by (auto simp: ro_data_def)
  obtain m where m: "took D ?ro m ro1" "run = [head] @ stream_from D (ro_next_seq ?ro) m"
    using collect_run_spec [OF b c] by blast
  then have run: "run = stream_from D (ro_next_seq ro) (Suc m)" using 1(4) by (simp add: stream_from_Suc)
  obtain up1 ok where w: "write_run upstream run = (up1, ok)" by fastforce
  note u = drain_runs.simps [of head ro upstream]
  have ok: ok using 1(7) u c w by (cases ok) auto
  then obtain up2 where up2: "up1 = Some up2" "carries up2 (bs @ concat run)"
    using write_run_carries [of up run up1 bs] w 1(5,6) by auto
  have ro1: "ro_below (\<le>) ro1" "ro_data D ro1" using m(1) by (auto simp: took_def)
  show ?case
  proof (cases "remove_next ro1")
    case None
    then have eq: "ro' = ro1" "upstream' = up1" using 1(7) u c w ok by auto
    have "ro_next_seq ro1 \<notin> fst ` set (ro_pending ro1)"
      using None by (auto simp: remove_next_def map_of_eq_None_iff split: option.splits)
    then have "ro_below (<) ro1" using ro1(1) by (auto simp: ro_below_def order.strict_iff_order)
    then show ?thesis using m(1) eq up2 run by auto
  next
    case (Some x)
    then obtain d ro2 where x: "x = (d, ro2)" "remove_next ro1 = Some (d, ro2)" by (cases x) auto
    note rn = remove_next_spec [OF x(2) ro1]
    let ?ro2 = "ro2\<lparr>ro_next_seq := ro_next_seq ro2 + 1\<rparr>"
    have dr: "drain_runs d ro2 up1 = (ro', upstream', True)" using 1(7) u c w ok x by simp
    obtain k up3 where k: "took D ?ro2 k ro'" "ro_below (<) ro'" "upstream' = Some up3"
        "carries up3 ((bs @ concat run) @ concat (stream_from D (ro_next_seq ro2) (Suc k)))"
      using 1(1) [OF c [symmetric] refl w [symmetric] refl _ x(2) refl _ _ _ up2 dr] rn ok by auto
    have t: "took D ?ro (m + (1 + k)) ro'"
      by (rule took_trans [OF m(1) took_trans [OF took_one [OF x(2) ro1] k(1)]])
    have "ro_next_seq ro2 = ro_next_seq ro + of_nat (Suc m)" using m(1) rn by (auto simp: took_def algebra_simps)
    then have "concat run @ concat (stream_from D (ro_next_seq ro2) (Suc k)) = concat (stream_from D (ro_next_seq ro) (Suc m + Suc k))"
      using run by (simp only: stream_from_add concat_append)
    then show ?thesis using t k by (intro exI [of _ "m + (1 + k)"] exI [of _ up3]) simp
  qed
qed

text \<open>The bytes \<open>bs\<close> went out first; a failed write may have sent more after them.\<close>

fun sent_first :: "upstream_write \<Rightarrow> bytes \<Rightarrow> bool" where
  "sent_first (DirectWrite sk) bs \<longleftrightarrow> (\<exists>x. sk_sent sk = bs @ x)"
| "sent_first (WarpWrite sk) bs \<longleftrightarrow> (\<exists>ps x. sk_sent sk = concat (map data_frame ps) @ x \<and> concat ps = bs)"

lemma carries_sent_first: "carries up bs \<Longrightarrow> sent_first up bs"
  by (cases up) fastforce+

lemma sent_prefix_more: "sent_prefix d sk (sk', r) \<Longrightarrow> \<exists>x. sk_sent sk' = sk_sent sk @ x"
  by (auto simp: sent_prefix_def)

lemma upstream_write_sent_first:
  assumes "upstream_write_frames frames up = Some (up', r)" and "sent_first up bs"
  shows "sent_first up' bs"
proof (cases up)
  case (DirectWrite sk)
  then obtain sk' where w: "write_tcp_frames frames sk = (sk', r)" and up': "up' = DirectWrite sk'"
    using assms(1) by (auto split: prod.splits)
  then show ?thesis using sent_prefix_more [of "concat frames" sk sk' r] write_tcp_frames_sent [of frames sk] assms(2) DirectWrite
    by auto
next
  case (WarpWrite sk)
  then obtain sk' where w: "masque_write_frames frames sk = Some (sk', r)" and up': "up' = WarpWrite sk'"
    using assms(1) by (auto split: prod.splits)
  obtain r' ps where "masque_write_frames frames sk = Some r'" "sent_prefix (concat (map data_frame ps)) sk r'"
    using masque_write_frames_sent [of frames sk] by blast
  then obtain x where "sk_sent sk' = sk_sent sk @ x" using w sent_prefix_more [of _ sk sk' r] by auto
  then show ?thesis using assms(2) WarpWrite up' by fastforce
qed

lemma write_run_sent_first:
  assumes "write_run (Some up) frames = (up', ok)" and "sent_first up bs"
  shows "\<exists>up1. up' = Some up1 \<and> sent_first up1 bs"
  using assms upstream_write_sent_first [of frames up _ _ bs]
  by (auto simp: write_run_def split: option.splits result.splits prod.splits)

lemma drain_runs_sent_first:
  "drain_runs head ro upstream = (ro', upstream', ok) \<Longrightarrow> upstream = Some up \<Longrightarrow> sent_first up bs
   \<Longrightarrow> \<exists>up'. upstream' = Some up' \<and> sent_first up' bs \<and> ro_eos_waiters ro' = ro_eos_waiters ro"
proof (induction head ro upstream arbitrary: up rule: drain_runs.induct)
  case (1 head ro upstream)
  obtain ro1 run where c: "collect_run (MAX_WRITE_IOV - 1) (ro\<lparr>ro_next_seq := ro_next_seq ro + 1\<rparr>) [head] = (ro1, run)" by fastforce
  obtain up1 k where w: "write_run upstream run = (up1, k)" by fastforce
  then obtain up2 where up2: "up1 = Some up2" "sent_first up2 bs" using write_run_sent_first 1(3,4) by blast
  have ws: "ro_eos_waiters ro1 = ro_eos_waiters ro" using collect_run_waiters [OF c] by simp
  note u = drain_runs.simps [of head ro upstream]
  show ?case
  proof (cases "k \<and> remove_next ro1 \<noteq> None")
    case False
    then show ?thesis using 1(2) u c w up2 ws by (auto split: option.splits if_splits)
  next
    case True
    then obtain d ro2 where x: "remove_next ro1 = Some (d, ro2)" and k by auto
    have "drain_runs d ro2 up1 = (ro', upstream', ok)" using 1(2) u c w x \<open>k\<close> by simp
    then have "\<exists>up'. upstream' = Some up' \<and> sent_first up' bs \<and> ro_eos_waiters ro' = ro_eos_waiters ro2"
      using 1(1) [OF c [symmetric] refl w [symmetric] refl _ x refl _ up2] \<open>k\<close> by simp
    then show ?thesis using ws x by (auto simp: remove_next_def split: option.splits)
  qed
qed

section \<open>Lemmas: the waiters\<close>

lemma release_waiters_spec:
  "release_waiters nx i ws acked = (ws', acked') \<Longrightarrow> \<forall>j < i. j < length ws \<longrightarrow> \<not> nx > fst (ws ! j)
   \<Longrightarrow> (\<forall>w\<in>set ws'. w \<in> set ws \<and> nx \<le> fst w) \<and> length ws' \<le> length ws
     \<and> (\<forall>a\<in>set acked'. a \<in> set acked \<or> (\<exists>m. (m, a) \<in> set ws \<and> m < nx))
     \<and> mset (map snd ws') + mset acked' = mset (map snd ws) + mset acked"
proof (induction nx i ws acked rule: release_waiters.induct)
  case (1 nx i ws acked)
  note u = release_waiters.simps [of nx i ws acked]
  consider (fin) "\<not> i < length ws" | (rel) "i < length ws" "nx > fst (ws ! i)" | (keep) "i < length ws" "\<not> nx > fst (ws ! i)"
    by blast
  then show ?case
  proof cases
    case fin
    have "nx \<le> fst w" if w: "w \<in> set ws" for w
    proof -
      obtain j where j: "j < length ws" "w = ws ! j" using w by (auto simp: in_set_conv_nth)
      then have "j < i" using fin by simp
      then show ?thesis using 1(4) j by (simp add: not_less)
    qed
    then show ?thesis using 1(3) u fin by auto
  next
    case keep
    then show ?thesis using 1(2) [OF keep] 1(3,4) u by (auto simp: less_Suc_eq)
  next
    case rel
    let ?r = "swap_remove i ws"
    have r: "fst ?r = ws ! i" by (simp add: swap_remove_def)
    have ms: "add_mset (fst ?r) (mset (snd ?r)) = mset ws" by (rule swap_remove_mset [OF rel(1)])
    have sub: "set (snd ?r) \<subseteq> set ws" using ms by (metis add_mset_remove_trivial in_diffD set_mset_mset subsetI)
    have below: "\<forall>j < i. j < length (snd ?r) \<longrightarrow> \<not> nx > fst (snd ?r ! j)"
      using 1(4) rel(1) by (auto simp: swap_remove_def nth_butlast)
    have "release_waiters nx i (snd ?r) (acked @ [snd (fst ?r)]) = (ws', acked')"
      using 1(3) u rel by (simp add: Let_def)
    note IH = 1(1) [OF rel refl this below]
    have "image_mset snd (add_mset (fst ?r) (mset (snd ?r))) = image_mset snd (mset ws)" using ms by simp
    then have ms': "add_mset (snd (fst ?r)) (mset (map snd (snd ?r))) = mset (map snd ws)" by simp
    have "mset (map snd ws') + mset acked' = mset (map snd ws) + mset acked" using IH ms' by (simp add: ac_simps)
    moreover have "a \<in> set acked \<or> (\<exists>m. (m, a) \<in> set ws \<and> m < nx)" if "a \<in> set acked'" for a
    proof -
      have "(fst (ws ! i), snd (ws ! i)) \<in> set ws" using rel(1) by simp
      moreover have "a \<in> set (acked @ [snd (ws ! i)]) \<or> (\<exists>m. (m, a) \<in> set (snd ?r) \<and> m < nx)"
        using IH that r by metis
      ultimately show ?thesis using rel(2) sub by auto
    qed
    moreover have "length (snd ?r) \<le> length ws" using swap_remove_length [OF rel(1)] by simp
    ultimately show ?thesis using IH sub by (auto intro: order_trans)
  qed
qed

section \<open>The invariant\<close>

text \<open>
  \<open>upload_inv D E s0 R c ua\<close>: after \<open>c\<close> events from a sender whose frame \<open>k\<close> is \<open>D k\<close> and whose
  acknowledgement \<open>a\<close> marks \<open>E a\<close>, with the sequence numbers in \<open>R\<close> received and the actor started at \<open>s0\<close>.
\<close>

definition reorder_inv ::
    "(u64 \<Rightarrow> bytes) \<Rightarrow> (ack \<Rightarrow> u64) \<Rightarrow> u64 \<Rightarrow> u64 set \<Rightarrow> nat \<Rightarrow> nat \<Rightarrow> reorder \<Rightarrow> bool" where
  "reorder_inv D E s0 R c n ro \<longleftrightarrow>
     ro_below (<) ro \<and> ro_data D ro
   \<and> length (ro_pending ro) \<le> MAX_PENDING_FRAMES \<and> ro_pending_bytes ro \<le> MAX_PENDING_BYTES
   \<and> length (ro_eos_waiters ro) \<le> MAX_EOS_WAITERS
   \<and> (\<forall>(m, a)\<in>set (ro_eos_waiters ro). m = E a \<and> ro_next_seq ro \<le> m)
   \<and> ro_next_seq ro = s0 + of_nat n \<and> n + length (ro_pending ro) \<le> c
   \<and> (unat s0 + c < 2 ^ 64 \<longrightarrow>
        (\<forall>k\<in>R. s0 \<le> k \<longrightarrow> (\<exists>i < n. k = s0 + of_nat i) \<or> k \<in> fst ` set (ro_pending ro)))"

definition answers_inv :: "(ack \<Rightarrow> u64) \<Rightarrow> u64 \<Rightarrow> nat \<Rightarrow> (ack \<times> (unit, server_error) result) list \<Rightarrow> bool" where
  "answers_inv E s0 n as \<longleftrightarrow> (\<forall>a. (a, Ok ()) \<in> set as \<longrightarrow> (\<exists>m \<le> n. E a < s0 + of_nat m))"

definition upload_inv ::
    "(u64 \<Rightarrow> bytes) \<Rightarrow> (ack \<Rightarrow> u64) \<Rightarrow> u64 \<Rightarrow> u64 set \<Rightarrow> nat \<Rightarrow> upload_actor \<Rightarrow> bool" where
  "upload_inv D E s0 R c ua \<longleftrightarrow>
     (\<exists>n up. answers_inv E s0 n (ua_answers ua) \<and> sent_first up (concat (stream_from D s0 n))
        \<and> (case ua_phase ua of
             Reordering ro \<Rightarrow> reorder_inv D E s0 R c n ro \<and> ua_upstream ua = Some up \<and> carries up (concat (stream_from D s0 n))
           | _ \<Rightarrow> ua_upstream ua = Some up \<or> up \<in> set (ua_dropped ua)))"

lemma answers_inv_mono: "answers_inv E s0 n as \<Longrightarrow> n \<le> n' \<Longrightarrow> answers_inv E s0 n' as"
  unfolding answers_inv_def by (meson order_trans)

lemma answers_inv_append:
  "answers_inv E s0 n (as @ map (\<lambda>a. (a, r)) acks)
   \<longleftrightarrow> answers_inv E s0 n as \<and> (r = Ok () \<longrightarrow> (\<forall>a\<in>set acks. \<exists>m \<le> n. E a < s0 + of_nat m))"
  by (fastforce simp: answers_inv_def)

lemma reorder_inv_more:
  "reorder_inv D E s0 R c n ro \<Longrightarrow> reorder_inv D E s0 R (Suc c) n ro"
  by (auto simp: reorder_inv_def)

text \<open>A frame below the next sequence number has been written already.\<close>

lemma stale_written:
  fixes s0 k :: u64
  assumes "unat s0 + c < 2 ^ 64" and "n \<le> c" and "k < s0 + of_nat n" and "s0 \<le> k"
  shows "\<exists>i < n. k = s0 + of_nat i"
proof -
  let ?i = "unat k - unat s0"
  have "unat (of_nat n :: u64) = n" using assms(1,2) by (simp add: unat_of_nat)
  then have "unat (s0 + of_nat n) = unat s0 + n"
    using assms(1,2) by (simp add: unat_word_ariths)
  then have "?i < n" using assms(3,4) by (simp add: word_less_nat_alt word_le_nat_alt)
  moreover have "k = s0 + of_nat ?i"
    using assms(4) by (simp add: word_le_nat_alt)
  ultimately show ?thesis by blast
qed

lemma upload_inv_shutdown:
  assumes "answers_inv E s0 n (ua_answers ua)" and "ua_upstream ua = Some up" and "sent_first up (concat (stream_from D s0 n))"
  shows "upload_inv D E s0 R c (shutdown_and_drain ua)"
  using assms unfolding upload_inv_def
  by (intro exI [of _ n] exI [of _ up]) (auto simp: shutdown_and_drain_def split: upload_phase.splits)

lemma upload_inv_idle:
  assumes "upload_inv D E s0 R c ua" and "\<forall>ro. ua_phase ua \<noteq> Reordering ro"
  shows "upload_inv D E s0 R' c' (shutdown_and_drain ua)" and "upload_inv D E s0 R' c' ua"
proof -
  obtain n up where *: "answers_inv E s0 n (ua_answers ua)" "sent_first up (concat (stream_from D s0 n))"
      "ua_upstream ua = Some up \<or> up \<in> set (ua_dropped ua)"
    using assms by (cases "ua_phase ua") (auto simp: upload_inv_def)
  show "upload_inv D E s0 R' c' (shutdown_and_drain ua)"
    unfolding upload_inv_def using * assms(2)
    by (intro exI [of _ n] exI [of _ up]) (auto simp: shutdown_and_drain_def split: upload_phase.splits)
  show "upload_inv D E s0 R' c' ua"
    unfolding upload_inv_def using * assms(2)
    by (intro exI [of _ n] exI [of _ up]) (auto split: upload_phase.splits)
qed

lemma upload_inv_any_shutdown:
  assumes "upload_inv D E s0 R c ua"
  shows "upload_inv D E s0 R' c' (shutdown_and_drain ua)"
proof (cases "ua_phase ua")
  case (Reordering ro)
  then show ?thesis using assms upload_inv_shutdown by (auto simp: upload_inv_def)
qed (use upload_inv_idle(1) [OF assms] in simp_all)

text \<open>The frame in sequence.\<close>

lemma reorder_inv_drain:
  assumes inv: "reorder_inv D E s0 R c n ro" and t: "took D (ro\<lparr>ro_next_seq := ro_next_seq ro + 1\<rparr>) m ro'"
    and b: "ro_below (<) ro'" and ws: "\<forall>(x, a)\<in>set ws. x = E a \<and> ro_next_seq ro' \<le> x" "length ws \<le> MAX_EOS_WAITERS"
  shows "reorder_inv D E s0 (insert (ro_next_seq ro) R) (Suc c) (n + Suc m) (ro'\<lparr>ro_eos_waiters := ws\<rparr>)"
proof -
  have nx: "ro_next_seq ro' = s0 + of_nat (n + Suc m)" and nro: "ro_next_seq ro = s0 + of_nat n"
    using t inv by (auto simp: took_def reorder_inv_def algebra_simps)
  have keys: "(\<exists>i < n + Suc m. k = s0 + of_nat i) \<or> k \<in> fst ` set (ro_pending ro')"
    if "unat s0 + Suc c < 2 ^ 64" "k \<in> insert (ro_next_seq ro) R" "s0 \<le> k" for k
  proof -
    have "k = s0 + of_nat n \<or> (\<exists>i < n. k = s0 + of_nat i) \<or> k \<in> fst ` set (ro_pending ro)"
      using that inv nro unfolding reorder_inv_def by auto
    then consider i where "i \<le> n" "k = s0 + of_nat i" | "k \<in> fst ` set (ro_pending ro)"
      using less_imp_le by blast
    then show ?thesis
    proof cases
      case 1
      then have "i < n + Suc m" by simp
      with 1(2) show ?thesis by blast
    next
      case 2
      then have "(\<exists>i < m. k = ro_next_seq ro + 1 + of_nat i) \<or> k \<in> fst ` set (ro_pending ro')"
        using took_keys [OF t] by simp
      moreover have "ro_next_seq ro + 1 + of_nat i = s0 + of_nat (n + Suc i)" for i
        using nro by (simp add: algebra_simps)
      ultimately show ?thesis by (metis Suc_less_eq add_less_cancel_left)
    qed
  qed
  then show ?thesis
    using t b ws inv nx by (auto simp: reorder_inv_def took_def ro_below_def ro_data_def)
qed

lemma upload_invE:
  assumes "upload_inv D E s0 R c ua" and "ua_phase ua = Reordering ro"
  obtains n up where "answers_inv E s0 n (ua_answers ua)" and "reorder_inv D E s0 R c n ro"
    and "ua_upstream ua = Some up" and "carries up (concat (stream_from D s0 n))"
  using assms by (auto simp: upload_inv_def)

lemma upload_invI:
  assumes "ua_phase ua = Reordering ro" and "answers_inv E s0 n (ua_answers ua)" and "reorder_inv D E s0 R c n ro"
    and "ua_upstream ua = Some up" and "carries up (concat (stream_from D s0 n))"
  shows "upload_inv D E s0 R c ua"
  using assms carries_sent_first [OF assms(5)] unfolding upload_inv_def by auto

lemma upload_inv_in_sequence:
  assumes inv: "upload_inv D E s0 R c ua" and ph: "ua_phase ua = Reordering ro"
    and d: "data = D (ro_next_seq ro)"
  shows "upload_inv D E s0 (insert (ro_next_seq ro) R) (Suc c) (fst (upload_handle_frame (ro_next_seq ro) data ua))"
proof -
  obtain n up where an: "answers_inv E s0 n (ua_answers ua)" and ri: "reorder_inv D E s0 R c n ro"
      and up: "ua_upstream ua = Some up" and car: "carries up (concat (stream_from D s0 n))"
    using upload_invE [OF inv ph] .
  obtain ro1 up1 ok where dr: "drain_runs data ro (ua_upstream ua) = (ro1, up1, ok)" by (metis prod.collapse)
  note sf = drain_runs_sent_first [OF dr up carries_sent_first [OF car]]
  show ?thesis
  proof (cases ok)
    case False
    then show ?thesis using ph dr sf an upload_inv_shutdown [of E s0 n "ua\<lparr>ua_phase := Reordering ro1, ua_upstream := up1\<rparr>"]
      by (auto simp: upload_handle_frame_def)
  next
    case True
    have nx: "ro_next_seq ro = s0 + of_nat n" using ri by (simp add: reorder_inv_def)
    obtain m up2 where t: "took D (ro\<lparr>ro_next_seq := ro_next_seq ro + 1\<rparr>) m ro1" and b: "ro_below (<) ro1" and u2: "up1 = Some up2"
        and car2: "carries up2 (concat (stream_from D s0 n) @ concat (stream_from D (ro_next_seq ro) (Suc m)))"
      using drain_runs_spec [of ro D data, OF _ _ d up car] dr True ri by (auto simp: reorder_inv_def)
    obtain ws acked where rw: "release_waiters (ro_next_seq ro1) 0 (ro_eos_waiters ro1) [] = (ws, acked)" by fastforce
    note rs = release_waiters_spec [OF rw]
    have w1: "ro_eos_waiters ro1 = ro_eos_waiters ro" using t by (simp add: took_def)
    have rin: "reorder_inv D E s0 (insert (ro_next_seq ro) R) (Suc c) (n + Suc m) (ro1\<lparr>ro_eos_waiters := ws\<rparr>)"
      using rs ri w1 by (intro reorder_inv_drain [OF ri t b]) (fastforce simp: reorder_inv_def)+
    have nx1: "ro_next_seq ro1 = s0 + of_nat (n + Suc m)" using rin by (simp add: reorder_inv_def)
    have "E a < s0 + of_nat (n + Suc m)" if a: "a \<in> set acked" for a
    proof -
      obtain x where "(x, a) \<in> set (ro_eos_waiters ro)" "x < ro_next_seq ro1" using rs w1 a by auto
      then show ?thesis using ri nx1 by (auto simp: reorder_inv_def)
    qed
    then have an2: "answers_inv E s0 (n + Suc m) (ua_answers ua @ map (\<lambda>a. (a, Ok ())) acked)"
      using answers_inv_mono [OF an] by (auto simp: answers_inv_append)
    have "concat (stream_from D s0 n) @ concat (stream_from D (ro_next_seq ro) (Suc m)) = concat (stream_from D s0 (n + Suc m))"
      by (simp only: stream_from_add concat_append nx)
    then show ?thesis using ph dr True rw u2 car2 an2 rin
      by (intro upload_invI [of _ "ro1\<lparr>ro_eos_waiters := ws\<rparr>"]) (auto simp: upload_handle_frame_def answer_def)
  qed
qed

lemma upload_inv_frame:
  assumes inv: "upload_inv D E s0 R c ua" and d: "data = D seq"
  shows "upload_inv D E s0 (insert seq R) (Suc c) (fst (upload_handle_frame seq data ua))"
proof (cases "ua_phase ua")
  case (Reordering ro)
  obtain n up where an: "answers_inv E s0 n (ua_answers ua)" and ri: "reorder_inv D E s0 R c n ro"
      and up: "ua_upstream ua = Some up" and car: "carries up (concat (stream_from D s0 n))"
    using upload_invE [OF inv Reordering] .
  have nx: "ro_next_seq ro = s0 + of_nat n" "n \<le> c" using ri by (auto simp: reorder_inv_def)
  have known: "upload_inv D E s0 (insert seq R) (Suc c) ua"
    if "unat s0 + Suc c < 2 ^ 64 \<longrightarrow> s0 \<le> seq \<longrightarrow> (\<exists>i < n. seq = s0 + of_nat i) \<or> seq \<in> fst ` set (ro_pending ro)"
    using that ri an up car Reordering by (intro upload_invI) (auto simp: reorder_inv_def)
  consider (stale) "seq < ro_next_seq ro" | (here) "seq = ro_next_seq ro"
    | (dup) "\<not> seq < ro_next_seq ro" "seq \<noteq> ro_next_seq ro" "map_of (ro_pending ro) seq \<noteq> None"
    | (over) "\<not> seq < ro_next_seq ro" "seq \<noteq> ro_next_seq ro" "map_of (ro_pending ro) seq = None"
        "length (ro_pending ro) \<ge> MAX_PENDING_FRAMES \<or> ro_pending_bytes ro + length data > MAX_PENDING_BYTES"
    | (ins) "\<not> seq < ro_next_seq ro" "seq \<noteq> ro_next_seq ro" "map_of (ro_pending ro) seq = None"
        "\<not> (length (ro_pending ro) \<ge> MAX_PENDING_FRAMES \<or> ro_pending_bytes ro + length data > MAX_PENDING_BYTES)"
    by blast
  then show ?thesis
  proof cases
    case stale
    then have "upload_inv D E s0 (insert seq R) (Suc c) ua"
      using stale_written [of s0 "Suc c" n seq] nx by (intro known) auto
    then show ?thesis using stale Reordering by (simp add: upload_handle_frame_def)
  next
    case here
    then show ?thesis using upload_inv_in_sequence [OF inv Reordering] d by simp
  next
    case dup
    then have "seq \<in> fst ` set (ro_pending ro)" by (simp add: fst_set_map_of)
    then show ?thesis using dup Reordering known by (simp add: upload_handle_frame_def)
  next
    case over
    then show ?thesis using Reordering upload_inv_any_shutdown [OF inv] by (auto simp: upload_handle_frame_def)
  next
    case ins
    let ?ro = "ro\<lparr>ro_pending := (seq, data) # ro_pending ro, ro_pending_bytes := ro_pending_bytes ro + length data\<rparr>"
    have "ro_next_seq ro < seq" using ins by simp
    moreover have "seq \<notin> fst ` set (ro_pending ro)" using ins by (simp add: fst_set_map_of)
    ultimately have "reorder_inv D E s0 (insert seq R) (Suc c) n ?ro"
      using ri ins d by (auto simp: reorder_inv_def ro_below_def ro_data_def)
    then show ?thesis using ins Reordering an up car
      by (intro upload_invI [of _ ?ro]) (auto simp: upload_handle_frame_def)
  qed
qed (use upload_inv_idle(2) [OF inv] in \<open>simp_all add: upload_handle_frame_def\<close>)

lemma upload_inv_eos:
  assumes inv: "upload_inv D E s0 R c ua" and e: "max_seq = E a"
  shows "upload_inv D E s0 R (Suc c) (fst (upload_handle_eos max_seq a ua))"
proof (cases "ua_phase ua")
  case (Reordering ro)
  obtain n up where an: "answers_inv E s0 n (ua_answers ua)" and ri: "reorder_inv D E s0 R c n ro"
      and up: "ua_upstream ua = Some up" and car: "carries up (concat (stream_from D s0 n))"
    using upload_invE [OF inv Reordering] .
  have nx: "ro_next_seq ro = s0 + of_nat n" using ri by (simp add: reorder_inv_def)
  note ri' = reorder_inv_more [OF ri]
  consider (passed) "ro_next_seq ro > max_seq" | (full) "\<not> ro_next_seq ro > max_seq" "length (ro_eos_waiters ro) \<ge> MAX_EOS_WAITERS"
    | (wait) "\<not> ro_next_seq ro > max_seq" "length (ro_eos_waiters ro) < MAX_EOS_WAITERS" by linarith
  then show ?thesis
  proof cases
    case passed
    then have "answers_inv E s0 n (ua_answers ua @ map (\<lambda>a. (a, Ok ())) [a])"
      using an e nx by (simp only: answers_inv_append) auto
    then show ?thesis using passed Reordering ri' up car
      by (intro upload_invI [of _ ro]) (auto simp: upload_handle_eos_def answer_def)
  next
    case full
    have "answers_inv E s0 n (ua_answers ua @ map (\<lambda>a. (a, Err (bad_gateway ''upload EOS waiters overflow''))) [a])"
      using an by (simp only: answers_inv_append) simp
    then show ?thesis using full Reordering ri' up car
      by (intro upload_invI [of _ ro]) (auto simp: upload_handle_eos_def answer_def)
  next
    case wait
    let ?ro = "ro\<lparr>ro_eos_waiters := ro_eos_waiters ro @ [(max_seq, a)]\<rparr>"
    have "reorder_inv D E s0 R (Suc c) n ?ro"
      using ri' wait e by (auto simp: reorder_inv_def ro_below_def ro_data_def)
    then show ?thesis using wait Reordering an up car
      by (intro upload_invI [of _ ?ro]) (auto simp: upload_handle_eos_def)
  qed
next
  case (UDraining ws)
  then show ?thesis using upload_inv_idle(2) [OF inv, of R "Suc c"] by (auto simp: upload_handle_eos_def upload_inv_def)
next
  case UClosed
  then show ?thesis using inv by (auto simp: upload_handle_eos_def upload_inv_def answer_def answers_inv_def)
qed

section \<open>Lemmas: whole runs\<close>

text \<open>The events come from the sender \<open>D\<close> with markers \<open>E\<close>.\<close>

fun from_sender :: "(u64 \<Rightarrow> bytes) \<Rightarrow> (ack \<Rightarrow> u64) \<Rightarrow> upload_event \<Rightarrow> bool" where
  "from_sender D E (UCmd now (UFrame seq data)) \<longleftrightarrow> data = D seq"
| "from_sender D E (UCmd now (UEos max_seq a)) \<longleftrightarrow> max_seq = E a"
| "from_sender D E ev \<longleftrightarrow> True"

fun frame_seqs :: "upload_event list \<Rightarrow> u64 set" where
  "frame_seqs [] = {}"
| "frame_seqs (UCmd now (UFrame seq data) # evs) = insert seq (frame_seqs evs)"
| "frame_seqs (ev # evs) = frame_seqs evs"

fun eos_acks :: "upload_event list \<Rightarrow> ack list" where
  "eos_acks [] = []"
| "eos_acks (UCmd now (UEos max_seq a) # evs) = a # eos_acks evs"
| "eos_acks (ev # evs) = eos_acks evs"

lemma upload_inv_activity: "upload_inv D E s0 R c (ua\<lparr>ua_last_activity := t\<rparr>) = upload_inv D E s0 R c ua"
  by (cases "ua_phase ua") (simp_all add: upload_inv_def)

lemma upload_inv_more:
  assumes "upload_inv D E s0 R c ua"
  shows "upload_inv D E s0 R (Suc c) ua"
proof (cases "ua_phase ua")
  case (Reordering ro)
  with assms show ?thesis by (elim upload_invE) (auto intro: upload_invI reorder_inv_more)
qed (use upload_inv_idle(2) [OF assms] in simp_all)

lemma upload_inv_step:
  assumes "upload_inv D E s0 R c ua" and "from_sender D E ev"
  shows "upload_inv D E s0 (R \<union> frame_seqs [ev]) (Suc c) (fst (upload_step ev ua))"
proof (cases ev)
  case (UCmd now cmd)
  have inv: "upload_inv D E s0 R c (ua\<lparr>ua_last_activity := now\<rparr>)" using assms(1) by (simp add: upload_inv_activity)
  show ?thesis
  proof (cases cmd)
    case (UFrame seq data)
    then show ?thesis using upload_inv_frame [OF inv, of data seq] assms(2) UCmd by (simp add: upload_step_def upload_dispatch_def)
  next
    case (UEos max_seq a)
    then show ?thesis using upload_inv_eos [OF inv, of max_seq a] assms(2) UCmd by (simp add: upload_step_def upload_dispatch_def)
  next
    case UShutdown
    then show ?thesis using upload_inv_any_shutdown [OF inv] UCmd by (simp add: upload_step_def upload_dispatch_def)
  qed
next
  case UChannelClosed
  then show ?thesis using upload_inv_any_shutdown [OF assms(1)] by (simp add: upload_step_def)
next
  case (UReorderTimer now)
  then show ?thesis using upload_inv_any_shutdown [OF assms(1)] upload_inv_more [OF assms(1)] by (simp add: upload_step_def)
qed

lemma upload_inv_ack_all:
  assumes "upload_inv D E s0 R c ua"
  shows "upload_inv D E s0 R' c' (ack_all_waiters ua)"
proof -
  obtain n up where *: "answers_inv E s0 n (ua_answers ua)" "sent_first up (concat (stream_from D s0 n))"
      "ua_upstream ua = Some up \<or> up \<in> set (ua_dropped ua)"
    using assms by (cases "ua_phase ua") (auto simp: upload_inv_def)
  have "answers_inv E s0 n (ua_answers (ack_all_waiters ua))"
    using *(1) by (simp add: ack_all_waiters_def answer_def Let_def answers_inv_append)
  moreover have "ua_phase (ack_all_waiters ua) = UClosed" "ua_upstream (ack_all_waiters ua) = ua_upstream ua"
      "ua_dropped (ack_all_waiters ua) = ua_dropped ua"
    by (simp_all add: ack_all_waiters_def answer_def Let_def)
  ultimately show ?thesis unfolding upload_inv_def using *(2,3) by (intro exI [of _ n] exI [of _ up]) simp
qed

lemma frame_seqs_Cons: "frame_seqs (ev # evs) = frame_seqs [ev] \<union> frame_seqs evs"
  by (cases "ev # evs" rule: frame_seqs.cases) auto

lemma upload_inv_run:
  "upload_inv D E s0 R c ua \<Longrightarrow> list_all (from_sender D E) evs \<Longrightarrow> upload_run evs ua = (ua', fin)
   \<Longrightarrow> (if fin then \<exists>R' c'. upload_inv D E s0 R' c' ua' \<and> ua_phase ua' = UClosed
        else upload_inv D E s0 (R \<union> frame_seqs evs) (c + length evs) ua')"
proof (induction evs arbitrary: R c ua)
  case Nil
  then show ?case by simp
next
  case (Cons ev evs)
  obtain ua1 f1 where st: "upload_step ev ua = (ua1, f1)" by fastforce
  have inv: "upload_inv D E s0 (R \<union> frame_seqs [ev]) (Suc c) ua1"
    using upload_inv_step [OF Cons.prems(1), of ev] Cons.prems(2) st by simp
  show ?case
  proof (cases f1)
    case True
    then have "ua' = ack_all_waiters ua1" "fin" using Cons.prems(3) st by auto
    then show ?thesis using upload_inv_ack_all [OF inv] by (auto simp: ack_all_waiters_def answer_def Let_def)
  next
    case False
    then show ?thesis using Cons.IH [OF inv] Cons.prems(2,3) st by (auto simp: frame_seqs_Cons [of ev evs] Un_assoc)
  qed
qed

lemma upload_inv_new: "carries up [] \<Longrightarrow> upload_inv D E s0 {} 0 (upload_new now up s0)"
  by (rule upload_invI [of _ _ _ _ 0])
    (auto simp: upload_new_def answers_inv_def reorder_inv_def ro_below_def ro_data_def)

text \<open>Every acknowledgement is answered or waiting.\<close>

definition waiting_acks :: "upload_actor \<Rightarrow> ack list" where
  "waiting_acks ua =
     (case ua_phase ua of Reordering ro \<Rightarrow> map snd (ro_eos_waiters ro) | UDraining ws \<Rightarrow> ws | UClosed \<Rightarrow> [])"

definition ack_balance :: "upload_actor \<Rightarrow> ack multiset" where
  "ack_balance ua = mset (map fst (ua_answers ua)) + mset (waiting_acks ua)"

lemma ack_balance_shutdown: "ack_balance (shutdown_and_drain ua) = ack_balance ua"
  by (auto simp: ack_balance_def waiting_acks_def shutdown_and_drain_def split: upload_phase.splits)

lemma ack_balance_answer: "ack_balance (answer acks r ua) = ack_balance ua + mset acks"
  by (simp add: ack_balance_def answer_def waiting_acks_def o_def multiset.map_comp)

lemma drain_runs_waiters:
  "drain_runs head ro upstream = (ro', upstream', ok) \<Longrightarrow> ro_eos_waiters ro' = ro_eos_waiters ro"
proof (induction head ro upstream rule: drain_runs.induct)
  case (1 head ro upstream)
  obtain ro1 run where c: "collect_run (MAX_WRITE_IOV - 1) (ro\<lparr>ro_next_seq := ro_next_seq ro + 1\<rparr>) [head] = (ro1, run)" by fastforce
  obtain up1 k where w: "write_run upstream run = (up1, k)" by fastforce
  have ws: "ro_eos_waiters ro1 = ro_eos_waiters ro" using collect_run_waiters [OF c] by simp
  note u = drain_runs.simps [of head ro upstream]
  show ?case
  proof (cases "k \<and> remove_next ro1 \<noteq> None")
    case False
    then show ?thesis using 1(2) u c w ws by (auto split: option.splits if_splits)
  next
    case True
    then obtain d ro2 where x: "remove_next ro1 = Some (d, ro2)" and k by auto
    then have "ro_eos_waiters ro' = ro_eos_waiters ro2"
      using 1(1) [OF c [symmetric] refl w [symmetric] refl _ x refl] 1(2) u c w by simp
    then show ?thesis using ws x by (auto simp: remove_next_def split: option.splits)
  qed
qed

lemma ack_balance_frame: "ack_balance (fst (upload_handle_frame seq data ua)) = ack_balance ua"
proof (cases "ua_phase ua")
  case (Reordering ro)
  obtain ro1 up1 ok where dr: "drain_runs data ro (ua_upstream ua) = (ro1, up1, ok)" by (metis prod.collapse)
  obtain ws acked where rw: "release_waiters (ro_next_seq ro1) 0 (ro_eos_waiters ro1) [] = (ws, acked)" by fastforce
  have m: "mset (map snd ws) + mset acked = mset (map snd (ro_eos_waiters ro))"
    using release_waiters_spec [OF rw] drain_runs_waiters [OF dr] by simp
  show ?thesis
  proof (cases "seq = ro_next_seq ro")
    case True
    have "ack_balance (ua\<lparr>ua_phase := Reordering (ro1\<lparr>ro_eos_waiters := ws\<rparr>), ua_upstream := up1\<rparr>) + mset acked = ack_balance ua"
      using m Reordering by (simp add: ack_balance_def waiting_acks_def)
    moreover have "ack_balance (ua\<lparr>ua_phase := Reordering ro1, ua_upstream := up1\<rparr>) = ack_balance ua"
      using Reordering drain_runs_waiters [OF dr] by (simp add: ack_balance_def waiting_acks_def)
    ultimately show ?thesis using True Reordering dr rw
      by (simp add: upload_handle_frame_def ack_balance_answer ack_balance_shutdown)
  next
    case False
    then show ?thesis using Reordering ack_balance_shutdown [of ua]
      by (auto simp: upload_handle_frame_def ack_balance_def waiting_acks_def)
  qed
qed (auto simp: upload_handle_frame_def)

lemma ack_balance_eos: "ack_balance (fst (upload_handle_eos max_seq a ua)) = add_mset a (ack_balance ua)"
  by (cases "ua_phase ua")
    (simp_all add: upload_handle_eos_def ack_balance_answer, simp_all add: ack_balance_def waiting_acks_def)

lemma ack_balance_step:
  "ack_balance (fst (upload_step ev ua)) = ack_balance ua + mset (eos_acks [ev])"
proof -
  have t: "ack_balance (ua\<lparr>ua_last_activity := now\<rparr>) = ack_balance ua" for now
    by (simp add: ack_balance_def waiting_acks_def)
  show ?thesis
  proof (cases "[ev]" rule: eos_acks.cases)
    case (2 now max_seq a evs)
    then show ?thesis by (simp add: upload_step_def upload_dispatch_def ack_balance_eos t)
  qed (auto simp: upload_step_def upload_dispatch_def ack_balance_frame ack_balance_shutdown t)
qed

lemma eos_acks_Cons: "eos_acks (ev # evs) = eos_acks [ev] @ eos_acks evs"
  by (cases "ev # evs" rule: eos_acks.cases) auto

lemma ack_balance_ack_all:
  "ack_balance (ack_all_waiters ua) = ack_balance ua" "waiting_acks (ack_all_waiters ua) = []"
proof -
  have "ack_all_waiters ua = answer (waiting_acks ua) (Err (gateway_timeout ''upload drain timeout'')) (ua\<lparr>ua_phase := UClosed\<rparr>)"
    by (simp add: ack_all_waiters_def waiting_acks_def Let_def)
  moreover have "ack_balance (ua\<lparr>ua_phase := UClosed\<rparr>) = mset (map fst (ua_answers ua))"
    by (simp add: ack_balance_def waiting_acks_def)
  ultimately show "ack_balance (ack_all_waiters ua) = ack_balance ua"
    by (simp only: ack_balance_answer) (simp add: ack_balance_def)
  show "waiting_acks (ack_all_waiters ua) = []"
    by (simp add: ack_all_waiters_def answer_def Let_def waiting_acks_def)
qed

lemma ack_balance_run:
  "upload_run evs ua = (ua', fin) \<Longrightarrow>
     \<exists>k \<le> length evs. ack_balance ua' = ack_balance ua + mset (eos_acks (take k evs)) \<and> (\<not> fin \<longrightarrow> k = length evs)
        \<and> (fin \<longrightarrow> waiting_acks ua' = [])"
proof (induction evs arbitrary: ua)
  case Nil
  then show ?case by simp
next
  case (Cons ev evs)
  obtain ua1 f1 where st: "upload_step ev ua = (ua1, f1)" by fastforce
  have b: "ack_balance ua1 = ack_balance ua + mset (eos_acks [ev])" using ack_balance_step [of ev ua] st by simp
  show ?case
  proof (cases f1)
    case True
    then have "ua' = ack_all_waiters ua1" "fin" using Cons.prems st by auto
    then show ?thesis using b ack_balance_ack_all [of ua1] by (intro exI [of _ 1]) auto
  next
    case False
    then have "upload_run evs ua1 = (ua', fin)" using Cons.prems st by simp
    then obtain k where "k \<le> length evs" "ack_balance ua' = ack_balance ua1 + mset (eos_acks (take k evs))"
        "\<not> fin \<longrightarrow> k = length evs" "fin \<longrightarrow> waiting_acks ua' = []"
      using Cons.IH by blast
    then show ?thesis using b by (intro exI [of _ "Suc k"]) (auto simp: eos_acks_Cons [of ev "take k evs"] ac_simps)
  qed
qed

lemma upload_reordering_stream:
  assumes "carries up []" and "list_all (from_sender D E) evs" and "unat s0 + length evs < 2 ^ 64"
    and "upload_run evs (upload_new now up s0) = (ua, False)" and "ua_phase ua = Reordering ro"
  shows "\<exists>n up'. ua_upstream ua = Some up' \<and> carries up' (concat (stream_from D s0 n)) \<and> reorder_inv D E s0 (frame_seqs evs) (length evs) n ro
     \<and> (\<forall>N. (\<forall>i < N. s0 + of_nat i \<in> frame_seqs evs) \<and> unat s0 + N < 2 ^ 64 \<longrightarrow> N \<le> n)"
proof -
  have inv: "upload_inv D E s0 (frame_seqs evs) (length evs) ua"
    using upload_inv_run [OF upload_inv_new [OF assms(1)] assms(2,4)] by simp
  obtain n up' where ri: "reorder_inv D E s0 (frame_seqs evs) (length evs) n ro"
      and up: "ua_upstream ua = Some up'" "carries up' (concat (stream_from D s0 n))"
    using upload_invE [OF inv assms(5)] .
  have "N \<le> n" if all: "\<forall>i < N. s0 + of_nat i \<in> frame_seqs evs" and N: "unat s0 + N < 2 ^ 64" for N
  proof (rule ccontr)
    assume "\<not> N \<le> n"
    then have n: "n < N" by simp
    have un: "unat (of_nat n :: u64) = n" using n N by (simp add: unat_of_nat)
    then have us: "unat (s0 + of_nat n) = unat s0 + n" using n N by (simp add: unat_word_ariths)
    then have "s0 \<le> s0 + of_nat n" by (simp add: word_le_nat_alt)
    moreover have "s0 + of_nat n \<in> frame_seqs evs" using all n by blast
    ultimately consider i where "i < n" "s0 + of_nat n = s0 + (of_nat i :: u64)" | "s0 + of_nat n \<in> fst ` set (ro_pending ro)"
      using ri assms(3) unfolding reorder_inv_def by blast
    then show False
    proof cases
      case 1
      then have "unat (of_nat i :: u64) = n" using un by simp
      moreover have "unat (of_nat i :: u64) = i" using 1(1) n N by (simp add: unat_of_nat)
      ultimately show False using 1(1) by simp
    next
      case 2
      then show False using ri by (auto simp: reorder_inv_def ro_below_def)
    qed
  qed
  then show ?thesis using ri up by blast
qed

section \<open>Properties\<close>

text \<open>C8: the upstream gets the sender's byte stream, in order, with no gap and no repetition. For every
  sequence of events whose frames carry the data of one sender (lost, duplicated, stale and reordered at will), as
  long as the actor is reordering, it has written exactly the frames \<open>s0, \<dots>, s0 + n - 1\<close>; if all of \<open>s0, \<dots>, s0 + N - 1\<close> have
  arrived then \<open>n \<ge> N\<close>; and the buffer stays within its limits in frames, bytes and waiters.\<close>

theorem upload_stream_in_order:
  assumes "carries up []" and "list_all (from_sender D E) evs" and "unat s0 + length evs < 2 ^ 64"
    and "upload_run evs (upload_new now up s0) = (ua, False)" and "ua_phase ua = Reordering ro"
  shows "\<exists>n up'. ua_upstream ua = Some up' \<and> carries up' (concat (stream_from D s0 n)) \<and> ro_next_seq ro = s0 + of_nat n
     \<and> (\<forall>N. (\<forall>i < N. s0 + of_nat i \<in> frame_seqs evs) \<and> unat s0 + N < 2 ^ 64 \<longrightarrow> N \<le> n)
     \<and> length (ro_pending ro) \<le> MAX_PENDING_FRAMES \<and> sum_list (map (length \<circ> snd) (ro_pending ro)) \<le> MAX_PENDING_BYTES
     \<and> length (ro_eos_waiters ro) \<le> MAX_EOS_WAITERS"
proof -
  obtain n up' where "ua_upstream ua = Some up'" "carries up' (concat (stream_from D s0 n))" "reorder_inv D E s0 (frame_seqs evs) (length evs) n ro"
      "\<forall>N. (\<forall>i < N. s0 + of_nat i \<in> frame_seqs evs) \<and> unat s0 + N < 2 ^ 64 \<longrightarrow> N \<le> n"
    using upload_reordering_stream [OF assms] by blast
  then show ?thesis by (intro exI [of _ n] exI [of _ up']) (simp add: reorder_inv_def ro_below_def)
qed

text \<open>C9: a positive acknowledgement is a promise kept. Whenever an end-of-segment marker is answered
  with success, also after a shutdown, a failed write or a timeout, some \<open>m\<close> frames from \<open>s0\<close> on, enough to pass the
  marker, had been given to the upstream before anything else.\<close>

theorem upload_ack_means_written:
  assumes "carries up []" and "list_all (from_sender D E) evs"
    and "upload_run evs (upload_new now up s0) = (ua, fin)" and "(a, Ok ()) \<in> set (ua_answers ua)"
  shows "\<exists>m n up'. E a < s0 + of_nat m \<and> m \<le> n \<and> (ua_upstream ua = Some up' \<or> up' \<in> set (ua_dropped ua))
           \<and> sent_first up' (concat (stream_from D s0 n))"
proof -
  obtain R c where inv: "upload_inv D E s0 R c ua"
    using upload_inv_run [OF upload_inv_new [OF assms(1)] assms(2,3)] by (auto split: if_splits)
  then obtain n up' where an: "answers_inv E s0 n (ua_answers ua)" and sf: "sent_first up' (concat (stream_from D s0 n))"
      and up: "ua_upstream ua = Some up' \<or> up' \<in> set (ua_dropped ua)"
    by (cases "ua_phase ua") (auto simp: upload_inv_def)
  from an assms(4) obtain m where "m \<le> n" "E a < s0 + of_nat m" unfolding answers_inv_def by blast
  with sf up show ?thesis by blast
qed

text \<open>Every end-of-segment marker is answered exactly once. When the actor finishes, the markers it
  took from the channel and the answers it sent are the same multiset; before that, what is not answered is
  waiting.\<close>

theorem upload_answers_once:
  assumes "upload_run evs (upload_new now up s0) = (ua, fin)"
  shows "\<exists>k \<le> length evs. mset (map fst (ua_answers ua)) + mset (waiting_acks ua) = mset (eos_acks (take k evs))
           \<and> (if fin then waiting_acks ua = [] else k = length evs)"
proof -
  have z: "ack_balance (upload_new now up s0) = {#}" by (simp add: ack_balance_def upload_new_def waiting_acks_def)
  obtain k where "k \<le> length evs" "ack_balance ua = mset (eos_acks (take k evs))" "\<not> fin \<longrightarrow> k = length evs"
      "fin \<longrightarrow> waiting_acks ua = []"
    using ack_balance_run [OF assms] z by auto
  then show ?thesis by (intro exI [of _ k]) (auto simp: ack_balance_def)
qed

section \<open>Examples\<close>

text \<open>Frame 1 and the marker for it arrive before frame 0.\<close>

lemma collect_run_numeral:
  "collect_run (numeral k) ro run =
     (case remove_next ro of
        None \<Rightarrow> (ro, run)
      | Some (d, ro) \<Rightarrow> collect_run (pred_numeral k) (ro\<lparr>ro_next_seq := ro_next_seq ro + 1\<rparr>) (run @ [d]))"
  using collect_run.simps(2) [of "pred_numeral k" ro run] by (simp only: numeral_eq_Suc)

definition example_evs :: "upload_event list" where
  "example_evs = [UCmd 0 (UFrame 1 [11]), UCmd 0 (UEos 1 7), UCmd 0 (UFrame 0 [10])]"

definition example_upstream :: upstream_write where
  "example_upstream = DirectWrite \<lparr>sk_script = [Accept 9], sk_sent = []\<rparr>"

lemma example_upload_run:
  "upload_run example_evs (upload_new 0 example_upstream 0)
     = (\<lparr>ua_phase = Reordering \<lparr>ro_next_seq = 2, ro_pending = [], ro_pending_bytes = 0, ro_eos_waiters = []\<rparr>,
         ua_upstream = Some (DirectWrite \<lparr>sk_script = [], sk_sent = [10, 11]\<rparr>), ua_last_activity = 0,
         ua_answers = [(7, Ok ())], ua_dropped = []\<rparr>, False)"
  by (simp add: example_evs_def example_upstream_def upload_new_def upload_step_def upload_dispatch_def
      upload_handle_frame_def upload_handle_eos_def MAX_PENDING_FRAMES_def MAX_PENDING_BYTES_def MAX_EOS_WAITERS_def
      drain_runs.simps MAX_WRITE_IOV_def collect_run_numeral remove_next_def write_run_def write_tcp_frames_def
      write_vectored_all.simps offered_def advance_run.simps release_waiters.simps swap_remove_def answer_def)

lemma example_from_sender: "list_all (from_sender (\<lambda>k. [ucast k + 10]) (\<lambda>a. 1)) example_evs"
  by (simp add: example_evs_def)

theorem upload_stream_in_order_witness:
  "\<exists>n up'. Some (DirectWrite \<lparr>sk_script = [], sk_sent = [10, 11]\<rparr>) = Some up'
     \<and> carries up' (concat (stream_from (\<lambda>k. [ucast k + 10]) 0 n)) \<and> (2 :: u64) = 0 + of_nat n"
  using upload_stream_in_order [OF _ example_from_sender _ example_upload_run] by (simp add: example_upstream_def example_evs_def) blast

theorem upload_ack_means_written_witness:
  "\<exists>m n up'. (1 :: u64) < 0 + of_nat m \<and> m \<le> n \<and> (Some (DirectWrite \<lparr>sk_script = [], sk_sent = [10, 11]\<rparr>) = Some up' \<or> up' \<in> set [])
     \<and> sent_first up' (concat (stream_from (\<lambda>k. [ucast k + 10]) 0 n))"
  using upload_ack_means_written [OF _ example_from_sender example_upload_run, of 7] by (simp add: example_upstream_def)

theorem upload_answers_once_witness:
  "\<exists>k \<le> length example_evs. mset (map fst [(7 :: nat, Ok () :: (unit, server_error) result)]) + mset []
      = mset (eos_acks (take k example_evs)) \<and> k = length example_evs"
  using upload_answers_once [OF example_upload_run] by (simp add: waiting_acks_def)

end
