(* ===== verification/Stream_Registry.thy ===== *)
theory Stream_Registry
  imports Interfaces Crypto Framing
begin

text \<open>
  The shared maps of the server: \<^verbatim>\<open>src/src/server/stream_registry.rs\<close> (which stream ids have been used),
  the master key store and the actor map of \<^verbatim>\<open>src/src/server/mod.rs\<close>, and the janitor passes of
  \<^verbatim>\<open>src/src/server/janitor.rs\<close> over them.

  A \<open>DashMap\<close> is an association list; \<open>dash_insert\<close>, \<open>dash_remove\<close> and \<open>dash_retain\<close> keep its keys distinct.
  The janitors' endless loops are the ticks of \<open>store_event\<close>: a run of the server is a list of such events, one per
  operation on the maps, in the order in which they take effect. The clock is an argument (seconds since the start of
  the process, \<open>now_secs\<close>).

  Lemmas: the three pruning passes are interpretations of \<open>retain_store\<close>, the event machine one of
  \<open>invariant_machine\<close>; stream ids cannot be replayed within the expiry period and master keys live exactly as long as the
  constant says.
\<close>

section \<open>Maps\<close>

definition dash_insert :: "'k \<Rightarrow> 'v \<Rightarrow> ('k \<times> 'v) list \<Rightarrow> ('k \<times> 'v) list" where
  "dash_insert k v m = (k, v) # filter (\<lambda>e. fst e \<noteq> k) m"

definition dash_remove :: "'k \<Rightarrow> ('k \<times> 'v) list \<Rightarrow> ('k \<times> 'v) list" where
  "dash_remove k m = filter (\<lambda>e. fst e \<noteq> k) m"

text \<open>\<open>retain\<close> with the counter of removed entries that every caller keeps.\<close>

definition dash_retain :: "('v \<Rightarrow> bool) \<Rightarrow> ('k \<times> 'v) list \<Rightarrow> ('k \<times> 'v) list \<times> nat" where
  "dash_retain keep m = (filter (\<lambda>e. keep (snd e)) m, length (filter (\<lambda>e. \<not> keep (snd e)) m))"

section \<open>The stream registry\<close>

type_synonym uuid = "128 word"

datatype stream_state = SActive | SConsumed

datatype stream_query = QFresh | QActive | QConsumed

type_synonym stream_registry = "(uuid \<times> stream_state \<times> u64) list"

definition registry_new :: stream_registry where "registry_new = []"

definition register :: "uuid \<Rightarrow> u64 \<Rightarrow> stream_registry \<Rightarrow> stream_registry \<times> bool" where
  "register stream_id now streams =
     (case map_of streams stream_id of
        Some _ \<Rightarrow> (streams, False)
      | None \<Rightarrow> (dash_insert stream_id (SActive, now) streams, True))"

text \<open>The atomic store goes to the entry in place; the time stamp stays.\<close>

definition mark_consumed :: "uuid \<Rightarrow> stream_registry \<Rightarrow> stream_registry" where
  "mark_consumed stream_id streams =
     map (\<lambda>(k, st, ts). if k = stream_id then (k, SConsumed, ts) else (k, st, ts)) streams"

definition check :: "uuid \<Rightarrow> stream_registry \<Rightarrow> stream_query" where
  "check stream_id streams =
     (case map_of streams stream_id of
        None \<Rightarrow> QFresh
      | Some (st, _) \<Rightarrow> (case st of SActive \<Rightarrow> QActive | SConsumed \<Rightarrow> QConsumed))"

definition stream_kept :: "u64 \<Rightarrow> stream_state \<times> u64 \<Rightarrow> bool" where
  "stream_kept cutoff v \<longleftrightarrow> fst v = SActive \<or> cutoff \<le> snd v"

definition remove_consumed_before :: "u64 \<Rightarrow> stream_registry \<Rightarrow> stream_registry \<times> nat" where
  "remove_consumed_before cutoff streams = dash_retain (stream_kept cutoff) streams"

section \<open>Master keys, session handles and the janitors\<close>

definition MASTER_EXPIRY :: u64 where "MASTER_EXPIRY = 1200"

text \<open>User name, master key, time of creation.\<close>

type_synonym master_entry = "string \<times> bytes \<times> u64"

record session_handle =
  ses_cmd_tx :: nat
  ses_upload_tx :: nat
  ses_upload_cipher :: frame_cipher
  ses_encoding :: encoding_type

definition master_live :: "u64 \<Rightarrow> master_entry \<Rightarrow> bool" where
  "master_live now e \<longleftrightarrow> (case e of (_, _, created) \<Rightarrow> \<not> MASTER_EXPIRY \<le> saturating_sub now created)"

definition prune_expired_masters :: "u64 \<Rightarrow> (string \<times> master_entry) list \<Rightarrow> (string \<times> master_entry) list \<times> nat" where
  "prune_expired_masters now master_store = dash_retain (master_live now) master_store"

text \<open>\<open>is_closed\<close> of a command channel is an observation: the set of channels whose receiver is gone.\<close>

definition actor_live :: "nat set \<Rightarrow> session_handle \<Rightarrow> bool" where
  "actor_live closed h \<longleftrightarrow> ses_cmd_tx h \<notin> closed"

definition prune_dead_actors :: "nat set \<Rightarrow> (uuid \<times> session_handle) list \<Rightarrow> (uuid \<times> session_handle) list \<times> nat" where
  "prune_dead_actors closed actors = dash_retain (actor_live closed) actors"

record stores =
  st_masters :: "(string \<times> master_entry) list"
  st_streams :: stream_registry
  st_actors :: "(uuid \<times> session_handle) list"

text \<open>One iteration of each janitor.\<close>

definition master_and_stream_janitor :: "u64 \<Rightarrow> stores \<Rightarrow> stores" where
  "master_and_stream_janitor now s =
     (let cutoff = saturating_sub now MASTER_EXPIRY
      in s\<lparr>st_masters := fst (prune_expired_masters now (st_masters s)),
           st_streams := fst (remove_consumed_before cutoff (st_streams s))\<rparr>)"

definition stream_janitor :: "nat set \<Rightarrow> stores \<Rightarrow> stores" where
  "stream_janitor closed s = s\<lparr>st_actors := fst (prune_dead_actors closed (st_actors s))\<rparr>"

text \<open>Every operation of the server on the maps.\<close>

datatype store_event =
    StRegister uuid u64 | StConsumed uuid | StMaster string master_entry | StMasterRemove string
  | StActor uuid session_handle | StActorRemove uuid | StMasterTick u64 | StActorTick "nat set"

fun store_step :: "store_event \<Rightarrow> stores \<Rightarrow> stores" where
  "store_step (StRegister i now) s = s\<lparr>st_streams := fst (register i now (st_streams s))\<rparr>"
| "store_step (StConsumed i) s = s\<lparr>st_streams := mark_consumed i (st_streams s)\<rparr>"
| "store_step (StMaster sid e) s = s\<lparr>st_masters := dash_insert sid e (st_masters s)\<rparr>"
| "store_step (StMasterRemove sid) s = s\<lparr>st_masters := dash_remove sid (st_masters s)\<rparr>"
| "store_step (StActor i h) s = s\<lparr>st_actors := dash_insert i h (st_actors s)\<rparr>"
| "store_step (StActorRemove i) s = s\<lparr>st_actors := dash_remove i (st_actors s)\<rparr>"
| "store_step (StMasterTick now) s = master_and_stream_janitor now s"
| "store_step (StActorTick closed) s = stream_janitor closed s"

definition stores_ok :: "stores \<Rightarrow> bool" where
  "stores_ok s \<longleftrightarrow> distinct (map fst (st_masters s)) \<and> distinct (map fst (st_streams s)) \<and> distinct (map fst (st_actors s))"

section \<open>Lemmas: maps\<close>

lemma map_of_filter_key: "map_of (filter (\<lambda>e. fst e \<noteq> k) m) j = (if j = k then None else map_of m j)"
  by (induction m) auto

lemma dash_insert_lookup [simp]: "map_of (dash_insert k v m) j = (if j = k then Some v else map_of m j)"
  by (simp add: dash_insert_def map_of_filter_key)

lemma dash_remove_lookup [simp]: "map_of (dash_remove k m) j = (if j = k then None else map_of m j)"
  by (simp add: dash_remove_def map_of_filter_key)

lemma distinct_fst_filter: "distinct (map fst m) \<Longrightarrow> distinct (map fst (filter P m))"
  by (induction m) auto

lemma dash_insert_distinct [simp]: "distinct (map fst m) \<Longrightarrow> distinct (map fst (dash_insert k v m))"
  by (auto simp: dash_insert_def distinct_fst_filter)

lemma dash_remove_distinct [simp]: "distinct (map fst m) \<Longrightarrow> distinct (map fst (dash_remove k m))"
  by (simp add: dash_remove_def distinct_fst_filter)

lemma dash_retain_laws:
  "set (fst (dash_retain keep m)) = {(k, v) \<in> set m. keep v}"
  "distinct (map fst m) \<Longrightarrow> distinct (map fst (fst (dash_retain keep m)))"
  "snd (dash_retain keep m) + length (fst (dash_retain keep m)) = length m"
  using sum_length_filter_compl [of "\<lambda>e. keep (snd e)" m]
  by (auto simp: dash_retain_def distinct_fst_filter)

interpretation consumed_streams: retain_store remove_consumed_before stream_kept
  by unfold_locales (simp_all only: remove_consumed_before_def dash_retain_laws)

interpretation expired_masters: retain_store prune_expired_masters master_live
  by unfold_locales (simp_all only: prune_expired_masters_def dash_retain_laws)

interpretation dead_actors: retain_store prune_dead_actors actor_live
  by unfold_locales (simp_all only: prune_dead_actors_def dash_retain_laws)

lemma mark_consumed_keys [simp]: "map fst (mark_consumed i m) = map fst m"
  by (induction m) (auto simp: mark_consumed_def)

lemma mark_consumed_lookup:
  "map_of (mark_consumed i m) j
     = (case map_of m j of None \<Rightarrow> None | Some (st, ts) \<Rightarrow> Some (if j = i then SConsumed else st, ts))"
  by (induction m) (auto simp: mark_consumed_def split: option.splits if_splits)

lemma register_distinct [simp]: "distinct (map fst m) \<Longrightarrow> distinct (map fst (fst (register i now m)))"
  by (simp add: register_def split: option.splits)

lemma register_lookup:
  "map_of (fst (register i now m)) j = (if j = i \<and> map_of m i = None then Some (SActive, now) else map_of m j)"
  by (auto simp: register_def split: option.splits)

lemma register_result: "snd (register i now m) \<longleftrightarrow> map_of m i = None"
  by (simp add: register_def split: option.splits)

lemma check_result:
  "check i m = QFresh \<longleftrightarrow> map_of m i = None"
  "check i m = QActive \<longleftrightarrow> (\<exists>ts. map_of m i = Some (SActive, ts))"
  "check i m = QConsumed \<longleftrightarrow> (\<exists>ts. map_of m i = Some (SConsumed, ts))"
  by (auto simp: check_def split: option.splits stream_state.splits)

lemmas janitor_defs = master_and_stream_janitor_def stream_janitor_def Let_def

lemma stores_ok_step: "stores_ok s \<Longrightarrow> stores_ok (store_step e s)"
  by (cases e) (auto simp: stores_ok_def janitor_defs consumed_streams.prune_distinct
      expired_masters.prune_distinct dead_actors.prune_distinct)

interpretation stores: invariant_machine store_step stores_ok
  by unfold_locales (rule stores_ok_step)

section \<open>No replay of stream ids\<close>

text \<open>What a list of events says about one stream id: whether it was consumed, and whether every janitor pass kept
  consumed entries as old as \<open>t\<close>.\<close>

definition spares :: "u64 \<Rightarrow> store_event list \<Rightarrow> bool" where
  "spares t es \<longleftrightarrow> list_all (\<lambda>e. case e of StMasterTick now \<Rightarrow> saturating_sub now MASTER_EXPIRY \<le> t | _ \<Rightarrow> True) es"

lemma registered_step:
  assumes "distinct (map fst (st_streams s))" and "map_of (st_streams s) i = Some (st, t)"
    and "st = SActive \<or> spares t [e]"
  shows "map_of (st_streams (store_step e s)) i = Some (if e = StConsumed i then SConsumed else st, t)"
  using assms
  by (cases e) (auto simp: register_lookup mark_consumed_lookup janitor_defs stream_kept_def spares_def
      intro!: consumed_streams.prune_keeps)

lemma registered_run:
  "stores_ok s \<Longrightarrow> map_of (st_streams s) i = Some (st, t) \<Longrightarrow>
     spares t es \<or> st = SActive \<and> StConsumed i \<notin> set es \<Longrightarrow>
     map_of (st_streams (fold store_step es s)) i = Some (if StConsumed i \<in> set es then SConsumed else st, t)"
proof (induction es arbitrary: s st)
  case Nil
  then show ?case by simp
next
  case (Cons e es)
  define st' where "st' = (if e = StConsumed i then SConsumed else st)"
  have "map_of (st_streams (store_step e s)) i = Some (st', t)"
    unfolding st'_def using Cons.prems by (intro registered_step) (auto simp: stores_ok_def spares_def)
  moreover have "spares t es \<or> st' = SActive \<and> StConsumed i \<notin> set es"
    using Cons.prems(3) by (auto simp: spares_def st'_def)
  ultimately have "map_of (st_streams (fold store_step es (store_step e s))) i
      = Some (if StConsumed i \<in> set es then SConsumed else st', t)"
    using Cons.IH stores_ok_step [OF Cons.prems(1)] by blast
  then show ?case by (simp add: st'_def)
qed

lemma spares_window:
  assumes "unat t + unat MASTER_EXPIRY < 2 ^ 64"
  shows "spares t es \<longleftrightarrow> (\<forall>now. StMasterTick now \<in> set es \<longrightarrow> now \<le> t + MASTER_EXPIRY)"
proof -
  have "unat (t + MASTER_EXPIRY) = unat t + unat MASTER_EXPIRY"
    using assms by (simp add: unat_word_ariths)
  then have "saturating_sub now MASTER_EXPIRY \<le> t \<longleftrightarrow> now \<le> t + MASTER_EXPIRY" for now
    by (simp add: word_le_nat_alt unat_saturating_sub) linarith
  then show ?thesis by (auto simp: spares_def list_all_iff split: store_event.splits)
qed

text \<open>C10: a stream id is accepted once. After it has been registered at time \<open>t\<close>, and whatever the server does with its
  maps, another registration of the same id is refused as long as the stream has not been consumed, and for a consumed
  one until a janitor pass more than 1200 seconds after \<open>t\<close>; \<open>check\<close> reports the state exactly.\<close>

theorem registry_no_replay:
  assumes "stores_ok s" and "snd (register i t (st_streams s))" and "unat t + unat MASTER_EXPIRY < 2 ^ 64"
    and "StConsumed i \<in> set es \<longrightarrow> (\<forall>now. StMasterTick now \<in> set es \<longrightarrow> now \<le> t + MASTER_EXPIRY)"
    and s': "s' = fold store_step es (store_step (StRegister i t) s)"
  shows "\<not> snd (register i t' (st_streams s')) \<and> check i (st_streams s') = (if StConsumed i \<in> set es then QConsumed else QActive)"
proof -
  have "map_of (st_streams (store_step (StRegister i t) s)) i = Some (SActive, t)"
    using assms(2) by (simp add: register_lookup register_result)
  moreover have "spares t es \<or> SActive = SActive \<and> StConsumed i \<notin> set es"
    using assms(4) spares_window [OF assms(3)] by blast
  ultimately have "map_of (st_streams s') i = Some (if StConsumed i \<in> set es then SConsumed else SActive, t)"
    unfolding s' using registered_run stores_ok_step [OF assms(1)] by blast
  then show ?thesis by (auto simp: register_result check_def)
qed

section \<open>Life time of master keys\<close>

definition expires :: "u64 \<Rightarrow> store_event list \<Rightarrow> bool" where
  "expires t es \<longleftrightarrow> list_ex (\<lambda>e. case e of StMasterTick now \<Rightarrow> MASTER_EXPIRY \<le> saturating_sub now t | _ \<Rightarrow> False) es"

fun touches_master :: "string \<Rightarrow> store_event \<Rightarrow> bool" where
  "touches_master sid (StMaster sid' _) \<longleftrightarrow> sid' = sid"
| "touches_master sid (StMasterRemove sid') \<longleftrightarrow> sid' = sid"
| "touches_master sid _ \<longleftrightarrow> False"

lemma master_step:
  assumes "stores_ok s" and "\<not> touches_master sid e"
  shows "map_of (st_masters (store_step e s)) sid
       = (case map_of (st_masters s) sid of None \<Rightarrow> None
          | Some (u, k, t) \<Rightarrow> if expires t [e] then None else Some (u, k, t))"
proof (cases e)
  case (StMasterTick now)
  have d: "distinct (map fst (st_masters s))" using assms(1) by (simp add: stores_ok_def)
  show ?thesis
  proof (cases "map_of (st_masters s) sid")
    case None
    then show ?thesis using expired_masters.prune_adds_nothing [OF d] StMasterTick by (simp add: janitor_defs)
  next
    case (Some v)
    then show ?thesis
      using expired_masters.prune_keeps [OF d Some] expired_masters.prune_removes [OF d Some] StMasterTick
      by (cases v) (auto simp: janitor_defs expires_def master_live_def)
  qed
qed (use assms(2) in \<open>auto simp: expires_def janitor_defs split: option.splits\<close>)

lemma master_run:
  "stores_ok s \<Longrightarrow> list_all (\<lambda>e. \<not> touches_master sid e) es \<Longrightarrow>
     map_of (st_masters (fold store_step es s)) sid
       = (case map_of (st_masters s) sid of None \<Rightarrow> None
          | Some (u, k, t) \<Rightarrow> if expires t es then None else Some (u, k, t))"
proof (induction es arbitrary: s)
  case Nil
  then show ?case by (auto simp: expires_def split: option.splits)
next
  case (Cons e es)
  then show ?case
    using Cons.IH [OF stores_ok_step [OF Cons.prems(1), of e]] master_step [OF Cons.prems(1), of sid e]
    by (auto simp: expires_def split: option.splits)
qed

text \<open>C11: a master key stored at time \<open>t\<close> is found, unchanged, until the first janitor pass at least 1200 seconds later,
  and never after it, whatever else happens to the maps (as long as the session is not stored or removed again).\<close>

theorem master_key_lifetime:
  assumes "stores_ok s" and "list_all (\<lambda>e. \<not> touches_master sid e) es"
  shows "map_of (st_masters (fold store_step es (store_step (StMaster sid (u, k, t)) s))) sid
       = (if \<exists>now. StMasterTick now \<in> set es \<and> unat t + 1200 \<le> unat now then None else Some (u, k, t))"
proof -
  have "MASTER_EXPIRY \<le> saturating_sub now t \<longleftrightarrow> unat t + 1200 \<le> unat now" for now
    by (simp add: word_le_nat_alt unat_saturating_sub MASTER_EXPIRY_def) linarith
  then have "expires t es \<longleftrightarrow> (\<exists>now. StMasterTick now \<in> set es \<and> unat t + 1200 \<le> unat now)"
    unfolding expires_def by (induction es) (auto split: store_event.splits)
  then show ?thesis
    using master_run [OF stores_ok_step [OF assms(1), of "StMaster sid (u, k, t)"] assms(2)] by simp
qed

section \<open>Examples\<close>

definition empty_stores :: stores where
  "empty_stores = \<lparr>st_masters = [], st_streams = registry_new, st_actors = []\<rparr>"

lemma empty_stores_ok: "stores_ok empty_stores"
  by (simp add: stores_ok_def empty_stores_def registry_new_def)

theorem registry_no_replay_witness:
  "check 7 (st_streams (fold store_step [StConsumed 7, StMasterTick 1300] (store_step (StRegister 7 100) empty_stores)))
     = QConsumed"
proof -
  have "snd (register 7 100 (st_streams empty_stores))" by (simp add: register_def empty_stores_def registry_new_def)
  then show ?thesis
    using registry_no_replay [OF empty_stores_ok, of 7 100 "[StConsumed 7, StMasterTick 1300]", OF _ _ _ refl]
    by (simp add: MASTER_EXPIRY_def del: fold.simps store_step.simps)
qed

theorem master_key_lifetime_witness:
  "map_of (st_masters (fold store_step [StMasterTick 1299] (store_step (StMaster ''s'' (''u'', [1], 100)) empty_stores))) ''s''
     = Some (''u'', [1], 100)"
  using master_key_lifetime [OF empty_stores_ok, of "''s''" "[StMasterTick 1299]" "''u''" "[1]" 100]
  by (simp del: fold.simps store_step.simps)

end
