(* ===== verification/Token.thy ===== *)
theory Token
  imports Crypto
begin

text \<open>
  Bearer tokens: \<^verbatim>\<open>src/src/server/token.rs\<close>. A token is the base64 form of a nonce and the sealed body: version, expiry,
  length and bytes of the subject. The AEAD, HKDF and base64 are the parameters of \<open>Crypto\<close>; the nonce that
  \<open>issue\<close> draws and the clock that \<open>open\<close> reads are arguments. \<open>None\<close> from \<open>token_issue\<close> and \<open>key_from_secret\<close> is a panic.

  Lemmas: an issued token opens to its claims exactly until it expires, and longer subjects than 729 bytes make a token that
  \<open>open\<close> refuses; whatever \<open>open\<close> accepts was sealed under the key and has the layout that \<open>issue\<close> writes.
\<close>

definition VERSION :: byte where "VERSION = 1"
definition BODY_LEN :: nat where "BODY_LEN = 1 + 8 + 2"
definition KEY_INFO :: bytes where "KEY_INFO = as_bytes ''httproxy-token-v1''"
definition MAX_TOKEN_LEN :: nat where "MAX_TOKEN_LEN = 1024"

lemmas token_consts [wire_simps] = BODY_LEN_def MAX_TOKEN_LEN_def

record claims =
  cl_sub :: string
  cl_exp :: u64

definition key_from_secret :: "'k aead \<Rightarrow> hkdf \<Rightarrow> bytes \<Rightarrow> 'k option" where
  "key_from_secret A hk secret = ae_key A (hk None secret KEY_INFO 32)"

definition token_body :: "claims \<Rightarrow> bytes" where
  "token_body c =
     (let sub = as_bytes (cl_sub c)
      in VERSION # u64_to_be (cl_exp c) @ u16_to_be (of_nat (length sub)) @ sub)"

definition token_issue :: "'k aead \<Rightarrow> b64 \<Rightarrow> 'k \<Rightarrow> bytes \<Rightarrow> claims \<Rightarrow> string option" where
  "token_issue A E key nonce c =
     (case ae_seal A key nonce (token_body c) of
        None \<Rightarrow> None
      | Some (ct, tag) \<Rightarrow> Some (b64_encode E (nonce @ ct @ tag)))"

text \<open>
  The indexing of the body cannot fail: the token is at least nonce, fixed body and tag long, and opening takes off
  exactly the tag (\<open>token_open_long_body\<close>).
\<close>

definition token_open :: "'k aead \<Rightarrow> b64 \<Rightarrow> 'k \<Rightarrow> u64 \<Rightarrow> string \<Rightarrow> (claims, string) result" where
  "token_open A E key unix_now token =
     (if MAX_TOKEN_LEN < length token then Err ''token too long''
      else case b64_decode E token of
        None \<Rightarrow> Err ''invalid encoding''
      | Some raw \<Rightarrow>
          if length raw < NONCE_LEN + BODY_LEN + TAG_LEN then Err ''token too short''
          else (case ae_open A key (take NONCE_LEN raw) (drop NONCE_LEN raw) of
            None \<Rightarrow> Err ''bad tag''
          | Some body \<Rightarrow>
              if body ! 0 \<noteq> VERSION then Err ''unsupported version''
              else let exp = u64_from_be (take 8 (drop 1 body));
                       sub_len = unat (u16_from_be (take 2 (drop 9 body)))
                in if length body \<noteq> BODY_LEN + sub_len then Err ''bad payload length''
                   else let sub = drop BODY_LEN body
                     in if \<not> utf8_valid sub then Err ''bad subject''
                        else if exp \<le> unix_now then Err ''expired''
                        else Ok \<lparr>cl_sub = bytes_to_str sub, cl_exp = exp\<rparr>))"

section \<open>Lemmas\<close>

lemma length_token_body: "length (token_body c) = BODY_LEN + length (cl_sub c)"
  by (simp add: token_body_def Let_def wire_simps)

lemma token_body_fields:
  "token_body c ! 0 = VERSION"
  "take 8 (drop 1 (token_body c)) = u64_to_be (cl_exp c)"
  "take 2 (drop 9 (token_body c)) = u16_to_be (of_nat (length (cl_sub c)))"
  "drop BODY_LEN (token_body c) = as_bytes (cl_sub c)"
  by (simp_all add: token_body_def Let_def wire_simps)

lemma token_open_long_body:
  assumes "aead_correct A" and "\<not> length raw < NONCE_LEN + BODY_LEN + TAG_LEN"
    and "ae_open A key (take NONCE_LEN raw) (drop NONCE_LEN raw) = Some body"
  shows "BODY_LEN \<le> length body"
  using aead_open_length [OF assms(1,3)] assms(2) by (simp add: wire_simps)

text \<open>C12: an issued token opens, under the same key, to exactly the claims it was issued for until its expiry, and to
  \<^verbatim>\<open>expired\<close> from that second on. This holds for subjects of up to 729 bytes; a token for a longer subject is
  issued but refused as too long by \<open>open\<close>.\<close>

theorem token_issue_open:
  assumes "aead_correct A" and "b64_correct E" and "length nonce = NONCE_LEN"
    and "utf8_valid (as_bytes (cl_sub c))" and "length (cl_sub c) \<le> GCM_MAX - 11"
  shows "\<exists>t. token_issue A E key nonce c = Some t
           \<and> token_open A E key unix_now t
               = (if 729 < length (cl_sub c) then Err ''token too long''
                  else if cl_exp c \<le> unix_now then Err ''expired'' else Ok c)"
proof -
  have le: "length (token_body c) \<le> GCM_MAX"
    using assms(5) by (simp add: length_token_body wire_simps GCM_MAX_def)
  obtain ct tag where seal: "ae_seal A key nonce (token_body c) = Some (ct, tag)"
      and len: "length ct = length (token_body c)" "length tag = TAG_LEN"
      and opn: "ae_open A key nonce (ct @ tag) = Some (token_body c)"
    using aead_sealE [OF assms(1,3) le] by metis
  define raw where "raw = nonce @ ct @ tag"
  have rawlen: "length raw = 39 + length (cl_sub c)"
    using len assms(3) by (simp add: raw_def length_token_body wire_simps)
  have b64: "b64_decode E (b64_encode E raw) = Some raw" "length (b64_encode E raw) = (length raw * 4 + 2) div 3"
    using assms(2) by (auto simp: b64_correct_def)
  then have long: "MAX_TOKEN_LEN < length (b64_encode E raw) \<longleftrightarrow> 729 < length (cl_sub c)"
    using rawlen by (simp add: wire_simps) presburger
  have parts: "take NONCE_LEN raw = nonce" "drop NONCE_LEN raw = ct @ tag" "\<not> length raw < NONCE_LEN + BODY_LEN + TAG_LEN"
    using assms(3) rawlen by (simp_all add: raw_def wire_simps)
  have u16: "unat (of_nat (length (cl_sub c)) :: u16) = length (cl_sub c)" if "\<not> 729 < length (cl_sub c)"
    using that by (simp add: unat_of_nat)
  have "token_open A E key unix_now (b64_encode E raw)
      = (if 729 < length (cl_sub c) then Err ''token too long''
         else if cl_exp c \<le> unix_now then Err ''expired'' else Ok c)"
    using assms(4) by (simp add: token_open_def long b64(1) parts opn token_body_fields u16 length_token_body Let_def del: One_nat_def)
  then show ?thesis by (simp add: token_issue_def seal raw_def)
qed

lemma guards_Ok_iff:
  "(if a then Err e1 else if b then Err e2 else if c then Err e3 else if d then Err e4 else Ok r) = Ok x
     \<longleftrightarrow> \<not> a \<and> \<not> b \<and> \<not> c \<and> \<not> d \<and> x = r"
  by auto

lemma token_open_accepts:
  assumes "token_open A E key unix_now t = Ok c" and "\<not> MAX_TOKEN_LEN < length t" and "b64_decode E t = Some raw"
    and "\<not> length raw < NONCE_LEN + BODY_LEN + TAG_LEN"
    and "ae_open A key (take NONCE_LEN raw) (drop NONCE_LEN raw) = Some body"
  shows "body ! 0 = VERSION" and "length body = BODY_LEN + unat (u16_from_be (take 2 (drop 9 body)))"
    and "utf8_valid (drop BODY_LEN body)" and "unix_now < u64_from_be (take 8 (drop 1 body))"
    and "c = \<lparr>cl_sub = bytes_to_str (drop BODY_LEN body), cl_exp = u64_from_be (take 8 (drop 1 body))\<rparr>"
proof -
  have *: "(if body ! 0 \<noteq> VERSION then Err ''unsupported version''
     else if length body \<noteq> BODY_LEN + unat (u16_from_be (take 2 (drop 9 body))) then Err ''bad payload length''
     else if \<not> utf8_valid (drop BODY_LEN body) then Err ''bad subject''
     else if u64_from_be (take 8 (drop 1 body)) \<le> unix_now then Err ''expired''
     else Ok \<lparr>cl_sub = bytes_to_str (drop BODY_LEN body), cl_exp = u64_from_be (take 8 (drop 1 body))\<rparr>) = Ok c"
    using assms(1) unfolding token_open_def Let_def by (simp only: assms(2-5) if_False option.case)
  show "body ! 0 = VERSION" "length body = BODY_LEN + unat (u16_from_be (take 2 (drop 9 body)))"
    "utf8_valid (drop BODY_LEN body)" "unix_now < u64_from_be (take 8 (drop 1 body))"
    "c = \<lparr>cl_sub = bytes_to_str (drop BODY_LEN body), cl_exp = u64_from_be (take 8 (drop 1 body))\<rparr>"
    using * unfolding guards_Ok_iff not_not not_le by blast+
qed

lemma token_open_OkE:
  assumes "token_open A E key unix_now t = Ok c"
  obtains raw body where "\<not> MAX_TOKEN_LEN < length t" and "b64_decode E t = Some raw"
    and "\<not> length raw < NONCE_LEN + BODY_LEN + TAG_LEN"
    and "ae_open A key (take NONCE_LEN raw) (drop NONCE_LEN raw) = Some body"
proof -
  have tl: "\<not> MAX_TOKEN_LEN < length t" by (rule ccontr) (use assms in \<open>simp add: token_open_def\<close>)
  obtain raw where raw1: "b64_decode E t = Some raw"
    using assms tl by (cases "b64_decode E t") (auto simp: token_open_def)
  have raw2: "\<not> length raw < NONCE_LEN + BODY_LEN + TAG_LEN"
    by (rule ccontr) (use assms tl raw1 in \<open>simp add: token_open_def\<close>)
  note raw = raw1 raw2
  obtain body where body: "ae_open A key (take NONCE_LEN raw) (drop NONCE_LEN raw) = Some body"
    using assms tl raw
    by (cases "ae_open A key (take NONCE_LEN raw) (drop NONCE_LEN raw)") (auto simp: token_open_def)
  show thesis using tl raw body by (rule that)
qed

text \<open>The time only decides about expiry.\<close>

lemma token_open_later:
  assumes "token_open A E key t0 t = Ok c" and "now < cl_exp c"
  shows "token_open A E key now t = Ok c"
proof -
  obtain raw body where *: "\<not> MAX_TOKEN_LEN < length t" "b64_decode E t = Some raw"
      "\<not> length raw < NONCE_LEN + BODY_LEN + TAG_LEN" "ae_open A key (take NONCE_LEN raw) (drop NONCE_LEN raw) = Some body"
    using assms(1) by (rule token_open_OkE)
  note checks = token_open_accepts [OF assms(1) *]
  have "\<not> u64_from_be (take 8 (drop 1 body)) \<le> now" using assms(2) checks(5) by (simp add: not_le)
  then show ?thesis
    unfolding token_open_def Let_def
    by (simp only: * checks(1,3) checks(2) [symmetric] if_False if_True option.case not_True_eq_False checks(5) simp_thms)
qed

text \<open>C13: \<open>open\<close> only accepts what was sealed: when it returns claims, the token decodes to a nonce and a ciphertext that
  opens under the key to the very body \<open>issue\<close> would write for these claims, they have not expired and the subject is
  well-formed UTF-8.\<close>

theorem token_open_sound:
  assumes "aead_correct A" and "token_open A E key unix_now t = Ok c"
  shows "length t \<le> MAX_TOKEN_LEN \<and> unix_now < cl_exp c \<and> utf8_valid (as_bytes (cl_sub c))
    \<and> (\<exists>raw. b64_decode E t = Some raw \<and> NONCE_LEN \<le> length raw
           \<and> ae_open A key (take NONCE_LEN raw) (drop NONCE_LEN raw) = Some (token_body c))"
proof -
  obtain raw body where tl: "\<not> MAX_TOKEN_LEN < length t" and raw: "b64_decode E t = Some raw"
      "\<not> length raw < NONCE_LEN + BODY_LEN + TAG_LEN"
      and body: "ae_open A key (take NONCE_LEN raw) (drop NONCE_LEN raw) = Some body"
    using assms(2) by (rule token_open_OkE)
  note checks = token_open_accepts [OF assms(2) tl raw body]
  have ge: "11 \<le> length body" using token_open_long_body [OF assms(1) raw(2) body] by (simp add: wire_simps)
  have e64: "u64_to_be (u64_from_be (take 8 (drop 1 body))) = take 8 (drop 1 body)"
    using ge by (intro u64_to_from_be) simp
  have e16: "u16_to_be (u16_from_be (take 2 (drop 9 body))) = take 2 (drop 9 body)"
    using ge by (intro u16_to_from_be) simp
  have sl: "(of_nat (length body - 11) :: u16) = u16_from_be (take 2 (drop 9 body))"
  proof -
    have "length body - 11 = unat (u16_from_be (take 2 (drop 9 body)))" using checks(2) unfolding BODY_LEN_def by linarith
    then show ?thesis by simp
  qed
  have "take 1 body @ take 8 (drop 1 body) @ take 2 (drop 9 body) @ drop 11 body = body"
    using append_take_drop_id [of 1 body] append_take_drop_id [of 8 "drop 1 body"] append_take_drop_id [of 2 "drop 9 body"]
    by (simp del: append_take_drop_id)
  moreover have "take 1 body = [VERSION]" using checks(1) ge by (cases body) auto
  ultimately have "token_body c = body"
    by (simp add: token_body_def Let_def checks(5) e64 e16 sl wire_simps del: One_nat_def)
  then show ?thesis using raw body checks(3-5) tl by (auto simp: wire_simps)
qed

section \<open>Examples\<close>

lemma example_token:
  "\<exists>t. token_issue plain_aead url_b64 [] (replicate 12 1) \<lparr>cl_sub = ''alice'', cl_exp = 100\<rparr> = Some t
     \<and> token_open plain_aead url_b64 [] 99 t = Ok \<lparr>cl_sub = ''alice'', cl_exp = 100\<rparr>"
  using url_b64_correct
  by (simp add: b64_correct_def token_issue_def token_open_def plain_aead_def token_body_def wire_simps VERSION_def as_bytes_def
      u64_to_be_def u16_to_be_def be_encode_numeral u64_from_be_def u16_from_be_def be_decode_def bytes_to_str_def char_of_def bit_simps)

theorem token_issue_open_witness:
  "\<exists>t. token_issue plain_aead url_b64 [] (replicate 12 1) \<lparr>cl_sub = ''alice'', cl_exp = 100\<rparr> = Some t
     \<and> token_open plain_aead url_b64 [] 99 t = Ok \<lparr>cl_sub = ''alice'', cl_exp = 100\<rparr>"
  using token_issue_open [OF plain_aead_correct url_b64_correct, of "replicate 12 1" "\<lparr>cl_sub = ''alice'', cl_exp = 100\<rparr>" "[]" 99]
  by (simp add: wire_simps as_bytes_def GCM_MAX_def)

theorem token_open_sound_witness:
  "\<exists>t. token_open plain_aead url_b64 [] 99 t = Ok \<lparr>cl_sub = ''alice'', cl_exp = 100\<rparr> \<and> length t \<le> MAX_TOKEN_LEN
     \<and> (99 :: u64) < cl_exp \<lparr>cl_sub = ''alice'', cl_exp = 100\<rparr>"
proof -
  obtain t where t: "token_open plain_aead url_b64 [] 99 t = Ok \<lparr>cl_sub = ''alice'', cl_exp = 100\<rparr>"
    using example_token by blast
  from token_open_sound [OF plain_aead_correct t] t show ?thesis by blast
qed

end
