(* ===== verification/Cookies.thy ===== *)
theory Cookies
  imports Frame_Decoder Errors
begin

text \<open>
  The helpers of both ends of a request: \<open>extract_cookie_value\<close>, \<open>validate_uuid\<close> and \<open>random_padding\<close> of
  \<^verbatim>\<open>src/src/server/utils.rs\<close>; \<open>build_cookie_into\<close> and its callers and \<open>encode_initial_payload\<close> of
  \<^verbatim>\<open>src/src/client/utils.rs\<close>.

  A header map is the list of its fields in order; names are compared without case. \<open>Uuid::parse_str\<close> is a
  parameter. A random length is an argument; a draw outside the range of the call cannot occur and is excluded by
  the hypotheses of the lemmas. \<open>str_trim\<close> is \<open>str::trim\<close>: it removes Unicode white space, here in its UTF-8 form.

  Lemmas: looking up a cookie in the header the client builds agrees with looking it up in the list of pairs; the
  frames of the first request body are the first bytes of the payload, numbered from zero.
\<close>

section \<open>Trimming\<close>

text \<open>The UTF-8 encodings of the characters with the property White-Space.\<close>

definition unicode_ws :: "bytes list" where
  "unicode_ws =
     [[9], [10], [11], [12], [13], [32], [0xC2, 0x85], [0xC2, 0xA0], [0xE1, 0x9A, 0x80],
      [0xE2, 0x80, 0x80], [0xE2, 0x80, 0x81], [0xE2, 0x80, 0x82], [0xE2, 0x80, 0x83], [0xE2, 0x80, 0x84],
      [0xE2, 0x80, 0x85], [0xE2, 0x80, 0x86], [0xE2, 0x80, 0x87], [0xE2, 0x80, 0x88], [0xE2, 0x80, 0x89],
      [0xE2, 0x80, 0x8A], [0xE2, 0x80, 0xA8], [0xE2, 0x80, 0xA9], [0xE2, 0x80, 0xAF], [0xE2, 0x81, 0x9F],
      [0xE3, 0x80, 0x80]]"

function trim_seqs :: "bytes list \<Rightarrow> bytes \<Rightarrow> bytes" where
  "trim_seqs ws xs =
     (case find (\<lambda>w. w \<noteq> [] \<and> take (length w) xs = w) ws of
        None \<Rightarrow> xs
      | Some w \<Rightarrow> trim_seqs ws (drop (length w) xs))"
  by pat_completeness auto
termination
proof (relation "measure (\<lambda>(ws, xs). length xs)")
  fix ws :: "bytes list" and xs w
  assume "find (\<lambda>w. w \<noteq> [] \<and> take (length w) xs = w) ws = Some w"
  then have "w \<noteq> []" "take (length w) xs = w" by (auto simp: find_Some_iff)
  then show "((ws, drop (length w) xs), ws, xs) \<in> measure (\<lambda>(ws, xs). length xs)" by (cases xs) auto
qed simp

declare trim_seqs.simps [simp del]

definition str_trim :: "string \<Rightarrow> string" where
  "str_trim s =
     bytes_to_str (rev (trim_seqs (map rev unicode_ws) (rev (trim_seqs unicode_ws (as_bytes s)))))"

section \<open>Server side: utils.rs\<close>

type_synonym headers = "(string \<times> bytes) list"

definition header_get :: "headers \<Rightarrow> string \<Rightarrow> bytes option" where
  "header_get hs name = map_option snd (find (\<lambda>h. eq_ignore_ascii_case (fst h) name) hs)"

text \<open>The loop, on the text from the current position on.\<close>

function cookie_scan :: "string \<Rightarrow> string \<Rightarrow> string option" where
  "cookie_scan key hay =
     (let rest = dropWhile (\<lambda>c. c = CHR '' '' \<or> c = CHR '';'') hay in
      if rest = [] then None
      else if length key < length rest \<and> take (length key) rest = key \<and> rest ! length key = CHR ''=''
      then (let val = drop (length key + 1) rest in
            Some (str_trim (case memchr (CHR '';'') val of Some i \<Rightarrow> take i val | None \<Rightarrow> val)))
      else (case memchr (CHR '';'') rest of
              Some i \<Rightarrow> cookie_scan key (drop (i + 1) rest)
            | None \<Rightarrow> None))"
  by pat_completeness auto
termination
proof (relation "measure (\<lambda>(key, hay). length hay)")
  fix key hay rest :: string and i
  assume "rest = dropWhile (\<lambda>c. c = CHR '' '' \<or> c = CHR '';'') hay" and "rest \<noteq> []"
  then have "0 < length rest" "length rest \<le> length hay" by (auto simp: length_dropWhile_le)
  then have "length rest - Suc i < length hay" by linarith
  then show "((key, drop (i + 1) rest), key, hay) \<in> measure (\<lambda>(key, hay). length hay)" by simp
qed simp

declare cookie_scan.simps [simp del]

definition extract_cookie_value :: "headers \<Rightarrow> string \<Rightarrow> string option" where
  "extract_cookie_value hs key =
     (case header_get hs ''Cookie'' of
        None \<Rightarrow> None
      | Some cookie_header \<Rightarrow>
          if utf8_valid cookie_header then cookie_scan key (bytes_to_str cookie_header) else None)"

definition validate_uuid :: "(string \<Rightarrow> 'u option) \<Rightarrow> string \<Rightarrow> ('u, server_error) result" where
  "validate_uuid parse s = ok_or (parse s) (bad_request ''invalid UUID format'')"

definition SERVER_PADDING_POOL :: string where
  "SERVER_PADDING_POOL = ''padding=XXXXXXXXXXXXXXXXXXXXXXXXXXXXXXXXXXXXXXXXXXXXXXXXXXXXXXXX''"

definition random_padding :: "nat \<Rightarrow> string" where
  "random_padding padding_len = take padding_len SERVER_PADDING_POOL"

section \<open>Client side: utils.rs\<close>

definition PADDING_POOL :: string where "PADDING_POOL = ''padding=XXXXXXXXXXXXXXXXXXXXXXXXXX''"
definition MIN_PADDING :: nat where "MIN_PADDING = 16"

definition build_cookie_into :: "nat \<Rightarrow> string \<Rightarrow> string \<Rightarrow> string" where
  "build_cookie_into padding_len name val = name @ ''='' @ val @ ''; '' @ take padding_len PADDING_POOL"

definition build_tunnel_cookie :: "nat \<Rightarrow> string \<Rightarrow> string" where
  "build_tunnel_cookie padding_len session_val = build_cookie_into padding_len ''session'' session_val"

text \<open>The hyphenated form of the stream id is the argument.\<close>

definition build_stream_cookie :: "nat \<Rightarrow> string \<Rightarrow> string" where
  "build_stream_cookie padding_len stream_id = build_cookie_into padding_len ''stream'' stream_id"

text \<open>The loop of \<open>encode_initial_payload\<close>; nonce and padding of the frame with number \<open>k\<close> are \<open>nonces k\<close> and drawn by
  \<open>rrs k\<close>. \<open>None\<close> is a panic of the random range.\<close>

function encode_chunks ::
    "base122 \<Rightarrow> (nat \<Rightarrow> range_rng) \<Rightarrow> (nat \<Rightarrow> bytes) \<Rightarrow> frame_cipher \<Rightarrow> traffic_config \<Rightarrow> bytes \<Rightarrow> nat \<Rightarrow> nat \<Rightarrow> bytes
      \<Rightarrow> (bytes \<times> nat, io_error) result option" where
  "encode_chunks B rrs nonces C cfg data offset seq body =
     (if offset < length data
      then (let chunk_end = min (offset + frame_raw_limit (tc_encoding_type cfg)) (length data);
                chunk = take (chunk_end - offset) (drop offset data)
            in case encode_frame_into B (rrs seq) (nonces seq) chunk (of_nat seq) C (pc_threshold (tc_global cfg))
                      (pc_range (tc_global cfg)) (tc_encoding_type cfg) body of
                 None \<Rightarrow> None
               | Some (Err e) \<Rightarrow> Some (Err e)
               | Some (Ok body) \<Rightarrow> encode_chunks B rrs nonces C cfg data chunk_end (seq + 1) body)
      else Some (Ok (body, seq)))"
  by pat_completeness auto
termination
  by (relation "measure (\<lambda>(B, rrs, nonces, C, cfg, data, offset, seq, body). length data - offset)")
    (auto simp: frame_raw_limit_def wire_simps split: encoding_type.splits)

declare encode_chunks.simps [simp del]

definition encode_initial_payload ::
    "base122 \<Rightarrow> (nat \<Rightarrow> range_rng) \<Rightarrow> (nat \<Rightarrow> bytes) \<Rightarrow> bytes \<Rightarrow> nat \<Rightarrow> frame_cipher \<Rightarrow> traffic_config
      \<Rightarrow> (bytes \<times> bytes \<times> nat, io_error) result option" where
  "encode_initial_payload B rrs nonces initial_payload max_bytes C cfg =
     (let take_len = min (length initial_payload) max_bytes;
          data_to_send = take take_len initial_payload;
          remaining = (if take_len < length initial_payload then drop take_len initial_payload else [])
      in map_option (map_result (\<lambda>(body, seq). (body, remaining, seq)) id)
           (encode_chunks B rrs nonces C cfg data_to_send 0 0 []))"

section \<open>Lemmas: trimming\<close>

lemma trim_seqs_id:
  assumes "xs = [] \<or> hd xs \<notin> hd ` set ws"
  shows "trim_seqs ws xs = xs"
proof -
  have "\<not> (w \<noteq> [] \<and> take (length w) xs = w)" if w: "w \<in> set ws" for w
  proof
    assume a: "w \<noteq> [] \<and> take (length w) xs = w"
    then have "xs \<noteq> []" "hd xs = hd w" by (cases w; cases xs; auto)+
    with w assms show False by blast
  qed
  then have "find (\<lambda>w. w \<noteq> [] \<and> take (length w) xs = w) ws = None" by (simp add: find_None_iff)
  then show ?thesis by (simp add: trim_seqs.simps)
qed

text \<open>The characters of the cookie values the client sends: base64, hexadecimal digits, hyphens and colons.\<close>

definition cookie_char :: "char \<Rightarrow> bool" where
  "cookie_char c \<longleftrightarrow> b64_char c \<or> c = CHR '':''"

lemma cookie_char_byte:
  assumes "cookie_char c"
  shows "(of_char c :: byte) < 128" and "(of_char c :: byte) \<notin> hd ` set unicode_ws"
    and "(of_char c :: byte) \<notin> hd ` set (map rev unicode_ws)" and "c \<noteq> CHR '';''" and "c \<noteq> CHR '' ''" and "c \<noteq> CHR ''=''"
proof -
  have n: "(of_char c :: nat) \<noteq> 59" "(of_char c :: nat) \<noteq> 32" "(of_char c :: nat) \<noteq> 61"
    and lt: "(of_char c :: nat) < 128" and ge: "33 \<le> (of_char c :: nat)"
    using assms by (auto simp: cookie_char_def b64_char_def Let_def)
  have u: "unat (of_char c :: byte) = of_char c" by (rule unat_of_char_byte)
  show "(of_char c :: byte) < 128" using lt u by (simp add: word_less_nat_alt)
  have "33 \<le> (of_char c :: byte)" "(of_char c :: byte) < 128" using lt ge u by (simp_all add: word_less_nat_alt word_le_nat_alt)
  then show "(of_char c :: byte) \<notin> hd ` set unicode_ws" "(of_char c :: byte) \<notin> hd ` set (map rev unicode_ws)"
    by (auto simp: unicode_ws_def)
  show "c \<noteq> CHR '';''" "c \<noteq> CHR '' ''" "c \<noteq> CHR ''=''" using n by auto
qed

lemma str_trim_id:
  assumes "list_all cookie_char s"
  shows "str_trim s = s"
proof (cases "s = []")
  case True
  then show ?thesis by (simp add: str_trim_def as_bytes_def bytes_to_str_def trim_seqs_id)
next
  case False
  then have "cookie_char (hd s)" "cookie_char (last s)" using assms by (auto simp: list_all_iff)
  moreover have "hd (as_bytes s) = of_char (hd s)" "hd (rev (as_bytes s)) = of_char (last s)"
    using False by (simp_all add: as_bytes_def hd_map hd_rev last_map)
  ultimately have "hd (as_bytes s) \<notin> hd ` set unicode_ws" "hd (rev (as_bytes s)) \<notin> hd ` set (map rev unicode_ws)"
    using cookie_char_byte(2,3) by metis+
  then have "trim_seqs unicode_ws (as_bytes s) = as_bytes s"
      "trim_seqs (map rev unicode_ws) (rev (as_bytes s)) = rev (as_bytes s)"
    using trim_seqs_id by blast+
  then show ?thesis by (simp add: str_trim_def)
qed

lemma utf8_valid_ascii: "\<forall>b \<in> set bs. b < 128 \<Longrightarrow> utf8_valid bs"
  by (induction bs) auto

section \<open>Lemmas: cookie lookup\<close>

fun render_cookies :: "(string \<times> string) list \<Rightarrow> string" where
  "render_cookies [] = []"
| "render_cookies [(n, v)] = n @ ''='' @ v"
| "render_cookies ((n, v) # cs) = n @ ''='' @ v @ ''; '' @ render_cookies cs"

definition cookie_name :: "string \<Rightarrow> bool" where
  "cookie_name n \<longleftrightarrow> CHR ''='' \<notin> set n \<and> CHR '';'' \<notin> set n \<and> CHR '' '' \<notin> set n"

lemma name_matches:
  assumes "CHR ''='' \<notin> set key" and "CHR ''='' \<notin> set n"
  shows "length key < length (n @ CHR ''='' # t) \<and> take (length key) (n @ CHR ''='' # t) = key
            \<and> (n @ CHR ''='' # t) ! length key = CHR ''='' \<longleftrightarrow> key = n" (is "?L \<longleftrightarrow> _")
proof
  assume L: ?L
  then have "n @ CHR ''='' # t = key @ CHR ''='' # drop (Suc (length key)) (n @ CHR ''='' # t)"
    by (metis append_take_drop_id Cons_nth_drop_Suc)
  then have "split_once (CHR ''='') (n @ CHR ''='' # t) = split_once (CHR ''='') (key @ CHR ''='' # drop (Suc (length key)) (n @ CHR ''='' # t))"
    by simp
  then show "key = n" by (simp add: split_once_append [OF assms(1)] split_once_append [OF assms(2)])
qed simp

lemma cookie_scan_space: "cookie_scan key (CHR '' '' # hay) = cookie_scan key hay"
  by (subst (1 2) cookie_scan.simps) simp

lemma cookie_scan_step:
  assumes "cookie_name n" and "CHR ''='' \<notin> set key" and "CHR '';'' \<notin> set v"
  shows "cookie_scan key (n @ ''='' @ v) = (if key = n then Some (str_trim v) else None)"
    and "cookie_scan key (n @ ''='' @ v @ ''; '' @ hay) = (if key = n then Some (str_trim v) else cookie_scan key hay)"
proof -
  have skip: "dropWhile (\<lambda>c. c = CHR '' '' \<or> c = CHR '';'') (n @ CHR ''='' # t) = n @ CHR ''='' # t" for t
    using assms(1) by (cases n) (auto simp: cookie_name_def)
  have m: "length key < length (n @ CHR ''='' # t) \<and> take (length key) (n @ CHR ''='' # t) = key
            \<and> (n @ CHR ''='' # t) ! length key = CHR ''='' \<longleftrightarrow> key = n" for t
    using name_matches [OF assms(2), of n t] assms(1) unfolding cookie_name_def by blast
  have nos: "CHR '';'' \<notin> set (n @ CHR ''='' # v)" using assms(1,3) by (simp add: cookie_name_def)
  have none: "memchr (CHR '';'') (n @ CHR ''='' # v) = None"
    using nos memchr_None_iff by metis
  have nv: "memchr (CHR '';'') v = None" using assms(3) by simp
  have some: "memchr (CHR '';'') (n @ CHR ''='' # v @ CHR '';'' # t) = Some (length (n @ CHR ''='' # v))" for t
    using memchr_append_notin [OF nos, of t] by simp
  show "cookie_scan key (n @ ''='' @ v) = (if key = n then Some (str_trim v) else None)"
    by (subst cookie_scan.simps) (simp only: append.simps append_Cons append_Nil skip m Let_def, simp add: none nv)
  show "cookie_scan key (n @ ''='' @ v @ ''; '' @ hay) = (if key = n then Some (str_trim v) else cookie_scan key hay)"
    using assms(3) memchr_append_notin [OF assms(3), of "CHR '' '' # hay"]
    by (subst cookie_scan.simps)
      (simp only: append.simps append_Cons append_Nil skip m Let_def, simp add: some cookie_scan_space)
qed

lemma cookie_scan_render:
  assumes "CHR ''='' \<notin> set key"
  shows "list_all (\<lambda>(n, v). cookie_name n \<and> CHR '';'' \<notin> set v) cs \<Longrightarrow>
           cookie_scan key (render_cookies cs) = map_option str_trim (map_of cs key)"
proof (induction cs rule: render_cookies.induct)
  case 1
  then show ?case by (simp add: cookie_scan.simps)
next
  case (2 n v)
  then show ?case using cookie_scan_step(1) [OF _ assms, of n v] by simp
next
  case (3 n v c cs)
  then show ?case using cookie_scan_step(2) [OF _ assms, of n v] by (auto simp del: append.simps)
qed

lemma padding_split:
  assumes "8 \<le> p"
  shows "take p PADDING_POOL = ''padding'' @ ''='' @ take (p - 8) (replicate 26 (CHR ''X''))"
proof -
  have "PADDING_POOL = ''padding='' @ replicate 26 (CHR ''X'')" by (simp add: PADDING_POOL_def numeral_eq_Suc)
  then have "take p PADDING_POOL = take p ''padding='' @ take (p - length ''padding='') (replicate 26 (CHR ''X''))"
    by (metis take_append)
  moreover have "take p ''padding='' = ''padding=''" using assms by simp
  ultimately show ?thesis by simp
qed

lemma cookie_lookup:
  assumes "header_get hs ''Cookie'' = Some (as_bytes (build_cookie_into padding_len name val))"
    and "MIN_PADDING \<le> padding_len" and "padding_len < length PADDING_POOL"
    and "list_all b64_char name" and "list_all cookie_char val"
    and "list_all b64_char key" and "key \<noteq> ''padding''"
  shows "extract_cookie_value hs key = (if key = name then Some val else None)"
proof -
  let ?pad = "take (padding_len - 8) (replicate 26 (CHR ''X''))"
  have b: "list_all b64_char s \<Longrightarrow> cookie_name s \<and> list_all cookie_char s" for s
    using cookie_char_byte(4-6) unfolding cookie_name_def list_all_iff cookie_char_def by metis
  have X: "list_all cookie_char ?pad" by (auto simp: list_all_iff cookie_char_def b64_char_def dest: in_set_takeD)
  have padname: "cookie_name ''padding''" "list_all cookie_char ''padding''"
    by (simp_all add: cookie_name_def cookie_char_def b64_char_def)
  have built: "build_cookie_into padding_len name val = render_cookies [(name, val), (''padding'', ?pad)]"
    using assms(2) padding_split [of padding_len] by (simp add: build_cookie_into_def MIN_PADDING_def)
  have nosemi: "CHR '';'' \<notin> set val" "CHR '';'' \<notin> set ?pad" "CHR ''='' \<notin> set key"
    using assms(5) X b [OF assms(6)] cookie_char_byte(4) by (auto simp: list_all_iff cookie_name_def)
  have ascii: "of_char c < (128 :: byte)" if c: "c \<in> set (build_cookie_into padding_len name val)" for c
  proof -
    consider "cookie_char c" | "c = CHR ''=''" | "c = CHR '';''" | "c = CHR '' ''"
      using c X b [OF assms(4)] assms(5) padname(2) unfolding built by (auto simp: list_all_iff)
    then show ?thesis by cases (simp_all add: cookie_char_byte(1))
  qed
  then have "utf8_valid (as_bytes (build_cookie_into padding_len name val))"
    by (intro utf8_valid_ascii) (auto simp: as_bytes_def)
  moreover have "cookie_scan key (build_cookie_into padding_len name val)
      = map_option str_trim (map_of [(name, val), (''padding'', ?pad)] key)"
    unfolding built using b [OF assms(4)] padname nosemi by (intro cookie_scan_render) simp_all
  ultimately show ?thesis
    using assms(1,7) str_trim_id [OF assms(5)] by (simp add: extract_cookie_value_def)
qed

text \<open>The server reads out of the cookie header exactly what the client put in. For a cookie built by the client
  from a name and a value of base64, hexadecimal, hyphen and colon characters, whatever amount of padding was drawn, looking
  up the name gives the value and looking up any other name but \<^verbatim>\<open>padding\<close> gives nothing.\<close>

theorem cookie_roundtrip:
  assumes "header_get hs ''Cookie'' = Some (as_bytes (build_cookie_into padding_len name val))"
    and "MIN_PADDING \<le> padding_len" and "padding_len < length PADDING_POOL"
    and "list_all b64_char name" and "list_all cookie_char val"
    and "list_all b64_char key" and "key \<noteq> ''padding''"
  shows "extract_cookie_value hs key = (if key = name then Some val else None)"
  using assms by (rule cookie_lookup)

section \<open>The first request body\<close>

lemma encode_chunks_ok:
  assumes "cipher_contract C" and "base122_correct B" and "\<forall>k. rng_correct (rrs k)" and "\<forall>k. length (nonces k) = NONCE_LEN"
    and "fst (pc_range (tc_global cfg)) \<le> snd (pc_range (tc_global cfg))"
  shows "\<exists>fs. encode_chunks B rrs nonces C cfg data offset seq body = Some (Ok (body @ concat (map fst fs), seq + length fs))
      \<and> (\<forall>(f, q, d) \<in> set fs. decodes_as B C (tc_encoding_type cfg) f q d \<and> d \<noteq> [])
      \<and> map (fst \<circ> snd) fs = map of_nat [seq..<seq + length fs]
      \<and> concat (map (snd \<circ> snd) fs) = drop offset data"
  using assms
proof (induction B rrs nonces C cfg data offset seq body rule: encode_chunks.induct)
  case (1 B rrs nonces C cfg data offset seq body)
  show ?case
  proof (cases "offset < length data")
    case True
    define e where "e = min (offset + frame_raw_limit (tc_encoding_type cfg)) (length data)"
    define chunk where "chunk = take (e - offset) (drop offset data)"
    have "length chunk \<le> frame_raw_limit (tc_encoding_type cfg)" by (auto simp: chunk_def e_def)
    then obtain f where f: "encode_frame_into B (rrs seq) (nonces seq) chunk (of_nat seq) C (pc_threshold (tc_global cfg))
          (pc_range (tc_global cfg)) (tc_encoding_type cfg) body = Some (Ok (body @ f))"
        and dec: "decodes_as B C (tc_encoding_type cfg) f (of_nat seq) chunk"
      using encode_frame_into_ok [OF 1(2,3) 1(4) [rule_format, of seq] 1(6) 1(5) [rule_format, of seq], of chunk
          "tc_encoding_type cfg" "of_nat seq" "pc_threshold (tc_global cfg)" body]
      by auto
    from "1.IH" [OF True e_def chunk_def f refl "1.prems"] obtain fs
      where fs: "encode_chunks B rrs nonces C cfg data e (seq + 1) (body @ f)
            = Some (Ok ((body @ f) @ concat (map fst fs), seq + 1 + length fs))"
        "\<forall>(f, q, d) \<in> set fs. decodes_as B C (tc_encoding_type cfg) f q d \<and> d \<noteq> []"
        "map (fst \<circ> snd) fs = map of_nat [seq + 1..<seq + 1 + length fs]"
        "concat (map (snd \<circ> snd) fs) = drop e data"
      by blast
    have run: "encode_chunks B rrs nonces C cfg data offset seq body = encode_chunks B rrs nonces C cfg data e (seq + 1) (body @ f)"
      using True f by (subst encode_chunks.simps) (simp add: e_def chunk_def)
    have "offset < e" using True by (auto simp: e_def frame_raw_limit_def wire_simps split: encoding_type.splits)
    then have "chunk \<noteq> []" "offset \<le> e" using True by (simp_all add: chunk_def)
    moreover from this(2) have "chunk @ drop e data = drop offset data"
      unfolding chunk_def by (metis append_take_drop_id drop_drop le_add_diff_inverse2)
    ultimately show ?thesis
      using run fs dec by (intro exI [of _ "(f, of_nat seq, chunk) # fs"]) (simp add: upt_conv_Cons comp_def del: upt_Suc)
  next
    case False
    then show ?thesis by (intro exI [of _ "[]"]) (simp add: encode_chunks.simps)
  qed
qed

lemma initial_body_frames:
  assumes "cipher_contract C" and "base122_correct B" and "\<forall>k. rng_correct (rrs k)" and "\<forall>k. length (nonces k) = NONCE_LEN"
    and "fst (pc_range (tc_global cfg)) \<le> snd (pc_range (tc_global cfg))"
  shows "\<exists>fs. encode_initial_payload B rrs nonces payload max_bytes C cfg = Some (Ok (concat (map fst fs), drop max_bytes payload, length fs))
    \<and> (\<forall>(f, q, d) \<in> set fs. decodes_as B C (tc_encoding_type cfg) f q d \<and> d \<noteq> [])
    \<and> map (fst \<circ> snd) fs = map of_nat [0..<length fs] \<and> concat (map (snd \<circ> snd) fs) = take max_bytes payload"
proof -
  obtain fs where fs: "encode_chunks B rrs nonces C cfg (take max_bytes payload) 0 0 [] = Some (Ok (concat (map fst fs), length fs))"
      "\<forall>(f, q, d) \<in> set fs. decodes_as B C (tc_encoding_type cfg) f q d \<and> d \<noteq> []"
      "map (fst \<circ> snd) fs = map of_nat [0..<length fs]" "concat (map (snd \<circ> snd) fs) = take max_bytes payload"
    using encode_chunks_ok [OF assms, of "take max_bytes payload" 0 0 "[]"] by auto
  have "take (min (length payload) max_bytes) payload = take max_bytes payload" by (simp add: min_def)
  then have "encode_initial_payload B rrs nonces payload max_bytes C cfg
      = Some (Ok (concat (map fst fs), drop max_bytes payload, length fs))"
    using fs(1) by (simp add: encode_initial_payload_def Let_def)
  then show ?thesis using fs(2-4) by blast
qed

lemma initial_payload_frames:
  assumes "cipher_contract C" and "base122_correct B" and "\<forall>k. rng_correct (rrs k)" and "\<forall>k. length (nonces k) = NONCE_LEN"
    and "fst (pc_range (tc_global cfg)) \<le> snd (pc_range (tc_global cfg))"
  shows "\<exists>body remaining n frames.
      encode_initial_payload B rrs nonces payload max_bytes C cfg = Some (Ok (body, remaining, n))
    \<and> map fst frames = map of_nat [0..<n] \<and> concat (map snd frames) @ remaining = payload
    \<and> concat (map snd frames) = take max_bytes payload
    \<and> (\<forall>chunks fuel. chunk_bytes chunks = body \<and> no_errors chunks \<and> n + length chunks < fuel \<longrightarrow>
         decode_stream B fuel (decoder_new C (tc_encoding_type cfg) MAX_FRAME_BUF_SIZE) chunks = (frames, Some (Ok ())))"
proof -
  obtain fs where fs: "encode_initial_payload B rrs nonces payload max_bytes C cfg = Some (Ok (concat (map fst fs), drop max_bytes payload, length fs))"
      "\<forall>(f, q, d) \<in> set fs. decodes_as B C (tc_encoding_type cfg) f q d"
      "map (fst \<circ> snd) fs = map of_nat [0..<length fs]" "concat (map (snd \<circ> snd) fs) = take max_bytes payload"
    using initial_body_frames [OF assms, of payload max_bytes] by (metis (mono_tags, lifting) case_prod_conv old.prod.exhaust)
  show ?thesis
    using fs decode_whole_frames [OF fs(2)]
    by (intro exI [of _ "concat (map fst fs)"] exI [of _ "drop max_bytes payload"] exI [of _ "length fs"]
        exI [of _ "map snd fs"]) simp
qed

text \<open>The body of the first request carries the first bytes of the payload and nothing is lost: it always encodes, and
  the server's decoder, however the body is cut into chunks, reads frames numbered consecutively from zero whose
  contents, followed by the part kept for later, are the payload.\<close>

theorem initial_payload_decodes:
  assumes "cipher_contract C" and "base122_correct B" and "\<forall>k. rng_correct (rrs k)" and "\<forall>k. length (nonces k) = NONCE_LEN"
    and "fst (pc_range (tc_global cfg)) \<le> snd (pc_range (tc_global cfg))"
  shows "\<exists>body remaining n frames.
      encode_initial_payload B rrs nonces payload max_bytes C cfg = Some (Ok (body, remaining, n))
    \<and> map fst frames = map of_nat [0..<n] \<and> concat (map snd frames) @ remaining = payload
    \<and> concat (map snd frames) = take max_bytes payload
    \<and> (\<forall>chunks fuel. chunk_bytes chunks = body \<and> no_errors chunks \<and> n + length chunks < fuel \<longrightarrow>
         decode_stream B fuel (decoder_new C (tc_encoding_type cfg) MAX_FRAME_BUF_SIZE) chunks = (frames, Some (Ok ())))"
  using assms by (rule initial_payload_frames)

section \<open>Examples\<close>

theorem cookie_roundtrip_witness:
  "extract_cookie_value [(''cookie'', as_bytes (build_stream_cookie 20 ''a-1''))] ''stream'' = Some ''a-1''"
  using cookie_roundtrip [of "[(''cookie'', as_bytes (build_stream_cookie 20 ''a-1''))]" 20 "''stream''" "''a-1''" "''stream''"]
  by (simp add: build_stream_cookie_def header_get_def eq_ignore_ascii_case_def to_ascii_lowercase_def MIN_PADDING_def char_of_def bit_simps
      PADDING_POOL_def b64_char_def cookie_char_def)

definition example_traffic :: traffic_config where
  "example_traffic = \<lparr>tc_global = \<lparr>pc_threshold = 100, pc_range = (4, 9)\<rparr>, tc_stages = [], tc_encoding_type = Json,
     tc_max_download_bytes = None\<rparr>"

lemma example_traffic_range: "fst (pc_range (tc_global example_traffic)) \<le> snd (pc_range (tc_global example_traffic))"
  by (simp add: example_traffic_def)

theorem initial_payload_decodes_witness:
  "\<exists>body remaining n frames.
      encode_initial_payload positional122 (\<lambda>_. low_rng) (\<lambda>_. replicate 12 1) [1, 2, 3] 2 example_cipher example_traffic
        = Some (Ok (body, remaining, n))
    \<and> map fst frames = map (of_nat :: nat \<Rightarrow> u64) [0..<n] \<and> concat (map snd frames) @ remaining = [1, 2, 3]
    \<and> concat (map snd frames) = take 2 [1, 2, 3]"
proof -
  have "\<forall>k :: nat. rng_correct low_rng" "\<forall>k :: nat. length (replicate 12 (1 :: byte)) = NONCE_LEN"
    using low_rng_correct by (simp_all add: NONCE_LEN_def)
  from initial_payload_decodes [OF example_cipher_contract positional122_correct this example_traffic_range, of "[1, 2, 3]" 2]
  show ?thesis by blast
qed

end
