(* ===== verification/Tunnel_Actor.thy ===== *)
theory Tunnel_Actor
  imports Traffic_Shaper Upload_Actor Stream_Registry
begin

text \<open>
  The tunnel actor, \<^verbatim>\<open>src/src/server/actor/tunnel.rs\<close>: the download direction of a tunnel is cut into segments, each the
  body of one response. One shaper reads the upstream; it lives in a slot shared with the actor or in the one segment
  that is being sent, and goes back to the slot when a segment is dropped after reaching its size limit.

  The state holds what the code shares through \<open>Arc\<close>s: the contents of the slot (\<open>tn_slot\<close>; \<open>tn_has_slot\<close> says
  whether the actor still has its handle), the cancellation flag, the activity stamp, the registry, the messages in the
  segment-done channel, and the live segments by number. A reply channel is a number; \<open>tn_replies\<close> records the answers and
  \<open>tn_delivered\<close> what the segments' polls returned. A run is a list of events: an iteration of the actor's \<open>select!\<close>
  loop, a poll or the drop of a segment by its response, in any order. Whether a reply's receiver is gone, at the time
  of \<open>is_closed\<close> and at the time of \<open>send\<close>, is part of the event. \<open>None\<close> is a panic.

  Lemmas: the shaper is never in two places, so the segments deliver one continuous stream of frames however the
  download is rotated; a stopped tunnel delivers nothing and its stream id is consumed; the two ways in which a
  \<open>Continue\<close> takes down a healthy tunnel.
\<close>

section \<open>State\<close>

definition STREAM_IDLE_TIMEOUT_SECS :: u64 where "STREAM_IDLE_TIMEOUT_SECS = 120"
definition SEGMENT_DONE_CHANNEL_CAPACITY :: nat where "SEGMENT_DONE_CHANNEL_CAPACITY = 2"

datatype tunnel_cmd = Continue nat | TunnelShutdown

datatype phase = PhConnecting | PhActive | PhRotating | PhDraining | PhClosed

type_synonym shaper_stream = "shaper \<times> read_event list"

record segment =
  sg_shaper :: "shaper_stream option"
  sg_sent :: u64
  sg_max_bytes :: "u64 option"
  sg_done_tx :: bool
  sg_pause_on_drop :: bool
  sg_ended :: bool

record tunnel =
  tn_phase :: phase
  tn_upload_tx :: "nat option"
  tn_upload_handle :: "nat option"
  tn_has_slot :: bool
  tn_slot :: "shaper_stream option"
  tn_segment_active :: bool
  tn_pending_continue :: "nat list"
  tn_done :: nat
  tn_cancelled :: bool
  tn_stream_id :: uuid
  tn_registry :: stream_registry
  tn_max_download_bytes :: "u64 option"
  tn_pending_write_half :: "upstream_write option"
  tn_pending_initial_seq :: u64
  tn_last_activity :: u64
  tn_running :: bool
  tn_segments :: "(nat \<times> segment) list"
  tn_next_segment :: nat
  tn_replies :: "(nat \<times> nat option) list"
  tn_delivered :: "(nat \<times> u64 \<times> bytes) list"
  tn_upload_sent :: "(nat \<times> upload_cmd) list"
  tn_spawned :: "(nat \<times> upload_actor) list"

section \<open>Segments\<close>

text \<open>\<open>Segment::new\<close> takes the shaper out of the slot.\<close>

definition segment_new :: "u64 option \<Rightarrow> shaper_stream option \<Rightarrow> shaper_stream option \<times> segment option" where
  "segment_new max_bytes slot =
     (case slot of
        None \<Rightarrow> (None, None)
      | Some shaper \<Rightarrow>
          (None, Some \<lparr>sg_shaper = Some shaper, sg_sent = 0, sg_max_bytes = max_bytes, sg_done_tx = True,
                       sg_pause_on_drop = False, sg_ended = False\<rparr>))"

definition segment_release :: "segment \<Rightarrow> shaper_stream option \<Rightarrow> segment \<times> shaper_stream option" where
  "segment_release sg slot =
     (case sg_shaper sg of
        None \<Rightarrow> (sg, slot)
      | Some shaper \<Rightarrow> (sg\<lparr>sg_shaper := None\<rparr>, if sg_pause_on_drop sg then Some shaper else slot))"

text \<open>\<open>Stream::poll_next\<close> of a segment; also returned is the frame with the number the shaper gave it and whether the
  activity stamp was set.\<close>

definition segment_poll_next ::
    "shaper_env \<Rightarrow> (nat \<Rightarrow> bool) \<Rightarrow> nat \<Rightarrow> bool \<Rightarrow> segment
      \<Rightarrow> (segment \<times> (u64 \<times> bytes) option \<times> (bytes, io_error) result option poll) option" where
  "segment_poll_next env elapsed now cancelled sg =
     (if sg_ended sg then Some (sg, None, Ready None)
      else if cancelled then Some (sg\<lparr>sg_ended := True\<rparr>, None, Ready None)
      else (case sg_shaper sg of
        None \<Rightarrow> Some (sg\<lparr>sg_ended := True\<rparr>, None, Ready None)
      | Some (sh, rd) \<Rightarrow>
          (case shaper_poll_next env elapsed now sh rd of
             None \<Rightarrow> None
           | Some (sh, rd, p) \<Rightarrow>
               (let sg = sg\<lparr>sg_shaper := Some (sh, rd)\<rparr> in
                case p of
                  Ready (Some (Ok (seq, data))) \<Rightarrow>
                    (let sg = sg\<lparr>sg_sent := sg_sent sg + of_nat (length data)\<rparr>;
                         sg = (if (case sg_max_bytes sg of None \<Rightarrow> False | Some m \<Rightarrow> m \<le> sg_sent sg)
                               then sg\<lparr>sg_pause_on_drop := True, sg_ended := True\<rparr> else sg)
                     in Some (sg, Some (seq, data), Ready (Some (Ok data))))
                | Ready (Some (Err e)) \<Rightarrow> Some (sg\<lparr>sg_ended := True\<rparr>, None, Ready (Some (Err e)))
                | Ready None \<Rightarrow> Some (sg\<lparr>sg_ended := True\<rparr>, None, Ready None)
                | Pending \<Rightarrow> Some (sg, None, Pending)))))"

text \<open>\<open>Drop\<close>: release, then \<open>try_send\<close>, which fails when the channel is full or its receiver is gone.\<close>

definition segment_drop :: "nat \<Rightarrow> tunnel \<Rightarrow> tunnel" where
  "segment_drop i t =
     (case map_of (tn_segments t) i of
        None \<Rightarrow> t
      | Some sg \<Rightarrow>
          (let (sg, slot) = segment_release sg (tn_slot t)
           in t\<lparr>tn_segments := dash_remove i (tn_segments t), tn_slot := slot,
                tn_done := (if sg_done_tx sg \<and> tn_running t \<and> tn_done t < SEGMENT_DONE_CHANNEL_CAPACITY
                            then tn_done t + 1 else tn_done t)\<rparr>))"

definition tunnel_poll_segment :: "shaper_env \<Rightarrow> (nat \<Rightarrow> bool) \<Rightarrow> nat \<Rightarrow> u64 \<Rightarrow> nat \<Rightarrow> tunnel \<Rightarrow> tunnel option" where
  "tunnel_poll_segment env elapsed now secs i t =
     (case map_of (tn_segments t) i of
        None \<Rightarrow> Some t
      | Some sg \<Rightarrow>
          (case segment_poll_next env elapsed now (tn_cancelled t) sg of
             None \<Rightarrow> None
           | Some (sg, frame, p) \<Rightarrow>
               (let t = t\<lparr>tn_segments := dash_insert i sg (tn_segments t)\<rparr> in
                Some (case frame of
                        None \<Rightarrow> t
                      | Some f \<Rightarrow> t\<lparr>tn_last_activity := secs, tn_delivered := tn_delivered t @ [(i, f)]\<rparr>))))"

section \<open>The actor\<close>

definition tunnel_new :: "uuid \<Rightarrow> stream_registry \<Rightarrow> u64 option \<Rightarrow> u64 \<Rightarrow> tunnel" where
  "tunnel_new stream_id registry max_download_bytes last_activity =
     \<lparr>tn_phase = PhConnecting, tn_upload_tx = None, tn_upload_handle = None, tn_has_slot = False, tn_slot = None,
      tn_segment_active = False, tn_pending_continue = [], tn_done = 0, tn_cancelled = False, tn_stream_id = stream_id,
      tn_registry = registry, tn_max_download_bytes = max_download_bytes, tn_pending_write_half = None,
      tn_pending_initial_seq = 0, tn_last_activity = last_activity, tn_running = True, tn_segments = [],
      tn_next_segment = 0, tn_replies = [], tn_delivered = [], tn_upload_sent = [], tn_spawned = []\<rparr>"

definition set_upload_channel :: "nat \<Rightarrow> nat \<Rightarrow> tunnel \<Rightarrow> tunnel" where
  "set_upload_channel upload_tx upload_handle t = t\<lparr>tn_upload_tx := Some upload_tx, tn_upload_handle := Some upload_handle\<rparr>"

definition on_upstream_connected ::
    "nat \<Rightarrow> nat \<Rightarrow> read_event list \<Rightarrow> upstream_write option \<Rightarrow> resolved_config \<Rightarrow> frame_cipher \<Rightarrow> u64 \<Rightarrow> tunnel \<Rightarrow> tunnel" where
  "on_upstream_connected now rnd read_half write_half config cipher initial_seq t =
     (let t = t\<lparr>tn_has_slot := True, tn_slot := Some (with_seq now rnd config cipher initial_seq, read_half)\<rparr>;
          t = (case write_half of
                 None \<Rightarrow> t
               | Some wh \<Rightarrow> t\<lparr>tn_pending_write_half := Some wh, tn_pending_initial_seq := initial_seq\<rparr>)
      in t\<lparr>tn_phase := PhActive\<rparr>)"

text \<open>The new segment gets the next number.\<close>

definition take_segment :: "tunnel \<Rightarrow> tunnel \<times> nat option" where
  "take_segment t =
     (if \<not> tn_has_slot t then (t, None)
      else (case segment_new (tn_max_download_bytes t) (tn_slot t) of
        (slot, None) \<Rightarrow> (t\<lparr>tn_slot := slot\<rparr>, None)
      | (slot, Some sg) \<Rightarrow>
          (t\<lparr>tn_slot := slot, tn_segment_active := True, tn_segments := dash_insert (tn_next_segment t) sg (tn_segments t),
             tn_next_segment := tn_next_segment t + 1\<rparr>, Some (tn_next_segment t))))"

definition shaper_alive :: "tunnel \<Rightarrow> bool" where
  "shaper_alive t \<longleftrightarrow> tn_has_slot t \<and> tn_slot t \<noteq> None"

text \<open>\<open>reply.send\<close>: when the receiver is gone the answer, and with it the segment, is dropped.\<close>

definition reply_send :: "nat set \<Rightarrow> nat \<Rightarrow> nat option \<Rightarrow> tunnel \<Rightarrow> tunnel" where
  "reply_send gone reply ans t =
     (if reply \<in> gone then (case ans of None \<Rightarrow> t | Some i \<Rightarrow> segment_drop i t)
      else t\<lparr>tn_replies := tn_replies t @ [(reply, ans)]\<rparr>)"

fun serve_replies :: "nat set \<Rightarrow> nat set \<Rightarrow> bool \<Rightarrow> nat list \<Rightarrow> tunnel \<Rightarrow> tunnel" where
  "serve_replies closed gone alive [] t = t"
| "serve_replies closed gone alive (reply # pending) t =
     (if \<not> alive then serve_replies closed gone alive pending (reply_send gone reply None t)
      else if reply \<in> closed then serve_replies closed gone alive pending t
      else (case take_segment t of
        (t, Some i) \<Rightarrow> serve_replies closed gone alive pending (reply_send gone reply (Some i) (t\<lparr>tn_phase := PhActive\<rparr>))
      | (t, None) \<Rightarrow> serve_replies closed gone alive pending (reply_send gone reply None (t\<lparr>tn_phase := PhDraining\<rparr>))))"

definition serve_pending_continue :: "nat set \<Rightarrow> nat set \<Rightarrow> bool \<Rightarrow> tunnel \<Rightarrow> tunnel" where
  "serve_pending_continue closed gone alive t =
     serve_replies closed gone alive (tn_pending_continue t) (t\<lparr>tn_pending_continue := []\<rparr>)"

definition dispatch_cmd :: "nat set \<Rightarrow> nat set \<Rightarrow> tunnel_cmd \<Rightarrow> tunnel \<Rightarrow> tunnel" where
  "dispatch_cmd closed gone cmd t =
     (case cmd of
        TunnelShutdown \<Rightarrow> t
      | Continue reply \<Rightarrow>
          (if tn_phase t = PhRotating
           then (let t = t\<lparr>tn_phase := PhActive\<rparr> in
                 if reply \<in> closed then t
                 else (case take_segment t of
                         (t, Some i) \<Rightarrow> reply_send gone reply (Some i) t
                       | (t, None) \<Rightarrow> reply_send gone reply None (t\<lparr>tn_phase := PhDraining\<rparr>)))
           else if tn_phase t = PhActive \<and> tn_segment_active t
           then t\<lparr>tn_pending_continue := tn_pending_continue t @ [reply]\<rparr>
           else reply_send gone reply None t))"

definition consume_stream :: "tunnel \<Rightarrow> tunnel" where
  "consume_stream t = t\<lparr>tn_registry := mark_consumed (tn_stream_id t) (tn_registry t)\<rparr>"

text \<open>\<open>cleanup\<close>, and the drop of the actor after it: the waiting replies and the segment-done channel go with it.\<close>

definition tunnel_cleanup :: "tunnel \<Rightarrow> tunnel" where
  "tunnel_cleanup t =
     (let t = (consume_stream (t\<lparr>tn_phase := PhClosed\<rparr>))\<lparr>tn_cancelled := True\<rparr>;
          t = (if tn_has_slot t then t\<lparr>tn_has_slot := False, tn_slot := None\<rparr> else t);
          t = (case tn_upload_handle t of
                 None \<Rightarrow> t
               | Some _ \<Rightarrow>
                   t\<lparr>tn_upload_handle := None, tn_upload_tx := None,
                     tn_upload_sent := tn_upload_sent t @ (case tn_upload_tx t of None \<Rightarrow> [] | Some tx \<Rightarrow> [(tx, UShutdown)])\<rparr>)
      in (consume_stream t)\<lparr>tn_running := False, tn_pending_continue := [], tn_done := 0\<rparr>)"

text \<open>The beginning of \<open>run\<close>: without an upload channel the actor spawns the upload actor itself.\<close>

definition tunnel_start :: "nat \<Rightarrow> nat \<Rightarrow> tunnel \<Rightarrow> tunnel option" where
  "tunnel_start tx now t =
     (case tn_upload_tx t of
        Some _ \<Rightarrow> Some t
      | None \<Rightarrow>
          (case tn_pending_write_half t of
             None \<Rightarrow> None
           | Some write_half \<Rightarrow>
               Some (t\<lparr>tn_pending_write_half := None, tn_upload_tx := Some tx, tn_upload_handle := Some tx,
                       tn_spawned := tn_spawned t @ [(tx, upload_new now write_half (tn_pending_initial_seq t))]\<rparr>)))"

datatype tunnel_event =
    TDone "nat set" "nat set"
  | TCmd u64 "nat set" "nat set" "tunnel_cmd option"
  | TRotationTimeout
  | TShutdownSignal
  | TIdle u64
  | TSegmentPoll "nat \<Rightarrow> bool" nat u64 nat
  | TSegmentDrop nat

text \<open>One iteration of the loop, without the final check: the new state and whether it left the loop. A branch whose
  guard is false is not taken.\<close>

fun tunnel_select :: "tunnel_event \<Rightarrow> tunnel \<Rightarrow> tunnel \<times> bool" where
  "tunnel_select (TDone closed gone) t =
     (if tn_has_slot t \<and> 0 < tn_done t
      then (let t = t\<lparr>tn_done := tn_done t - 1, tn_segment_active := False\<rparr>;
                alive = shaper_alive t;
                t = t\<lparr>tn_phase := (if alive then PhRotating else PhDraining)\<rparr>
            in (serve_pending_continue closed gone alive t, False))
      else (t, False))"
| "tunnel_select (TCmd secs closed gone cmd) t =
     (let t = t\<lparr>tn_last_activity := secs\<rparr> in
      case cmd of
        None \<Rightarrow> (t, True)
      | Some TunnelShutdown \<Rightarrow> (t, True)
      | Some (Continue reply) \<Rightarrow> (dispatch_cmd closed gone (Continue reply) t, False))"
| "tunnel_select TRotationTimeout t = (t, tn_phase t = PhRotating)"
| "tunnel_select TShutdownSignal t = (t, True)"
| "tunnel_select (TIdle secs) t = (t, STREAM_IDLE_TIMEOUT_SECS \<le> saturating_sub secs (tn_last_activity t))"
| "tunnel_select e t = (t, False)"

definition tunnel_iteration :: "tunnel_event \<Rightarrow> tunnel \<Rightarrow> tunnel" where
  "tunnel_iteration e t =
     (if \<not> tn_running t then t
      else (let (t, leave) = tunnel_select e t in
            if leave \<or> tn_phase t = PhClosed \<or> tn_phase t = PhDraining then tunnel_cleanup t else t))"

fun tunnel_step :: "shaper_env \<Rightarrow> tunnel_event \<Rightarrow> tunnel \<Rightarrow> tunnel option" where
  "tunnel_step env (TSegmentPoll elapsed now secs i) t = tunnel_poll_segment env elapsed now secs i t"
| "tunnel_step env (TSegmentDrop i) t = Some (segment_drop i t)"
| "tunnel_step env e t = Some (tunnel_iteration e t)"

fun tunnel_run :: "shaper_env \<Rightarrow> tunnel_event list \<Rightarrow> tunnel \<Rightarrow> tunnel option" where
  "tunnel_run env [] t = Some t"
| "tunnel_run env (e # es) t = (case tunnel_step env e t of None \<Rightarrow> None | Some t \<Rightarrow> tunnel_run env es t)"

section \<open>Lemmas: one shaper\<close>

fun opt_mset :: "'a option \<Rightarrow> 'a multiset" where
  "opt_mset None = {#}"
| "opt_mset (Some x) = {#x#}"

definition segment_shapers :: "(nat \<times> segment) list \<Rightarrow> shaper_stream multiset" where
  "segment_shapers m = (\<Sum>e\<in>#mset m. opt_mset (sg_shaper (snd e)))"

text \<open>All the places where a shaper can be.\<close>

definition shapers :: "tunnel \<Rightarrow> shaper_stream multiset" where
  "shapers t = opt_mset (tn_slot t) + segment_shapers (tn_segments t)"

definition segments_ok :: "tunnel \<Rightarrow> bool" where
  "segments_ok t \<longleftrightarrow> distinct (map fst (tn_segments t)) \<and> (\<forall>e\<in>set (tn_segments t). fst e < tn_next_segment t)"

lemma dash_remove_absent: "k \<notin> fst ` set m \<Longrightarrow> dash_remove k m = m"
  by (auto simp: dash_remove_def intro!: filter_True)

lemma segment_shapers_split:
  "distinct (map fst m) \<Longrightarrow> map_of m i = Some sg \<Longrightarrow>
     segment_shapers m = opt_mset (sg_shaper sg) + segment_shapers (dash_remove i m)"
proof (induction m)
  case (Cons e m)
  obtain k s where e: "e = (k, s)" by fastforce
  show ?case
  proof (cases "k = i")
    case True
    with Cons.prems e have "dash_remove i m = m" by (intro dash_remove_absent) auto
    then show ?thesis using True Cons.prems e by (simp add: segment_shapers_def dash_remove_def)
  next
    case False
    with Cons e show ?thesis by (auto simp: segment_shapers_def dash_remove_def)
  qed
qed simp

lemma segment_shapers_insert:
  "segment_shapers (dash_insert i sg m) = opt_mset (sg_shaper sg) + segment_shapers (dash_remove i m)"
  by (simp add: dash_insert_def dash_remove_def segment_shapers_def)

lemma dash_remove_set [simp]: "set (dash_remove k m) = {e \<in> set m. fst e \<noteq> k}"
  by (auto simp: dash_remove_def)

lemma dash_insert_set [simp]: "set (dash_insert k v m) = insert (k, v) {e \<in> set m. fst e \<noteq> k}"
  by (auto simp: dash_insert_def)

text \<open>What every operation except the poll of a segment does: it delivers nothing and creates no shaper.\<close>

definition quiet :: "tunnel \<Rightarrow> tunnel \<Rightarrow> bool" where
  "quiet t t' \<longleftrightarrow> tn_delivered t' = tn_delivered t \<and> (segments_ok t \<longrightarrow> segments_ok t' \<and> shapers t' \<subseteq># shapers t)"

lemma quiet_refl [simp]: "quiet t t"
  by (simp add: quiet_def)

lemma quiet_trans: "quiet t u \<Longrightarrow> quiet u v \<Longrightarrow> quiet t v"
  unfolding quiet_def by (auto intro: subset_mset.trans)

text \<open>Changes of the other fields do not matter.\<close>

lemma quiet_same:
  "tn_delivered t' = tn_delivered t \<Longrightarrow> tn_segments t' = tn_segments t \<Longrightarrow> tn_next_segment t' = tn_next_segment t \<Longrightarrow>
     tn_slot t' = tn_slot t \<or> tn_slot t' = None \<Longrightarrow> quiet t t'"
  by (auto simp: quiet_def segments_ok_def shapers_def)

lemma quiet_segment_drop: "quiet t (segment_drop i t)"
proof (cases "map_of (tn_segments t) i")
  case None
  then show ?thesis by (simp add: segment_drop_def)
next
  case (Some sg)
  then show ?thesis
    using segment_shapers_split [of "tn_segments t" i sg]
    by (cases "sg_shaper sg") (auto simp: quiet_def segment_drop_def segment_release_def segments_ok_def shapers_def
        subset_mset.add_increasing2)
qed

lemma quiet_take_segment: "quiet t (fst (take_segment t))"
proof (cases "tn_slot t")
  case None
  then show ?thesis by (auto simp: take_segment_def segment_new_def intro!: quiet_same)
next
  case (Some s)
  have absent: "segments_ok t \<Longrightarrow> dash_remove (tn_next_segment t) (tn_segments t) = tn_segments t"
    by (intro dash_remove_absent) (auto simp: segments_ok_def)
  with Some show ?thesis
    by (auto simp: quiet_def take_segment_def segment_new_def shapers_def segment_shapers_insert segments_ok_def less_SucI)
qed

lemma quiet_reply_send: "quiet t (reply_send gone r ans t)"
  by (auto simp: reply_send_def quiet_segment_drop intro: quiet_same split: option.split)

lemma quiet_phase: "quiet t u \<Longrightarrow> quiet t (u\<lparr>tn_phase := p\<rparr>)"
  by (erule quiet_trans) (simp add: quiet_same)

lemma quiet_serve: "quiet t (serve_replies closed gone alive pending t)"
proof (induction closed gone alive pending t rule: serve_replies.induct)
  case (2 closed gone alive reply pending t)
  obtain u a where ts: "take_segment t = (u, a)" by fastforce
  then have u: "quiet t u" using quiet_take_segment [of t] by simp
  have send: "quiet t (reply_send gone reply b (u\<lparr>tn_phase := p\<rparr>))" for b p
    using quiet_trans [OF quiet_phase [OF u] quiet_reply_send] .
  from 2 ts show ?case
    by (auto split: option.split intro: quiet_trans [OF send] quiet_trans [OF quiet_reply_send])
qed simp

lemma quiet_dispatch: "quiet t (dispatch_cmd closed gone cmd t)"
proof -
  let ?t = "t\<lparr>tn_phase := PhActive\<rparr>"
  have t: "quiet t ?t" by (rule quiet_phase) simp
  obtain u a where ts: "take_segment ?t = (u, a)" by fastforce
  then have u: "quiet t u" using quiet_trans [OF t quiet_take_segment] by simp
  have "quiet t (u\<lparr>tn_phase := PhDraining\<rparr>)" using u by (rule quiet_phase)
  then show ?thesis
    using t u ts by (auto simp: dispatch_cmd_def Let_def quiet_reply_send
        intro: quiet_same quiet_trans [OF _ quiet_reply_send] split: tunnel_cmd.split option.split)
qed

lemma quiet_cleanup: "quiet t (tunnel_cleanup t)"
  by (rule quiet_same) (auto simp: tunnel_cleanup_def consume_stream_def Let_def split: option.split)

lemma quiet_select: "quiet t (fst (tunnel_select e t))"
proof (cases e)
  case (TDone closed gone)
  then show ?thesis
    by (auto simp: Let_def serve_pending_continue_def intro!: quiet_trans [OF _ quiet_serve] quiet_same)
next
  case (TCmd secs closed gone cmd)
  then show ?thesis
    by (auto simp: Let_def intro!: quiet_trans [OF _ quiet_dispatch] quiet_same split: option.split tunnel_cmd.split)
qed simp_all

lemma quiet_iteration: "quiet t (tunnel_iteration e t)"
  using quiet_select [of t e] quiet_cleanup
  by (auto simp: tunnel_iteration_def Let_def split: prod.split intro: quiet_trans)

section \<open>Lemmas: one continuous stream\<close>

text \<open>
  The invariant: there is at most one shaper, the frames delivered so far are numbered from \<open>seq0\<close> on and decode to the
  beginning of the input, and a shaper that is left holds the rest.
\<close>

definition tunnel_inv :: "base122 \<Rightarrow> frame_cipher \<Rightarrow> encoding_type \<Rightarrow> u64 \<Rightarrow> bytes \<Rightarrow> tunnel \<Rightarrow> bool" where
  "tunnel_inv B C enc seq0 input t \<longleftrightarrow>
     segments_ok t \<and> size (shapers t) \<le> 1
   \<and> (\<exists>ds rest. frame_list_ok B C enc seq0 (map snd (tn_delivered t)) ds \<and> input = concat ds @ rest
        \<and> (\<forall>(sh, rd)\<in>#shapers t. shaper_ok sh \<and> sh_cipher sh = C \<and> sh_encoding sh = enc
             \<and> sh_seq sh = seq0 + of_nat (length (tn_delivered t)) \<and> unsent sh rd = rest))"

lemma tunnel_inv_quiet:
  assumes "tunnel_inv B C enc seq0 input t" and "quiet t t'"
  shows "tunnel_inv B C enc seq0 input t'"
proof -
  have sub: "shapers t' \<subseteq># shapers t" "segments_ok t'" "tn_delivered t' = tn_delivered t"
    using assms by (auto simp: quiet_def tunnel_inv_def)
  then have "size (shapers t') \<le> 1" using size_mset_mono [OF sub(1)] assms(1) by (simp add: tunnel_inv_def)
  moreover obtain ds rest where "frame_list_ok B C enc seq0 (map snd (tn_delivered t)) ds" "input = concat ds @ rest"
      "\<forall>(sh, rd)\<in>#shapers t. shaper_ok sh \<and> sh_cipher sh = C \<and> sh_encoding sh = enc
         \<and> sh_seq sh = seq0 + of_nat (length (tn_delivered t)) \<and> unsent sh rd = rest"
    using assms(1) by (auto simp: tunnel_inv_def)
  ultimately show ?thesis
    unfolding tunnel_inv_def sub(3) using sub(2) mset_subset_eqD [OF sub(1)] by blast
qed

lemma shaper_poll_next_outcome:
  assumes "env_ok env" and "shaper_ok sh"
  obtains sh' rd' p where "shaper_poll_next env elapsed now sh rd = Some (sh', rd', p)" and "shaper_ok sh'"
    and "same_wire sh sh'"
    and "(\<exists>f d. p = Ready (Some (Ok (sh_seq sh, f))) \<and> sh_seq sh' = sh_seq sh + 1 \<and> d \<noteq> []
            \<and> decodes_as (se_b122 env) (sh_cipher sh) (sh_encoding sh) f (sh_seq sh) d \<and> unsent sh rd = d @ unsent sh' rd')
       \<or> ((\<forall>f. p \<noteq> Ready (Some (Ok f))) \<and> sh_seq sh' = sh_seq sh \<and> unsent sh' rd' = unsent sh rd)"
proof -
  obtain sh' rd' r where "poll_fill_and_seal env elapsed now sh rd [] = Some (sh', rd', r)"
      and "seal_outcome (se_b122 env) sh rd [] (sh', rd', r)"
    using poll_fill_and_seal_outcome [OF assms, of elapsed now rd "[]"] by (metis prod.collapse)
  then show thesis
    by (intro that [of sh' rd' "case r of Ready (Ok (Some (seq, frame))) \<Rightarrow> Ready (Some (Ok (seq, frame)))
          | Ready (Ok None) \<Rightarrow> Ready None | Ready (Err e) \<Rightarrow> Ready (Some (Err e)) | Pending \<Rightarrow> Pending"])
      (auto simp: shaper_poll_next_def seal_outcome_def split: guard_splits option.splits)
qed

text \<open>A poll of the segment that has the shaper extends the stream by at most one frame.\<close>

lemma segment_poll_next_outcome:
  assumes "env_ok env" and "sg_shaper sg = Some (sh, rd)" and "shaper_ok sh"
  obtains sg' frame p sh' rd' where "segment_poll_next env elapsed now cancelled sg = Some (sg', frame, p)"
    and "sg_shaper sg' = Some (sh', rd')" and "shaper_ok sh'" and "same_wire sh sh'"
    and "(\<exists>f d. frame = Some (sh_seq sh, f) \<and> sh_seq sh' = sh_seq sh + 1 \<and> d \<noteq> []
            \<and> decodes_as (se_b122 env) (sh_cipher sh) (sh_encoding sh) f (sh_seq sh) d \<and> unsent sh rd = d @ unsent sh' rd')
       \<or> (frame = None \<and> sh_seq sh' = sh_seq sh \<and> unsent sh' rd' = unsent sh rd)"
proof (cases "sg_ended sg \<or> cancelled")
  case True
  then show thesis using assms(2,3)
    by (intro that [of "if sg_ended sg then sg else sg\<lparr>sg_ended := True\<rparr>" None "Ready None" sh rd])
      (auto simp: segment_poll_next_def same_wire_def)
next
  case False
  obtain sh' rd' p where p: "shaper_poll_next env elapsed now sh rd = Some (sh', rd', p)" "shaper_ok sh'" "same_wire sh sh'"
      "(\<exists>f d. p = Ready (Some (Ok (sh_seq sh, f))) \<and> sh_seq sh' = sh_seq sh + 1 \<and> d \<noteq> []
          \<and> decodes_as (se_b122 env) (sh_cipher sh) (sh_encoding sh) f (sh_seq sh) d \<and> unsent sh rd = d @ unsent sh' rd')
       \<or> ((\<forall>f. p \<noteq> Ready (Some (Ok f))) \<and> sh_seq sh' = sh_seq sh \<and> unsent sh' rd' = unsent sh rd)"
    using shaper_poll_next_outcome [OF assms(1,3)] by blast
  obtain sg' frame q where r: "segment_poll_next env elapsed now cancelled sg = Some (sg', frame, q)"
  proof -
    have "segment_poll_next env elapsed now cancelled sg \<noteq> None"
      using False assms(2) p(1) by (simp add: segment_poll_next_def Let_def split: poll.split option.split result.split)
    then show ?thesis using that by (cases "segment_poll_next env elapsed now cancelled sg") auto
  qed
  moreover have "sg_shaper sg' = Some (sh', rd')" "frame = (case p of Ready (Some (Ok f)) \<Rightarrow> Some f | _ \<Rightarrow> None)"
    using r False assms(2) p(1)
    by (auto simp: segment_poll_next_def Let_def split: poll.splits option.splits result.splits if_splits)
  ultimately show thesis using p(2-4) by (intro that [of sg' frame q sh' rd']) (auto split: guard_splits option.splits)
qed

lemma segment_poll_next_empty:
  "sg_shaper sg = None \<Longrightarrow> \<exists>sg' p. segment_poll_next env elapsed now cancelled sg = Some (sg', None, p) \<and> sg_shaper sg' = None"
  by (auto simp: segment_poll_next_def)

text \<open>A poll of a segment that has no shaper, and of the one that has it.\<close>

lemma tunnel_inv_poll_empty:
  assumes inv: "tunnel_inv B C enc seq0 input t" and sg: "map_of (tn_segments t) i = Some sg" and none: "sg_shaper sg = None"
  shows "\<exists>t'. tunnel_poll_segment env elapsed now secs i t = Some t' \<and> tunnel_inv B C enc seq0 input t'"
proof -
  have ok: "segments_ok t" and d: "distinct (map fst (tn_segments t))" using inv by (auto simp: tunnel_inv_def segments_ok_def)
  obtain sg' p where r: "segment_poll_next env elapsed now (tn_cancelled t) sg = Some (sg', None, p)" "sg_shaper sg' = None"
    using segment_poll_next_empty [OF none] by blast
  let ?t = "t\<lparr>tn_segments := dash_insert i sg' (tn_segments t)\<rparr>"
  have "shapers ?t = shapers t" using segment_shapers_split [OF d sg] none r by (simp add: shapers_def segment_shapers_insert)
  moreover have "segments_ok ?t" using ok map_of_SomeD [OF sg] by (auto simp: segments_ok_def)
  ultimately have "quiet t ?t" by (simp add: quiet_def)
  with inv r sg show ?thesis by (auto simp: tunnel_poll_segment_def intro: tunnel_inv_quiet)
qed

lemma tunnel_inv_poll_shaper:
  assumes inv: "tunnel_inv (se_b122 env) C enc seq0 input t" and env: "env_ok env"
    and sg: "map_of (tn_segments t) i = Some sg" and sh: "sg_shaper sg = Some (sh, rd)"
  shows "\<exists>t'. tunnel_poll_segment env elapsed now secs i t = Some t' \<and> tunnel_inv (se_b122 env) C enc seq0 input t'"
proof -
  have ok: "segments_ok t" and d: "distinct (map fst (tn_segments t))" and one: "size (shapers t) \<le> 1"
    using inv by (auto simp: tunnel_inv_def segments_ok_def)
  have "shapers t = {#(sh, rd)#} + (opt_mset (tn_slot t) + segment_shapers (dash_remove i (tn_segments t)))"
    using segment_shapers_split [OF d sg] sh by (simp add: shapers_def)
  then have none: "opt_mset (tn_slot t) + segment_shapers (dash_remove i (tn_segments t)) = {#}"
    and only: "shapers t = {#(sh, rd)#}" using one by auto
  obtain ds rest where fl: "frame_list_ok (se_b122 env) C enc seq0 (map snd (tn_delivered t)) ds"
      and inp: "input = concat ds @ rest" and shok: "shaper_ok sh" and wire: "sh_cipher sh = C" "sh_encoding sh = enc"
      and seq: "sh_seq sh = seq0 + of_nat (length (tn_delivered t))" and rest: "unsent sh rd = rest"
    using inv only by (auto simp: tunnel_inv_def)
  obtain sg' frame p sh' rd' where r: "segment_poll_next env elapsed now (tn_cancelled t) sg = Some (sg', frame, p)"
      and sg': "sg_shaper sg' = Some (sh', rd')" and ok': "shaper_ok sh'" and sw: "same_wire sh sh'"
      and out: "(\<exists>f d. frame = Some (sh_seq sh, f) \<and> sh_seq sh' = sh_seq sh + 1 \<and> d \<noteq> []
          \<and> decodes_as (se_b122 env) (sh_cipher sh) (sh_encoding sh) f (sh_seq sh) d \<and> unsent sh rd = d @ unsent sh' rd')
     \<or> (frame = None \<and> sh_seq sh' = sh_seq sh \<and> unsent sh' rd' = unsent sh rd)"
    by (rule segment_poll_next_outcome [where elapsed = elapsed and now = now and cancelled = "tn_cancelled t", OF env sh shok])
  define t1 where "t1 = (\<lambda>a dl. t\<lparr>tn_segments := dash_insert i sg' (tn_segments t), tn_last_activity := a, tn_delivered := dl\<rparr>)"
  have t1: "shapers (t1 a dl) = {#(sh', rd')#}" "segments_ok (t1 a dl)" "tn_delivered (t1 a dl) = dl" for a dl
    using none sg' ok map_of_SomeD [OF sg] by (auto simp: shapers_def segment_shapers_insert t1_def segments_ok_def)
  have run: "tunnel_poll_segment env elapsed now secs i t
      = Some (case frame of None \<Rightarrow> t1 (tn_last_activity t) (tn_delivered t) | Some f \<Rightarrow> t1 secs (tn_delivered t @ [(i, f)]))"
    using sg r by (auto simp: tunnel_poll_segment_def t1_def Let_def split: option.split)
  have wire': "sh_cipher sh' = C" "sh_encoding sh' = enc" using sw wire by (simp_all add: same_wire_def)
  from out show ?thesis
  proof (elim disjE exE conjE)
    assume "frame = None" "sh_seq sh' = sh_seq sh" "unsent sh' rd' = unsent sh rd"
    then show ?thesis using run fl inp ok' wire' seq rest t1 by (auto simp: tunnel_inv_def)
  next
    fix f d
    assume fr: "frame = Some (sh_seq sh, f)" "sh_seq sh' = sh_seq sh + 1" "d \<noteq> []"
      "decodes_as (se_b122 env) (sh_cipher sh) (sh_encoding sh) f (sh_seq sh) d" "unsent sh rd = d @ unsent sh' rd'"
    have "frame_list_ok (se_b122 env) C enc seq0 (map snd (tn_delivered t) @ [(sh_seq sh, f)]) (ds @ [d])"
      using frame_list_ok_snoc [OF fl, of f d] fr wire seq by simp
    moreover have "input = concat (ds @ [d]) @ unsent sh' rd'" using inp rest fr(5) by simp
    ultimately have "tunnel_inv (se_b122 env) C enc seq0 input (t1 secs (tn_delivered t @ [(i, (sh_seq sh, f))]))"
      using t1 ok' wire' fr(2) seq by (auto simp: tunnel_inv_def intro!: exI [of _ "ds @ [d]"])
    then show ?thesis using run fr(1) by simp
  qed
qed

lemma tunnel_inv_poll:
  assumes inv: "tunnel_inv (se_b122 env) C enc seq0 input t" and env: "env_ok env"
  shows "\<exists>t'. tunnel_poll_segment env elapsed now secs i t = Some t' \<and> tunnel_inv (se_b122 env) C enc seq0 input t'"
proof (cases "map_of (tn_segments t) i")
  case None
  then show ?thesis using inv by (simp add: tunnel_poll_segment_def)
next
  case (Some sg)
  show ?thesis
  proof (cases "sg_shaper sg")
    case None
    with inv Some show ?thesis by (rule tunnel_inv_poll_empty)
  next
    case (Some s)
    then show ?thesis using tunnel_inv_poll_shaper [OF inv env \<open>map_of (tn_segments t) i = Some sg\<close>] by (cases s) simp
  qed
qed

lemma tunnel_inv_run:
  assumes "env_ok env"
  shows "tunnel_inv (se_b122 env) C enc seq0 input t \<Longrightarrow>
           \<exists>t'. tunnel_run env es t = Some t' \<and> tunnel_inv (se_b122 env) C enc seq0 input t'"
proof (induction es arbitrary: t)
  case (Cons e es)
  have "\<exists>t'. tunnel_step env e t = Some t' \<and> tunnel_inv (se_b122 env) C enc seq0 input t'"
    using tunnel_inv_poll [OF Cons.prems assms] tunnel_inv_quiet [OF Cons.prems quiet_segment_drop]
      tunnel_inv_quiet [OF Cons.prems quiet_iteration]
    by (cases e) auto
  with Cons.IH show ?case by auto
qed simp

section \<open>Lemmas: the end of a tunnel\<close>

definition core :: "tunnel \<Rightarrow> bool \<times> bool \<times> uuid \<times> stream_registry" where
  "core t = (tn_running t, tn_cancelled t, tn_stream_id t, tn_registry t)"

lemma core_segment_drop: "core (segment_drop i t) = core t"
  by (simp add: core_def segment_drop_def split: option.split prod.split)

lemma core_take_segment: "take_segment t = (t', r) \<Longrightarrow> core t' = core t"
  by (auto simp: core_def take_segment_def segment_new_def split: option.splits if_splits)

lemma core_reply_send: "core (reply_send gone r ans t) = core t"
  using core_segment_drop by (simp add: reply_send_def core_def split: option.split)

lemma core_phase: "core (t\<lparr>tn_phase := p\<rparr>) = core t"
  by (simp add: core_def)

lemma core_serve: "core (serve_replies closed gone alive pending t) = core t"
  by (induction closed gone alive pending t rule: serve_replies.induct)
    (auto simp: core_reply_send core_phase dest: core_take_segment split: prod.split option.split)

lemma core_dispatch: "core (dispatch_cmd closed gone cmd t) = core t"
  by (auto simp: dispatch_cmd_def Let_def core_reply_send core_phase core_def [of "tn_pending_continue_update _ _"]
      core_def [of t] dest!: core_take_segment split: tunnel_cmd.split prod.split option.split)

lemma core_select: "core (fst (tunnel_select e t)) = core t"
proof (cases e)
  case (TDone closed gone)
  then show ?thesis by (auto simp: Let_def serve_pending_continue_def core_serve) (simp_all add: core_def)
next
  case (TCmd secs closed gone cmd)
  then show ?thesis
    by (auto simp: Let_def core_dispatch split: option.split tunnel_cmd.split) (simp_all add: core_def)
qed simp_all

text \<open>A tunnel that has stopped is cancelled and its stream id is not active.\<close>

definition stopped :: "tunnel \<Rightarrow> bool" where
  "stopped t \<longleftrightarrow> \<not> tn_running t \<and> tn_cancelled t \<and> check (tn_stream_id t) (tn_registry t) \<noteq> QActive"

lemma check_mark_consumed: "check i (mark_consumed i m) \<noteq> QActive"
  by (auto simp: check_result mark_consumed_lookup split: option.splits)

lemma stopped_cleanup: "stopped (tunnel_cleanup t)"
  using check_mark_consumed
  by (auto simp: stopped_def tunnel_cleanup_def consume_stream_def Let_def split: option.split)

lemma stopped_poll:
  assumes "tn_cancelled t" and "tunnel_poll_segment env elapsed now secs i t = Some t'"
  shows "tn_delivered t' = tn_delivered t \<and> core t' = core t"
  using assms
  by (auto simp: tunnel_poll_segment_def segment_poll_next_def core_def Let_def split: option.splits if_splits)

lemma core_poll: "tunnel_poll_segment env elapsed now secs i t = Some t' \<Longrightarrow> core t' = core t"
  by (auto simp: tunnel_poll_segment_def core_def Let_def split: option.splits)

lemma stopped_core: "core t' = core t \<Longrightarrow> stopped t' = stopped t"
  by (simp add: core_def stopped_def)

lemma running_or_stopped_step:
  assumes "tn_running t \<or> stopped t" and "tunnel_step env e t = Some t'"
  shows "tn_running t' \<or> stopped t'"
proof -
  have "tn_running (tunnel_iteration e t) \<or> stopped (tunnel_iteration e t)" for e
    using assms(1) core_select [of e t] stopped_cleanup
    by (auto simp: tunnel_iteration_def core_def split: prod.split)
  moreover have "core t' = core t \<Longrightarrow> ?thesis"
    using assms(1) stopped_core [of t' t] by (auto simp: core_def)
  ultimately show ?thesis using assms(2) core_poll core_segment_drop by (cases e) fastforce+
qed

lemma running_or_stopped_run:
  "tn_running t \<or> stopped t \<Longrightarrow> tunnel_run env es t = Some t' \<Longrightarrow> tn_running t' \<or> stopped t'"
proof (induction es arbitrary: t)
  case (Cons e es)
  then obtain u where "tunnel_step env e t = Some u" "tunnel_run env es u = Some t'" by (auto split: option.splits)
  with Cons.IH running_or_stopped_step [OF Cons.prems(1)] show ?case by metis
qed simp

lemma stopped_step:
  assumes "stopped t" and "tunnel_step env e t = Some t'"
  shows "stopped t' \<and> tn_delivered t' = tn_delivered t"
proof -
  have it: "tunnel_iteration e t = t" for e using assms(1) by (simp add: tunnel_iteration_def stopped_def)
  have dr: "tn_delivered (segment_drop i t) = tn_delivered t" for i using quiet_segment_drop [of t i] by (simp add: quiet_def)
  have "core t' = core t \<and> tn_delivered t' = tn_delivered t"
    using assms it stopped_poll [of t env] core_segment_drop [of _ t] dr by (cases e) (auto simp: stopped_def)
  then show ?thesis using assms(1) stopped_core by blast
qed

lemma stopped_run: "stopped t \<Longrightarrow> tunnel_run env es t = Some t' \<Longrightarrow> stopped t' \<and> tn_delivered t' = tn_delivered t"
proof (induction es arbitrary: t)
  case (Cons e es)
  then obtain u where "tunnel_step env e t = Some u" "tunnel_run env es u = Some t'" by (auto split: option.splits)
  with Cons.IH stopped_step [OF Cons.prems(1)] show ?case by metis
qed simp

section \<open>Lemmas: a stalled tunnel\<close>

text \<open>Active without an active segment: \<open>s\<close> is the shaper left in the slot and \<open>a\<close> the time of the last command.\<close>

definition stalled :: "shaper_stream \<Rightarrow> u64 \<Rightarrow> tunnel \<Rightarrow> bool" where
  "stalled s a t \<longleftrightarrow> tn_running t \<and> tn_phase t = PhActive \<and> \<not> tn_segment_active t \<and> tn_slot t = Some s \<and> tn_segments t = []
     \<and> tn_done t = 0 \<and> tn_last_activity t = a"

text \<open>The events that stop a tunnel from outside: the shutdown signal, the \<open>Shutdown\<close> command, the end of the command channel.\<close>

fun stop_event :: "tunnel_event \<Rightarrow> bool" where
  "stop_event TShutdownSignal = True"
| "stop_event (TCmd secs closed gone cmd) = (cmd = None \<or> cmd = Some TunnelShutdown)"
| "stop_event e = False"

text \<open>No idle check comes \<open>STREAM_IDLE_TIMEOUT_SECS\<close> or more after the last command.\<close>

fun kept_awake :: "u64 \<Rightarrow> tunnel_event list \<Rightarrow> bool" where
  "kept_awake a [] = True"
| "kept_awake a (TCmd secs closed gone cmd # es) = kept_awake secs es"
| "kept_awake a (TIdle secs # es) = (saturating_sub secs a < STREAM_IDLE_TIMEOUT_SECS \<and> kept_awake a es)"
| "kept_awake a (e # es) = kept_awake a es"

text \<open>The \<open>Continue\<close> commands of a run whose sender waits for the answer.\<close>

fun continue_replies :: "tunnel_event list \<Rightarrow> nat list" where
  "continue_replies (TCmd secs closed gone (Some (Continue reply)) # es) = (if reply \<in> gone then [] else [reply]) @ continue_replies es"
| "continue_replies (e # es) = continue_replies es"
| "continue_replies [] = []"

lemma stopped_idle:
  assumes "stopped t" and "tn_segments t = []"
  shows "tunnel_run env es t = Some t"
  using assms
proof (induction es)
  case (Cons e es)
  then show ?case by (cases e) (auto simp: tunnel_iteration_def stopped_def tunnel_poll_segment_def segment_drop_def)
qed simp

lemma cleanup_keeps:
  "tn_segments (tunnel_cleanup t) = tn_segments t \<and> tn_replies (tunnel_cleanup t) = tn_replies t \<and> tn_delivered (tunnel_cleanup t) = tn_delivered t"
  by (simp add: tunnel_cleanup_def consume_stream_def Let_def split: option.split)

text \<open>One event of a stalled tunnel that does not stop it from outside: it stays stalled, or the idle check stops it.\<close>

lemma stalled_continue:
  "stalled s a t \<Longrightarrow> tunnel_step env (TCmd secs closed gone (Some (Continue reply))) t
     = Some (t\<lparr>tn_last_activity := secs, tn_replies := tn_replies t @ map (\<lambda>r. (r, None)) (if reply \<in> gone then [] else [reply])\<rparr>)"
  by (simp add: stalled_def tunnel_iteration_def dispatch_cmd_def reply_send_def)

lemma stalled_idle:
  "stalled s a t \<Longrightarrow> tunnel_step env (TIdle secs) t
     = Some (if saturating_sub secs a < STREAM_IDLE_TIMEOUT_SECS then t else tunnel_cleanup t)"
  by (auto simp: stalled_def tunnel_iteration_def)

lemma stalled_quiet:
  "stalled s a t \<Longrightarrow> \<not> stop_event e \<Longrightarrow> \<forall>secs closed gone cmd. e \<noteq> TCmd secs closed gone cmd \<Longrightarrow> \<forall>secs. e \<noteq> TIdle secs \<Longrightarrow>
     tunnel_step env e t = Some t \<and> kept_awake a (e # es) = kept_awake a es \<and> continue_replies (e # es) = continue_replies es"
  by (cases e) (auto simp: stalled_def tunnel_iteration_def tunnel_poll_segment_def segment_drop_def)

lemma stalled_run:
  assumes "stalled s a t" and "\<forall>e\<in>set es. \<not> stop_event e"
  shows "\<exists>t' n. tunnel_run env es t = Some t' \<and> tn_delivered t' = tn_delivered t
    \<and> tn_replies t' = tn_replies t @ map (\<lambda>r. (r, None)) (take n (continue_replies es))
    \<and> (kept_awake a es \<longrightarrow> tn_running t' \<and> tn_slot t' = Some s \<and> tn_segments t' = [] \<and> length (continue_replies es) \<le> n)
    \<and> (\<not> kept_awake a es \<longrightarrow> stopped t')"
  using assms
proof (induction es arbitrary: a t)
  case (Cons e es)
  consider (cont) secs closed gone reply where "e = TCmd secs closed gone (Some (Continue reply))" | (idle) secs where "e = TIdle secs"
    | (other) "\<forall>secs closed gone cmd. e \<noteq> TCmd secs closed gone cmd" "\<forall>secs. e \<noteq> TIdle secs"
    using Cons.prems(2) by (cases e) (auto, metis not_None_eq tunnel_cmd.exhaust)
  then show ?case
  proof cases
    case cont
    let ?rs = "if reply \<in> gone then [] else [reply]"
    let ?u = "t\<lparr>tn_last_activity := secs, tn_replies := tn_replies t @ map (\<lambda>r. (r, None)) ?rs\<rparr>"
    have "stalled s secs ?u" using Cons.prems(1) by (simp add: stalled_def)
    from Cons.IH [OF this] Cons.prems(2) obtain t' n where t': "tunnel_run env es ?u = Some t'" "tn_delivered t' = tn_delivered t"
        "tn_replies t' = tn_replies t @ map (\<lambda>r. (r, None)) (?rs @ take n (continue_replies es))"
        "kept_awake secs es \<longrightarrow> tn_running t' \<and> tn_slot t' = Some s \<and> tn_segments t' = [] \<and> length (continue_replies es) \<le> n"
        "\<not> kept_awake secs es \<longrightarrow> stopped t'" by auto
    then show ?thesis using cont stalled_continue [OF Cons.prems(1), of env secs closed gone reply]
      by (intro exI [of _ t'] exI [of _ "length ?rs + n"]) simp
  next
    case idle
    show ?thesis
    proof (cases "saturating_sub secs a < STREAM_IDLE_TIMEOUT_SECS")
      case True
      then show ?thesis using Cons idle stalled_idle [OF Cons.prems(1), of env secs] by simp
    next
      case False
      then show ?thesis using idle stalled_idle [OF Cons.prems(1), of env secs] Cons.prems(1) stopped_cleanup [of t]
          stopped_idle [OF stopped_cleanup, of t env es] cleanup_keeps [of t]
        by (intro exI [of _ "tunnel_cleanup t"] exI [of _ 0]) (simp add: stalled_def)
    qed
  next
    case other
    then show ?thesis using stalled_quiet [OF Cons.prems(1) _ other, of env es] Cons by simp
  qed
qed (auto simp: stalled_def)

lemma tunnel_started_inv:
  assumes "validate_traffic cfg = Ok ()" and "cipher_contract C"
    and "t0 = fst (take_segment (on_upstream_connected now rnd rd wh (resolve_config cfg) C seq0
                    (set_upload_channel tx handle (tunnel_new i registry limit activity))))"
  shows "tunnel_inv B C (rc_encoding (resolve_config cfg)) seq0 (script_bytes rd) t0"
proof -
  let ?c = "on_upstream_connected now rnd rd wh (resolve_config cfg) C seq0
              (set_upload_channel tx handle (tunnel_new i registry limit activity))"
  have "tunnel_inv B C (rc_encoding (resolve_config cfg)) seq0 (script_bytes rd) ?c"
    using with_seq_ok [OF assms(1,2), of now rnd seq0]
    by (auto simp: tunnel_inv_def set_upload_channel_def on_upstream_connected_def tunnel_new_def segments_ok_def shapers_def
        segment_shapers_def Let_def unsent_def with_seq_def frame_list_ok_Nil intro!: exI [of _ "[]"] split: option.split)
  then show ?thesis unfolding assms(3) using quiet_take_segment by (rule tunnel_inv_quiet)
qed

section \<open>Properties\<close>

text \<open>C14: however a download is cut into segments, the client receives one continuous stream. From a tunnel that has just been
  connected and has given its first segment to the response, and for every interleaving of commands, timeouts, polls and drops of segments, nothing panics; the frames
  that the segments deliver, in the order of delivery, carry consecutive sequence numbers and decode to a prefix of what
  the upstream sends; at most one shaper is left, and its buffer and unread input are exactly the rest.\<close>

theorem tunnel_download_continuous:
  assumes "env_ok env" and "validate_traffic cfg = Ok ()" and "cipher_contract C"
    and "t0 = fst (take_segment (on_upstream_connected now rnd rd wh (resolve_config cfg) C seq0
                    (set_upload_channel tx handle (tunnel_new i registry limit activity))))"
  shows "\<exists>t ds. tunnel_run env es t0 = Some t
     \<and> map (\<lambda>e. fst (snd e)) (tn_delivered t) = map (\<lambda>k. seq0 + of_nat k) [0..<length (tn_delivered t)]
     \<and> list_all2 (\<lambda>(_, n, f) d. decodes_as (se_b122 env) C (rc_encoding (resolve_config cfg)) f n d) (tn_delivered t) ds
     \<and> (\<exists>rest. script_bytes rd = concat ds @ rest \<and> (\<forall>(sh, rd')\<in>#shapers t. unsent sh rd' = rest))
     \<and> size (shapers t) \<le> 1"
proof -
  let ?enc = "rc_encoding (resolve_config cfg)"
  obtain t where run: "tunnel_run env es t0 = Some t" and inv: "tunnel_inv (se_b122 env) C ?enc seq0 (script_bytes rd) t"
    using tunnel_inv_run [OF assms(1) tunnel_started_inv [OF assms(2-4)]] by blast
  then obtain ds rest where fl: "frame_list_ok (se_b122 env) C ?enc seq0 (map snd (tn_delivered t)) ds"
      and rest: "script_bytes rd = concat ds @ rest" "size (shapers t) \<le> 1"
      and all: "\<forall>(sh, rd)\<in>#shapers t. shaper_ok sh \<and> sh_cipher sh = C \<and> sh_encoding sh = ?enc
             \<and> sh_seq sh = seq0 + of_nat (length (tn_delivered t)) \<and> unsent sh rd = rest"
    by (auto simp: tunnel_inv_def)
  have un: "\<forall>(sh, rd')\<in>#shapers t. unsent sh rd' = rest" using all by blast
  have "map (\<lambda>e. fst (snd e)) (tn_delivered t) = map (\<lambda>k. seq0 + of_nat k) [0..<length (tn_delivered t)]"
    using fl by (simp add: frame_list_ok_def comp_def)
  moreover have "list_all2 (\<lambda>(_, n, f) d. decodes_as (se_b122 env) C ?enc f n d) (tn_delivered t) ds"
    using fl by (auto simp: frame_list_ok_def list_all2_conv_all_nth split: prod.splits)
  ultimately show ?thesis using run rest un by blast
qed

text \<open>C15: the end of a tunnel is final. Once the actor of a tunnel has stopped, for whatever reason, its stream id is not
  active in the registry, so it can only be answered as consumed, and no poll of a segment that is still held by a
  response delivers another byte.\<close>

theorem tunnel_stop_final:
  assumes "tn_running t0" and "tunnel_run env es t0 = Some t" and "\<not> tn_running t"
    and "tunnel_run env es' t = Some t'"
  shows "check (tn_stream_id t') (tn_registry t') \<noteq> QActive \<and> tn_delivered t' = tn_delivered t \<and> \<not> tn_running t'"
proof -
  have "stopped t" using running_or_stopped_run [OF disjI1 [OF assms(1)] assms(2)] assms(3) by blast
  from stopped_run [OF this assms(4)] show ?thesis by (simp add: stopped_def)
qed

text \<open>C16: two waiting \<open>Continue\<close> commands take down a healthy tunnel. When a segment has ended at its limit and two
  requests wait for the next one, the first is given the new segment, the second finds the slot empty, and the actor takes that for the end of the
  stream: it stops and cancels the segment it has just handed out, whose next poll ends the response although its shaper
  has not been asked for the rest.\<close>

theorem second_continue_stops_tunnel:
  assumes "tn_running t" and "tn_has_slot t" and "tn_slot t = Some s" and "0 < tn_done t"
    and "tn_pending_continue t = [r1, r2]" and "r1 \<notin> closed \<union> gone" and "r2 \<notin> closed \<union> gone"
    and "t' = tunnel_iteration (TDone closed gone) t"
  shows "tn_replies t' = tn_replies t @ [(r1, Some (tn_next_segment t)), (r2, None)] \<and> \<not> tn_running t'
    \<and> (\<exists>sg. map_of (tn_segments t') (tn_next_segment t) = Some sg \<and> sg_shaper sg = Some s
          \<and> segment_poll_next env elapsed now (tn_cancelled t') sg = Some (sg\<lparr>sg_ended := True\<rparr>, None, Ready None))"
  using assms
  by (auto simp: tunnel_iteration_def Let_def shaper_alive_def serve_pending_continue_def take_segment_def
      segment_new_def reply_send_def tunnel_cleanup_def consume_stream_def segment_poll_next_def split: option.split)

text \<open>C17: a \<open>Continue\<close> whose client has gone away leaves a rotating tunnel without a way forward. The command switches the
  phase to active and is dropped with no segment handed out. Whatever commands, timeouts and segment events follow, as
  long as nobody stops the tunnel, it never delivers anything again: every later \<open>Continue\<close> is answered with nothing, the rotation timeout
  does not apply, and the shaper stays in its slot. The only way out is the idle timeout, and every further \<open>Continue\<close>
  puts it off: the tunnel is running in the end exactly if no idle check came 120 seconds or more after the last command.\<close>

theorem abandoned_continue_stalls_tunnel:
  assumes "tn_running t" and "tn_phase t = PhRotating" and "\<not> tn_segment_active t" and "tn_slot t = Some s"
    and "tn_segments t = []" and "tn_done t = 0" and "reply \<in> closed" and "\<forall>e\<in>set es. \<not> stop_event e"
  shows "\<exists>t' n. tunnel_run env (TCmd secs closed gone (Some (Continue reply)) # es) t = Some t'
    \<and> tn_delivered t' = tn_delivered t
    \<and> tn_replies t' = tn_replies t @ map (\<lambda>r. (r, None)) (take n (continue_replies es))
    \<and> (kept_awake secs es \<longrightarrow> tn_running t' \<and> tn_slot t' = Some s \<and> tn_segments t' = [] \<and> length (continue_replies es) \<le> n)
    \<and> (\<not> kept_awake secs es \<longrightarrow> stopped t')"
proof -
  have "stalled s secs (t\<lparr>tn_last_activity := secs, tn_phase := PhActive\<rparr>)" using assms by (simp add: stalled_def)
  from stalled_run [OF this assms(8), of env] show ?thesis
    using assms by (auto simp: tunnel_iteration_def dispatch_cmd_def)
qed

section \<open>Examples\<close>

text \<open>A tunnel that has sent its first segment of two bytes and has two clients waiting for the next.\<close>

definition example_tunnel :: tunnel where
  "example_tunnel =
     fst (take_segment (on_upstream_connected 0 0 [RData [1, 2], RPending, RData [3]] None (resolve_config example_config)
       example_cipher 40 (set_upload_channel 5 6 (tunnel_new 9 [(9, SActive, 0)] (Some 2) 0))))"

theorem tunnel_download_continuous_witness:
  "\<exists>t ds. tunnel_run example_env [TSegmentPoll (\<lambda>_. True) 0 0 0, TSegmentDrop 0, TDone {} {}] example_tunnel = Some t
     \<and> map (\<lambda>e. fst (snd e)) (tn_delivered t) = map (\<lambda>k. 40 + of_nat k) [0..<length (tn_delivered t)]
     \<and> (\<exists>rest. ([1, 2, 3] :: bytes) = concat ds @ rest) \<and> size (shapers t) \<le> 1"
proof -
  have "validate_traffic example_config = Ok ()" by (simp add: validate_traffic_def example_config_def)
  from tunnel_download_continuous [OF example_env_ok this example_cipher_contract example_tunnel_def]
  show ?thesis by (simp only: script_bytes.simps append.simps) blast
qed

theorem tunnel_stop_final_witness:
  "\<exists>t. tunnel_run example_env [TShutdownSignal] example_tunnel = Some t
     \<and> (\<exists>t'. tunnel_run example_env [TSegmentPoll (\<lambda>_. True) 0 0 0] t = Some t'
            \<and> check (tn_stream_id t') (tn_registry t') \<noteq> QActive \<and> tn_delivered t' = tn_delivered t)"
proof -
  have r: "tn_running example_tunnel"
    by (simp add: example_tunnel_def take_segment_def on_upstream_connected_def set_upload_channel_def tunnel_new_def
        segment_new_def Let_def)
  let ?t = "tunnel_cleanup example_tunnel"
  have s: "tunnel_run example_env [TShutdownSignal] example_tunnel = Some ?t"
    using r by (simp add: tunnel_iteration_def)
  have n: "\<not> tn_running ?t" using stopped_cleanup by (simp add: stopped_def)
  obtain t' where p: "tunnel_run example_env [TSegmentPoll (\<lambda>_. True) 0 0 0] ?t = Some t'"
  proof -
    have "tunnel_run example_env [TSegmentPoll (\<lambda>_. True) 0 0 0] ?t \<noteq> None"
      using stopped_cleanup [of example_tunnel]
      by (simp add: stopped_def tunnel_poll_segment_def segment_poll_next_def Let_def split: option.split)
    then show ?thesis using that by blast
  qed
  from tunnel_stop_final [OF r s n p] s p show ?thesis by blast
qed

definition two_waiting :: tunnel where
  "two_waiting = example_tunnel\<lparr>tn_slot := Some (with_seq 0 0 (resolve_config example_config) example_cipher 41, []),
     tn_segments := [], tn_done := 1, tn_pending_continue := [1, 2]\<rparr>"

lemma example_tunnel_fields:
  "tn_running example_tunnel" "tn_has_slot example_tunnel" "tn_replies example_tunnel = []" "tn_next_segment example_tunnel = 1"
  "tn_pending_continue example_tunnel = []"
  by (simp_all add: example_tunnel_def take_segment_def on_upstream_connected_def set_upload_channel_def tunnel_new_def
      segment_new_def Let_def)

theorem second_continue_stops_tunnel_witness:
  "tn_replies (tunnel_iteration (TDone {} {}) two_waiting) = [(1, Some 1), (2, None)]
     \<and> \<not> tn_running (tunnel_iteration (TDone {} {}) two_waiting)"
  using second_continue_stops_tunnel [of two_waiting _ 1 2 "{}" "{}", OF _ _ _ _ _ _ _ refl]
  by (simp add: two_waiting_def example_tunnel_fields del: tunnel_select.simps)

text \<open>The first segment of the example ends at its limit and is dropped; the next client gives up while its command waits.\<close>

definition rotating_tunnel :: tunnel where
  "rotating_tunnel = tunnel_iteration (TDone {} {})
     (example_tunnel\<lparr>tn_slot := Some (with_seq 0 0 (resolve_config example_config) example_cipher 41, [RData [3]]), tn_segments := [], tn_done := 1\<rparr>)"

lemma rotating_tunnel_fields:
  "tn_running rotating_tunnel" "tn_phase rotating_tunnel = PhRotating" "\<not> tn_segment_active rotating_tunnel"
  "tn_slot rotating_tunnel = Some (with_seq 0 0 (resolve_config example_config) example_cipher 41, [RData [3]])"
  "tn_segments rotating_tunnel = []" "tn_done rotating_tunnel = 0" "tn_replies rotating_tunnel = []"
  using example_tunnel_fields
  by (simp_all add: rotating_tunnel_def tunnel_iteration_def serve_pending_continue_def shaper_alive_def Let_def)

theorem abandoned_continue_stalls_tunnel_witness:
  "\<exists>t'. tunnel_run example_env [TCmd 1 {7} {} (Some (Continue 7)), TCmd 100 {} {} (Some (Continue 8)), TRotationTimeout, TIdle 200,
        TCmd 201 {} {} (Some (Continue 9))] rotating_tunnel = Some t' \<and> tn_running t' \<and> tn_replies t' = [(8, None), (9, None)]"
  using abandoned_continue_stalls_tunnel [OF rotating_tunnel_fields(1-6), of 7 "{7}"
      "[TCmd 100 {} {} (Some (Continue 8)), TRotationTimeout, TIdle 200, TCmd 201 {} {} (Some (Continue 9))]" example_env 1 "{}"]
  by (auto simp: rotating_tunnel_fields saturating_sub_def STREAM_IDLE_TIMEOUT_SECS_def simp del: tunnel_run.simps)

end
