(* ===== verification/Handshake.thy ===== *)
theory Handshake
  imports Cookies Token Stream_Registry
begin

text \<open>
  The key exchange between client and server: \<open>perform_pq_handshake\<close> of \<^verbatim>\<open>src/src/client/handshake.rs\<close> (split into the
  request it sends and what it does with the response), \<open>handle_fresh_handshake\<close> and \<open>validate_token_if_needed\<close> of
  \<^verbatim>\<open>src/src/server/handlers.rs\<close>, and the key functions of \<^verbatim>\<open>src/src/crypto/keys.rs\<close>.

  X25519, ML-KEM-768 and the UUID parser are parameters (\<open>suite\<close>, together with the AEAD, HKDF, base64 and base122
  of the theories below); \<open>suite_correct\<close> states what their documentation promises: both sides of a Diffie-Hellman
  exchange agree, decapsulation inverts encapsulation, the key sizes. Secrets, seeds, nonces, paddings and the session id
  are drawn by the caller and arguments here. \<open>None\<close> is a panic. The token cache is an argument: the value it returned for
  the token, and an insertion is part of the result.

  Lemmas: after an undisturbed exchange both sides hold the same master key under the same session id; a user taken from the
  cache had an unexpired token.
\<close>

section \<open>Parameters\<close>

record ('k, 'd, 'e) suite =
  su_aead :: "'k aead"
  su_hkdf :: hkdf
  su_b64 :: b64
  su_b122 :: base122
  su_pk :: "bytes \<Rightarrow> bytes"
  su_dh :: "bytes \<Rightarrow> bytes \<Rightarrow> bytes"
  su_kem_pk :: "'d \<Rightarrow> bytes option"
  su_kem_parse :: "bytes \<Rightarrow> 'e option"
  su_encaps :: "'e \<Rightarrow> bytes \<Rightarrow> (bytes \<times> bytes) option"
  su_decaps :: "'d \<Rightarrow> bytes \<Rightarrow> bytes option"
  su_uuid :: "string \<Rightarrow> uuid option"

text \<open>The key sizes of ML-KEM-768: 1184 bytes of public key, 1088 bytes of ciphertext.\<close>

definition kem_correct :: "('k, 'd, 'e) suite \<Rightarrow> bool" where
  "kem_correct S \<longleftrightarrow>
     (\<forall>d. \<exists>p e. su_kem_pk S d = Some p \<and> length p = 1184 \<and> su_kem_parse S p = Some e
        \<and> (\<forall>seed. \<exists>ct ss. su_encaps S e seed = Some (ct, ss) \<and> length ct = 1088 \<and> su_decaps S d ct = Some ss))"

definition dh_correct :: "('k, 'd, 'e) suite \<Rightarrow> bool" where
  "dh_correct S \<longleftrightarrow> (\<forall>a b. su_dh S a (su_pk S b) = su_dh S b (su_pk S a)) \<and> (\<forall>a. length (su_pk S a) = 32)"

definition suite_correct :: "('k, 'd, 'e) suite \<Rightarrow> bool" where
  "suite_correct S \<longleftrightarrow>
     aead_correct (su_aead S) \<and> hkdf_correct (su_hkdf S) \<and> b64_correct (su_b64 S) \<and> base122_correct (su_b122 S)
   \<and> kem_correct S \<and> dh_correct S"

section \<open>keys.rs\<close>

definition generate_keypair :: "('k, 'd, 'e) suite \<Rightarrow> bytes \<Rightarrow> bytes \<times> bytes" where
  "generate_keypair S secret = (secret, su_pk S secret)"

definition diffie_hellman :: "('k, 'd, 'e) suite \<Rightarrow> bytes \<Rightarrow> bytes \<Rightarrow> bytes" where
  "diffie_hellman S our_sk their_pk = su_dh S our_sk their_pk"

definition mlkem_public_key_bytes :: "('k, 'd, 'e) suite \<Rightarrow> 'd \<Rightarrow> (bytes, string) result" where
  "mlkem_public_key_bytes S sk = ok_or (su_kem_pk S sk) ''ML-KEM public key export failed''"

definition bytes_to_encapsulation_key :: "('k, 'd, 'e) suite \<Rightarrow> bytes \<Rightarrow> ('e, string) result" where
  "bytes_to_encapsulation_key S bs = ok_or (su_kem_parse S bs) ''invalid encapsulation key''"

definition mlkem_encapsulate :: "('k, 'd, 'e) suite \<Rightarrow> 'e \<Rightarrow> bytes \<Rightarrow> (bytes \<times> bytes, string) result" where
  "mlkem_encapsulate S pk seed = ok_or (su_encaps S pk seed) ''ML-KEM encapsulation failed''"

definition mlkem_decapsulate :: "('k, 'd, 'e) suite \<Rightarrow> 'd \<Rightarrow> bytes \<Rightarrow> (bytes, string) result" where
  "mlkem_decapsulate S sk ct = ok_or (su_decaps S sk ct) ''ML-KEM decapsulation failed''"

section \<open>The token of a handshake\<close>

definition TOKEN_CACHE_TTL :: u64 where "TOKEN_CACHE_TTL = 60"

text \<open>\<open>HeaderValue::to_str\<close>: visible ASCII and tabs only.\<close>

definition header_to_str :: "bytes \<Rightarrow> string option" where
  "header_to_str v = (if list_all (\<lambda>b. b = 9 \<or> (32 \<le> b \<and> b < 127)) v then Some (bytes_to_str v) else None)"

text \<open>The result is the user and what is put into the cache.\<close>

definition validate_token_if_needed ::
    "'k aead \<Rightarrow> b64 \<Rightarrow> headers \<Rightarrow> 'k \<Rightarrow> (string \<Rightarrow> string option) \<Rightarrow> u64 \<Rightarrow> (string \<times> (string \<times> string) option, server_error) result" where
  "validate_token_if_needed A E hs key cache unix_now =
     (case Option.bind (header_get hs ''Authorization'') header_to_str of
        None \<Rightarrow> Err (unauthorized ''invalid header'')
      | Some auth_header \<Rightarrow>
          (case strip_prefix ''Bearer '' auth_header of
             None \<Rightarrow> Err (unauthorized ''invalid header'')
           | Some token \<Rightarrow>
               (case cache token of
                  Some user \<Rightarrow> Ok (user, None)
                | None \<Rightarrow>
                    (case token_open A E key unix_now token of
                       Err e \<Rightarrow> Err (unauthorized ''invalid token'')
                     | Ok c \<Rightarrow>
                         Ok (cl_sub c, if saturating_add unix_now TOKEN_CACHE_TTL < cl_exp c
                                       then Some (token, cl_sub c) else None)))))"

section \<open>The server's side\<close>

datatype body_read = BodyTimeout | BodyErr string | BodyData bytes

text \<open>\<open>axum::body::to_bytes\<close> under the timeout.\<close>

definition to_bytes :: "body_read \<Rightarrow> nat \<Rightarrow> (bytes, server_error) result" where
  "to_bytes b limit =
     (case b of
        BodyTimeout \<Rightarrow> Err (request_timeout ''request body read timed out'')
      | BodyErr e \<Rightarrow> Err (payload_too_large (''request body error: '' @ e))
      | BodyData bs \<Rightarrow>
          if length bs \<le> limit then Ok bs else Err (payload_too_large ''request body error: length limit exceeded''))"

text \<open>The two length-prefixed keys of a ClientHello.\<close>

definition parse_client_hello :: "('k, 'd, 'e) suite \<Rightarrow> bytes \<Rightarrow> ('e \<times> bytes, server_error) result" where
  "parse_client_hello S d =
     (if length d < 2 then Err (bad_request ''ClientHello too short'')
      else let len_kem = unat (u16_from_be (take 2 d)); kem_end = 2 + len_kem in
        if length d < kem_end then Err (bad_request ''ClientHello truncated (KEM part)'')
        else rbind (map_err (\<lambda>e. bad_request (''invalid mlkem public key: '' @ e))
                      (bytes_to_encapsulation_key S (take len_kem (drop 2 d))))
          (\<lambda>kem_pk.
             if length d < kem_end + 2 then Err (bad_request ''ClientHello truncated (no X25519 part)'')
             else let len_x25519 = unat (u16_from_be (take 2 (drop kem_end d))); x25519_end = kem_end + 2 + len_x25519 in
               if length d < x25519_end then Err (bad_request ''ClientHello truncated (X25519 part)'')
               else let eph_pk_b = take len_x25519 (drop (kem_end + 2) d) in
                 if length eph_pk_b \<noteq> 32 then Err (bad_request ''invalid client x25519 pk length'')
                 else Ok (kem_pk, eph_pk_b)))"

definition server_hello_bytes :: "string \<Rightarrow> bytes \<Rightarrow> bytes \<Rightarrow> bytes" where
  "server_hello_bytes session_id ct server_eph_pk =
     (let sid_bytes = as_bytes session_id
      in u16_to_be (of_nat (length sid_bytes)) @ sid_bytes @ ct @ server_eph_pk)"

text \<open>What the handler draws at random, in the order it draws it, and the time of the insertion.\<close>

record hs_draws =
  hd_seed :: bytes
  hd_secret :: bytes
  hd_session_id :: string
  hd_now :: u64
  hd_nonce :: bytes
  hd_range :: range_rng

record 'b response =
  rs_status :: nat
  rs_body :: 'b

definition handle_fresh_handshake ::
    "('k, 'd, 'e) suite \<Rightarrow> traffic_config \<Rightarrow> bytes \<Rightarrow> 'k \<Rightarrow> (string \<Rightarrow> string option) \<Rightarrow> u64 \<Rightarrow> hs_draws
      \<Rightarrow> headers \<Rightarrow> body_read \<Rightarrow> stores \<Rightarrow> stores \<times> (bytes response, server_error) result option" where
  "handle_fresh_handshake S cfg private_key token_key cache unix_now dr hs body st =
     (let checked =
        rbind (validate_token_if_needed (su_aead S) (su_b64 S) hs token_key cache unix_now) (\<lambda>(user, _).
        rbind (ok_or (extract_cookie_value hs ''eph_pk_a'') (bad_request ''missing eph_pk_a cookie'')) (\<lambda>eph_pk_a_b64.
        rbind (ok_or (b64_decode (su_b64 S) eph_pk_a_b64) (bad_request ''invalid eph_pk_a base64'')) (\<lambda>eph_pk_a.
        if length eph_pk_a \<noteq> 32 then Err (bad_request ''eph_pk_a must be 32 bytes'')
        else Ok (user, derive_handshake_key (su_hkdf S) (diffie_hellman S private_key eph_pk_a)))))
      in case checked of
        Err e \<Rightarrow> (st, Some (Err e))
      | Ok (user, handshake_key) \<Rightarrow>
          (case aes_new (su_aead S) handshake_key of
             None \<Rightarrow> (st, None)
           | Some afc \<Rightarrow>
               (let C = aes_cipher (su_aead S) afc;
                    hello =
                      rbind (to_bytes body MAX_FRAME_BUF_SIZE) (\<lambda>body_bytes.
                      rbind (map_err server_error_from_io (snd (decode_from_buffer (su_b122 S) C (tc_encoding_type cfg) body_bytes))) (\<lambda>fr.
                      rbind (ok_or fr (bad_request ''invalid ClientHello frame'')) (\<lambda>(_, client_hello_data).
                      rbind (parse_client_hello S client_hello_data) (\<lambda>(kem_pk, eph_pk_b).
                      rbind (map_err (\<lambda>e. internal (''ML-KEM encapsulation failed: '' @ e)) (mlkem_encapsulate S kem_pk (hd_seed dr)))
                        (\<lambda>(ct, ss_mlkem).
                           let (server_eph_sk, server_eph_pk) = generate_keypair S (hd_secret dr);
                               ss_x25519 = diffie_hellman S server_eph_sk eph_pk_b
                           in Ok (derive_initial_master (su_hkdf S) ss_mlkem ss_x25519, ct, server_eph_pk))))))
                in case hello of
                  Err e \<Rightarrow> (st, Some (Err e))
                | Ok (master, ct, server_eph_pk) \<Rightarrow>
                    (st\<lparr>st_masters := dash_insert (hd_session_id dr) (user, master, hd_now dr) (st_masters st)\<rparr>,
                     and_then (map_option (map_err (\<lambda>e. internal (''encode ServerHello: '' @ io_message e)))
                                 (encode_frame (su_b122 S) (hd_range dr) (hd_nonce dr)
                                    (server_hello_bytes (hd_session_id dr) ct server_eph_pk) 0 C
                                    (pc_threshold (tc_global cfg)) (pc_range (tc_global cfg)) (tc_encoding_type cfg)))
                       (\<lambda>frame. Some (Ok \<lparr>rs_status = 200, rs_body = frame\<rparr>))))))"

section \<open>The client's side\<close>

text \<open>What the client keeps between request and response.\<close>

record ('k, 'd) client_hello =
  ch_cipher :: "'k aes_frame_cipher"
  ch_kem_sk :: 'd
  ch_eph_sk_b :: bytes
  ch_cookie :: string
  ch_body :: bytes

definition client_hello_bytes :: "bytes \<Rightarrow> bytes \<Rightarrow> bytes" where
  "client_hello_bytes kem_pk_bytes eph_pk_b_bytes =
     u16_to_be (of_nat (length kem_pk_bytes)) @ kem_pk_bytes @ u16_to_be (of_nat (length eph_pk_b_bytes)) @ eph_pk_b_bytes"

text \<open>\<open>perform_pq_handshake\<close> up to the request.\<close>

definition pq_handshake_request ::
    "('k, 'd, 'e) suite \<Rightarrow> traffic_config \<Rightarrow> bytes \<Rightarrow> bytes \<Rightarrow> 'd \<Rightarrow> bytes \<Rightarrow> bytes \<Rightarrow> range_rng \<Rightarrow> nat
      \<Rightarrow> (('k, 'd) client_hello, string) result option" where
  "pq_handshake_request S cfg server_pk secret_a kem_sk secret_b nonce rr padding_len =
     (let (eph_sk_a, eph_pk_a) = generate_keypair S secret_a;
          handshake_key = derive_handshake_key (su_hkdf S) (diffie_hellman S eph_sk_a server_pk)
      in case aes_new (su_aead S) handshake_key of
        None \<Rightarrow> None
      | Some afc \<Rightarrow>
          and_then (Some (mlkem_public_key_bytes S kem_sk)) (\<lambda>kem_pk_bytes.
            let (eph_sk_b, eph_pk_b) = generate_keypair S secret_b;
                client_hello = client_hello_bytes kem_pk_bytes eph_pk_b
            in and_then (map_option (map_err io_message)
                  (encode_frame (su_b122 S) rr nonce client_hello 0 (aes_cipher (su_aead S) afc)
                     (pc_threshold (tc_global cfg)) (pc_range (tc_global cfg)) (tc_encoding_type cfg)))
                (\<lambda>frame. Some (Ok
                   \<lparr>ch_cipher = afc, ch_kem_sk = kem_sk, ch_eph_sk_b = eph_sk_b,
                    ch_cookie = ''eph_pk_a='' @ b64_encode (su_b64 S) eph_pk_a @ ''; '' @ take padding_len PADDING_POOL,
                    ch_body = frame\<rparr>))))"

text \<open>The loop that reads the response until one frame has arrived. A body that stays pending is a request that hangs; the
  script ends the stream.\<close>

fun read_server_hello ::
    "base122 \<Rightarrow> frame_cipher \<Rightarrow> encoding_type \<Rightarrow> bytes \<Rightarrow> chunk_event list \<Rightarrow> (bytes, string) result" where
  "read_server_hello B C enc buf [] = Err ''ServerHello not received''"
| "read_server_hello B C enc buf (CPending # es) = read_server_hello B C enc buf es"
| "read_server_hello B C enc buf (CErr e # es) = Err (io_message e)"
| "read_server_hello B C enc buf (Chunk chunk # es) =
     (case decode_from_buffer B C enc (buf @ chunk) of
        (buf, Err e) \<Rightarrow> Err (io_message e)
      | (buf, Ok (Some (_, data))) \<Rightarrow> Ok data
      | (buf, Ok None) \<Rightarrow> read_server_hello B C enc buf es)"

record pq_session_ticket =
  tk_master :: bytes
  tk_session_id :: string

definition parse_server_hello :: "bytes \<Rightarrow> (string \<times> bytes \<times> bytes, string) result" where
  "parse_server_hello d =
     (if length d < 2 then Err ''ServerHello too short''
      else let sid_len = unat (u16_from_be (take 2 d)); ct_start = 2 + sid_len; ct_end = ct_start + 1088 in
        if length d < ct_end + 32 then Err ''ServerHello truncated''
        else if \<not> utf8_valid (take sid_len (drop 2 d)) then Err ''invalid session_id''
        else Ok (bytes_to_str (take sid_len (drop 2 d)), take 1088 (drop ct_start d), take 32 (drop ct_end d)))"

text \<open>\<open>perform_pq_handshake\<close> from the response on. The error message names the status without its reason phrase. The ticket is also stored as the initial master, with the time.\<close>

definition pq_handshake_response ::
    "('k, 'd, 'e) suite \<Rightarrow> traffic_config \<Rightarrow> ('k, 'd) client_hello \<Rightarrow> nat \<Rightarrow> chunk_event list \<Rightarrow> (pq_session_ticket, string) result" where
  "pq_handshake_response S cfg ch status body =
     (if \<not> (200 \<le> status \<and> status < 300) then Err (''server rejected handshake: '' @ show_nat status)
      else rbind (read_server_hello (su_b122 S) (aes_cipher (su_aead S) (ch_cipher ch)) (tc_encoding_type cfg) [] body) (\<lambda>data.
        rbind (parse_server_hello data) (\<lambda>(session_id, ct_bytes, server_eph_pk).
        rbind (mlkem_decapsulate S (ch_kem_sk ch) ct_bytes) (\<lambda>ss_mlkem.
          let ss_x25519 = diffie_hellman S (ch_eph_sk_b ch) server_eph_pk
          in Ok \<lparr>tk_master = derive_initial_master (su_hkdf S) ss_mlkem ss_x25519, tk_session_id = session_id\<rparr>))))"

section \<open>Lemmas: the messages\<close>

lemma parse_client_hello_bytes:
  assumes "su_kem_parse S kem_pk = Some e" and "length kem_pk < 2 ^ 16" and "length pk_b = 32"
  shows "parse_client_hello S (client_hello_bytes kem_pk pk_b) = Ok (e, pk_b)"
proof -
  have u: "unat (of_nat (length kem_pk) :: u16) = length kem_pk" using assms(2) by (simp add: unat_of_nat)
  show ?thesis
    using assms u by (simp add: parse_client_hello_def client_hello_bytes_def bytes_to_encapsulation_key_def unat_of_nat)
qed

lemma parse_server_hello_bytes:
  assumes "length sid < 2 ^ 16" and "utf8_valid (as_bytes sid)" and "length ct = 1088" and "length pk = 32"
  shows "parse_server_hello (server_hello_bytes sid ct pk) = Ok (sid, ct, pk)"
proof -
  have u: "unat (of_nat (length sid) :: u16) = length sid" using assms(1) by (simp add: unat_of_nat)
  show ?thesis using assms u by (simp add: parse_server_hello_def server_hello_bytes_def Let_def)
qed

lemma read_server_hello_ok:
  assumes "decodes_as B C enc f seq d"
  shows "no_errors chunks \<Longrightarrow> buf @ chunk_bytes chunks = f \<Longrightarrow> length buf < length f \<Longrightarrow>
           read_server_hello B C enc buf chunks = Ok d"
proof (induction chunks arbitrary: buf)
  case (Cons c es)
  show ?case
  proof (cases c)
    case (Chunk chunk)
    show ?thesis
    proof (cases "length (buf @ chunk) < length f")
      case True
      let ?n = "length (buf @ chunk)"
      have "take ?n f = buf @ chunk" using Cons.prems(2) Chunk by (metis append.assoc append_eq_conv_conj chunk_bytes.simps(2))
      then have "decode_from_buffer B C enc (buf @ chunk) = (buf @ chunk, Ok None)"
        using decodes_as_prefix [OF assms True, of "[]"] by (simp add: decode_from_buffer_def del: length_append)
      then show ?thesis using Cons Chunk True by simp
    next
      case False
      then have "buf @ chunk = f" using Cons.prems(2) Chunk by (auto simp: not_less)
      then show ?thesis using decodes_as_from_buffer [OF assms, of "[]"] Chunk by simp
    qed
  qed (use Cons in auto)
qed simp

lemma aes_new_ok: "aead_correct A \<Longrightarrow> length key = 32 \<Longrightarrow> \<exists>afc. aes_new A key = Some afc"
  by (auto simp: aead_correct_def aes_new_def make_key_def)

text \<open>A message of a handshake as one frame.\<close>

lemma encode_frame_message:
  assumes "suite_correct S" and "rng_correct rr" and "length nonce = NONCE_LEN" and "length m \<le> 14000"
    and "fst (pc_range (tc_global cfg)) \<le> snd (pc_range (tc_global cfg))"
  shows "\<exists>f. encode_frame (su_b122 S) rr nonce m seq (aes_cipher (su_aead S) afc) (pc_threshold (tc_global cfg))
             (pc_range (tc_global cfg)) (tc_encoding_type cfg) = Some (Ok f)
           \<and> decodes_as (su_b122 S) (aes_cipher (su_aead S) afc) (tc_encoding_type cfg) f seq m \<and> length f \<le> MAX_FRAME_BUF_SIZE"
proof -
  let ?C = "aes_cipher (su_aead S) afc"
  have c: "cipher_contract ?C" "base122_correct (su_b122 S)"
    using assms(1) aes_cipher_contract by (auto simp: suite_correct_def)
  have "length m \<le> frame_raw_limit (tc_encoding_type cfg)"
    using assms(4) by (simp add: frame_raw_limit_def wire_simps split: encoding_type.split)
  then obtain f where f: "encode_frame_into (su_b122 S) rr nonce m seq ?C (pc_threshold (tc_global cfg))
        (fst (pc_range (tc_global cfg)), snd (pc_range (tc_global cfg))) (tc_encoding_type cfg) [] = Some (Ok ([] @ f))"
      "decodes_as (su_b122 S) ?C (tc_encoding_type cfg) f seq m"
    using encode_frame_into_ok [OF c assms(2,5,3)] by blast
  moreover have "length f \<le> MAX_FRAME_BUF_SIZE"
    using f(2) by (auto simp: decodes_as_def max_encoded_frame_len_def MAX_FRAME_BUF_SIZE_def wire_simps split: encoding_type.splits)
  ultimately show ?thesis by (auto simp: encode_frame_def)
qed

lemma cookie_of_hello:
  assumes "header_get hs ''Cookie'' = Some (as_bytes (''eph_pk_a='' @ b64_encode E pk @ ''; '' @ take padding_len PADDING_POOL))"
    and "b64_correct E" and "MIN_PADDING \<le> padding_len" and "padding_len < length PADDING_POOL"
  shows "extract_cookie_value hs ''eph_pk_a'' = Some (b64_encode E pk)"
proof -
  have "''eph_pk_a='' @ b64_encode E pk @ ''; '' @ take padding_len PADDING_POOL = build_cookie_into padding_len ''eph_pk_a'' (b64_encode E pk)"
    by (simp add: build_cookie_into_def)
  moreover have "list_all b64_char ''eph_pk_a''" by (simp add: b64_char_def)
  moreover have "list_all cookie_char (b64_encode E pk)"
    using assms(2) by (auto simp: b64_correct_def list_all_iff cookie_char_def)
  ultimately show ?thesis using cookie_lookup [of hs padding_len "''eph_pk_a''" "b64_encode E pk" "''eph_pk_a''"] assms by simp
qed

text \<open>The handler on a well-formed request.\<close>

lemma handle_fresh_handshake_ok:
  assumes "validate_token_if_needed (su_aead S) (su_b64 S) hs token_key cache unix_now = Ok (user, ins)"
    and "extract_cookie_value hs ''eph_pk_a'' = Some v" and "b64_decode (su_b64 S) v = Some pk_a" and "length pk_a = 32"
    and "aes_new (su_aead S) (derive_handshake_key (su_hkdf S) (su_dh S private_key pk_a)) = Some afc"
    and "length body \<le> MAX_FRAME_BUF_SIZE"
    and "decode_from_buffer (su_b122 S) (aes_cipher (su_aead S) afc) (tc_encoding_type cfg) body = (r, Ok (Some (q, hello)))"
    and "parse_client_hello S hello = Ok (e, pk_b)" and "su_encaps S e (hd_seed dr) = Some (ct, ss)"
    and "encode_frame (su_b122 S) (hd_range dr) (hd_nonce dr) (server_hello_bytes (hd_session_id dr) ct (su_pk S (hd_secret dr))) 0
           (aes_cipher (su_aead S) afc) (pc_threshold (tc_global cfg)) (pc_range (tc_global cfg)) (tc_encoding_type cfg) = Some (Ok g)"
  shows "handle_fresh_handshake S cfg private_key token_key cache unix_now dr hs (BodyData body) st
      = (st\<lparr>st_masters := dash_insert (hd_session_id dr)
              (user, derive_initial_master (su_hkdf S) ss (su_dh S (hd_secret dr) pk_b), hd_now dr) (st_masters st)\<rparr>,
         Some (Ok \<lparr>rs_status = 200, rs_body = g\<rparr>))"
  using assms by (simp add: handle_fresh_handshake_def diffie_hellman_def to_bytes_def mlkem_encapsulate_def generate_keypair_def)

section \<open>Properties\<close>

text \<open>C18: both ends of a handshake agree. For every choice of the random values, the client's request can be built; when it
  reaches the server unchanged with a token that validates, the server answers, and when the answer reaches the client,
  in whatever chunks, the client's ticket names the session under which the server stored a master key for that user, and
  the two master keys are the same.\<close>

theorem handshake_agreement:
  assumes S: "suite_correct S" and rr: "rng_correct rr" "rng_correct (hd_range dr)"
    and nonce: "length nonce = NONCE_LEN" "length (hd_nonce dr) = NONCE_LEN"
    and range: "fst (pc_range (tc_global cfg)) \<le> snd (pc_range (tc_global cfg))"
    and pad: "MIN_PADDING \<le> padding_len" "padding_len < length PADDING_POOL"
    and sid: "length (hd_session_id dr) = 36" "utf8_valid (as_bytes (hd_session_id dr))"
  shows "\<exists>ch. pq_handshake_request S cfg (su_pk S private_key) secret_a kem_sk secret_b nonce rr padding_len = Some (Ok ch)
    \<and> (\<forall>hs user ins. header_get hs ''Cookie'' = Some (as_bytes (ch_cookie ch))
          \<and> validate_token_if_needed (su_aead S) (su_b64 S) hs token_key cache unix_now = Ok (user, ins) \<longrightarrow>
        (\<exists>st' rsp. handle_fresh_handshake S cfg private_key token_key cache unix_now dr hs (BodyData (ch_body ch)) st
              = (st', Some (Ok rsp))
          \<and> (\<forall>chunks. chunk_bytes chunks = rs_body rsp \<and> no_errors chunks \<longrightarrow>
               (\<exists>tk. pq_handshake_response S cfg ch (rs_status rsp) chunks = Ok tk
                  \<and> tk_session_id tk = hd_session_id dr
                  \<and> map_of (st_masters st') (tk_session_id tk) = Some (user, tk_master tk, hd_now dr)))))"
proof -
  let ?hk = "derive_handshake_key (su_hkdf S) (su_dh S secret_a (su_pk S private_key))"
  have dh: "su_dh S a (su_pk S b) = su_dh S b (su_pk S a)" "length (su_pk S a) = 32" for a b
    using S by (auto simp: suite_correct_def dh_correct_def)
  have "length ?hk = 32" using S by (simp add: derive_handshake_key_def suite_correct_def hkdf_correct_def)
  then obtain afc where afc: "aes_new (su_aead S) ?hk = Some afc"
    using aes_new_ok S by (metis suite_correct_def)
  obtain kpk e where kem: "su_kem_pk S kem_sk = Some kpk" "length kpk = 1184" "su_kem_parse S kpk = Some e"
      and enc: "\<forall>seed. \<exists>ct ss. su_encaps S e seed = Some (ct, ss) \<and> length ct = 1088 \<and> su_decaps S kem_sk ct = Some ss"
    using S unfolding suite_correct_def kem_correct_def by blast
  obtain ct ss where ct: "su_encaps S e (hd_seed dr) = Some (ct, ss)" "length ct = 1088" "su_decaps S kem_sk ct = Some ss"
    using enc by blast
  let ?ch = "client_hello_bytes kpk (su_pk S secret_b)"
  let ?sh = "server_hello_bytes (hd_session_id dr) ct (su_pk S (hd_secret dr))"
  have "length ?ch \<le> 14000" "length ?sh \<le> 14000"
    using kem(2) dh(2) ct(2) sid(1) by (simp_all add: client_hello_bytes_def server_hello_bytes_def)
  then obtain f g where f: "encode_frame (su_b122 S) rr nonce ?ch 0 (aes_cipher (su_aead S) afc) (pc_threshold (tc_global cfg))
             (pc_range (tc_global cfg)) (tc_encoding_type cfg) = Some (Ok f)"
        "decodes_as (su_b122 S) (aes_cipher (su_aead S) afc) (tc_encoding_type cfg) f 0 ?ch" "length f \<le> MAX_FRAME_BUF_SIZE"
      and g: "encode_frame (su_b122 S) (hd_range dr) (hd_nonce dr) ?sh 0 (aes_cipher (su_aead S) afc) (pc_threshold (tc_global cfg))
             (pc_range (tc_global cfg)) (tc_encoding_type cfg) = Some (Ok g)"
        "decodes_as (su_b122 S) (aes_cipher (su_aead S) afc) (tc_encoding_type cfg) g 0 ?sh"
    using encode_frame_message [OF S rr(1) nonce(1) _ range, of ?ch 0 afc] encode_frame_message [OF S rr(2) nonce(2) _ range, of ?sh 0 afc]
    by blast
  define ch where "ch = \<lparr>ch_cipher = afc, ch_kem_sk = kem_sk, ch_eph_sk_b = secret_b,
      ch_cookie = ''eph_pk_a='' @ b64_encode (su_b64 S) (su_pk S secret_a) @ ''; '' @ take padding_len PADDING_POOL, ch_body = f\<rparr>"
  have ck: "ch_cookie ch = ''eph_pk_a='' @ b64_encode (su_b64 S) (su_pk S secret_a) @ ''; '' @ take padding_len PADDING_POOL"
    by (simp add: ch_def)
  have req: "pq_handshake_request S cfg (su_pk S private_key) secret_a kem_sk secret_b nonce rr padding_len = Some (Ok ch)"
    using afc kem f(1) by (simp add: pq_handshake_request_def generate_keypair_def diffie_hellman_def mlkem_public_key_bytes_def ch_def)
  have hello: "decode_from_buffer (su_b122 S) (aes_cipher (su_aead S) afc) (tc_encoding_type cfg) f = ([], Ok (Some (0, ?ch)))"
    using decodes_as_from_buffer [OF f(2), of "[]"] by simp
  have parse: "parse_client_hello S ?ch = Ok (e, su_pk S secret_b)" using parse_client_hello_bytes [OF kem(3) _ dh(2)] kem(2) by simp
  define master where "master = derive_initial_master (su_hkdf S) ss (su_dh S secret_b (su_pk S (hd_secret dr)))"
  have srv: "handle_fresh_handshake S cfg private_key token_key cache unix_now dr hs (BodyData (ch_body ch)) st
      = (st\<lparr>st_masters := dash_insert (hd_session_id dr) (user, master, hd_now dr) (st_masters st)\<rparr>, Some (Ok \<lparr>rs_status = 200, rs_body = g\<rparr>))"
    if h: "header_get hs ''Cookie'' = Some (as_bytes (ch_cookie ch))"
      and v: "validate_token_if_needed (su_aead S) (su_b64 S) hs token_key cache unix_now = Ok (user, ins)" for hs user ins
  proof -
    have "extract_cookie_value hs ''eph_pk_a'' = Some (b64_encode (su_b64 S) (su_pk S secret_a))"
      using cookie_of_hello [OF h [unfolded ck] _ pad] S by (simp add: suite_correct_def)
    moreover have "b64_decode (su_b64 S) (b64_encode (su_b64 S) (su_pk S secret_a)) = Some (su_pk S secret_a)"
      using S by (simp add: suite_correct_def b64_correct_def)
    moreover have "aes_new (su_aead S) (derive_handshake_key (su_hkdf S) (su_dh S private_key (su_pk S secret_a))) = Some afc"
      using afc by (simp only: dh(1) [of private_key secret_a])
    ultimately have "handle_fresh_handshake S cfg private_key token_key cache unix_now dr hs (BodyData f) st
        = (st\<lparr>st_masters := dash_insert (hd_session_id dr)
              (user, derive_initial_master (su_hkdf S) ss (su_dh S (hd_secret dr) (su_pk S secret_b)), hd_now dr) (st_masters st)\<rparr>,
           Some (Ok \<lparr>rs_status = 200, rs_body = g\<rparr>))"
      by (intro handle_fresh_handshake_ok [OF v _ _ dh(2) _ f(3) hello parse ct(1) g(1)])
    then show ?thesis by (simp add: ch_def master_def dh(1) [of "hd_secret dr" secret_b])
  qed
  have cli: "pq_handshake_response S cfg ch 200 chunks = Ok \<lparr>tk_master = master, tk_session_id = hd_session_id dr\<rparr>"
    if "chunk_bytes chunks = g" "no_errors chunks" for chunks
  proof -
    have "length g > 0" using g(2) by (auto simp: decodes_as_def)
    then have "read_server_hello (su_b122 S) (aes_cipher (su_aead S) afc) (tc_encoding_type cfg) [] chunks = Ok ?sh"
      using read_server_hello_ok [OF g(2) that(2), of "[]"] that(1) by simp
    then show ?thesis
      using parse_server_hello_bytes [of "hd_session_id dr" ct "su_pk S (hd_secret dr)"] sid ct dh(2)
      by (simp add: pq_handshake_response_def ch_def mlkem_decapsulate_def diffie_hellman_def master_def)
  qed
  show ?thesis using req srv cli by (intro exI [of _ ch]) fastforce
qed

text \<open>
  What the cache promises for a run of the server: it only returns what \<open>validate_token_if_needed\<close> put in for that token, at
  most \<open>TOKEN_CACHE_TTL\<close> ago.
\<close>

definition cache_sound :: "'k aead \<Rightarrow> b64 \<Rightarrow> 'k \<Rightarrow> (string \<Rightarrow> string option) \<Rightarrow> u64 \<Rightarrow> bool" where
  "cache_sound A E key cache now \<longleftrightarrow>
     (\<forall>token user. cache token = Some user \<longrightarrow>
        (\<exists>t0 hs. unat now \<le> unat t0 + unat TOKEN_CACHE_TTL
           \<and> validate_token_if_needed A E hs key (\<lambda>_. None) t0 = Ok (user, Some (token, user))))"

lemma cached_token_opens:
  assumes "cache_sound A E key cache now" and "cache token = Some user"
  obtains c where "token_open A E key now token = Ok c" and "cl_sub c = user"
proof -
  obtain t0 hs where t0: "unat now \<le> unat t0 + unat TOKEN_CACHE_TTL"
      and v: "validate_token_if_needed A E hs key (\<lambda>_. None) t0 = Ok (user, Some (token, user))"
    using assms unfolding cache_sound_def by blast
  obtain c where c: "token_open A E key t0 token = Ok c" "cl_sub c = user" "saturating_add t0 TOKEN_CACHE_TTL < cl_exp c"
    using v by (auto simp: validate_token_if_needed_def split: option.splits result.splits if_splits)
  have "unat now < 2 ^ 64" using unsigned_less [of now] by simp
  then have "unat now \<le> unat (saturating_add t0 TOKEN_CACHE_TTL)"
    using t0 by (simp add: unat_saturating_add)
  then have "now < cl_exp c" using c(3) by (simp add: word_less_nat_alt)
  with token_open_later [OF c(1)] c(2) that show thesis by blast
qed

text \<open>The token cache never changes a decision. With a cache that returns only what was put in at most a minute ago,
  the user that is accepted, or the error, is what opening the token at this moment gives: no expired token gets through.\<close>

theorem token_cache_transparent:
  assumes "cache_sound A E key cache now"
  shows "map_result fst id (validate_token_if_needed A E hs key cache now)
       = map_result fst id (validate_token_if_needed A E hs key (\<lambda>_. None) now)"
proof (cases "Option.bind (Option.bind (header_get hs ''Authorization'') header_to_str) (strip_prefix ''Bearer '')")
  case None
  then show ?thesis by (auto simp: validate_token_if_needed_def split: option.splits Option.bind_splits)
next
  case (Some token)
  show ?thesis
  proof (cases "cache token")
    case None
    with Some show ?thesis by (auto simp: validate_token_if_needed_def split: option.splits Option.bind_splits)
  next
    case user: (Some user)
    obtain c where "token_open A E key now token = Ok c" "cl_sub c = user" by (rule cached_token_opens [OF assms user])
    with Some user show ?thesis by (auto simp: validate_token_if_needed_def split: option.splits Option.bind_splits)
  qed
qed

section \<open>Examples\<close>

text \<open>An instance of the parameters that satisfies \<open>suite_correct\<close>: shared secrets are sums, the KEM ciphertext is its secret.\<close>

definition norm32 :: "bytes \<Rightarrow> bytes" where
  "norm32 bs = take 32 (bs @ replicate 32 0)"

definition example_suite :: "(bytes, unit, unit) suite" where
  "example_suite = \<lparr>su_aead = plain_aead, su_hkdf = (\<lambda>salt ikm info n. take n (ikm @ replicate n 0)), su_b64 = url_b64,
     su_b122 = positional122, su_pk = norm32, su_dh = (\<lambda>a p. map2 (+) (norm32 a) p), su_kem_pk = (\<lambda>_. Some (replicate 1184 0)),
     su_kem_parse = (\<lambda>_. Some ()), su_encaps = (\<lambda>_ seed. Some (take 1088 (seed @ replicate 1088 0), take 1088 (seed @ replicate 1088 0))),
     su_decaps = (\<lambda>_ ct. Some ct), su_uuid = (\<lambda>s. Some 0)\<rparr>"

lemma map2_add_commute: "map2 (+) xs ys = map2 (+) ys (xs :: bytes)"
  by (induction xs ys rule: list_induct2') (simp_all add: add.commute)

lemma example_suite_correct: "suite_correct example_suite"
  using plain_aead_correct url_b64_correct positional122_correct
  by (simp add: suite_correct_def example_suite_def hkdf_correct_def kem_correct_def dh_correct_def norm32_def map2_add_commute min_def)

definition example_draws :: hs_draws where
  "example_draws = \<lparr>hd_seed = [9], hd_secret = [3], hd_session_id = ''00000000-0000-0000-0000-000000000000'', hd_now = 7,
     hd_nonce = replicate 12 2, hd_range = low_rng\<rparr>"

lemma example_auth:
  "header_get [(''Cookie'', c), (''Authorization'', as_bytes ''Bearer x'')] ''Cookie'' = Some c"
  "validate_token_if_needed A E [(''Cookie'', c), (''Authorization'', as_bytes ''Bearer x'')] key (\<lambda>_. Some ''u'') now = Ok (''u'', None)"
  by (simp_all add: validate_token_if_needed_def header_get_def eq_ignore_ascii_case_def to_ascii_lowercase_def char_of_def bit_simps
      header_to_str_def as_bytes_def bytes_to_str_def strip_prefix_def)

theorem handshake_agreement_witness:
  "\<exists>ch st' rsp tk.
     pq_handshake_request example_suite example_traffic (su_pk example_suite [1]) [4] () [5] (replicate 12 1) low_rng 20 = Some (Ok ch)
   \<and> handle_fresh_handshake example_suite example_traffic [1] [] (\<lambda>_. Some ''u'') 0 example_draws
       [(''Cookie'', as_bytes (ch_cookie ch)), (''Authorization'', as_bytes ''Bearer x'')] (BodyData (ch_body ch)) empty_stores = (st', Some (Ok rsp))
   \<and> pq_handshake_response example_suite example_traffic ch (rs_status rsp) [Chunk (rs_body rsp)] = Ok tk
   \<and> map_of (st_masters st') (tk_session_id tk) = Some (''u'', tk_master tk, 7)"
proof -
  have sid: "length (hd_session_id example_draws) = 36" "utf8_valid (as_bytes (hd_session_id example_draws))"
    by (simp_all add: example_draws_def as_bytes_def)
  have dr: "rng_correct (hd_range example_draws)" "length (hd_nonce example_draws) = NONCE_LEN" "hd_now example_draws = 7"
    using low_rng_correct by (simp_all add: example_draws_def NONCE_LEN_def)
  have pad: "MIN_PADDING \<le> 20" "20 < length PADDING_POOL" "length (replicate 12 (1 :: byte)) = NONCE_LEN"
    by (simp_all add: MIN_PADDING_def PADDING_POOL_def NONCE_LEN_def)
  note agree = handshake_agreement [OF example_suite_correct low_rng_correct dr(1) pad(3) dr(2) example_traffic_range pad(1,2) sid,
      of "[1]" "[4]" "()" "[5]" "[]" "\<lambda>_. Some ''u''" 0 empty_stores]
  then obtain ch where ch: "pq_handshake_request example_suite example_traffic (su_pk example_suite [1]) [4] () [5] (replicate 12 1) low_rng 20 = Some (Ok ch)"
    and next_step: "\<exists>st' rsp. handle_fresh_handshake example_suite example_traffic [1] [] (\<lambda>_. Some ''u'') 0 example_draws
       [(''Cookie'', as_bytes (ch_cookie ch)), (''Authorization'', as_bytes ''Bearer x'')] (BodyData (ch_body ch)) empty_stores = (st', Some (Ok rsp))
      \<and> (\<forall>chunks. chunk_bytes chunks = rs_body rsp \<and> no_errors chunks \<longrightarrow>
          (\<exists>tk. pq_handshake_response example_suite example_traffic ch (rs_status rsp) chunks = Ok tk
            \<and> tk_session_id tk = hd_session_id example_draws
            \<and> map_of (st_masters st') (tk_session_id tk) = Some (''u'', tk_master tk, hd_now example_draws)))"
    using example_auth by metis
  have "chunk_bytes [Chunk b] = b \<and> no_errors [Chunk b]" for b by simp
  then show ?thesis using ch next_step dr(3) by metis
qed

lemma long_token:
  "\<exists>t. list_all b64_char t \<and> token_open plain_aead url_b64 [] 99 t = Ok \<lparr>cl_sub = ''alice'', cl_exp = 1000\<rparr>"
proof -
  let ?raw = "replicate 12 1 @ token_body \<lparr>cl_sub = ''alice'', cl_exp = 1000\<rparr> @ replicate 16 0"
  have "token_open plain_aead url_b64 [] 99 (b64_encode url_b64 ?raw) = Ok \<lparr>cl_sub = ''alice'', cl_exp = 1000\<rparr>"
    using url_b64_correct
    by (simp add: b64_correct_def token_open_def plain_aead_def token_body_def wire_simps VERSION_def as_bytes_def
        u64_to_be_def u16_to_be_def be_encode_numeral u64_from_be_def u16_from_be_def be_decode_def bytes_to_str_def char_of_def bit_simps)
  moreover have "list_all b64_char (b64_encode url_b64 ?raw)" using url_b64_correct unfolding b64_correct_def by blast
  ultimately show ?thesis by blast
qed

lemma bearer_header:
  assumes "list_all b64_char t"
  shows "header_get [(''Authorization'', as_bytes (''Bearer '' @ t))] ''Authorization'' = Some (as_bytes (''Bearer '' @ t))"
    and "header_to_str (as_bytes (''Bearer '' @ t)) = Some (''Bearer '' @ t)"
proof -
  have "32 \<le> (of_char c :: byte) \<and> (of_char c :: byte) < 127" if "b64_char c" for c
    using that unat_of_char_byte [of c] by (auto simp: b64_char_def Let_def word_le_nat_alt word_less_nat_alt)
  then have "list_all (\<lambda>b. b = 9 \<or> (32 \<le> b \<and> b < 127)) (as_bytes (''Bearer '' @ t))"
    using assms by (auto simp: as_bytes_def list_all_iff)
  then show "header_to_str (as_bytes (''Bearer '' @ t)) = Some (''Bearer '' @ t)"
    unfolding header_to_str_def by (simp only: if_True bytes_to_str_as_bytes)
qed (simp add: header_get_def eq_ignore_ascii_case_def)

theorem token_cache_transparent_witness:
  "\<exists>t. map_result fst id (validate_token_if_needed plain_aead url_b64 [(''Authorization'', as_bytes (''Bearer '' @ t))] []
          (\<lambda>x. if x = t then Some ''alice'' else None) 120) = Ok ''alice''"
proof -
  obtain t where t: "list_all b64_char t" "token_open plain_aead url_b64 [] 99 t = Ok \<lparr>cl_sub = ''alice'', cl_exp = 1000\<rparr>"
    using long_token by blast
  let ?hs = "[(''Authorization'', as_bytes (''Bearer '' @ t))]"
  have fresh: "validate_token_if_needed plain_aead url_b64 ?hs [] (\<lambda>_. None) now = Ok (''alice'', Some (t, ''alice''))"
    if "now < 900" for now
  proof -
    have "unat now < 900" using that by (simp add: word_less_nat_alt)
    then have "unat (saturating_add now TOKEN_CACHE_TTL) < 1000" by (simp add: unat_saturating_add TOKEN_CACHE_TTL_def)
    then have "saturating_add now TOKEN_CACHE_TTL < 1000" "now < 1000" using \<open>unat now < 900\<close> by (simp_all add: word_less_nat_alt)
    then show ?thesis
      using token_open_later [OF t(2), of now] bearer_header [OF t(1)]
      by (simp add: validate_token_if_needed_def strip_prefix_append del: append.simps)
  qed
  have "cache_sound plain_aead url_b64 [] (\<lambda>x. if x = t then Some ''alice'' else None) 120"
    using fresh [of 99] by (auto simp: cache_sound_def TOKEN_CACHE_TTL_def intro!: exI [of _ 99])
  from token_cache_transparent [OF this, of ?hs] fresh [of 120] show ?thesis by auto
qed

end
