(* ===== verification/Server_Handlers.thy ===== *)
theory Server_Handlers
  imports Handshake Tunnel_Actor
begin

text \<open>
  The request handlers of \<^verbatim>\<open>src/src/server/handlers.rs\<close>: \<open>dispatch\<close> routes a request by its cookies to a new handshake, to
  the start of a tunnel (\<open>spawn_encrypted_tunnel\<close>, \<open>setup_tunnel_response\<close>) or to a running tunnel
  (\<open>dispatch_to_actor\<close>); the request of the client that starts a tunnel, \<open>try_pq_connect\<close> of
  \<^verbatim>\<open>src/src/client/handshake.rs\<close>, is here too, since the two must agree.

  \<open>app\<close> is the shared state: configuration, the shared maps, the free permits of the tunnel semaphore, the tunnels and
  upload actors that have been spawned, what was sent to each upload channel, and the channels that a failed request closed by dropping their
  senders. What the handler observes of the world
  while it runs is an argument (\<open>tunnel_obs\<close>, \<open>actor_obs\<close>): the clock (one reading per request), the outcome of the upstream connection, the
  chunks of the body and how many polls fit before the deadline, how many commands the upload channel still accepts, and
  the answer to a \<open>Continue\<close> or an end-of-stream marker. The fixed response headers and their random padding are left
  out. \<open>None\<close> is a panic. The permit of the tunnel semaphore is taken where the code takes it and dropped on every error path, with the senders of
  the upload channel. The guards \<open>StreamGuard\<close>, \<open>ActorGuard\<close> and \<open>TunnelGuard\<close> are inlined: a return with an error
  marks the stream as consumed, and nothing suspends between the insertion into the actor map and their disarming.

  Lemmas: the server reads out of the client's cookie the stream id, the target and the keys the client chose; an error
  gives back the permit, leaves the stream consumed and lets the upload actor end; an accepted upload reaches the upload actor in order.
\<close>

section \<open>State\<close>

record app =
  ap_cfg :: traffic_config
  ap_private_key :: bytes
  ap_stores :: stores
  ap_permits :: nat
  ap_tunnels :: "(uuid \<times> tunnel) list"
  ap_uploads :: "(nat \<times> upload_actor) list"
  ap_upload_cmds :: "(nat \<times> upload_cmd) list"
  ap_upload_closed :: "nat list"
  ap_next_channel :: nat

datatype connect_outcome = ConnTimeout | ConnErr string | ConnOk "read_event list" upstream_write

record tunnel_obs =
  to_secs :: u64
  to_ms :: nat
  to_rnd :: nat
  to_connect :: "string \<Rightarrow> nat \<Rightarrow> connect_outcome"
  to_body :: "chunk_event list"
  to_polls :: nat
  to_accepts :: nat

datatype reply_body = BytesBody bytes | ShaperBody shaper_stream | SegmentBody uuid nat | EmptyBody

definition uuid_of_bytes :: "bytes \<Rightarrow> uuid" where "uuid_of_bytes bs = of_nat (be_decode bs)"
definition uuid_bytes :: "uuid \<Rightarrow> bytes" where "uuid_bytes u = be_encode 16 (unat u)"

section \<open>Starting a tunnel\<close>

text \<open>The loop that feeds the decoded frames to the upload actor: what was sent, and the error that ended it early.\<close>

definition forward_body ::
    "base122 \<Rightarrow> frame_cipher \<Rightarrow> encoding_type \<Rightarrow> chunk_event list \<Rightarrow> nat \<Rightarrow> nat \<Rightarrow> string \<Rightarrow> string
      \<Rightarrow> (u64 \<times> bytes) list \<times> (unit, server_error) result" where
  "forward_body B C enc body polls accepts decode_msg closed_msg =
     (let (frames, fin) = decode_stream B polls (decoder_new C enc MAX_FRAME_BUF_SIZE) body
      in if accepts < length frames then (take accepts frames, Err (bad_gateway closed_msg))
         else (frames, case fin of
                 None \<Rightarrow> Err (request_timeout ''request body read timed out'')
               | Some (Err e) \<Rightarrow> Err (bad_request (decode_msg @ io_message e))
               | Some (Ok _) \<Rightarrow> Ok ()))"

definition frame_cmds :: "nat \<Rightarrow> (u64 \<times> bytes) list \<Rightarrow> (nat \<times> upload_cmd) list" where
  "frame_cmds tx frames = map (\<lambda>(seq, data). (tx, UFrame seq data)) frames"

text \<open>The permit is taken at the beginning and moves into the tunnel's task at the end; every return before that drops it. A return
  after the upload actor was spawned also drops the only senders of its channel (\<open>upload_tx\<close> and the clone in the
  tunnel actor that is not run).\<close>

definition try_acquire_tunnel :: "app \<Rightarrow> app option" where
  "try_acquire_tunnel ap = (if ap_permits ap = 0 then None else Some (ap\<lparr>ap_permits := ap_permits ap - 1\<rparr>))"

definition drop_permit :: "app \<Rightarrow> app" where
  "drop_permit ap = ap\<lparr>ap_permits := ap_permits ap + 1\<rparr>"

definition drop_upload_tx :: "nat \<Rightarrow> app \<Rightarrow> app" where
  "drop_upload_tx tx ap = ap\<lparr>ap_upload_closed := ap_upload_closed ap @ [tx]\<rparr>"

definition setup_tunnel_response ::
    "('k, 'd, 'e) suite \<Rightarrow> tunnel_obs \<Rightarrow> string \<Rightarrow> nat \<Rightarrow> uuid \<Rightarrow> frame_cipher \<Rightarrow> frame_cipher \<Rightarrow> app
      \<Rightarrow> app \<times> (reply_body response, server_error) result" where
  "setup_tunnel_response S ob host port stream_id upload_cipher download_cipher ap =
     (case try_acquire_tunnel ap of
        None \<Rightarrow> (ap, Err (service_unavailable ''too many concurrent tunnels''))
      | Some ap \<Rightarrow> (case to_connect ob host port of
        ConnTimeout \<Rightarrow> (drop_permit ap, Err (gateway_timeout ''connect timeout''))
      | ConnErr e \<Rightarrow> (drop_permit ap, Err (bad_gateway e))
      | ConnOk upstream_read upstream_write \<Rightarrow>
          (let tx = ap_next_channel ap;
               cfg = ap_cfg ap;
               encoding = tc_encoding_type cfg;
               (frames, r) = forward_body (su_b122 S) upload_cipher encoding (to_body ob) (to_polls ob) (to_accepts ob)
                               ''decode error: '' ''upload actor closed during initial stream'';
               ap = ap\<lparr>ap_next_channel := tx + 1,
                       ap_uploads := dash_insert tx (upload_new (to_ms ob) upstream_write 0) (ap_uploads ap),
                       ap_upload_cmds := ap_upload_cmds ap @ frame_cmds tx frames\<rparr>
           in case r of
             Err e \<Rightarrow> (drop_permit (drop_upload_tx tx ap), Err e)
           | Ok _ \<Rightarrow>
               (let actor = set_upload_channel tx tx
                      (tunnel_new stream_id (st_streams (ap_stores ap)) (tc_max_download_bytes cfg) (to_secs ob));
                    (actor, body) =
                      (if tc_max_download_bytes cfg = None
                       then (actor, Ok (ShaperBody (with_seq (to_ms ob) (to_rnd ob) (resolve_config cfg) download_cipher 0, upstream_read)))
                       else (let (actor, sg) = take_segment (on_upstream_connected (to_ms ob) (to_rnd ob) upstream_read None
                                                  (resolve_config cfg) download_cipher 0 actor)
                             in (actor, ok_or (map_option (SegmentBody stream_id) sg) (internal ''download segment unavailable''))))
                in case body of
                  Err e \<Rightarrow> (drop_permit (drop_upload_tx tx ap), Err e)
                | Ok body_stream \<Rightarrow>
                    (let handle = \<lparr>ses_cmd_tx = tx, ses_upload_tx = tx, ses_upload_cipher = upload_cipher, ses_encoding = encoding\<rparr>
                     in (ap\<lparr>ap_stores := (ap_stores ap)\<lparr>st_actors := dash_insert stream_id handle (st_actors (ap_stores ap))\<rparr>,
                            ap_tunnels := dash_insert stream_id actor (ap_tunnels ap)\<rparr>,
                         Ok \<lparr>rs_status = 200, rs_body = body_stream\<rparr>))))))"

text \<open>The master key of a session cookie. An expired one is removed.\<close>

definition session_master ::
    "('k, 'd, 'e) suite \<Rightarrow> u64 \<Rightarrow> string \<Rightarrow> stores \<Rightarrow> stores \<times> (string \<times> string \<times> bytes, server_error) result" where
  "session_master S now cookie st =
     (case split_once (CHR '':'') cookie of
        None \<Rightarrow> (st, Err (precondition_required ''invalid session cookie format''))
      | Some (session_id, rest) \<Rightarrow>
          (case split_once (CHR '':'') rest of
             None \<Rightarrow> (st, Err (precondition_required ''invalid session cookie format''))
           | Some (enc_target_b64, enc_stream_id_b64) \<Rightarrow>
               (case validate_uuid (su_uuid S) session_id of
                  Err e \<Rightarrow> (st, Err e)
                | Ok _ \<Rightarrow>
                    (case map_of (st_masters st) session_id of
                       None \<Rightarrow> (st, Err (precondition_required ''session not found''))
                     | Some (username, master, created) \<Rightarrow>
                         if saturating_sub now created > MASTER_EXPIRY
                         then (st\<lparr>st_masters := dash_remove session_id (st_masters st)\<rparr>,
                               Err (precondition_required ''master key expired''))
                         else (st, Ok (enc_target_b64, enc_stream_id_b64, master))))))"

definition open_stream_id :: "('k, 'd, 'e) suite \<Rightarrow> bytes \<Rightarrow> string \<Rightarrow> (uuid, server_error) result" where
  "open_stream_id S master enc_stream_id_b64 =
     rbind (ok_or (b64_decode (su_b64 S) enc_stream_id_b64) (precondition_required ''invalid cookie encoding'')) (\<lambda>enc_stream_id.
     rbind (map_err (\<lambda>_. precondition_required ''failed to decrypt stream ID'')
              (decrypt_bytes (su_aead S) (derive_cookie_stream_key (su_hkdf S) master) enc_stream_id)) (\<lambda>stream_id_bytes.
       if length stream_id_bytes \<noteq> 16 then Err (precondition_required ''invalid stream ID length'')
       else Ok (uuid_of_bytes stream_id_bytes)))"

definition open_target :: "('k, 'd, 'e) suite \<Rightarrow> bytes \<Rightarrow> string \<Rightarrow> (string \<times> nat, server_error) result" where
  "open_target S target_key enc_target_b64 =
     rbind (ok_or (b64_decode (su_b64 S) enc_target_b64) (precondition_required ''invalid cookie encoding'')) (\<lambda>enc_target.
     rbind (map_err (\<lambda>_. precondition_required ''failed to decrypt target'')
              (decrypt_bytes (su_aead S) target_key enc_target)) (\<lambda>target_bytes.
       if \<not> utf8_valid target_bytes then Err (precondition_required ''invalid target utf8'')
       else rbind (ok_or (rsplit_once (CHR '':'') (bytes_to_str target_bytes)) (bad_request ''target must be host:port''))
         (\<lambda>(host, port_str). rbind (ok_or (parse_u16 port_str) (bad_request ''invalid port'')) (\<lambda>port. Ok (host, port)))))"

text \<open>The error paths after the registration drop the armed \<open>StreamGuard\<close>.\<close>

definition guard_stream :: "uuid \<Rightarrow> app \<Rightarrow> app" where
  "guard_stream stream_id ap =
     ap\<lparr>ap_stores := (ap_stores ap)\<lparr>st_streams := mark_consumed stream_id (st_streams (ap_stores ap))\<rparr>\<rparr>"

definition spawn_encrypted_tunnel ::
    "('k, 'd, 'e) suite \<Rightarrow> tunnel_obs \<Rightarrow> string \<Rightarrow> app \<Rightarrow> app \<times> (reply_body response, server_error) result option" where
  "spawn_encrypted_tunnel S ob session_cookie_val ap =
     (case session_master S (to_secs ob) session_cookie_val (ap_stores ap) of
        (st, Err e) \<Rightarrow> (ap\<lparr>ap_stores := st\<rparr>, Some (Err e))
      | (st, Ok (enc_target_b64, enc_stream_id_b64, master)) \<Rightarrow>
          (case open_stream_id S master enc_stream_id_b64 of
             Err e \<Rightarrow> (ap, Some (Err e))
           | Ok stream_id \<Rightarrow>
               (case register stream_id (to_secs ob) (st_streams (ap_stores ap)) of
                  (_, False) \<Rightarrow> (ap, Some (Err (precondition_required ''stream already active'')))
                | (streams, True) \<Rightarrow>
                    (let ap = ap\<lparr>ap_stores := (ap_stores ap)\<lparr>st_streams := streams\<rparr>\<rparr>;
                         (upload_key, download_key, target_key) =
                           derive_connection_keys (su_hkdf S) master (uuid_bytes stream_id)
                     in case open_target S target_key enc_target_b64 of
                       Err e \<Rightarrow> (guard_stream stream_id ap, Some (Err e))
                     | Ok (host, port) \<Rightarrow>
                         (case (aes_new (su_aead S) download_key, aes_new (su_aead S) upload_key) of
                            (Some dl, Some ul) \<Rightarrow>
                              (case setup_tunnel_response S ob host port stream_id (aes_cipher (su_aead S) ul) (aes_cipher (su_aead S) dl) ap of
                                 (ap, Err e) \<Rightarrow> (guard_stream stream_id ap, Some (Err e))
                               | (ap, Ok r) \<Rightarrow> (ap, Some (Ok r)))
                          | _ \<Rightarrow> (guard_stream stream_id ap, None))))))"

section \<open>Requests to a running tunnel\<close>

datatype continue_outcome = ContTimeout | ContClosed | ContReply "nat option"

datatype ack_outcome = AckTimeout | AckClosed | AckReply "(unit, server_error) result"

record actor_obs =
  ao_body :: "chunk_event list"
  ao_polls :: nat
  ao_accepts :: nat
  ao_continue_sent :: bool
  ao_continue :: continue_outcome
  ao_eos_sent :: bool
  ao_ack_id :: nat
  ao_ack :: ack_outcome

text \<open>The result lists what was sent to the upload channel and whether a \<open>Continue\<close> was sent to the tunnel.\<close>

definition dispatch_to_actor ::
    "base122 \<Rightarrow> actor_obs \<Rightarrow> uuid \<Rightarrow> session_handle \<Rightarrow> upload_cmd list \<times> bool \<times> (reply_body response, server_error) result" where
  "dispatch_to_actor B ob stream_id h =
     (let (frames, r) = forward_body B (ses_upload_cipher h) (ses_encoding h) (ao_body ob) (ao_polls ob) (ao_accepts ob)
                          ''frame decode error: '' ''upload actor closed'';
          sent = map (\<lambda>(seq, data). UFrame seq data) frames
      in case r of
        Err e \<Rightarrow> (sent, False, Err e)
      | Ok _ \<Rightarrow>
          if frames = []
          then (if \<not> ao_continue_sent ob then (sent, False, Err (bad_gateway ''actor closed''))
                else (sent, True,
                      case ao_continue ob of
                        ContReply (Some segment) \<Rightarrow> Ok \<lparr>rs_status = 200, rs_body = SegmentBody stream_id segment\<rparr>
                      | ContReply None \<Rightarrow> Ok \<lparr>rs_status = 204, rs_body = EmptyBody\<rparr>
                      | ContClosed \<Rightarrow> Ok \<lparr>rs_status = 204, rs_body = EmptyBody\<rparr>
                      | ContTimeout \<Rightarrow> Err (gateway_timeout ''continue timed out'')))
          else (let max_seq = fold max (map fst frames) 0 in
                if \<not> ao_eos_sent ob then (sent, False, Err (bad_gateway ''upload actor closed''))
                else (sent @ [UEos max_seq (ao_ack_id ob)], False,
                      case ao_ack ob of
                        AckReply (Ok _) \<Rightarrow> Ok \<lparr>rs_status = 204, rs_body = EmptyBody\<rparr>
                      | AckReply (Err e) \<Rightarrow> Err e
                      | AckClosed \<Rightarrow> Err (bad_gateway ''actor closed before upload ack'')
                      | AckTimeout \<Rightarrow> Err (gateway_timeout ''upload drain timeout''))))"

definition handle_stream_not_found :: "stream_registry \<Rightarrow> uuid \<Rightarrow> server_error" where
  "handle_stream_not_found registry stream_id =
     (case check stream_id registry of
        QConsumed \<Rightarrow> precondition_required ''stream already consumed''
      | QActive \<Rightarrow> precondition_required ''stream setup incomplete''
      | QFresh \<Rightarrow> precondition_required ''stream not found'')"

section \<open>Routing\<close>

record ('k) request_obs =
  ro_tunnel :: tunnel_obs
  ro_actor :: actor_obs
  ro_draws :: hs_draws
  ro_body :: body_read
  ro_token_key :: 'k
  ro_cache :: "string \<Rightarrow> string option"
  ro_unix_now :: u64

definition dispatch ::
    "('k, 'd, 'e) suite \<Rightarrow> 'k request_obs \<Rightarrow> headers \<Rightarrow> app \<Rightarrow> app \<times> (reply_body response, server_error) result option" where
  "dispatch S ob hs ap =
     (case extract_cookie_value hs ''stream'' of
        Some stream_cookie_val \<Rightarrow>
          (case su_uuid S stream_cookie_val of
             None \<Rightarrow> (ap, Some (Err (precondition_required ''invalid stream id'')))
           | Some stream_id \<Rightarrow>
               (case map_of (st_actors (ap_stores ap)) stream_id of
                  Some h \<Rightarrow>
                    (let (cmds, _, r) = dispatch_to_actor (su_b122 S) (ro_actor ob) stream_id h
                     in (ap\<lparr>ap_upload_cmds := ap_upload_cmds ap @ map (Pair (ses_upload_tx h)) cmds\<rparr>, Some r))
                | None \<Rightarrow> (ap, Some (Err (handle_stream_not_found (st_streams (ap_stores ap)) stream_id)))))
      | None \<Rightarrow>
          (case extract_cookie_value hs ''session'' of
             Some session_val \<Rightarrow>
               if CHR '':'' \<notin> set session_val
               then (ap, Some (Err (precondition_required ''invalid session cookie: encrypted session required'')))
               else spawn_encrypted_tunnel S (ro_tunnel ob) session_val ap
           | None \<Rightarrow>
               if extract_cookie_value hs ''eph_pk_a'' \<noteq> None
               then (let (st, r) = handle_fresh_handshake S (ap_cfg ap) (ap_private_key ap) (ro_token_key ob) (ro_cache ob) (ro_unix_now ob)
                                     (ro_draws ob) hs (ro_body ob) (ap_stores ap)
                     in (ap\<lparr>ap_stores := st\<rparr>,
                         map_option (map_result (\<lambda>rsp. \<lparr>rs_status = rs_status rsp, rs_body = BytesBody (rs_body rsp)\<rparr>) id) r))
               else (ap, Some (Err (bad_request ''missing required cookies'')))))"

section \<open>The client's request\<close>

record 'k session_request =
  sr_stream_id :: uuid
  sr_upload :: "'k aes_frame_cipher"
  sr_download :: "'k aes_frame_cipher"
  sr_cookie :: string
  sr_early_data :: bytes
  sr_remaining :: bytes
  sr_frames_sent :: nat

text \<open>\<open>try_pq_connect\<close> up to the request; \<open>stream_id\<close> is the new UUID, \<open>n1\<close>, \<open>n2\<close> the nonces of the cookie.\<close>

definition pq_connect_request ::
    "('k, 'd, 'e) suite \<Rightarrow> traffic_config \<Rightarrow> pq_session_ticket \<Rightarrow> uuid \<Rightarrow> bytes \<Rightarrow> bytes \<Rightarrow> (nat \<Rightarrow> range_rng) \<Rightarrow> (nat \<Rightarrow> bytes)
      \<Rightarrow> nat \<Rightarrow> string \<Rightarrow> bytes \<Rightarrow> ('k session_request, string) result option" where
  "pq_connect_request S cfg ticket stream_id n1 n2 rrs nonces padding_len target_host initial_payload =
     (let master = tk_master ticket;
          stream_id_bytes = uuid_bytes stream_id;
          (upload_key, download_key, target_key) = derive_connection_keys (su_hkdf S) master stream_id_bytes
      in case (aes_new (su_aead S) upload_key, aes_new (su_aead S) download_key) of
        (Some upload_cipher, Some download_cipher) \<Rightarrow>
          and_then (Some (encrypt_bytes (su_aead S) target_key n1 (as_bytes target_host))) (\<lambda>enc_target.
          and_then (Some (encrypt_bytes (su_aead S) (derive_cookie_stream_key (su_hkdf S) master) n2 stream_id_bytes)) (\<lambda>enc_stream_id.
            let cookie_val = tk_session_id ticket @ '':'' @ b64_encode (su_b64 S) enc_target @ '':'' @ b64_encode (su_b64 S) enc_stream_id
            in and_then (map_option (map_err io_message)
                 (encode_initial_payload (su_b122 S) rrs nonces initial_payload MAX_RAW_PAYLOAD (aes_cipher (su_aead S) upload_cipher) cfg))
                 (\<lambda>(early_data, remaining, frames_sent). Some (Ok
                    \<lparr>sr_stream_id = stream_id, sr_upload = upload_cipher, sr_download = download_cipher,
                     sr_cookie = build_tunnel_cookie padding_len cookie_val, sr_early_data = early_data,
                     sr_remaining = remaining, sr_frames_sent = frames_sent\<rparr>))))
      | _ \<Rightarrow> None)"

section \<open>Lemmas: the session cookie\<close>

lemma uuid_of_uuid_bytes [simp]: "uuid_of_bytes (uuid_bytes u) = u"
proof -
  have "unat u < 2 ^ 128" using unsigned_less [of u] by simp
  then show ?thesis by (simp add: uuid_of_bytes_def uuid_bytes_def be_decode_encode)
qed

lemma length_uuid_bytes [simp]: "length (uuid_bytes u) = 16"
  by (simp add: uuid_bytes_def)

lemma decrypt_encrypt_bytes:
  assumes "aead_correct A" and "length key = 32" and "length nonce = NONCE_LEN" and "length data \<le> GCM_MAX"
  obtains s where "encrypt_bytes A key nonce data = Ok s" and "decrypt_bytes A key s = Ok data"
proof -
  from assms(1,2) obtain k where "ae_key A key = Some k" by (auto simp: aead_correct_def)
  then show thesis
    using encrypt_decrypt_with_cipher [OF assms(1,3,4), of k] that
    by (auto simp: encrypt_bytes_def decrypt_bytes_def make_key_def)
qed

lemma b64_no_colon: "b64_correct E \<Longrightarrow> CHR '':'' \<notin> set (b64_encode E d)"
proof -
  assume "b64_correct E"
  then have "list_all b64_char (b64_encode E d)" unfolding b64_correct_def by blast
  moreover have "\<not> b64_char (CHR '':'')" by (simp add: b64_char_def)
  ultimately show ?thesis by (auto simp: list_all_iff)
qed

lemma b64_roundtrip: "b64_correct E \<Longrightarrow> b64_decode E (b64_encode E d) = Some d"
  by (simp add: b64_correct_def)

lemma connection_key_lengths:
  assumes "hkdf_correct hk" and "derive_connection_keys hk master i = (k1, k2, k3)"
  shows "length k1 = 32" and "length k2 = 32" and "length k3 = 32"
  using assms by (auto simp: derive_connection_keys_def hkdf_correct_def Let_def)

text \<open>The server's reading of a cookie that was written for a live session.\<close>

lemma session_master_ok:
  assumes "CHR '':'' \<notin> set sid" and "b64_correct E" and "su_uuid S sid = Some u"
    and "map_of (st_masters st) sid = Some (user, master, created)" and "saturating_sub now created \<le> MASTER_EXPIRY"
  shows "session_master S now (sid @ '':'' @ b64_encode E a @ '':'' @ b64_encode E b) st = (st, Ok (b64_encode E a, b64_encode E b, master))"
  using assms split_once_append [OF assms(1)] split_once_append [OF b64_no_colon [OF assms(2), of a]]
  by (simp add: session_master_def validate_uuid_def not_less [symmetric])

lemma open_stream_id_ok:
  assumes "b64_correct (su_b64 S)" and "decrypt_bytes (su_aead S) (derive_cookie_stream_key (su_hkdf S) master) e = Ok (uuid_bytes i)"
  shows "open_stream_id S master (b64_encode (su_b64 S) e) = Ok i"
  using assms by (simp add: open_stream_id_def b64_roundtrip)

lemma open_target_ok:
  assumes "b64_correct (su_b64 S)" and "decrypt_bytes (su_aead S) key e = Ok (as_bytes target)" and "utf8_valid (as_bytes target)"
    and "rsplit_once (CHR '':'') target = Some (host, ps)" and "parse_u16 ps = Some port"
  shows "open_target S key (b64_encode (su_b64 S) e) = Ok (host, port)"
  using assms by (simp add: open_target_def b64_roundtrip)

section \<open>Lemmas: setting up a tunnel\<close>

lemma take_segment_connected:
  "\<exists>a i. take_segment (on_upstream_connected now rnd rd None cfg C seq t) = (a, Some i)"
  by (simp add: take_segment_def on_upstream_connected_def segment_new_def)

text \<open>The shaper that feeds the body of a reply.\<close>

definition reply_shaper :: "app \<Rightarrow> reply_body \<Rightarrow> shaper_stream option" where
  "reply_shaper ap b =
     (case b of
        ShaperBody s \<Rightarrow> Some s
      | SegmentBody u n \<Rightarrow>
          Option.bind (map_of (ap_tunnels ap) u) (\<lambda>t. Option.bind (map_of (tn_segments t) n) sg_shaper)
      | _ \<Rightarrow> None)"

lemma take_segment_shaper:
  "take_segment (on_upstream_connected now rnd rd None cfg C seq t) = (a, Some n) \<Longrightarrow>
     (\<exists>sg. map_of (tn_segments a) n = Some sg \<and> sg_shaper sg = Some (with_seq now rnd cfg C seq, rd))
       \<and> tn_stream_id a = tn_stream_id t \<and> tn_upload_tx a = tn_upload_tx t"
  by (auto simp: take_segment_def on_upstream_connected_def segment_new_def)

lemma forward_body_ok:
  assumes "decode_stream B polls (decoder_new C enc MAX_FRAME_BUF_SIZE) body = (frames, Some (Ok ()))" and "length frames \<le> accepts"
  shows "forward_body B C enc body polls accepts m1 m2 = (frames, Ok ())"
  using assms by (simp add: forward_body_def)

lemma setup_tunnel_ok:
  assumes "0 < ap_permits ap" and "to_connect ob host port = ConnOk rd uw"
    and "forward_body (su_b122 S) ul (tc_encoding_type (ap_cfg ap)) (to_body ob) (to_polls ob) (to_accepts ob)
           ''decode error: '' ''upload actor closed during initial stream'' = (frames, Ok ())"
  shows "\<exists>ap' b. setup_tunnel_response S ob host port i ul dl ap = (ap', Ok \<lparr>rs_status = 200, rs_body = b\<rparr>)
     \<and> ap_permits ap' = ap_permits ap - 1
     \<and> map_of (st_actors (ap_stores ap')) i
         = Some \<lparr>ses_cmd_tx = ap_next_channel ap, ses_upload_tx = ap_next_channel ap, ses_upload_cipher = ul,
                 ses_encoding = tc_encoding_type (ap_cfg ap)\<rparr>
     \<and> st_streams (ap_stores ap') = st_streams (ap_stores ap)
     \<and> map_of (ap_uploads ap') (ap_next_channel ap) = Some (upload_new (to_ms ob) uw 0)
     \<and> ap_upload_cmds ap' = ap_upload_cmds ap @ frame_cmds (ap_next_channel ap) frames
     \<and> reply_shaper ap' b = Some (with_seq (to_ms ob) (to_rnd ob) (resolve_config (ap_cfg ap)) dl 0, rd)
     \<and> (\<exists>tn. map_of (ap_tunnels ap') i = Some tn \<and> tn_stream_id tn = i \<and> tn_upload_tx tn = Some (ap_next_channel ap))"
proof -
  obtain a sg where sg: "take_segment (on_upstream_connected (to_ms ob) (to_rnd ob) rd None (resolve_config (ap_cfg ap)) dl 0
      (set_upload_channel (ap_next_channel ap) (ap_next_channel ap)
        (tunnel_new i (st_streams (ap_stores ap)) (tc_max_download_bytes (ap_cfg ap)) (to_secs ob)))) = (a, Some sg)"
    using take_segment_connected by blast
  show ?thesis
    using assms sg by (cases "tc_max_download_bytes (ap_cfg ap)")
      (auto simp: setup_tunnel_response_def try_acquire_tunnel_def reply_shaper_def set_upload_channel_def tunnel_new_def Let_def
        dest!: take_segment_shaper)
qed

text \<open>An error of the set-up gives back the permit and leaves the maps alone; an upload actor it has spawned is left with a closed channel.\<close>

definition upload_abandoned :: "tunnel_obs \<Rightarrow> app \<Rightarrow> app \<Rightarrow> bool" where
  "upload_abandoned ob ap ap' \<longleftrightarrow>
     (\<exists>uw frames. ap_uploads ap' = dash_insert (ap_next_channel ap) (upload_new (to_ms ob) uw 0) (ap_uploads ap)
        \<and> ap_upload_cmds ap' = ap_upload_cmds ap @ frame_cmds (ap_next_channel ap) frames
        \<and> ap_upload_closed ap' = ap_upload_closed ap @ [ap_next_channel ap])"

lemma setup_tunnel_err:
  assumes "setup_tunnel_response S ob host port i ul dl ap = (ap', Err e)"
  shows "ap_permits ap' = ap_permits ap \<and> ap_stores ap' = ap_stores ap \<and> ap_tunnels ap' = ap_tunnels ap
    \<and> (ap_uploads ap' = ap_uploads ap \<and> ap_upload_cmds ap' = ap_upload_cmds ap \<and> ap_upload_closed ap' = ap_upload_closed ap
       \<or> upload_abandoned ob ap ap')"
  using assms
  by (auto simp: setup_tunnel_response_def try_acquire_tunnel_def drop_permit_def drop_upload_tx_def upload_abandoned_def Let_def
      split: if_splits connect_outcome.splits prod.splits result.splits)

text \<open>An upload actor whose channel is closed ends, whatever is still queued.\<close>

lemma ack_all_waiters_closed: "ua_phase (ack_all_waiters ua) = UClosed"
  by (simp add: ack_all_waiters_def answer_def Let_def)

lemma upload_run_closed:
  "UChannelClosed \<in> set evs \<Longrightarrow> \<exists>ua'. upload_run evs ua = (ua', True) \<and> ua_phase ua' = UClosed"
proof (induction evs arbitrary: ua)
  case (Cons ev evs)
  then show ?case
    by (cases "snd (upload_step ev ua)") (auto simp: ack_all_waiters_closed upload_step_def split: prod.splits)
qed simp

text \<open>A request with the session cookie of a live session, from the routing to the spawned tunnel.\<close>

lemma session_cookie_lookup:
  assumes "header_get hs ''Cookie'' = Some (as_bytes (build_tunnel_cookie padding_len v))" and "list_all cookie_char v"
    and "MIN_PADDING \<le> padding_len" and "padding_len < length PADDING_POOL"
  shows "extract_cookie_value hs ''stream'' = None" and "extract_cookie_value hs ''session'' = Some v"
proof -
  have "list_all b64_char ''session''" "list_all b64_char ''stream''" by (simp_all add: b64_char_def)
  then show "extract_cookie_value hs ''stream'' = None" "extract_cookie_value hs ''session'' = Some v"
    using cookie_lookup [OF assms(1) [unfolded build_tunnel_cookie_def] assms(3,4) _ assms(2)] by auto
qed

lemma spawn_encrypted_tunnel_ok:
  assumes "session_master S (to_secs ob) v (ap_stores ap) = (ap_stores ap, Ok (et, es, master))"
    and "open_stream_id S master es = Ok i" and "map_of (st_streams (ap_stores ap)) i = None"
    and "derive_connection_keys (su_hkdf S) master (uuid_bytes i) = (uk, dk, tkey)" and "open_target S tkey et = Ok (host, port)"
    and "aes_new (su_aead S) uk = Some ul" and "aes_new (su_aead S) dk = Some dl"
    and "0 < ap_permits ap" and "to_connect ob host port = ConnOk rd uw"
    and "forward_body (su_b122 S) (aes_cipher (su_aead S) ul) (tc_encoding_type (ap_cfg ap)) (to_body ob) (to_polls ob) (to_accepts ob)
           ''decode error: '' ''upload actor closed during initial stream'' = (frames, Ok ())"
  shows "\<exists>ap' b h. spawn_encrypted_tunnel S ob v ap = (ap', Some (Ok \<lparr>rs_status = 200, rs_body = b\<rparr>))
     \<and> map_of (st_actors (ap_stores ap')) i = Some h \<and> ses_upload_cipher h = aes_cipher (su_aead S) ul
     \<and> check i (st_streams (ap_stores ap')) = QActive
     \<and> map_of (ap_uploads ap') (ses_upload_tx h) = Some (upload_new (to_ms ob) uw 0)
     \<and> ap_upload_cmds ap' = ap_upload_cmds ap @ frame_cmds (ses_upload_tx h) frames
     \<and> reply_shaper ap' b = Some (with_seq (to_ms ob) (to_rnd ob) (resolve_config (ap_cfg ap)) (aes_cipher (su_aead S) dl) 0, rd)
     \<and> (\<exists>tn. map_of (ap_tunnels ap') i = Some tn \<and> tn_stream_id tn = i \<and> tn_upload_tx tn = Some (ses_upload_tx h))
     \<and> ap_permits ap' = ap_permits ap - 1"
proof -
  define ap1 where "ap1 = ap\<lparr>ap_stores := (ap_stores ap)\<lparr>st_streams := dash_insert i (SActive, to_secs ob) (st_streams (ap_stores ap))\<rparr>\<rparr>"
  have reg: "register i (to_secs ob) (st_streams (ap_stores ap)) = (st_streams (ap_stores ap1), True)"
    using assms(3) by (simp add: register_def ap1_def)
  obtain ap' b where su: "setup_tunnel_response S ob host port i (aes_cipher (su_aead S) ul) (aes_cipher (su_aead S) dl) ap1
        = (ap', Ok \<lparr>rs_status = 200, rs_body = b\<rparr>)"
      and post: "ap_permits ap' = ap_permits ap1 - 1"
        "map_of (st_actors (ap_stores ap')) i = Some \<lparr>ses_cmd_tx = ap_next_channel ap1, ses_upload_tx = ap_next_channel ap1,
           ses_upload_cipher = aes_cipher (su_aead S) ul, ses_encoding = tc_encoding_type (ap_cfg ap1)\<rparr>"
        "st_streams (ap_stores ap') = st_streams (ap_stores ap1)"
        "map_of (ap_uploads ap') (ap_next_channel ap1) = Some (upload_new (to_ms ob) uw 0)"
        "ap_upload_cmds ap' = ap_upload_cmds ap1 @ frame_cmds (ap_next_channel ap1) frames"
        "reply_shaper ap' b = Some (with_seq (to_ms ob) (to_rnd ob) (resolve_config (ap_cfg ap1)) (aes_cipher (su_aead S) dl) 0, rd)"
        "\<exists>tn. map_of (ap_tunnels ap') i = Some tn \<and> tn_stream_id tn = i \<and> tn_upload_tx tn = Some (ap_next_channel ap1)"
    using setup_tunnel_ok [of ap1 ob host port rd uw S "aes_cipher (su_aead S) ul" frames i "aes_cipher (su_aead S) dl"] assms(8-10)
    by (auto simp: ap1_def)
  have "spawn_encrypted_tunnel S ob v ap = (ap', Some (Ok \<lparr>rs_status = 200, rs_body = b\<rparr>))"
    using assms(1,2,4-7) reg su by (simp add: spawn_encrypted_tunnel_def ap1_def)
  moreover have "check i (st_streams (ap_stores ap')) = QActive" using post(3) by (simp add: check_def ap1_def)
  ultimately show ?thesis using post by (auto simp: ap1_def)
qed

section \<open>Properties\<close>

text \<open>C19: client and server agree on a tunnel. For a live session and an unused stream id, the request that the client
  builds is accepted by the server: it connects to the host and port that the client named, the client's stream id is active,
  its handle decrypts with the client's upload key, and the upload actor is sent the first bytes of the client's payload
  as frames numbered from zero, the client keeping the rest; the reply is fed, directly or through the tunnel's first segment, by a
  shaper that reads the upstream and seals frames from number zero on with the cipher the client decrypts its download with.\<close>

theorem tunnel_request_agreement:
  assumes S: "suite_correct S" and rrs: "\<forall>k. rng_correct (rrs k)" and nonces: "\<forall>k. length (nonces k) = NONCE_LEN"
    and range: "fst (pc_range (tc_global (ap_cfg ap))) \<le> snd (pc_range (tc_global (ap_cfg ap)))"
    and n: "length n1 = NONCE_LEN" "length n2 = NONCE_LEN"
    and pad: "MIN_PADDING \<le> padding_len" "padding_len < length PADDING_POOL"
    and sid: "list_all b64_char (tk_session_id tk)" "su_uuid S (tk_session_id tk) = Some u"
    and target: "utf8_valid (as_bytes target)" "length target \<le> GCM_MAX" "rsplit_once (CHR '':'') target = Some (host, ps)"
      "parse_u16 ps = Some port"
    and live: "map_of (st_masters (ap_stores ap)) (tk_session_id tk) = Some (user, tk_master tk, created)"
    and fresh: "map_of (st_streams (ap_stores ap)) i = None" and permit: "0 < ap_permits ap"
  shows "\<exists>sr frames. pq_connect_request S (ap_cfg ap) tk i n1 n2 rrs nonces padding_len target payload = Some (Ok sr)
    \<and> sr_stream_id sr = i \<and> map fst frames = map of_nat [0..<sr_frames_sent sr] \<and> concat (map snd frames) @ sr_remaining sr = payload
    \<and> (\<forall>hs ob rd uw. header_get hs ''Cookie'' = Some (as_bytes (sr_cookie sr))
         \<and> saturating_sub (to_secs (ro_tunnel ob)) created \<le> MASTER_EXPIRY
         \<and> to_connect (ro_tunnel ob) host port = ConnOk rd uw
         \<and> chunk_bytes (to_body (ro_tunnel ob)) = sr_early_data sr \<and> no_errors (to_body (ro_tunnel ob))
         \<and> length frames + length (to_body (ro_tunnel ob)) < to_polls (ro_tunnel ob)
         \<and> length frames \<le> to_accepts (ro_tunnel ob) \<longrightarrow>
       (\<exists>ap' b h. dispatch S ob hs ap = (ap', Some (Ok \<lparr>rs_status = 200, rs_body = b\<rparr>))
          \<and> map_of (st_actors (ap_stores ap')) i = Some h \<and> ses_upload_cipher h = aes_cipher (su_aead S) (sr_upload sr)
          \<and> check i (st_streams (ap_stores ap')) = QActive
          \<and> map_of (ap_uploads ap') (ses_upload_tx h) = Some (upload_new (to_ms (ro_tunnel ob)) uw 0)
          \<and> ap_upload_cmds ap' = ap_upload_cmds ap @ frame_cmds (ses_upload_tx h) frames
          \<and> reply_shaper ap' b = Some (with_seq (to_ms (ro_tunnel ob)) (to_rnd (ro_tunnel ob)) (resolve_config (ap_cfg ap))
              (aes_cipher (su_aead S) (sr_download sr)) 0, rd)
          \<and> (\<exists>tn. map_of (ap_tunnels ap') i = Some tn \<and> tn_stream_id tn = i \<and> tn_upload_tx tn = Some (ses_upload_tx h))))"
proof -
  let ?A = "su_aead S" and ?hk = "su_hkdf S" and ?E = "su_b64 S" and ?cfg = "ap_cfg ap"
  have A: "aead_correct ?A" and E: "b64_correct ?E" and hk: "hkdf_correct ?hk" and B: "base122_correct (su_b122 S)"
    using S by (auto simp: suite_correct_def)
  obtain uk dk tkey where keys: "derive_connection_keys ?hk (tk_master tk) (uuid_bytes i) = (uk, dk, tkey)"
    by (metis prod.collapse)
  note kl = connection_key_lengths [OF hk keys]
  obtain ul dl where ul: "aes_new ?A uk = Some ul" and dl: "aes_new ?A dk = Some dl"
    using aes_new_ok [OF A kl(1)] aes_new_ok [OF A kl(2)] by blast
  obtain et where et: "encrypt_bytes ?A tkey n1 (as_bytes target) = Ok et" "decrypt_bytes ?A tkey et = Ok (as_bytes target)"
    using decrypt_encrypt_bytes [OF A kl(3) n(1), of "as_bytes target"] target(2) by auto
  have ck: "length (derive_cookie_stream_key ?hk (tk_master tk)) = 32"
    using hk by (simp add: derive_cookie_stream_key_def hkdf_correct_def)
  obtain es where es: "encrypt_bytes ?A (derive_cookie_stream_key ?hk (tk_master tk)) n2 (uuid_bytes i) = Ok es"
      "decrypt_bytes ?A (derive_cookie_stream_key ?hk (tk_master tk)) es = Ok (uuid_bytes i)"
    using decrypt_encrypt_bytes [OF A ck n(2), of "uuid_bytes i"] by (auto simp: GCM_MAX_def)
  obtain body remaining k frames where enc: "encode_initial_payload (su_b122 S) rrs nonces payload MAX_RAW_PAYLOAD (aes_cipher ?A ul) ?cfg
          = Some (Ok (body, remaining, k))"
      and fr: "map fst frames = map of_nat [0..<k]" "concat (map snd frames) @ remaining = payload"
      and dec: "\<forall>chunks fuel. chunk_bytes chunks = body \<and> no_errors chunks \<and> k + length chunks < fuel \<longrightarrow>
         decode_stream (su_b122 S) fuel (decoder_new (aes_cipher ?A ul) (tc_encoding_type ?cfg) MAX_FRAME_BUF_SIZE) chunks = (frames, Some (Ok ()))"
    using initial_payload_frames [OF aes_cipher_contract [OF A] B rrs nonces range] by blast
  let ?val = "tk_session_id tk @ '':'' @ b64_encode ?E et @ '':'' @ b64_encode ?E es"
  define sr where "sr = \<lparr>sr_stream_id = i, sr_upload = ul, sr_download = dl, sr_cookie = build_tunnel_cookie padding_len ?val,
      sr_early_data = body, sr_remaining = remaining, sr_frames_sent = k\<rparr>"
  have req: "pq_connect_request S ?cfg tk i n1 n2 rrs nonces padding_len target payload = Some (Ok sr)"
    using keys ul dl et es enc by (simp add: pq_connect_request_def sr_def)
  have kf: "length frames = k" using arg_cong [OF fr(1), of length] by simp
  have nc: "CHR '':'' \<notin> set (tk_session_id tk)" using sid(1) by (auto simp: list_all_iff b64_char_def)
  have server: "\<exists>ap' b h. dispatch S ob hs ap = (ap', Some (Ok \<lparr>rs_status = 200, rs_body = b\<rparr>))
          \<and> map_of (st_actors (ap_stores ap')) i = Some h \<and> ses_upload_cipher h = aes_cipher ?A (sr_upload sr)
          \<and> check i (st_streams (ap_stores ap')) = QActive
          \<and> map_of (ap_uploads ap') (ses_upload_tx h) = Some (upload_new (to_ms (ro_tunnel ob)) uw 0)
          \<and> ap_upload_cmds ap' = ap_upload_cmds ap @ frame_cmds (ses_upload_tx h) frames
          \<and> reply_shaper ap' b = Some (with_seq (to_ms (ro_tunnel ob)) (to_rnd (ro_tunnel ob)) (resolve_config (ap_cfg ap))
              (aes_cipher (su_aead S) (sr_download sr)) 0, rd)
          \<and> (\<exists>tn. map_of (ap_tunnels ap') i = Some tn \<and> tn_stream_id tn = i \<and> tn_upload_tx tn = Some (ses_upload_tx h))"
    if h: "header_get hs ''Cookie'' = Some (as_bytes (sr_cookie sr))"
      and age: "saturating_sub (to_secs (ro_tunnel ob)) created \<le> MASTER_EXPIRY"
      and conn: "to_connect (ro_tunnel ob) host port = ConnOk rd uw"
      and ch: "chunk_bytes (to_body (ro_tunnel ob)) = sr_early_data sr" "no_errors (to_body (ro_tunnel ob))"
      and polls: "length frames + length (to_body (ro_tunnel ob)) < to_polls (ro_tunnel ob)"
      and acc: "length frames \<le> to_accepts (ro_tunnel ob)" for hs ob rd uw
  proof -
    let ?ob = "ro_tunnel ob"
    have chars: "list_all cookie_char ?val"
      using sid(1) E by (auto simp: b64_correct_def list_all_iff cookie_char_def)
    have "extract_cookie_value hs ''stream'' = None" "extract_cookie_value hs ''session'' = Some ?val"
      by (rule session_cookie_lookup [OF _ chars pad]; use h in \<open>simp add: sr_def\<close>)+
    then have "dispatch S ob hs ap = spawn_encrypted_tunnel S ?ob ?val ap" by (simp add: dispatch_def)
    moreover have "forward_body (su_b122 S) (aes_cipher ?A ul) (tc_encoding_type ?cfg) (to_body ?ob) (to_polls ?ob) (to_accepts ?ob)
           ''decode error: '' ''upload actor closed during initial stream'' = (frames, Ok ())"
      using dec ch polls acc kf by (intro forward_body_ok) (auto simp: sr_def)
    ultimately show ?thesis
      using spawn_encrypted_tunnel_ok [OF session_master_ok [OF nc E sid(2) live age, of et es] open_stream_id_ok [OF E es(2)] fresh keys
          open_target_ok [OF E et(2) target(1,3,4)] ul dl permit conn]
      by (auto simp: sr_def)
  qed
  show ?thesis
    using req fr server by (intro exI [of _ sr] exI [of _ frames]) (auto simp: sr_def)
qed

text \<open>C20: a tunnel that cannot be set up leaves nothing behind. Whatever goes wrong with a session cookie, the permit that was taken is
  given back, no handle and no tunnel actor is left, and of the registry either nothing has changed or exactly one id,
  unused before, has been added and is consumed, so the same cookie cannot be tried again. If an upload actor was spawned for
  it, the senders of its channel are dropped, and it ends when it gets to the end of the channel, whatever was queued before.\<close>

theorem failed_tunnel_leaves_nothing:
  assumes "spawn_encrypted_tunnel S ob cookie ap = (ap', Some (Err e))"
  shows "ap_permits ap' = ap_permits ap \<and> st_actors (ap_stores ap') = st_actors (ap_stores ap) \<and> ap_tunnels ap' = ap_tunnels ap
    \<and> (st_streams (ap_stores ap') = st_streams (ap_stores ap)
       \<or> (\<exists>i. map_of (st_streams (ap_stores ap)) i = None
            \<and> st_streams (ap_stores ap') = mark_consumed i (fst (register i (to_secs ob) (st_streams (ap_stores ap))))
            \<and> check i (st_streams (ap_stores ap')) = QConsumed))
    \<and> (\<forall>tx ua. map_of (ap_uploads ap') tx = Some ua \<longrightarrow> map_of (ap_uploads ap) tx = Some ua
       \<or> tx \<in> set (ap_upload_closed ap')
         \<and> (\<forall>evs. UChannelClosed \<in> set evs \<longrightarrow> (\<exists>ua'. upload_run evs ua = (ua', True) \<and> ua_phase ua' = UClosed)))"
proof -
  have sm: "session_master S now c st = (st', r) \<Longrightarrow> st_actors st' = st_actors st \<and> st_streams st' = st_streams st" for now c st st' r
    by (auto simp: session_master_def split: option.splits result.splits if_splits prod.splits)
  have consumed: "check i (mark_consumed i (dash_insert i (st, t) m)) = QConsumed" for i st t m
    by (simp add: check_result mark_consumed_lookup)
  have "ap_permits ap' = ap_permits ap \<and> st_actors (ap_stores ap') = st_actors (ap_stores ap) \<and> ap_tunnels ap' = ap_tunnels ap
    \<and> (st_streams (ap_stores ap') = st_streams (ap_stores ap)
       \<or> (\<exists>i. map_of (st_streams (ap_stores ap)) i = None
            \<and> st_streams (ap_stores ap') = mark_consumed i (fst (register i (to_secs ob) (st_streams (ap_stores ap))))
            \<and> check i (st_streams (ap_stores ap')) = QConsumed))
    \<and> (ap_uploads ap' = ap_uploads ap \<or> upload_abandoned ob ap ap')"
    using assms sm [of "to_secs ob" cookie "ap_stores ap"]
    by (auto simp: spawn_encrypted_tunnel_def guard_stream_def register_def Let_def consumed upload_abandoned_def
        dest!: setup_tunnel_err split: prod.splits result.splits option.splits bool.splits)
  then show ?thesis using upload_run_closed by (auto simp: upload_abandoned_def split: if_splits)
qed

section \<open>Examples\<close>

definition example_app :: app where
  "example_app = \<lparr>ap_cfg = example_traffic, ap_private_key = [1],
     ap_stores = empty_stores\<lparr>st_masters := [(''ab'', (''u'', replicate 32 3, 7))]\<rparr>, ap_permits = 1, ap_tunnels = [], ap_uploads = [],
     ap_upload_cmds = [], ap_upload_closed = [], ap_next_channel = 0\<rparr>"

definition example_obs :: "bytes \<Rightarrow> bytes request_obs" where
  "example_obs body =
     \<lparr>ro_tunnel = \<lparr>to_secs = 8, to_ms = 0, to_rnd = 0,
        to_connect = (\<lambda>h p. if h = ''h'' \<and> p = 80 then ConnOk [] (DirectWrite \<lparr>sk_script = [], sk_sent = []\<rparr>) else ConnTimeout),
        to_body = [Chunk body], to_polls = 99, to_accepts = 99\<rparr>,
      ro_actor = \<lparr>ao_body = [], ao_polls = 0, ao_accepts = 0, ao_continue_sent = False, ao_continue = ContTimeout, ao_eos_sent = False,
        ao_ack_id = 0, ao_ack = AckTimeout\<rparr>,
      ro_draws = example_draws, ro_body = BodyTimeout, ro_token_key = [], ro_cache = (\<lambda>_. None), ro_unix_now = 0\<rparr>"

theorem tunnel_request_agreement_witness:
  "\<exists>sr frames ap' b. pq_connect_request example_suite example_traffic \<lparr>tk_master = replicate 32 3, tk_session_id = ''ab''\<rparr> 42
        (replicate 12 1) (replicate 12 2) (\<lambda>_. low_rng) (\<lambda>_. replicate 12 5) 20 ''h:80'' [] = Some (Ok sr)
     \<and> concat (map snd frames) @ sr_remaining sr = []
     \<and> dispatch example_suite (example_obs (sr_early_data sr)) [(''Cookie'', as_bytes (sr_cookie sr))] example_app
         = (ap', Some (Ok \<lparr>rs_status = 200, rs_body = b\<rparr>))
     \<and> ap_upload_cmds ap' = frame_cmds 0 frames
     \<and> reply_shaper ap' b = Some (with_seq 0 0 (resolve_config example_traffic) (aes_cipher (su_aead example_suite) (sr_download sr)) 0, [])"
proof -
  let ?tk = "\<lparr>tk_master = replicate 32 3, tk_session_id = ''ab''\<rparr>"
  have h: "\<forall>k :: nat. rng_correct low_rng" "\<forall>k :: nat. length (replicate 12 (5 :: byte)) = NONCE_LEN"
      "length (replicate 12 (1 :: byte)) = NONCE_LEN" "length (replicate 12 (2 :: byte)) = NONCE_LEN"
      "MIN_PADDING \<le> 20" "20 < length PADDING_POOL"
    using low_rng_correct by (simp_all add: NONCE_LEN_def MIN_PADDING_def PADDING_POOL_def)
  have r: "fst (pc_range (tc_global (ap_cfg example_app))) \<le> snd (pc_range (tc_global (ap_cfg example_app)))"
    using example_traffic_range by (simp add: example_app_def)
  have sid: "list_all b64_char (tk_session_id ?tk)" "su_uuid example_suite (tk_session_id ?tk) = Some 0"
    by (simp_all add: b64_char_def example_suite_def)
  have target: "utf8_valid (as_bytes ''h:80'')" "length ''h:80'' \<le> GCM_MAX" "rsplit_once (CHR '':'') ''h:80'' = Some (''h'', ''80'')"
      "parse_u16 ''80'' = Some 80"
    by (simp_all add: as_bytes_def GCM_MAX_def rsplit_once_def split_once_def parse_u16_def parse_unsigned_def is_ascii_digit_def dec_val_def digit_val_def)
  have st: "map_of (st_masters (ap_stores example_app)) (tk_session_id ?tk) = Some (''u'', tk_master ?tk, 7)"
      "map_of (st_streams (ap_stores example_app)) 42 = None" "0 < ap_permits example_app"
    by (simp_all add: example_app_def empty_stores_def registry_new_def)
  obtain sr frames where req: "pq_connect_request example_suite (ap_cfg example_app) ?tk 42 (replicate 12 1) (replicate 12 2) (\<lambda>_. low_rng)
        (\<lambda>_. replicate 12 5) 20 ''h:80'' [] = Some (Ok sr)" and fr: "concat (map snd frames) @ sr_remaining sr = []"
        "map fst frames = map of_nat [0..<sr_frames_sent sr]"
      and srv: "\<forall>hs ob rd uw. header_get hs ''Cookie'' = Some (as_bytes (sr_cookie sr))
         \<and> saturating_sub (to_secs (ro_tunnel ob)) 7 \<le> MASTER_EXPIRY
         \<and> to_connect (ro_tunnel ob) ''h'' 80 = ConnOk rd uw
         \<and> chunk_bytes (to_body (ro_tunnel ob)) = sr_early_data sr \<and> no_errors (to_body (ro_tunnel ob))
         \<and> length frames + length (to_body (ro_tunnel ob)) < to_polls (ro_tunnel ob)
         \<and> length frames \<le> to_accepts (ro_tunnel ob) \<longrightarrow>
       (\<exists>ap' b h. dispatch example_suite ob hs example_app = (ap', Some (Ok \<lparr>rs_status = 200, rs_body = b\<rparr>))
          \<and> map_of (st_actors (ap_stores ap')) 42 = Some h \<and> ses_upload_cipher h = aes_cipher (su_aead example_suite) (sr_upload sr)
          \<and> check 42 (st_streams (ap_stores ap')) = QActive
          \<and> map_of (ap_uploads ap') (ses_upload_tx h) = Some (upload_new (to_ms (ro_tunnel ob)) uw 0)
          \<and> ap_upload_cmds ap' = ap_upload_cmds example_app @ frame_cmds (ses_upload_tx h) frames
          \<and> reply_shaper ap' b = Some (with_seq (to_ms (ro_tunnel ob)) (to_rnd (ro_tunnel ob)) (resolve_config (ap_cfg example_app))
              (aes_cipher (su_aead example_suite) (sr_download sr)) 0, rd)
          \<and> (\<exists>tn. map_of (ap_tunnels ap') 42 = Some tn \<and> tn_stream_id tn = 42 \<and> tn_upload_tx tn = Some (ses_upload_tx h)))"
    using tunnel_request_agreement [OF example_suite_correct h(1,2) r h(3-6) sid target st] by blast
  have "encode_chunks (su_b122 example_suite) (\<lambda>_. low_rng) (\<lambda>_. replicate 12 5) C example_traffic [] 0 0 [] = Some (Ok ([], 0))" for C
    by (simp add: encode_chunks.simps)
  then have "sr_frames_sent sr = 0"
    using req by (auto simp: pq_connect_request_def Let_def and_then_Ok_iff encode_initial_payload_def example_app_def
        split: prod.splits option.splits)
  then have none: "frames = []" using fr(2) by simp
  have hd: "header_get [(''Cookie'', as_bytes (sr_cookie sr))] ''Cookie'' = Some (as_bytes (sr_cookie sr))"
    by (simp add: header_get_def eq_ignore_ascii_case_def)
  have ob: "saturating_sub (to_secs (ro_tunnel (example_obs b))) 7 \<le> MASTER_EXPIRY"
      "to_connect (ro_tunnel (example_obs b)) ''h'' 80 = ConnOk [] (DirectWrite \<lparr>sk_script = [], sk_sent = []\<rparr>)"
      "chunk_bytes (to_body (ro_tunnel (example_obs b))) = b" "no_errors (to_body (ro_tunnel (example_obs b)))"
      "length (to_body (ro_tunnel (example_obs b))) < to_polls (ro_tunnel (example_obs b))" for b
    by (simp_all add: example_obs_def saturating_sub_def MASTER_EXPIRY_def)
  let ?ob = "example_obs (sr_early_data sr)" and ?hs = "[(''Cookie'', as_bytes (sr_cookie sr))]"
  have "length frames + length (to_body (ro_tunnel ?ob)) < to_polls (ro_tunnel ?ob)" "length frames \<le> to_accepts (ro_tunnel ?ob)"
    using none ob(5) by simp_all
  then obtain ap' b and h :: session_handle where d: "dispatch example_suite ?ob ?hs example_app = (ap', Some (Ok \<lparr>rs_status = 200, rs_body = b\<rparr>))"
      "ap_upload_cmds ap' = ap_upload_cmds example_app @ frame_cmds (ses_upload_tx h) frames"
      "reply_shaper ap' b = Some (with_seq (to_ms (ro_tunnel ?ob)) (to_rnd (ro_tunnel ?ob)) (resolve_config (ap_cfg example_app))
         (aes_cipher (su_aead example_suite) (sr_download sr)) 0, [])"
    using srv hd ob(1-4) by blast
  moreover have "ap_upload_cmds ap' = frame_cmds 0 frames" using d(2) none by (simp add: frame_cmds_def example_app_def)
  moreover have "ap_cfg example_app = example_traffic" "to_ms (ro_tunnel ?ob) = 0" "to_rnd (ro_tunnel ?ob) = 0"
    by (simp_all add: example_app_def example_obs_def)
  ultimately show ?thesis using req fr(1) by metis
qed

text \<open>A request with a good cookie whose body does not arrive in time: the stream id is registered, the upstream connected and the upload actor spawned before it fails.\<close>

lemma spawn_forward_error:
  assumes "session_master S (to_secs ob) v (ap_stores ap) = (ap_stores ap, Ok (et, es, master))"
    and "open_stream_id S master es = Ok i" and "map_of (st_streams (ap_stores ap)) i = None"
    and "derive_connection_keys (su_hkdf S) master (uuid_bytes i) = (uk, dk, tkey)" and "open_target S tkey et = Ok (host, port)"
    and "aes_new (su_aead S) uk = Some ul" and "aes_new (su_aead S) dk = Some dl"
    and "0 < ap_permits ap" and "to_connect ob host port = ConnOk rd uw"
    and "forward_body (su_b122 S) (aes_cipher (su_aead S) ul) (tc_encoding_type (ap_cfg ap)) (to_body ob) (to_polls ob) (to_accepts ob)
           ''decode error: '' ''upload actor closed during initial stream'' = (frames, Err e)"
  shows "\<exists>ap'. spawn_encrypted_tunnel S ob v ap = (ap', Some (Err e))
     \<and> ap_uploads ap' = dash_insert (ap_next_channel ap) (upload_new (to_ms ob) uw 0) (ap_uploads ap)
     \<and> check i (st_streams (ap_stores ap')) = QConsumed"
  using assms
  by (simp add: spawn_encrypted_tunnel_def register_def setup_tunnel_response_def try_acquire_tunnel_def drop_permit_def drop_upload_tx_def
      guard_stream_def Let_def check_result mark_consumed_lookup)

theorem failed_tunnel_leaves_nothing_witness:
  "\<exists>cookie ap' e ua ua'. spawn_encrypted_tunnel example_suite ((ro_tunnel (example_obs []))\<lparr>to_polls := 0\<rparr>)
        cookie example_app = (ap', Some (Err e))
     \<and> check 42 (st_streams (ap_stores ap')) = QConsumed \<and> ap_permits ap' = 1 \<and> ap_tunnels ap' = []
     \<and> map_of (ap_uploads ap') 0 = Some ua \<and> 0 \<in> set (ap_upload_closed ap') \<and> upload_run [UChannelClosed] ua = (ua', True)"
proof -
  let ?S = example_suite and ?m = "replicate 32 (3 :: byte)" and ?ob = "(ro_tunnel (example_obs []))\<lparr>to_polls := 0\<rparr>"
  let ?A = "su_aead ?S" and ?hk = "su_hkdf ?S" and ?E = "su_b64 ?S"
  have A: "aead_correct ?A" and E: "b64_correct ?E" and hk: "hkdf_correct ?hk"
    using example_suite_correct by (auto simp: suite_correct_def)
  obtain uk dk tkey where keys: "derive_connection_keys ?hk ?m (uuid_bytes 42) = (uk, dk, tkey)" by (metis prod.collapse)
  note kl = connection_key_lengths [OF hk keys]
  obtain ul dl where ul: "aes_new ?A uk = Some ul" and dl: "aes_new ?A dk = Some dl"
    using aes_new_ok [OF A kl(1)] aes_new_ok [OF A kl(2)] by blast
  have n: "length (replicate 12 (1 :: byte)) = NONCE_LEN" by (simp add: NONCE_LEN_def)
  have target: "utf8_valid (as_bytes ''h:80'')" "length (as_bytes ''h:80'') \<le> GCM_MAX"
      "rsplit_once (CHR '':'') ''h:80'' = Some (''h'', ''80'')" "parse_u16 ''80'' = Some 80"
    by (simp_all add: as_bytes_def GCM_MAX_def rsplit_once_def split_once_def parse_u16_def parse_unsigned_def is_ascii_digit_def dec_val_def digit_val_def)
  obtain et where et: "decrypt_bytes ?A tkey et = Ok (as_bytes ''h:80'')" using decrypt_encrypt_bytes [OF A kl(3) n target(2)] by metis
  have "length (derive_cookie_stream_key ?hk ?m) = 32" using hk by (simp add: derive_cookie_stream_key_def hkdf_correct_def)
  moreover have "length (uuid_bytes 42) \<le> GCM_MAX" by (simp add: GCM_MAX_def)
  ultimately obtain es where es: "decrypt_bytes ?A (derive_cookie_stream_key ?hk ?m) es = Ok (uuid_bytes 42)"
    using decrypt_encrypt_bytes [OF A _ n] by metis
  have st: "CHR '':'' \<notin> set ''ab''" "su_uuid ?S ''ab'' = Some 0" "map_of (st_masters (ap_stores example_app)) ''ab'' = Some (''u'', ?m, 7)"
      "saturating_sub (to_secs ?ob) 7 \<le> MASTER_EXPIRY" "map_of (st_streams (ap_stores example_app)) 42 = None" "0 < ap_permits example_app"
      "to_connect ?ob ''h'' 80 = ConnOk [] (DirectWrite \<lparr>sk_script = [], sk_sent = []\<rparr>)"
    by (simp_all add: example_suite_def example_app_def example_obs_def empty_stores_def registry_new_def saturating_sub_def MASTER_EXPIRY_def)
  obtain e where fwd: "forward_body (su_b122 ?S) (aes_cipher ?A ul) (tc_encoding_type (ap_cfg example_app)) (to_body ?ob) (to_polls ?ob) (to_accepts ?ob)
      ''decode error: '' ''upload actor closed during initial stream'' = ([], Err e)"
    by (simp add: example_obs_def forward_body_def)
  obtain ap' where sp: "spawn_encrypted_tunnel ?S ?ob (''ab'' @ '':'' @ b64_encode ?E et @ '':'' @ b64_encode ?E es) example_app = (ap', Some (Err e))"
      and up: "ap_uploads ap' = dash_insert (ap_next_channel example_app) (upload_new (to_ms ?ob) (DirectWrite \<lparr>sk_script = [], sk_sent = []\<rparr>) 0) (ap_uploads example_app)"
      and ck: "check 42 (st_streams (ap_stores ap')) = QConsumed"
    using spawn_forward_error [OF session_master_ok [OF st(1) E st(2-4)] open_stream_id_ok [OF E es] st(5) keys open_target_ok [OF E et target(1,3,4)]
        ul dl st(6,7) fwd] by metis
  have ap: "ap_permits example_app = 1" "ap_tunnels example_app = []" "ap_uploads example_app = []" "ap_next_channel example_app = 0"
    by (simp_all add: example_app_def)
  from failed_tunnel_leaves_nothing [OF sp] up ap
  have f: "ap_permits ap' = 1" "ap_tunnels ap' = []" "0 \<in> set (ap_upload_closed ap')" by (auto simp: dash_insert_def)
  have "upload_run [UChannelClosed] ua = (ack_all_waiters (shutdown_and_drain ua), True)" for ua by (simp add: upload_step_def)
  then show ?thesis using sp ck f up ap by (intro exI conjI) (auto simp: dash_insert_def)
qed

end
