(* ===== verification/Ip_Addr.thy ===== *)
theory Ip_Addr
  imports Prelude
begin

text \<open>
  IP addresses of the standard library, as the program uses them: \<open>IpAddr::from_str\<close> (the recursive-descent parser of
  \<open>core::net::parser\<close>), the \<open>Display\<close> form of addresses, and the classification predicates.

  Lemmas: parsing the text of an address returns the address, for both families, including the compressed and the
  IPv4-mapped forms of IPv6.
\<close>

section \<open>Addresses and their parts\<close>

datatype ip_addr = IpV4 u32 | IpV6 "128 word"

text \<open>The \<open>k\<close> digits of a number in base \<open>b\<close>, most significant first.\<close>

fun digits :: "nat \<Rightarrow> nat \<Rightarrow> nat \<Rightarrow> nat list" where
  "digits b 0 n = []"
| "digits b (Suc k) n = digits b k (n div b) @ [n mod b]"

definition undigits :: "nat \<Rightarrow> nat list \<Rightarrow> nat" where
  "undigits b ds = foldl (\<lambda>a d. a * b + d) 0 ds"

definition v4_octets :: "u32 \<Rightarrow> nat list" where
  "v4_octets a = digits 256 4 (unat a)"

definition v6_segments :: "128 word \<Rightarrow> nat list" where
  "v6_segments a = digits 65536 8 (unat a)"

definition v4_of_octets :: "nat list \<Rightarrow> u32" where
  "v4_of_octets os = of_nat (undigits 256 os)"

definition v6_of_segments :: "nat list \<Rightarrow> 128 word" where
  "v6_of_segments gs = of_nat (undigits 65536 gs)"

definition to_ipv4_mapped :: "128 word \<Rightarrow> u32 option" where
  "to_ipv4_mapped a =
     (if take 6 (v6_segments a) = [0, 0, 0, 0, 0, 65535]
      then Some (of_nat (undigits 65536 (drop 6 (v6_segments a)))) else None)"

text \<open>The classification predicates of \<open>Ipv4Addr\<close> and \<open>Ipv6Addr\<close>.\<close>

definition v4_is_loopback :: "u32 \<Rightarrow> bool" where "v4_is_loopback a \<longleftrightarrow> v4_octets a ! 0 = 127"

definition v4_is_private :: "u32 \<Rightarrow> bool" where
  "v4_is_private a \<longleftrightarrow>
     (let os = v4_octets a
      in os ! 0 = 10 \<or> (os ! 0 = 172 \<and> 16 \<le> os ! 1 \<and> os ! 1 \<le> 31) \<or> (os ! 0 = 192 \<and> os ! 1 = 168))"

definition v4_is_link_local :: "u32 \<Rightarrow> bool" where "v4_is_link_local a \<longleftrightarrow> v4_octets a ! 0 = 169 \<and> v4_octets a ! 1 = 254"
definition v4_is_broadcast :: "u32 \<Rightarrow> bool" where "v4_is_broadcast a \<longleftrightarrow> v4_octets a = [255, 255, 255, 255]"
definition v4_is_unspecified :: "u32 \<Rightarrow> bool" where "v4_is_unspecified a \<longleftrightarrow> a = 0"
definition v4_is_multicast :: "u32 \<Rightarrow> bool" where "v4_is_multicast a \<longleftrightarrow> 224 \<le> v4_octets a ! 0 \<and> v4_octets a ! 0 \<le> 239"

definition v4_is_documentation :: "u32 \<Rightarrow> bool" where
  "v4_is_documentation a \<longleftrightarrow> take 3 (v4_octets a) \<in> {[192, 0, 2], [198, 51, 100], [203, 0, 113]}"

definition v6_is_loopback :: "128 word \<Rightarrow> bool" where "v6_is_loopback a \<longleftrightarrow> a = 1"
definition v6_is_unspecified :: "128 word \<Rightarrow> bool" where "v6_is_unspecified a \<longleftrightarrow> a = 0"

definition v6_is_unique_local :: "128 word \<Rightarrow> bool" where
  "v6_is_unique_local a \<longleftrightarrow> (of_nat (v6_segments a ! 0) :: u16) AND 0xFE00 = 0xFC00"

definition v6_is_unicast_link_local :: "128 word \<Rightarrow> bool" where
  "v6_is_unicast_link_local a \<longleftrightarrow> (of_nat (v6_segments a ! 0) :: u16) AND 0xFFC0 = 0xFE80"

definition v6_is_multicast :: "128 word \<Rightarrow> bool" where
  "v6_is_multicast a \<longleftrightarrow> v6_segments a ! 0 div 256 = 255"

section \<open>Text\<close>

definition to_digit :: "nat \<Rightarrow> char \<Rightarrow> nat option" where
  "to_digit radix c =
     (let n = of_char c :: nat;
          d = (if 48 \<le> n \<and> n \<le> 57 then n - 48 else if 97 \<le> n \<and> n \<le> 122 then n - 87
               else if 65 \<le> n \<and> n \<le> 90 then n - 55 else radix)
      in if d < radix then Some d else None)"

definition digit_char :: "nat \<Rightarrow> char" where
  "digit_char d = char_of (if d < 10 then 48 + d else 87 + d)"

fun show_radix :: "nat \<Rightarrow> nat \<Rightarrow> string" where
  "show_radix r n = (if n < r \<or> r < 2 then [digit_char n] else show_radix r (n div r) @ [digit_char (n mod r)])"

declare show_radix.simps [simp del]

fun show_octets :: "bool \<Rightarrow> nat list \<Rightarrow> string" where
  "show_octets first [] = []"
| "show_octets first (n # ns) = (if first then [] else ''.'') @ show_radix 10 n @ show_octets False ns"

definition show_v4 :: "u32 \<Rightarrow> string" where
  "show_v4 a = show_octets True (v4_octets a)"

fun show_groups :: "bool \<Rightarrow> nat list \<Rightarrow> string" where
  "show_groups first [] = []"
| "show_groups first (g # gs) = (if first then [] else '':'') @ show_radix 16 g @ show_groups False gs"

text \<open>The longest run of zero segments, the first one of that length: start and length.\<close>

fun zero_span :: "nat \<Rightarrow> nat list \<Rightarrow> nat \<times> nat \<Rightarrow> nat \<times> nat \<Rightarrow> nat \<times> nat" where
  "zero_span i [] current longest = longest"
| "zero_span i (g # gs) current longest =
     (if g = 0
      then (let current = ((if snd current = 0 then i else fst current), snd current + 1)
            in zero_span (i + 1) gs current (if snd longest < snd current then current else longest))
      else zero_span (i + 1) gs (0, 0) longest)"

definition show_v6 :: "128 word \<Rightarrow> string" where
  "show_v6 a =
     (case to_ipv4_mapped a of
        Some v4 \<Rightarrow> ''::ffff:'' @ show_v4 v4
      | None \<Rightarrow>
          (let gs = v6_segments a; (start, len) = zero_span 0 gs (0, 0) (0, 0)
           in if 1 < len then show_groups True (take start gs) @ ''::'' @ show_groups True (drop (start + len) gs)
              else show_groups True gs))"

fun show_ip :: "ip_addr \<Rightarrow> string" where
  "show_ip (IpV4 a) = show_v4 a"
| "show_ip (IpV6 a) = show_v6 a"

section \<open>The parser\<close>

definition num_val :: "nat \<Rightarrow> string \<Rightarrow> nat" where
  "num_val r s = foldl (\<lambda>a c. a * r + the (to_digit r c)) 0 s"

definition read_number :: "nat \<Rightarrow> nat \<Rightarrow> bool \<Rightarrow> nat \<Rightarrow> string \<Rightarrow> (nat \<times> string) option" where
  "read_number radix max_digits allow_zero_prefix bound s =
     (let ds = takeWhile (\<lambda>c. to_digit radix c \<noteq> None) s; n = num_val radix ds in
      if ds = [] \<or> max_digits < length ds \<or> bound < n \<or> (\<not> allow_zero_prefix \<and> hd ds = CHR ''0'' \<and> 1 < length ds) then None
      else Some (n, drop (length ds) s))"

definition read_separator :: "char \<Rightarrow> nat \<Rightarrow> string \<Rightarrow> string option" where
  "read_separator sep i s = (if i = 0 then Some s else strip_prefix [sep] s)"

fun read_octets :: "nat \<Rightarrow> nat \<Rightarrow> string \<Rightarrow> (nat list \<times> string) option" where
  "read_octets 0 i s = Some ([], s)"
| "read_octets (Suc k) i s =
     (case Option.bind (read_separator (CHR ''.'') i s) (read_number 10 3 False 255) of
        None \<Rightarrow> None
      | Some (n, s) \<Rightarrow> map_option (\<lambda>(ns, s). (n # ns, s)) (read_octets k (i + 1) s))"

definition read_ipv4 :: "string \<Rightarrow> (u32 \<times> string) option" where
  "read_ipv4 s = map_option (\<lambda>(os, s). (v4_of_octets os, s)) (read_octets 4 0 s)"

fun read_groups :: "nat \<Rightarrow> nat \<Rightarrow> string \<Rightarrow> nat list \<times> bool \<times> string" where
  "read_groups 0 i s = ([], False, s)"
| "read_groups (Suc k) i s =
     (case (if 0 < k then Option.bind (read_separator (CHR '':'') i s) read_ipv4 else None) of
        Some (v4, s) \<Rightarrow> (digits 65536 2 (unat v4), True, s)
      | None \<Rightarrow>
          (case Option.bind (read_separator (CHR '':'') i s) (read_number 16 4 True 65535) of
             None \<Rightarrow> ([], False, s)
           | Some (g, s) \<Rightarrow> (let (gs, v4, s) = read_groups k (i + 1) s in (g # gs, v4, s))))"

definition read_ipv6 :: "string \<Rightarrow> (128 word \<times> string) option" where
  "read_ipv6 s =
     (case read_groups 8 0 s of
        (hs, v4, s) \<Rightarrow>
          if length hs = 8 then Some (v6_of_segments hs, s)
          else if v4 then None
          else (case strip_prefix ''::'' s of
                  None \<Rightarrow> None
                | Some s \<Rightarrow>
                    (case read_groups (8 - (length hs + 1)) 0 s of
                       (ts, v, s) \<Rightarrow> Some (v6_of_segments (hs @ replicate (8 - length hs - length ts) 0 @ ts), s))))"

definition parse_ip :: "string \<Rightarrow> ip_addr option" where
  "parse_ip s =
     (case read_ipv4 s of
        Some (a, r) \<Rightarrow> if r = [] then Some (IpV4 a) else None
      | None \<Rightarrow> (case read_ipv6 s of Some (a, r) \<Rightarrow> if r = [] then Some (IpV6 a) else None | None \<Rightarrow> None))"

section \<open>Lemmas: digits\<close>

lemma undigits_snoc [simp]: "undigits b (ds @ [d]) = undigits b ds * b + d"
  by (simp add: undigits_def)

lemma length_digits [simp]: "length (digits b k n) = k"
  by (induction b k n rule: digits.induct) auto

lemma undigits_digits: "0 < b \<Longrightarrow> undigits b (digits b k n) = n mod b ^ k"
proof (induction b k n rule: digits.induct)
  case (1 b n)
  then show ?case by (simp add: undigits_def)
next
  case (2 b k n)
  then show ?case by (simp add: mult.commute mod_mult2_eq)
qed

lemma digits_bound: "0 < b \<Longrightarrow> d \<in> set (digits b k n) \<Longrightarrow> d < b"
  by (induction b k n rule: digits.induct) auto

lemma v4_of_octets_v4_octets [simp]: "v4_of_octets (v4_octets a) = a"
  using unsigned_less [of a, where ?'a = nat] by (simp add: v4_of_octets_def v4_octets_def undigits_digits)

lemma v6_of_segments_v6_segments [simp]: "v6_of_segments (v6_segments a) = a"
  using unsigned_less [of a, where ?'a = nat] by (simp add: v6_of_segments_def v6_segments_def undigits_digits)

section \<open>Lemmas: numbers\<close>

lemma to_digit_digit_char: "d < r \<Longrightarrow> r \<le> 16 \<Longrightarrow> to_digit r (digit_char d) = Some d"
  by (auto simp: to_digit_def digit_char_def Let_def)

lemma show_radix_digits:
  assumes "1 < r" and "r \<le> 16"
  shows "show_radix r n \<noteq> [] \<and> (\<forall>c \<in> set (show_radix r n). to_digit r c \<noteq> None) \<and> num_val r (show_radix r n) = n
    \<and> (hd (show_radix r n) = CHR ''0'' \<longrightarrow> n = 0)"
  using assms
proof (induction r n rule: show_radix.induct)
  case (1 r n)
  show ?case
  proof (cases "n < r")
    case True
    have "digit_char n = CHR ''0'' \<Longrightarrow> n = 0" using True 1(3) to_digit_digit_char [of n r] by (auto simp: to_digit_def Let_def split: if_splits)
    then show ?thesis using True 1(3) by (simp add: show_radix.simps [of r n] to_digit_digit_char num_val_def)
  next
    case False
    have "n mod r < r" using 1(2) by simp
    then have d: "to_digit r (digit_char (n mod r)) = Some (n mod r)" using 1(3) by (rule to_digit_digit_char)
    note ih = 1(1) [OF _ 1(2,3)]
    have "n div r \<noteq> 0" using False 1(2) by (simp add: div_eq_0_iff)
    then show ?thesis using ih False 1(2) d by (simp add: show_radix.simps [of r n] num_val_def div_mult_mod_eq)
  qed
qed

lemma show_radix_length: "1 < r \<Longrightarrow> n < r ^ Suc k \<Longrightarrow> length (show_radix r n) \<le> Suc k"
proof (induction k arbitrary: n)
  case 0
  then show ?case by (simp add: show_radix.simps [of r n])
next
  case (Suc k)
  show ?case
  proof (cases "n < r")
    case True
    then show ?thesis by (simp add: show_radix.simps [of r n])
  next
    case False
    have "n div r < r ^ Suc k" using Suc.prems by (simp add: less_mult_imp_div_less mult.commute)
    then show ?thesis using Suc False by (simp add: show_radix.simps [of r n])
  qed
qed

text \<open>A rest that does not go on with a digit.\<close>

definition stops :: "nat \<Rightarrow> string \<Rightarrow> bool" where
  "stops r rest \<longleftrightarrow> (case rest of [] \<Rightarrow> True | c # cs \<Rightarrow> to_digit r c = None)"

lemma takeWhile_show_radix:
  assumes "1 < r" and "r \<le> 16" and "stops r rest"
  shows "takeWhile (\<lambda>c. to_digit r c \<noteq> None) (show_radix r n @ rest) = show_radix r n"
proof -
  have "takeWhile (\<lambda>c. to_digit r c \<noteq> None) rest = []" using assms(3) by (cases rest) (auto simp: stops_def)
  then show ?thesis using show_radix_digits [OF assms(1,2), of n] by (simp add: takeWhile_append2)
qed

lemma read_number_show:
  assumes "1 < r" and "r \<le> 16" and "stops r rest" and "n \<le> bound" and "n < r ^ Suc k"
  shows "read_number r (Suc k) z bound (show_radix r n @ rest) = Some (n, rest)"
proof -
  note d = show_radix_digits [OF assms(1,2), of n]
  have "hd (show_radix r n) = CHR ''0'' \<Longrightarrow> length (show_radix r n) = 1" using d assms(1) by (auto simp: show_radix.simps)
  then show ?thesis
    unfolding read_number_def takeWhile_show_radix [OF assms(1-3)] Let_def
    using d assms(4) show_radix_length [OF assms(1,5)] by auto
qed

section \<open>Lemmas: IPv4\<close>

lemma read_octets_show:
  "\<forall>n \<in> set ns. n < 256 \<Longrightarrow> stops 10 rest \<Longrightarrow> read_octets (length ns) i (show_octets (i = 0) ns @ rest) = Some (ns, rest)"
proof (induction ns arbitrary: i)
  case Nil
  then show ?case by simp
next
  case (Cons n ns)
  let ?more = "show_octets False ns @ rest"
  have st: "stops 10 ?more" using Cons.prems(2) by (cases ns) (auto simp: stops_def to_digit_def)
  have "read_number 10 3 False 255 (show_radix 10 n @ ?more) = Some (n, ?more)"
    using read_number_show [OF _ _ st, of n 255 2] Cons.prems(1) by (simp add: numeral_3_eq_3)
  moreover have "read_separator (CHR ''.'') i (show_octets (i = 0) (n # ns) @ rest) = Some (show_radix 10 n @ ?more)"
    by (simp add: read_separator_def strip_prefix_def)
  moreover have "read_octets (length ns) (i + 1) ?more = Some (ns, rest)" using Cons.IH [of "i + 1"] Cons.prems by simp
  ultimately show ?case by simp
qed

lemma v4_octets_bound: "n \<in> set (v4_octets a) \<Longrightarrow> n < 256"
  by (simp add: v4_octets_def digits_bound)

lemma v6_segments_bound: "g \<in> set (v6_segments a) \<Longrightarrow> g < 65536"
  by (simp add: v6_segments_def digits_bound)

lemma length_octets_segments [simp]: "length (v4_octets a) = 4" "length (v6_segments b) = 8"
  by (simp_all add: v4_octets_def v6_segments_def)

lemma read_ipv4_show: "stops 10 rest \<Longrightarrow> read_ipv4 (show_v4 a @ rest) = Some (a, rest)"
  using read_octets_show [of "v4_octets a" rest 0] v4_octets_bound [of _ a] by (simp add: read_ipv4_def show_v4_def)

text \<open>A text whose first characters are not digits followed by a dot is no IPv4 address.\<close>

lemma read_ipv4_None:
  assumes "dropWhile (\<lambda>c. to_digit 10 c \<noteq> None) s = [] \<or> hd (dropWhile (\<lambda>c. to_digit 10 c \<noteq> None) s) \<noteq> CHR ''.''"
  shows "read_ipv4 s = None"
proof -
  define p where "p = (\<lambda>c. to_digit 10 c \<noteq> None)"
  define d where "d = dropWhile p s"
  have "d = [] \<or> hd d \<noteq> CHR ''.''" using assms unfolding p_def d_def .
  then have "take 1 (dropWhile p s) \<noteq> ''.''" unfolding d_def [symmetric] by (cases d) auto
  then have d: "strip_prefix ''.'' (drop (length (takeWhile p s)) s) = None"
    unfolding dropWhile_eq_drop [symmetric] by (simp add: strip_prefix_def)
  have "read_octets (Suc (Suc k)) 0 s = None" for k
  proof (cases "read_number 10 3 False 255 s")
    case (Some q)
    then have "snd q = drop (length (takeWhile p s)) s" by (auto simp: read_number_def p_def Let_def split: if_splits)
    then show ?thesis using Some d by (cases q) (simp add: read_separator_def)
  qed (simp add: read_separator_def)
  from this [of 2] show ?thesis by (simp add: read_ipv4_def numeral_eq_Suc)
qed

section \<open>Lemmas: IPv6\<close>

text \<open>The rests that can follow the groups: the end, or the double colon.\<close>

definition ends_groups :: "string \<Rightarrow> bool" where
  "ends_groups rest \<longleftrightarrow> rest = [] \<or> (\<exists>r. rest = ''::'' @ r)"

lemma hex_then_no_dot:
  assumes "rest = [] \<or> hd rest = CHR '':''"
  shows "read_ipv4 (show_radix 16 g @ rest) = None"
proof (rule read_ipv4_None)
  let ?d = "dropWhile (\<lambda>c. to_digit 10 c \<noteq> None) (show_radix 16 g @ rest)"
  have "to_digit 16 c \<noteq> None" if "c \<in> set (show_radix 16 g)" for c using show_radix_digits [of 16 g] that by simp
  moreover have "to_digit 16 (CHR ''.'') = None" by (simp add: to_digit_def)
  ultimately have "CHR ''.'' \<notin> set (show_radix 16 g)" by metis
  then have "?d = [] \<or> hd ?d \<noteq> CHR ''.'' " if "set ?d \<subseteq> set (show_radix 16 g @ rest)"
  proof (cases "\<forall>c \<in> set (show_radix 16 g). to_digit 10 c \<noteq> None")
    case True
    then have "?d = dropWhile (\<lambda>c. to_digit 10 c \<noteq> None) rest" by (simp add: dropWhile_append2)
    also have "\<dots> = rest" using assms by (cases rest) (auto simp: to_digit_def)
    finally show ?thesis using assms by auto
  next
    case False
    then have "?d = dropWhile (\<lambda>c. to_digit 10 c \<noteq> None) (show_radix 16 g) @ rest" by (auto intro: dropWhile_append1)
    moreover have "dropWhile (\<lambda>c. to_digit 10 c \<noteq> None) (show_radix 16 g) \<noteq> []" using False by (auto simp: dropWhile_eq_Nil_conv)
    ultimately show ?thesis using \<open>CHR ''.'' \<notin> _\<close> by (metis hd_append2 hd_in_set set_dropWhileD)
  qed
  moreover have "set ?d \<subseteq> set (show_radix 16 g @ rest)" by (meson set_dropWhileD subsetI)
  ultimately show "?d = [] \<or> hd ?d \<noteq> CHR ''.'' " by blast
qed

lemma no_group_at_end:
  assumes "ends_groups rest"
  shows "Option.bind (read_separator (CHR '':'') i rest) read_ipv4 = None"
    and "Option.bind (read_separator (CHR '':'') i rest) (read_number 16 4 True 65535) = None"
proof -
  have r: "read_ipv4 [] = None" "read_ipv4 (CHR '':'' # r) = None" for r by (rule read_ipv4_None; simp add: to_digit_def)+
  have n: "read_number 16 4 True 65535 [] = None" "read_number 16 4 True 65535 (CHR '':'' # r) = None" for r
    by (simp_all add: read_number_def to_digit_def)
  show "Option.bind (read_separator (CHR '':'') i rest) read_ipv4 = None"
    using assms r by (auto simp: ends_groups_def read_separator_def strip_prefix_def)
  show "Option.bind (read_separator (CHR '':'') i rest) (read_number 16 4 True 65535) = None"
    using assms n by (auto simp: ends_groups_def read_separator_def strip_prefix_def)
qed

lemma read_groups_end: "ends_groups rest \<Longrightarrow> read_groups k i rest = ([], False, rest)"
  by (cases k) (simp_all add: no_group_at_end)

lemma read_groups_show:
  "\<forall>g \<in> set gs. g < 65536 \<Longrightarrow> length gs \<le> k \<Longrightarrow> ends_groups rest \<Longrightarrow>
     read_groups k i (show_groups (i = 0) gs @ rest) = (gs, False, rest)"
proof (induction gs arbitrary: i k)
  case Nil
  then show ?case by (simp add: read_groups_end)
next
  case (Cons g gs)
  then obtain k' where k: "k = Suc k'" by (cases k) auto
  let ?more = "show_groups False gs @ rest"
  have more: "?more = [] \<or> hd ?more = CHR '':''" using Cons.prems(3) by (cases gs) (auto simp: ends_groups_def)
  then have st: "stops 16 ?more" by (cases ?more) (auto simp: stops_def to_digit_def)
  have sep: "read_separator (CHR '':'') i (show_groups (i = 0) (g # gs) @ rest) = Some (show_radix 16 g @ ?more)"
    by (simp add: read_separator_def strip_prefix_def)
  have "read_number 16 4 True 65535 (show_radix 16 g @ ?more) = Some (g, ?more)"
    using read_number_show [OF _ _ st, of g 65535 3] Cons.prems(1) by simp
  moreover have "read_groups k' (i + 1) ?more = (gs, False, rest)" using Cons.IH [of k' "i + 1"] Cons.prems k by simp
  ultimately show ?case using sep hex_then_no_dot [OF more] k Cons.prems(2) by (cases k') simp_all
qed

text \<open>A span of zeros of the list, by start and length.\<close>

definition zeros_at :: "nat list \<Rightarrow> nat \<times> nat \<Rightarrow> bool" where
  "zeros_at gs sp \<longleftrightarrow> fst sp + snd sp \<le> length gs \<and> take (snd sp) (drop (fst sp) gs) = replicate (snd sp) 0"

lemma zeros_at_extend:
  assumes "zeros_at xs (st, n)" and "0 < n \<longrightarrow> st + n = length xs"
  shows "zeros_at (xs @ 0 # ys) (if n = 0 then length xs else st, n + 1)"
proof (cases "n = 0")
  case False
  then have "st + n = length xs" "drop st xs = replicate n 0" using assms by (auto simp: zeros_at_def)
  then show ?thesis using False by (simp add: zeros_at_def replicate_append_same)
qed (simp add: zeros_at_def)

lemma zeros_at_append: "zeros_at xs sp \<Longrightarrow> zeros_at (xs @ ys) sp"
  by (auto simp: zeros_at_def)

lemma zero_span_zeros:
  "zeros_at xs current \<Longrightarrow> (0 < snd current \<longrightarrow> fst current + snd current = length xs) \<Longrightarrow> zeros_at xs longest \<Longrightarrow>
     zeros_at (xs @ gs) (zero_span (length xs) gs current longest)"
proof (induction gs arbitrary: xs current longest)
  case Nil
  then show ?case by simp
next
  case (Cons g gs)
  show ?case
  proof (cases "g = 0")
    case True
    define c where "c = ((if snd current = 0 then length xs else fst current), snd current + 1)"
    have "zeros_at (xs @ [0]) c" using zeros_at_extend [of xs "fst current" "snd current" "[]"] Cons.prems by (simp add: c_def)
    moreover have "fst c + snd c = length (xs @ [0])" using Cons.prems(2) by (simp add: c_def)
    moreover have "zero_span (length xs) (0 # gs) current longest = zero_span (length (xs @ [0])) gs c (if snd longest < snd c then c else longest)"
      by (simp add: Let_def c_def)
    ultimately show ?thesis
      using Cons.IH [of "xs @ [0]" c "if snd longest < snd c then c else longest"] zeros_at_append [OF Cons.prems(3), of "[0]"] True by simp
  next
    case False
    then show ?thesis
      using Cons.IH [of "xs @ [g]" "(0, 0)" longest] Cons.prems zeros_at_append [of xs longest "[g]"] by (simp add: zeros_at_def)
  qed
qed

lemma read_ipv6_show_groups:
  assumes "\<forall>g \<in> set hs. g < 65536" and "\<forall>g \<in> set ts. g < 65536" and "length hs + length ts < 8"
  shows "read_ipv6 (show_groups True hs @ ''::'' @ show_groups True ts)
    = Some (v6_of_segments (hs @ replicate (8 - length hs - length ts) 0 @ ts), [])"
proof -
  have "read_groups 8 0 (show_groups True hs @ ''::'' @ show_groups True ts) = (hs, False, ''::'' @ show_groups True ts)"
    using read_groups_show [OF assms(1), of 8 "''::'' @ show_groups True ts" 0] assms(3) by (simp add: ends_groups_def)
  moreover have "strip_prefix ''::'' (''::'' @ show_groups True ts) = Some (show_groups True ts)" by (simp only: strip_prefix_append)
  moreover have "read_groups (8 - (length hs + 1)) 0 (show_groups True ts) = (ts, False, [])"
    using read_groups_show [OF assms(2), of "8 - (length hs + 1)" "[]" 0] assms(3) by (simp add: ends_groups_def)
  ultimately show ?thesis unfolding read_ipv6_def using assms(3) by simp
qed

lemma list_of_length_2: "length xs = 2 \<Longrightarrow> \<exists>a b. xs = [a, b]"
  by (auto simp: length_Suc_conv numeral_2_eq_2)

lemma to_ipv4_mapped_segments:
  assumes "to_ipv4_mapped a = Some v4"
  shows "v6_segments a = [0, 0, 0, 0, 0, 65535] @ digits 65536 2 (unat v4)"
proof -
  obtain g h where gh: "drop 6 (v6_segments a) = [g, h]"
    using list_of_length_2 [of "drop 6 (v6_segments a)"] by auto
  have b: "g < 65536" "h < 65536" using v6_segments_bound [of _ a] gh by (metis in_set_dropD list.set_intros(1,2))+
  have v4: "v4 = of_nat (g * 65536 + h)" and t: "take 6 (v6_segments a) = [0, 0, 0, 0, 0, 65535]"
    using assms gh by (auto simp: to_ipv4_mapped_def undigits_def split: if_splits)
  have "unat v4 = g * 65536 + h" using b unfolding v4 by (subst unat_of_nat) simp
  then have "digits 65536 2 (unat v4) = [g, h]" using b by (simp add: numeral_2_eq_2)
  then show ?thesis using t gh append_take_drop_id [of 6 "v6_segments a"] by simp
qed

lemma read_ipv6_mapped:
  assumes "to_ipv4_mapped a = Some v4"
  shows "read_ipv6 (''::ffff:'' @ show_v4 v4) = Some (a, [])"
proof -
  let ?t = "''ffff:'' @ show_v4 v4"
  have hs: "read_groups 8 0 (''::'' @ ?t) = ([], False, ''::'' @ ?t)" by (rule read_groups_end) (simp add: ends_groups_def)
  have "char_of (102 :: nat) = CHR ''f''" by code_simp
  then have f: "show_radix 16 65535 = ''ffff''" by (simp add: show_radix.simps digit_char_def)
  have g1: "read_number 16 4 True 65535 ?t = Some (65535, CHR '':'' # show_v4 v4)"
    using read_number_show [of 16 "CHR '':'' # show_v4 v4" 65535 65535 3 True] f by (simp add: stops_def to_digit_def)
  have i1: "read_ipv4 ?t = None" by (rule read_ipv4_None) (simp add: to_digit_def)
  have i2: "read_ipv4 (show_v4 v4) = Some (v4, [])" using read_ipv4_show [of "[]" v4] by (simp add: stops_def)
  have "read_groups 6 1 (CHR '':'' # show_v4 v4) = (digits 65536 2 (unat v4), True, [])"
    using read_groups.simps(2) [of 5 1 "CHR '':'' # show_v4 v4"] i2 by (simp add: read_separator_def strip_prefix_def)
  then have "read_groups 7 0 ?t = (65535 # digits 65536 2 (unat v4), True, [])"
    using read_groups.simps(2) [of 6 0 ?t] g1 i1 by (simp add: read_separator_def)
  moreover have "strip_prefix ''::'' (''::'' @ ?t) = Some ?t" by (simp only: strip_prefix_append)
  moreover have "replicate 5 (0 :: nat) = [0, 0, 0, 0, 0]" by (simp add: numeral_eq_Suc)
  ultimately show ?thesis
    using hs v6_of_segments_v6_segments [of a] to_ipv4_mapped_segments [OF assms] unfolding read_ipv6_def by simp
qed

lemma read_ipv6_show: "read_ipv6 (show_v6 a) = Some (a, [])"
proof (cases "to_ipv4_mapped a")
  case (Some v4)
  then show ?thesis using read_ipv6_mapped [OF Some] by (simp add: show_v6_def)
next
  case None
  obtain st n where z: "zero_span 0 (v6_segments a) (0, 0) (0, 0) = (st, n)" by fastforce
  have za: "zeros_at (v6_segments a) (st, n)" using zero_span_zeros [of "[]" "(0, 0)" "(0, 0)" "v6_segments a"] z by (simp add: zeros_at_def)
  show ?thesis
  proof (cases "1 < n")
    case True
    let ?hs = "take st (v6_segments a)" and ?ts = "drop (st + n) (v6_segments a)"
    have le: "st + n \<le> 8" using za by (simp add: zeros_at_def)
    have "v6_segments a = ?hs @ take n (drop st (v6_segments a)) @ ?ts" by (metis append_take_drop_id drop_drop add.commute)
    then have "v6_segments a = ?hs @ replicate n 0 @ ?ts" using za by (simp add: zeros_at_def)
    moreover have "8 - length ?hs - length ?ts = n" using le by simp
    ultimately have "v6_of_segments (?hs @ replicate (8 - length ?hs - length ?ts) 0 @ ?ts) = a" by (metis v6_of_segments_v6_segments)
    moreover have "\<forall>g \<in> set ?hs. g < 65536" "\<forall>g \<in> set ?ts. g < 65536" using v6_segments_bound by (meson in_set_takeD in_set_dropD)+
    moreover have "length ?hs + length ?ts < 8" using le True by simp
    ultimately have "read_ipv6 (show_groups True ?hs @ ''::'' @ show_groups True ?ts) = Some (a, [])" using read_ipv6_show_groups [of ?hs ?ts] by metis
    then show ?thesis using None z True by (simp add: show_v6_def Let_def)
  next
    case False
    have "read_groups 8 0 (show_groups True (v6_segments a)) = (v6_segments a, False, [])"
      using read_groups_show [of "v6_segments a" 8 "[]" 0] v6_segments_bound [of _ a] by (simp add: ends_groups_def)
    then show ?thesis using None z False by (simp add: show_v6_def read_ipv6_def)
  qed
qed

text \<open>Parsing inverts the text form. An IPv6 text never passes for an IPv4 address: before its first dot there is a colon.\<close>

lemma read_ipv4_groups_None: "ends_groups (show_groups True [] @ rest) \<Longrightarrow> read_ipv4 (show_groups True gs @ rest) = None"
proof (cases gs)
  case Nil
  moreover assume "ends_groups (show_groups True [] @ rest)"
  ultimately show ?thesis using no_group_at_end(1) [of rest 0] by (simp add: read_separator_def)
next
  case (Cons g gs')
  assume "ends_groups (show_groups True [] @ rest)"
  then have "show_groups False gs' @ rest = [] \<or> hd (show_groups False gs' @ rest) = CHR '':''" by (cases gs') (auto simp: ends_groups_def)
  from hex_then_no_dot [OF this] show ?thesis using Cons by simp
qed

lemma read_ipv4_v6_None: "read_ipv4 (show_v6 a) = None"
proof (cases "to_ipv4_mapped a")
  case (Some v4)
  have "read_ipv4 (CHR '':'' # r) = None" for r by (rule read_ipv4_None) (simp add: to_digit_def)
  then show ?thesis using Some by (simp add: show_v6_def)
next
  case None
  then show ?thesis
    using read_ipv4_groups_None [of "''::'' @ r" for r] read_ipv4_groups_None [of "[]"]
    by (auto simp: show_v6_def ends_groups_def Let_def split: prod.split)
qed

lemma parse_ip_show_ip: "parse_ip (show_ip ip) = Some ip"
proof (cases ip)
  case (IpV4 a)
  then show ?thesis using read_ipv4_show [of "[]" a] by (simp add: parse_ip_def stops_def)
next
  case (IpV6 a)
  then show ?thesis by (simp add: parse_ip_def read_ipv4_v6_None read_ipv6_show)
qed

lemma show_nat_radix: "show_nat n = show_radix 10 n"
proof (induction n rule: show_nat.induct)
  case (1 n)
  then show ?case by (simp add: show_nat.simps [of n] show_radix.simps [of 10 n] digit_char_def)
qed

text \<open>A port number reads back.\<close>

lemma parse_u16_show:
  assumes "n < 2 ^ 16"
  shows "parse_u16 (show_nat n) = Some n" and "CHR '':'' \<notin> set (show_nat n)"
proof -
  have d: "show_nat n \<noteq> []" "\<forall>c \<in> set (show_nat n). to_digit 10 c \<noteq> None" "num_val 10 (show_nat n) = n"
    using show_radix_digits [of 10 n] by (auto simp: show_nat_radix)
  have ten: "is_ascii_digit c \<and> digit_val c = the (to_digit 10 c)" if "to_digit 10 c \<noteq> None" for c
    using that by (auto simp: to_digit_def is_ascii_digit_def digit_val_def Let_def split: if_splits)
  have "foldl (\<lambda>a c. a * 10 + digit_val c) x s = foldl (\<lambda>a c. a * 10 + the (to_digit 10 c)) x s"
    if "\<forall>c \<in> set s. to_digit 10 c \<noteq> None" for x s using that ten by (induction s arbitrary: x) auto
  then have v: "dec_val (show_nat n) = n" using d(2,3) by (simp add: dec_val_def num_val_def)
  have "to_digit 10 (CHR ''+'') = None" "to_digit 10 (CHR '':'') = None" by (simp_all add: to_digit_def)
  then have no: "CHR ''+'' \<notin> set (show_nat n)" "CHR '':'' \<notin> set (show_nat n)" using d(2) by metis+
  then show "CHR '':'' \<notin> set (show_nat n)" by simp
  have "(case show_nat n of [] \<Rightarrow> [] | c # cs \<Rightarrow> if c = CHR ''+'' then cs else show_nat n) = show_nat n"
    using no(1) by (cases "show_nat n") auto
  moreover have "list_all is_ascii_digit (show_nat n)" using d(2) ten by (auto simp: list_all_iff)
  ultimately show "parse_u16 (show_nat n) = Some n" using assms d(1) v by (simp add: parse_u16_def parse_unsigned_def)
qed

end
