(* ===== verification/Bypass.thy ===== *)
theory Bypass
  imports Ip_Addr "HOL-Library.List_Lexorder" "HOL-Library.Sublist"
begin

text \<open>
  The bypass rules of the client, \<^verbatim>\<open>src/src/bypass/mod.rs\<close>: targets under a listed domain or in a listed network are connected
  directly. Domains are kept as sorted keys with the labels reversed, so that a suffix of a name is a prefix of its key.

  Parameters (\<open>ipnet\<close>): \<open>IpNetwork::new\<close> and membership of an address in a network. The table of
  networks answers whether one of them contains the address. An FST set is the list of its keys; its builder refuses
  keys that are not in ascending order. Reading and parsing a rule file is an argument of \<open>bypass_load\<close>.

  Lemmas: the incremental loop over the labels decides exactly whether a listed domain is a suffix, label by label and
  without case, of the name; the keys a builder hands to the FST are always in order.
\<close>

section \<open>Domain keys\<close>

definition to_lower_byte :: "byte \<Rightarrow> byte" where
  "to_lower_byte b = (if 65 \<le> b \<and> b \<le> 90 then b + 32 else b)"

definition trim_dots :: "string \<Rightarrow> string" where
  "trim_dots = trim_matches (\<lambda>c. c = CHR ''.'')"

text \<open>The inner loop: from \<open>end\<close> back to the dot before it.\<close>

fun label_start :: "bytes \<Rightarrow> nat \<Rightarrow> nat" where
  "label_start bs 0 = 0"
| "label_start bs (Suc k) = (if bs ! k \<noteq> 46 then label_start bs k else Suc k)"

lemma label_start_le: "label_start bs e \<le> e"
  by (induction bs e rule: label_start.induct) auto

text \<open>One round of the outer loop: the buffer with the next label appended.\<close>

definition push_label :: "bytes \<Rightarrow> nat \<Rightarrow> nat \<Rightarrow> bool \<Rightarrow> bytes \<Rightarrow> bytes" where
  "push_label bs start e first buf = buf @ (if first then [] else [0]) @ map to_lower_byte (take (e - start) (drop start bs))"

function key_loop :: "bytes \<Rightarrow> nat \<Rightarrow> bool \<Rightarrow> bytes \<Rightarrow> bytes" where
  "key_loop bs e first buf =
     (if 0 < e
      then (let start = label_start bs e in
            key_loop bs (if 0 < start then start - 1 else 0) False (push_label bs start e first buf))
      else buf)"
  by pat_completeness auto
termination
proof (relation "measure (\<lambda>(bs, e, first, buf). e)")
  fix bs :: bytes and e start :: nat
  assume "0 < e" and "start = label_start bs e"
  then show "((bs, if 0 < start then start - 1 else 0, False, b), bs, e, f, c) \<in> measure (\<lambda>(bs, e, first, buf). e)" for b f c
    using label_start_le [of bs e] by auto
qed simp

declare key_loop.simps [simp del]

definition domain_to_fst_key :: "string \<Rightarrow> bytes option" where
  "domain_to_fst_key domain =
     (let domain = trim_dots domain in
      if domain = [] then None else Some (key_loop (as_bytes domain) (length domain) True []))"

section \<open>The set of domains\<close>

fun from_sorted_keys :: "bytes list \<Rightarrow> (bytes list, string) result" where
  "from_sorted_keys [] = Ok []"
| "from_sorted_keys [k] = Ok [k]"
| "from_sorted_keys (k # l # ks) =
     (if l < k then Err ''fst insert domain key'' else rbind (from_sorted_keys (l # ks)) (\<lambda>r. Ok (k # r)))"

function matches_loop :: "bytes list \<Rightarrow> bytes \<Rightarrow> nat \<Rightarrow> bool \<Rightarrow> bytes \<Rightarrow> bool" where
  "matches_loop keys bs e first buf =
     (if 0 < e
      then (let start = label_start bs e; buf = push_label bs start e first buf in
            if buf \<in> set keys then True
            else matches_loop keys bs (if 0 < start then start - 1 else 0) False buf)
      else False)"
  by pat_completeness auto
termination
proof (relation "measure (\<lambda>(keys, bs, e, first, buf). e)")
  fix keys :: "bytes list" and bs :: bytes and e start :: nat
  assume "0 < e" and "start = label_start bs e"
  then show "((keys, bs, if 0 < start then start - 1 else 0, False, b), keys, bs, e, f, c) \<in> measure (\<lambda>(keys, bs, e, first, buf). e)" for b f c
    using label_start_le [of bs e] by auto
qed simp

declare matches_loop.simps [simp del]

definition fst_matches :: "bytes list \<Rightarrow> string \<Rightarrow> bool" where
  "fst_matches keys domain =
     (let domain = trim_dots domain in
      if domain = [] then False else matches_loop keys (as_bytes domain) (length domain) True [])"

section \<open>Networks and rules\<close>

record 'n ipnet =
  in_new :: "ip_addr \<Rightarrow> nat \<Rightarrow> 'n option"
  in_contains :: "'n \<Rightarrow> ip_addr \<Rightarrow> bool"

record 'n rules_builder =
  rb_domain_keys :: "bytes list"
  rb_ip_table :: "'n list"

definition builder_new :: "'n rules_builder" where
  "builder_new = \<lparr>rb_domain_keys = [], rb_ip_table = []\<rparr>"

definition add_domain :: "string \<Rightarrow> 'n rules_builder \<Rightarrow> 'n rules_builder" where
  "add_domain domain b =
     (case domain_to_fst_key domain of None \<Rightarrow> b | Some key \<Rightarrow> b\<lparr>rb_domain_keys := rb_domain_keys b @ [key]\<rparr>)"

definition insert_net :: "'n ipnet \<Rightarrow> ip_addr \<Rightarrow> nat \<Rightarrow> string \<Rightarrow> 'n rules_builder \<Rightarrow> ('n rules_builder, string) result" where
  "insert_net N addr prefix_len kind b =
     (case in_new N addr prefix_len of
        None \<Rightarrow> Err (''invalid '' @ kind @ '' CIDR'')
      | Some net \<Rightarrow> Ok (b\<lparr>rb_ip_table := rb_ip_table b @ [net]\<rparr>))"

definition add_cidr :: "'n ipnet \<Rightarrow> string \<Rightarrow> 'n rules_builder \<Rightarrow> ('n rules_builder, string) result" where
  "add_cidr N cidr b =
     rbind (ok_or (split_once (CHR ''/'') cidr) (''missing '' @ [CHR 0x27] @ ''/'' @ [CHR 0x27] @ '' in CIDR `'' @ cidr @ ''`'')) (\<lambda>(addr_str, prefix_str).
     rbind (ok_or (parse_u8 prefix_str) (''invalid prefix length in `'' @ cidr @ ''`'')) (\<lambda>prefix_len.
     rbind (ok_or (parse_ip addr_str) (''invalid IP address in `'' @ cidr @ ''`'')) (\<lambda>addr.
       case addr of
         IpV4 a \<Rightarrow> if prefix_len \<le> 32 then insert_net N addr prefix_len ''IPv4'' b else Err (''IPv4 prefix > 32 in `'' @ cidr @ ''`'')
       | IpV6 a \<Rightarrow> if prefix_len \<le> 128 then insert_net N addr prefix_len ''IPv6'' b else Err (''IPv6 prefix > 128 in `'' @ cidr @ ''`''))))"

record 'n bypass_rules =
  br_domain_fst :: "bytes list"
  br_ip_table :: "'n list"

definition rules_build :: "'n rules_builder \<Rightarrow> ('n bypass_rules, string) result" where
  "rules_build b =
     rbind (from_sorted_keys (remdups_adj (sort (rb_domain_keys b)))) (\<lambda>keys.
       Ok \<lparr>br_domain_fst = keys, br_ip_table = rb_ip_table b\<rparr>)"

record bypass_file =
  bf_domain_suffix :: "string list"
  bf_ip_cidr :: "string list"

fun add_cidrs :: "'n ipnet \<Rightarrow> string \<Rightarrow> string list \<Rightarrow> 'n rules_builder \<Rightarrow> ('n rules_builder, string) result" where
  "add_cidrs N path [] b = Ok b"
| "add_cidrs N path (c # cs) b = rbind (map_err (\<lambda>e. ''in file '' @ path @ '': '' @ e) (add_cidr N c b)) (add_cidrs N path cs)"

fun load_files :: "'n ipnet \<Rightarrow> (string \<Rightarrow> (bypass_file, string) result) \<Rightarrow> string list \<Rightarrow> 'n rules_builder \<Rightarrow> ('n rules_builder, string) result" where
  "load_files N read [] b = Ok b"
| "load_files N read (path # paths) b =
     rbind (read path) (\<lambda>file.
     rbind (add_cidrs N path (bf_ip_cidr file) (fold add_domain (bf_domain_suffix file) b)) (load_files N read paths))"

definition bypass_load :: "'n ipnet \<Rightarrow> (string \<Rightarrow> (bypass_file, string) result) \<Rightarrow> string list \<Rightarrow> ('n bypass_rules, string) result" where
  "bypass_load N read bypass_files = rbind (load_files N read bypass_files builder_new) rules_build"

definition match_domain :: "'n bypass_rules \<Rightarrow> string \<Rightarrow> bool" where
  "match_domain r domain = fst_matches (br_domain_fst r) domain"

definition match_ip :: "'n ipnet \<Rightarrow> 'n bypass_rules \<Rightarrow> ip_addr \<Rightarrow> bool" where
  "match_ip N r ip \<longleftrightarrow> list_ex (\<lambda>n. in_contains N n ip) (br_ip_table r)"

definition rules_is_empty :: "'n bypass_rules \<Rightarrow> bool" where
  "rules_is_empty r \<longleftrightarrow> br_domain_fst r = [] \<and> br_ip_table r = []"

definition extract_host :: "string \<Rightarrow> string" where
  "extract_host target =
     (case target of
        c # rest \<Rightarrow> if c = CHR ''['' then takeWhile (\<lambda>c. c \<noteq> CHR '']'') rest else takeWhile (\<lambda>c. c \<noteq> CHR '':'') target
      | [] \<Rightarrow> [])"

definition should_bypass :: "'n ipnet \<Rightarrow> 'n bypass_rules \<Rightarrow> string \<Rightarrow> bool" where
  "should_bypass N r target =
     (let host = extract_host target in
      case parse_ip host of Some ip \<Rightarrow> match_ip N r ip | None \<Rightarrow> match_domain r host)"

section \<open>Lemmas: labels\<close>

fun split_on :: "'a \<Rightarrow> 'a list \<Rightarrow> 'a list list" where
  "split_on c [] = [[]]"
| "split_on c (x # xs) = (if x = c then [] # split_on c xs else (case split_on c xs of [] \<Rightarrow> [[x]] | l # ls \<Rightarrow> (x # l) # ls))"

fun join_labels :: "bytes list \<Rightarrow> bytes" where
  "join_labels [] = []"
| "join_labels [l] = l"
| "join_labels (l # ls) = l @ 0 # join_labels ls"

lemma split_on_ne [simp]: "split_on c xs \<noteq> []"
  by (induction xs) (auto split: list.split)

lemma split_on_notin: "c \<notin> set xs \<Longrightarrow> split_on c xs = [xs]"
  by (induction xs) auto

lemma split_on_snoc: "c \<notin> set ys \<Longrightarrow> split_on c (xs @ c # ys) = split_on c xs @ [ys]"
proof (induction xs)
  case Nil
  then show ?case by (simp add: split_on_notin)
next
  case (Cons x xs)
  then show ?case by (cases "split_on c xs") auto
qed

lemma split_on_set: "l \<in> set (split_on c xs) \<Longrightarrow> set l \<subseteq> set xs"
  by (induction xs arbitrary: l) (fastforce split: list.splits if_splits)+

lemma label_start_spec:
  "e \<le> length bs \<Longrightarrow> (\<exists>l. take (e - label_start bs e) (drop (label_start bs e) bs) = l \<and> 46 \<notin> set l
      \<and> (if label_start bs e = 0 then take e bs = l
         else take e bs = take (label_start bs e - 1) bs @ 46 # l))"
proof (induction bs e rule: label_start.induct)
  case (2 bs k)
  show ?case
  proof (cases "bs ! k = 46")
    case True
    then show ?thesis using 2 by (simp add: take_Suc_conv_app_nth)
  next
    case False
    let ?s = "label_start bs k"
    have le: "?s \<le> k" by (rule label_start_le)
    have seg: "take (Suc k - ?s) (drop ?s bs) = take (k - ?s) (drop ?s bs) @ [bs ! k]"
      using 2(2) le by (simp add: Suc_diff_le take_Suc_conv_app_nth)
    have all: "take (Suc k) bs = take k bs @ [bs ! k]" using 2(2) by (simp add: take_Suc_conv_app_nth)
    obtain l where l: "take (k - ?s) (drop ?s bs) = l" "46 \<notin> set l"
        and split: "if ?s = 0 then take k bs = l else take k bs = take (?s - 1) bs @ 46 # l"
      using "2.IH" [OF False] "2.prems" by (metis Suc_leD)
    have s: "label_start bs (Suc k) = ?s" using False by simp
    have "46 \<notin> set (l @ [bs ! k])" using l(2) False by auto
    moreover have "if ?s = 0 then take (Suc k) bs = l @ [bs ! k] else take (Suc k) bs = take (?s - 1) bs @ 46 # l @ [bs ! k]"
      using split unfolding all by (cases "?s = 0") auto
    ultimately show ?thesis unfolding s seg l(1) by blast
  qed
qed simp

lemma label_round:
  assumes "e \<le> length bs" and "0 < e" and "bs ! 0 \<noteq> 46"
  obtains l where "push_label bs (label_start bs e) e first buf = buf @ (if first then [] else [0]) @ map to_lower_byte l"
    and "label_start bs e = 0 \<and> split_on 46 (take e bs) = [l]
       \<or> 1 < label_start bs e \<and> label_start bs e \<le> e \<and> split_on 46 (take e bs) = split_on 46 (take (label_start bs e - 1) bs) @ [l]"
proof -
  let ?s = "label_start bs e"
  obtain l where l: "take (e - ?s) (drop ?s bs) = l" "46 \<notin> set l"
      and split: "if ?s = 0 then take e bs = l else take e bs = take (?s - 1) bs @ 46 # l"
    using label_start_spec [OF assms(1)] by blast
  have "?s \<noteq> 1"
  proof
    assume "?s = 1"
    then have "take e bs = 46 # l" using split by simp
    then show False using assms by (metis nth_Cons_0 nth_take)
  qed
  then show thesis
    using that [of l] l split label_start_le [of bs e] split_on_notin [OF l(2)] split_on_snoc [OF l(2)]
    by (auto simp: push_label_def split: if_splits)
qed

text \<open>The lower-case labels of a name, last one first.\<close>

definition rev_labels :: "bytes \<Rightarrow> bytes list" where
  "rev_labels bs = rev (map (map to_lower_byte) (split_on 46 bs))"

lemma join_labels_Cons: "ls \<noteq> [] \<Longrightarrow> join_labels (l # ls) = l @ 0 # join_labels ls"
  by (cases ls) auto

lemma rev_labels_cases:
  assumes "e \<le> length bs" and "0 < e" and "bs ! 0 \<noteq> 46"
  obtains (last) l where "push_label bs (label_start bs e) e first buf = buf @ (if first then [] else [0]) @ l"
      "label_start bs e = 0" "rev_labels (take e bs) = [l]"
    | (more) l where "push_label bs (label_start bs e) e first buf = buf @ (if first then [] else [0]) @ l"
      "1 < label_start bs e" "label_start bs e \<le> e" "rev_labels (take e bs) = l # rev_labels (take (label_start bs e - 1) bs)"
      "rev_labels (take (label_start bs e - 1) bs) \<noteq> []"
proof -
  obtain l where l: "push_label bs (label_start bs e) e first buf = buf @ (if first then [] else [0]) @ map to_lower_byte l"
    and split: "label_start bs e = 0 \<and> split_on 46 (take e bs) = [l]
       \<or> 1 < label_start bs e \<and> label_start bs e \<le> e \<and> split_on 46 (take e bs) = split_on 46 (take (label_start bs e - 1) bs) @ [l]"
    using label_round [OF assms] .
  show thesis
  proof (cases "label_start bs e = 0")
    case True
    then have "rev_labels (take e bs) = [map to_lower_byte l]" using split by (simp add: rev_labels_def)
    then show ?thesis by (rule last [OF l True])
  next
    case False
    then have "rev_labels (take e bs) = map to_lower_byte l # rev_labels (take (label_start bs e - 1) bs)"
      using split by (simp add: rev_labels_def)
    moreover have "rev_labels (take (label_start bs e - 1) bs) \<noteq> []" by (simp add: rev_labels_def)
    ultimately show ?thesis using False split by (intro more [OF l]) simp_all
  qed
qed

lemma key_loop_labels:
  "e \<le> length bs \<Longrightarrow> 0 < e \<Longrightarrow> bs ! 0 \<noteq> 46 \<Longrightarrow>
     key_loop bs e first buf = buf @ (if first then [] else [0]) @ join_labels (rev_labels (take e bs))"
proof (induction bs e first buf rule: key_loop.induct)
  case (1 bs e first buf)
  let ?s = "label_start bs e"
  from "1.prems" show ?case
  proof (cases rule: rev_labels_cases [where first = first and buf = buf])
    case (last l)
    then show ?thesis using "1.prems" by (simp add: key_loop.simps [of bs e] key_loop.simps [of bs 0])
  next
    case (more l)
    then have "key_loop bs (?s - 1) False (push_label bs ?s e first buf)
        = push_label bs ?s e first buf @ [0] @ join_labels (rev_labels (take (?s - 1) bs))"
      using 1 by auto
    then show ?thesis using "1.prems" more by (simp add: key_loop.simps [of bs e] join_labels_Cons Let_def)
  qed
qed

lemma matches_loop_labels:
  "e \<le> length bs \<Longrightarrow> 0 < e \<Longrightarrow> bs ! 0 \<noteq> 46 \<Longrightarrow>
     matches_loop keys bs e first buf \<longleftrightarrow>
       (\<exists>k. 0 < k \<and> k \<le> length (rev_labels (take e bs))
          \<and> buf @ (if first then [] else [0]) @ join_labels (take k (rev_labels (take e bs))) \<in> set keys)"
proof (induction keys bs e first buf rule: matches_loop.induct)
  case (1 keys bs e first buf)
  let ?s = "label_start bs e" and ?sep = "if first then [] else [0 :: byte]"
  note unfold = matches_loop.simps [of keys bs e first buf]
  from "1.prems" show ?case
  proof (cases rule: rev_labels_cases [where first = first and buf = buf])
    case (last l)
    have "(\<exists>k. 0 < k \<and> k \<le> Suc 0 \<and> P k) \<longleftrightarrow> P (Suc 0)" for P by (metis Suc_leI le_antisym le_refl zero_less_Suc)
    then show ?thesis using "1.prems" last unfold by (simp add: matches_loop.simps [of keys bs 0] Let_def)
  next
    case (more l)
    let ?R = "rev_labels (take (?s - 1) bs)"
    have split: "(\<exists>k. 0 < k \<and> k \<le> Suc n \<and> P k) \<longleftrightarrow> P (Suc 0) \<or> (\<exists>k. 0 < k \<and> k \<le> n \<and> P (Suc k))" for n P
      by (metis Suc_le_mono gr0_conv_Suc le0 not_gr_zero One_nat_def)
    have join: "0 < k \<Longrightarrow> k \<le> length ?R \<Longrightarrow> join_labels (take (Suc k) (l # ?R)) = l @ 0 # join_labels (take k ?R)" for k
      using more(5) by (cases k; cases ?R) (auto simp: join_labels_Cons)
    have "matches_loop keys bs (?s - 1) False (push_label bs ?s e first buf) \<longleftrightarrow>
        (\<exists>k. 0 < k \<and> k \<le> length ?R \<and> push_label bs ?s e first buf @ [0] @ join_labels (take k ?R) \<in> set keys)"
      if "push_label bs ?s e first buf \<notin> set keys"
      using "1.IH" [of ?s "push_label bs ?s e first buf"] that "1.prems" more by auto
    then have "matches_loop keys bs e first buf \<longleftrightarrow> push_label bs ?s e first buf \<in> set keys
        \<or> (\<exists>k. 0 < k \<and> k \<le> length ?R \<and> push_label bs ?s e first buf @ [0] @ join_labels (take k ?R) \<in> set keys)"
      using unfold "1.prems" more(2) by (simp add: Let_def)
    also have "\<dots> \<longleftrightarrow> (\<exists>k. 0 < k \<and> k \<le> Suc (length ?R) \<and> buf @ ?sep @ join_labels (take k (l # ?R)) \<in> set keys)"
      unfolding split using more(1) join by auto
    finally show ?thesis using more(4) by simp
  qed
qed

section \<open>Lemmas: keys\<close>

text \<open>Keys determine their labels as long as no label holds the separator.\<close>

lemma append_sep_eq: "c \<notin> set xs \<Longrightarrow> c \<notin> set ys \<Longrightarrow> xs @ c # us = ys @ c # vs \<longleftrightarrow> xs = ys \<and> us = vs"
proof (induction xs arbitrary: ys)
  case Nil
  then show ?case by (cases ys) auto
next
  case (Cons x xs)
  then show ?case by (cases ys) auto
qed

lemma join_labels_inj:
  "ls \<noteq> [] \<Longrightarrow> ms \<noteq> [] \<Longrightarrow> \<forall>l \<in> set ls \<union> set ms. 0 \<notin> set l \<Longrightarrow> join_labels ls = join_labels ms \<longleftrightarrow> ls = ms"
proof (induction ls arbitrary: ms rule: join_labels.induct)
  case (2 l)
  then show ?case by (cases ms rule: join_labels.cases) auto
next
  case (3 l l' ls)
  show ?case
  proof (cases ms rule: join_labels.cases)
    case (3 m m' ms')
    have "l @ 0 # join_labels (l' # ls) = m @ 0 # join_labels (m' # ms') \<longleftrightarrow> l = m \<and> join_labels (l' # ls) = join_labels (m' # ms')"
      using "3.prems" 3 by (intro append_sep_eq) auto
    then show ?thesis using "3.IH" [of "m' # ms'"] "3.prems" 3 by auto
  qed (use 3 in auto)
qed simp

lemma to_lower_byte_0 [simp]: "to_lower_byte b = 0 \<longleftrightarrow> b = 0"
proof -
  have "to_lower_byte b = 0 \<Longrightarrow> b = 0"
    by (auto simp: to_lower_byte_def word_le_nat_alt unat_eq_0 [symmetric] unat_word_ariths split: if_splits)
  then show ?thesis by (auto simp: to_lower_byte_def)
qed

lemma to_lower_byte_dot: "to_lower_byte b = 46 \<longleftrightarrow> b = 46"
proof -
  have "to_lower_byte b = 46 \<Longrightarrow> b = 46"
    by (auto simp: to_lower_byte_def word_le_nat_alt word_unat_eq_iff unat_word_ariths split: if_splits)
  then show ?thesis by (auto simp: to_lower_byte_def)
qed

lemma rev_labels_ne [simp]: "rev_labels bs \<noteq> []"
  by (simp add: rev_labels_def)

lemma rev_labels_nul: "0 \<notin> set bs \<Longrightarrow> l \<in> set (rev_labels bs) \<Longrightarrow> 0 \<notin> set l"
  by (fastforce simp: rev_labels_def dest: split_on_set)

lemma trim_dots_hd: "trim_dots s \<noteq> [] \<Longrightarrow> trim_dots s ! 0 \<noteq> CHR ''.''"
proof -
  assume ne: "trim_dots s \<noteq> []"
  let ?p = "\<lambda>c. c = CHR ''.''"
  let ?d = "dropWhile ?p s"
  have t: "trim_dots s = rev (dropWhile ?p (rev ?d))"
    by (simp add: trim_dots_def trim_matches_def trim_end_matches_def trim_start_matches_def)
  have "?d = trim_dots s @ rev (takeWhile ?p (rev ?d))"
    unfolding t rev_append [symmetric] by simp
  then have "hd ?d = trim_dots s ! 0" and "?d \<noteq> []" using ne by (metis hd_append2 hd_conv_nth, metis append_is_Nil_conv)
  then show ?thesis using hd_dropWhile [of ?p s] by metis
qed

lemma as_bytes_dot: "s \<noteq> [] \<Longrightarrow> s ! 0 \<noteq> CHR ''.'' \<Longrightarrow> as_bytes s ! 0 \<noteq> 46"
proof -
  assume "s \<noteq> []" "s ! 0 \<noteq> CHR ''.''"
  moreover have "of_char c = (46 :: byte) \<Longrightarrow> c = CHR ''.''" for c :: char
  proof -
    assume "of_char c = (46 :: byte)"
    then have "(of_char c :: nat) = of_char (CHR ''.'')" using unat_of_char_byte [of c] by simp
    then show "c = CHR ''.''" by (simp only: of_char_eq_iff)
  qed
  ultimately show ?thesis by (auto simp: as_bytes_def)
qed

text \<open>The labels of a name, in order and in lower case; the key holds them in reverse.\<close>

definition domain_labels :: "string \<Rightarrow> bytes list" where
  "domain_labels s = split_on 46 (map to_lower_byte (as_bytes (trim_dots s)))"

lemma rev_labels_domain: "rev_labels (as_bytes (trim_dots s)) = rev (domain_labels s)"
proof -
  have "map (map to_lower_byte) (split_on 46 bs) = split_on 46 (map to_lower_byte bs)" for bs
  proof (induction bs)
    case (Cons b bs)
    have "to_lower_byte b = 46 \<longleftrightarrow> b = 46" by (rule to_lower_byte_dot)
    then show ?case using Cons [symmetric] by (auto split: list.split)
  qed simp
  then show ?thesis by (simp add: rev_labels_def domain_labels_def)
qed

lemma domain_to_fst_key_labels:
  "domain_to_fst_key d = (if trim_dots d = [] then None else Some (join_labels (rev (domain_labels d))))"
  using key_loop_labels [of "length (trim_dots d)" "as_bytes (trim_dots d)" True "[]"] trim_dots_hd [of d] as_bytes_dot
  by (auto simp: domain_to_fst_key_def Let_def rev_labels_domain)

lemma domain_labels_ne [simp]: "domain_labels s \<noteq> []"
  by (simp add: domain_labels_def)

lemma fst_matches_labels:
  "fst_matches keys s \<longleftrightarrow> trim_dots s \<noteq> []
     \<and> (\<exists>k. 0 < k \<and> k \<le> length (domain_labels s) \<and> join_labels (take k (rev (domain_labels s))) \<in> set keys)"
  using matches_loop_labels [of "length (trim_dots s)" "as_bytes (trim_dots s)" keys True "[]"] trim_dots_hd [of s] as_bytes_dot
  by (auto simp: fst_matches_def Let_def rev_labels_domain)

text \<open>A name without the separator byte.\<close>

definition no_nul :: "string \<Rightarrow> bool" where
  "no_nul s \<longleftrightarrow> CHR 0x00 \<notin> set s"

lemma no_nul_labels: "no_nul s \<Longrightarrow> l \<in> set (domain_labels s) \<Longrightarrow> 0 \<notin> set l"
proof -
  assume nn: "no_nul s" and l: "l \<in> set (domain_labels s)"
  have sub: "set (trim_dots s) \<subseteq> set s"
    by (auto simp: trim_dots_def trim_matches_def trim_end_matches_def trim_start_matches_def dest!: set_dropWhileD)
  have "c = CHR 0x00" if "of_char c = (0 :: byte)" for c :: char
  proof -
    have "(of_char c :: nat) = of_char (CHR 0x00)" using unat_of_char_byte [of c] that by simp
    then show ?thesis by (simp only: of_char_eq_iff)
  qed
  then have "0 \<notin> set (as_bytes (trim_dots s))" using nn sub by (auto simp: no_nul_def as_bytes_def)
  moreover have "l \<in> set (rev_labels (as_bytes (trim_dots s)))" using l by (simp add: rev_labels_domain)
  ultimately show ?thesis by (rule rev_labels_nul)
qed

lemma key_matches_suffix:
  assumes "no_nul d" and "no_nul s"
  shows "(\<exists>k. 0 < k \<and> k \<le> length (domain_labels s) \<and> join_labels (take k (rev (domain_labels s))) = join_labels (rev (domain_labels d)))
     \<longleftrightarrow> suffix (domain_labels d) (domain_labels s)"
proof -
  have "join_labels (take k (rev (domain_labels s))) = join_labels (rev (domain_labels d))
      \<longleftrightarrow> take k (rev (domain_labels s)) = rev (domain_labels d)" if "0 < k" for k
    using that assms by (intro join_labels_inj) (auto dest!: in_set_takeD no_nul_labels)
  then have "?thesis \<longleftrightarrow> ((\<exists>k. 0 < k \<and> k \<le> length (domain_labels s) \<and> take k (rev (domain_labels s)) = rev (domain_labels d))
      \<longleftrightarrow> prefix (rev (domain_labels d)) (rev (domain_labels s)))"
    unfolding suffix_to_prefix by (intro arg_cong2 [where f = "(=)"] ex_cong1 refl) blast
  moreover have take: "(\<exists>k. 0 < k \<and> k \<le> length xs \<and> take k xs = ys) \<longleftrightarrow> prefix ys xs" if "ys \<noteq> []" for xs ys :: "bytes list"
    using that by (metis take_is_prefix append_eq_conv_conj length_greater_0_conv prefix_def prefix_length_le)
  ultimately show ?thesis using take [of "rev (domain_labels d)" "rev (domain_labels s)"] by simp
qed

section \<open>Lemmas: building and loading\<close>

lemma from_sorted_keys_ok: "sorted ks \<Longrightarrow> from_sorted_keys ks = Ok ks"
  by (induction ks rule: from_sorted_keys.induct) auto

text \<open>Sorting puts the keys in the order the FST builder needs: building never fails.\<close>

lemma rules_build_ok:
  "rules_build b = Ok \<lparr>br_domain_fst = remdups_adj (sort (rb_domain_keys b)), br_ip_table = rb_ip_table b\<rparr>"
  by (simp add: rules_build_def from_sorted_keys_ok)

text \<open>The network a CIDR string stands for: what is before the first slash is an address and what is after it a number of
  bits that the address has, and the library accepts the pair.\<close>

fun address_bits :: "ip_addr \<Rightarrow> nat" where
  "address_bits (IpV4 a) = 32"
| "address_bits (IpV6 a) = 128"

definition cidr_net :: "'n ipnet \<Rightarrow> string \<Rightarrow> 'n option" where
  "cidr_net N cidr =
     (let addr = takeWhile (\<lambda>c. c \<noteq> CHR ''/'') cidr; len = drop (length addr + 1) cidr in
      case (parse_ip addr, parse_u8 len) of
        (Some ip, Some n) \<Rightarrow> if CHR ''/'' \<in> set cidr \<and> n \<le> address_bits ip then in_new N ip n else None
      | _ \<Rightarrow> None)"

lemma cidr_net_split:
  "cidr_net N c = (case split_once (CHR ''/'') c of
     None \<Rightarrow> None
   | Some (a, p) \<Rightarrow> (case (parse_ip a, parse_u8 p) of (Some ip, Some n) \<Rightarrow> if n \<le> address_bits ip then in_new N ip n else None | _ \<Rightarrow> None))"
proof (cases "split_once (CHR ''/'') c")
  case None
  then have "CHR ''/'' \<notin> set c" by (simp only: split_once_None_iff not_False_eq_True)
  then show ?thesis unfolding None by (simp add: cidr_net_def Let_def split: option.split)
next
  case (Some ap)
  obtain a p where ap: "ap = (a, p)" by (cases ap)
  have c: "c = a @ CHR ''/'' # p" "CHR ''/'' \<notin> set a" using split_once_SomeD [OF Some [unfolded ap]] by auto
  have "takeWhile (\<lambda>x. x \<noteq> CHR ''/'') c = a" unfolding c(1) using c(2) by (subst takeWhile_append2) auto
  moreover have "drop (length a + 1) c = p" "CHR ''/'' \<in> set c" by (simp_all add: c(1))
  ultimately show ?thesis by (simp add: cidr_net_def Some ap Let_def split: option.split)
qed

lemma add_cidr_net:
  "(case cidr_net N c of
      Some net \<Rightarrow> add_cidr N c b = Ok (b\<lparr>rb_ip_table := rb_ip_table b @ [net]\<rparr>)
    | None \<Rightarrow> (\<exists>e. add_cidr N c b = Err e))"
proof (cases "split_once (CHR ''/'') c")
  case (Some ap)
  obtain a p where ap: "ap = (a, p)" by (cases ap)
  show ?thesis
    by (cases "parse_u8 p"; cases "parse_ip a")
      (auto simp: cidr_net_split add_cidr_def insert_net_def Some ap split: option.split ip_addr.split)
qed (simp add: cidr_net_split add_cidr_def)

lemma add_domain_eq:
  "add_domain d b = b\<lparr>rb_domain_keys := rb_domain_keys b @ (case domain_to_fst_key d of None \<Rightarrow> [] | Some k \<Rightarrow> [k])\<rparr>"
  by (simp add: add_domain_def split: option.split)

lemma fold_add_domain:
  "fold add_domain ds b = b\<lparr>rb_domain_keys := rb_domain_keys b @ List.map_filter domain_to_fst_key ds\<rparr>"
  by (induction ds arbitrary: b) (auto simp: add_domain_eq map_filter_simps split: option.split)

lemma add_cidrs_eq:
  "add_cidrs N path cs b = Ok b' \<longleftrightarrow>
     (\<forall>c \<in> set cs. cidr_net N c \<noteq> None) \<and> b' = b\<lparr>rb_ip_table := rb_ip_table b @ List.map_filter (cidr_net N) cs\<rparr>"
proof (induction cs arbitrary: b)
  case (Cons c cs)
  then show ?case using add_cidr_net [of N c b] by (auto simp: map_filter_simps split: option.splits)
qed (auto simp: map_filter_simps)

text \<open>The lines of all rule files that can be read.\<close>

definition listed :: "(bypass_file \<Rightarrow> string list) \<Rightarrow> (string \<Rightarrow> (bypass_file, string) result) \<Rightarrow> string list \<Rightarrow> string list" where
  "listed sel read paths = concat (map (\<lambda>p. case read p of Ok f \<Rightarrow> sel f | Err e \<Rightarrow> []) paths)"

lemma map_filter_append [simp]: "List.map_filter f (xs @ ys) = List.map_filter f xs @ List.map_filter f ys"
  by (simp add: List.map_filter_def)

lemma load_files_eq:
  "load_files N read paths b = Ok b' \<longleftrightarrow>
     (\<forall>p \<in> set paths. \<exists>f. read p = Ok f) \<and> (\<forall>c \<in> set (listed bf_ip_cidr read paths). cidr_net N c \<noteq> None)
     \<and> b' = \<lparr>rb_domain_keys = rb_domain_keys b @ List.map_filter domain_to_fst_key (listed bf_domain_suffix read paths),
            rb_ip_table = rb_ip_table b @ List.map_filter (cidr_net N) (listed bf_ip_cidr read paths)\<rparr>"
proof (induction paths arbitrary: b)
  case (Cons p paths)
  then show ?case
    by (cases "read p") (auto simp: listed_def fold_add_domain add_cidrs_eq rbind_Ok_iff)
qed (auto simp: listed_def map_filter_simps)

lemma bypass_load_eq:
  "bypass_load N read paths = Ok r \<longleftrightarrow>
     (\<forall>p \<in> set paths. \<exists>f. read p = Ok f) \<and> (\<forall>c \<in> set (listed bf_ip_cidr read paths). cidr_net N c \<noteq> None)
     \<and> r = \<lparr>br_domain_fst = remdups_adj (sort (List.map_filter domain_to_fst_key (listed bf_domain_suffix read paths))),
           br_ip_table = List.map_filter (cidr_net N) (listed bf_ip_cidr read paths)\<rparr>"
  by (auto simp: bypass_load_def rbind_Ok_iff rules_build_ok load_files_eq builder_new_def)

lemma set_map_filter_iff: "y \<in> set (List.map_filter f xs) \<longleftrightarrow> (\<exists>x \<in> set xs. f x = Some y)"
  by (force simp: List.map_filter_def)

lemma list_ex_map_filter: "list_ex P (List.map_filter f xs) \<longleftrightarrow> (\<exists>x \<in> set xs. \<exists>y. f x = Some y \<and> P y)"
  by (induction xs) (auto simp: map_filter_simps split: option.split)

section \<open>Properties\<close>

text \<open>C21: loading succeeds exactly when every rule file reads and every listed network is well formed (sorting the keys
  keeps the FST builder from ever failing), and the loaded rules then decide as the files say: a name matches when the
  labels of some listed domain are a suffix of its labels, ignoring case and outer dots, and an address matches when a
  listed network contains it. Names hold no NUL byte, the separator of the keys.\<close>

theorem bypass_rules_decide:
  assumes "\<forall>d \<in> set (listed bf_domain_suffix read paths). no_nul d"
  shows "((\<exists>r. bypass_load N read paths = Ok r) \<longleftrightarrow>
      (\<forall>p \<in> set paths. \<exists>f. read p = Ok f) \<and> (\<forall>c \<in> set (listed bf_ip_cidr read paths). cidr_net N c \<noteq> None))
    \<and> (\<forall>r. bypass_load N read paths = Ok r \<longrightarrow>
        (\<forall>name. no_nul name \<longrightarrow>
           (match_domain r name \<longleftrightarrow> trim_dots name \<noteq> []
              \<and> (\<exists>d \<in> set (listed bf_domain_suffix read paths). trim_dots d \<noteq> [] \<and> suffix (domain_labels d) (domain_labels name))))
        \<and> (\<forall>ip. match_ip N r ip \<longleftrightarrow>
              (\<exists>c \<in> set (listed bf_ip_cidr read paths). \<exists>net. cidr_net N c = Some net \<and> in_contains N net ip)))"
proof (intro conjI allI impI)
  fix r name
  let ?keys = "List.map_filter domain_to_fst_key (listed bf_domain_suffix read paths)"
  assume "bypass_load N read paths = Ok r" and name: "no_nul name"
  then have keys: "set (br_domain_fst r) = set ?keys" by (auto simp: bypass_load_eq)
  have key: "y \<in> set ?keys \<longleftrightarrow> (\<exists>d \<in> set (listed bf_domain_suffix read paths). trim_dots d \<noteq> [] \<and> y = join_labels (rev (domain_labels d)))" for y
    unfolding set_map_filter_iff domain_to_fst_key_labels by (auto split: if_splits)
  have "match_domain r name \<longleftrightarrow> trim_dots name \<noteq> []
      \<and> (\<exists>k. 0 < k \<and> k \<le> length (domain_labels name) \<and> join_labels (take k (rev (domain_labels name))) \<in> set ?keys)"
    unfolding match_domain_def fst_matches_labels keys ..
  also have "(\<exists>k. 0 < k \<and> k \<le> length (domain_labels name) \<and> join_labels (take k (rev (domain_labels name))) \<in> set ?keys)
      \<longleftrightarrow> (\<exists>d \<in> set (listed bf_domain_suffix read paths). trim_dots d \<noteq> []
            \<and> (\<exists>k. 0 < k \<and> k \<le> length (domain_labels name)
                 \<and> join_labels (take k (rev (domain_labels name))) = join_labels (rev (domain_labels d))))"
    unfolding key by blast
  also have "\<dots> \<longleftrightarrow> (\<exists>d \<in> set (listed bf_domain_suffix read paths). trim_dots d \<noteq> [] \<and> suffix (domain_labels d) (domain_labels name))"
    using assms name by (intro bex_cong refl conj_cong key_matches_suffix) auto
  finally show "match_domain r name \<longleftrightarrow> trim_dots name \<noteq> []
      \<and> (\<exists>d \<in> set (listed bf_domain_suffix read paths). trim_dots d \<noteq> [] \<and> suffix (domain_labels d) (domain_labels name))" .
next
  fix r ip
  assume "bypass_load N read paths = Ok r"
  then show "match_ip N r ip \<longleftrightarrow> (\<exists>c \<in> set (listed bf_ip_cidr read paths). \<exists>net. cidr_net N c = Some net \<and> in_contains N net ip)"
    by (simp add: bypass_load_eq match_ip_def list_ex_map_filter)
qed (auto simp: bypass_load_eq)

text \<open>A loopback network and one domain, with networks as prefixes.\<close>

definition demo_net :: "(u32 \<times> nat) ipnet" where
  "demo_net = \<lparr>in_new = (\<lambda>a p. case a of IpV4 w \<Rightarrow> Some (w, p) | IpV6 w \<Rightarrow> None),
     in_contains = (\<lambda>(w, p) a. case a of IpV4 v \<Rightarrow> drop_bit (32 - p) v = drop_bit (32 - p) w | IpV6 v \<Rightarrow> False)\<rparr>"

definition demo_read :: "string \<Rightarrow> (bypass_file, string) result" where
  "demo_read p = Ok \<lparr>bf_domain_suffix = [''.Ab.c''], bf_ip_cidr = [''127.0.0.0/8'']\<rparr>"

theorem bypass_rules_decide_witness:
  "\<exists>r. bypass_load demo_net demo_read [''rules.json''] = Ok r
     \<and> match_domain r ''x.aB.C.'' \<and> \<not> match_domain r ''xab.c'' \<and> match_ip demo_net r (IpV4 0x7F000001)"
proof -
  have nn: "\<forall>d \<in> set (listed bf_domain_suffix demo_read [''rules.json'']). no_nul d" by (simp add: listed_def demo_read_def no_nul_def)
  have "read_octets 4 0 ''127.0.0.0'' = Some ([127, 0, 0, 0], [])" by code_simp
  then have ip: "parse_ip ''127.0.0.0'' = Some (IpV4 0x7F000000)" by (simp add: parse_ip_def read_ipv4_def v4_of_octets_def undigits_def)
  have "split_once (CHR ''/'') ''127.0.0.0/8'' = Some (''127.0.0.0'', ''8'')" "parse_u8 ''8'' = Some 8" by code_simp+
  then have net: "cidr_net demo_net ''127.0.0.0/8'' = Some (0x7F000000, 8)" 
    by (simp add: cidr_net_split ip demo_net_def)
  have ok: "\<exists>r. bypass_load demo_net demo_read [''rules.json''] = Ok r"
    using bypass_rules_decide [OF nn, of demo_net] net by (auto simp: listed_def demo_read_def)
  have l: "domain_labels ''.Ab.c'' = [[97, 98], [99]]" "domain_labels ''x.aB.C.'' = [[120], [97, 98], [99]]"
      "domain_labels ''xab.c'' = [[120, 97, 98], [99]]"
      "trim_dots ''.Ab.c'' = ''Ab.c''" "trim_dots ''x.aB.C.'' = ''x.aB.C''"
    by code_simp+
  have c: "in_contains demo_net (0x7F000000, 8) (IpV4 0x7F000001)" by code_simp
  show ?thesis
    using ok bypass_rules_decide [OF nn, of demo_net] net l c by (auto simp: listed_def demo_read_def no_nul_def suffix_def)
qed

end
