(* ===== verification/Download_Loop.thy ===== *)
theory Download_Loop
  imports Handshake Traffic_Shaper "HOL-Library.Sublist"
begin

text \<open>
  The download half of a client connection, \<^verbatim>\<open>src/src/client/actor/download_loop.rs\<close>: response bodies are decoded into
  frames, the frames are checked for their sequence numbers and collected, and the collected payloads are written to the
  local socket. When a body has carried \<open>max_download_bytes\<close> or more the actor goes on with the answer to a continuation
  request, which a prefetch task may already have sent.

  A response body is a script of events: chunks, a read error, and the moments at which the flush timer has elapsed (the
  guard of that branch of the \<open>select!\<close> is part of the model). The local socket is a script of write attempts; an attempt
  that never completes is the stall timeout. What the prefetch task and the continuation request give is an
  observation per rotation.

  Lemmas: the pending buffers are a \<open>partial_writer\<close>; however the bodies are cut into chunks and into responses, and
  whenever the timer fires, the local socket receives the payloads in order, all of them when the actor succeeds; at a
  rotation the prefetch has always been triggered.
\<close>

section \<open>Decoding and writing\<close>

definition WRITE_BUF_CAPACITY :: nat where "WRITE_BUF_CAPACITY = 64 * 1024"
definition CLIENT_MAX_WRITE_IOV :: nat where "CLIENT_MAX_WRITE_IOV = 64"
definition PREFETCH_LEAD_BYTES :: nat where "PREFETCH_LEAD_BYTES = 20 * 1024 * 1024"

record decode_buffers =
  db_input :: bytes
  db_scratch :: bytes
  db_pending :: "bytes list"
  db_pending_bytes :: nat

definition buffers_new :: decode_buffers where
  "buffers_new = \<lparr>db_input = [], db_scratch = [], db_pending = [], db_pending_bytes = 0\<rparr>"

lemma decode_frame_consumes:
  "decode_frame B C encoding src scratch = (src', Ok (scratch', Some frame)) \<Longrightarrow> length src' < length src"
  by (cases encoding)
    (auto simp: decode_frame_def decode_frame_binary_def decode_frame_json_def Let_def rbind_Ok_iff wire_simps
      split: if_splits option.splits prod.splits dest!: memchr_SomeD)

text \<open>The \<open>while let\<close> loop of \<open>ingest\<close>; a JSON frame takes the scratch buffer with it.\<close>

function ingest_loop ::
    "base122 \<Rightarrow> frame_cipher \<Rightarrow> encoding_type \<Rightarrow> decode_buffers \<Rightarrow> u64 \<Rightarrow> decode_buffers \<times> u64 \<times> (unit, string) result" where
  "ingest_loop B C encoding b expected_seq =
     (case decode_frame B C encoding (db_input b) (db_scratch b) of
        (input, Err e) \<Rightarrow> (b\<lparr>db_input := input\<rparr>, expected_seq, Err (io_message e))
      | (input, Ok (scratch, None)) \<Rightarrow> (b\<lparr>db_input := input, db_scratch := scratch\<rparr>, expected_seq, Ok ())
      | (input, Ok (scratch, Some frame)) \<Rightarrow>
          (let (seq, data) = frame_contents scratch frame;
               b = b\<lparr>db_input := input, db_scratch := (case frame of InJsonScratch s st e \<Rightarrow> [] | Owned s d \<Rightarrow> scratch)\<rparr>
           in if seq \<noteq> expected_seq then (b, expected_seq, Err ''download frame out of order'')
              else ingest_loop B C encoding
                     (b\<lparr>db_pending := db_pending b @ [data], db_pending_bytes := db_pending_bytes b + length data\<rparr>)
                     (expected_seq + 1)))"
  by pat_completeness auto
termination
proof (relation "measure (\<lambda>(B, C, encoding, b, s). length (db_input b))", goal_cases)
  case (2 B C encoding b expected_seq input r scratch_frame scratch f frame)
  then have "decode_frame B C encoding (db_input b) (db_scratch b) = (input, Ok (scratch, Some frame))" by simp
  then have "length input < length (db_input b)" by (rule decode_frame_consumes)
  then show ?case using 2 by auto
qed simp

declare ingest_loop.simps [simp del]

definition ingest ::
    "base122 \<Rightarrow> frame_cipher \<Rightarrow> encoding_type \<Rightarrow> bytes \<Rightarrow> decode_buffers \<Rightarrow> u64 \<Rightarrow> decode_buffers \<times> u64 \<times> (unit, string) result" where
  "ingest B C encoding chunk b expected_seq =
     ingest_loop B C encoding (b\<lparr>db_input := (if db_input b = [] then chunk else db_input b @ chunk)\<rparr>) expected_seq"

definition buffers_has_pending :: "decode_buffers \<Rightarrow> bool" where
  "buffers_has_pending b \<longleftrightarrow> db_pending_bytes b > 0"

definition needs_flush :: "decode_buffers \<Rightarrow> bool" where
  "needs_flush b \<longleftrightarrow> db_pending_bytes b \<ge> WRITE_BUF_CAPACITY"

text \<open>The slices of one vectored write.\<close>

fun gather_slices :: "nat \<Rightarrow> nat \<Rightarrow> bytes list \<Rightarrow> bytes list" where
  "gather_slices cnt tot [] = []"
| "gather_slices cnt tot (chunk # rest) =
     chunk # (if Suc cnt = CLIENT_MAX_WRITE_IOV \<or> tot + length chunk \<ge> WRITE_BUF_CAPACITY then []
              else gather_slices (Suc cnt) (tot + length chunk) rest)"

fun consume_chunks :: "nat \<Rightarrow> bytes list \<Rightarrow> nat \<Rightarrow> bytes list \<times> nat" where
  "consume_chunks n [] pb = ([], pb)"
| "consume_chunks n (front # rest) pb =
     (if n = 0 then (front # rest, pb)
      else if length front \<le> n then consume_chunks (n - length front) rest (pb - length front)
      else (drop n front # rest, pb - n))"

definition consume :: "nat \<Rightarrow> decode_buffers \<Rightarrow> decode_buffers" where
  "consume n b = (let (p, pb) = consume_chunks n (db_pending b) (db_pending_bytes b) in b\<lparr>db_pending := p, db_pending_bytes := pb\<rparr>)"

function flush :: "decode_buffers \<Rightarrow> sock \<Rightarrow> decode_buffers \<times> sock \<times> (unit, string) result" where
  "flush b sk =
     (if db_pending b = [] then (b, sk, Ok ())
      else (case sk_script sk of
              [] \<Rightarrow> (b, sk, Err ''local socket write stalled'')
            | WFail e # es \<Rightarrow> (b, sk\<lparr>sk_script := es\<rparr>, Err (io_message e))
            | Accept n # es \<Rightarrow>
                (let data = concat (gather_slices 0 0 (db_pending b));
                     written = min n (length data);
                     sk = sk\<lparr>sk_script := es, sk_sent := sk_sent sk @ take written data\<rparr>
                 in if written = 0 then (b, sk, Err (io_message write_zero)) else flush (consume written b) sk)))"
  by pat_completeness auto
termination by (relation "measure (\<lambda>(b, sk). length (sk_script sk))") auto

declare flush.simps [simp del]

section \<open>One response\<close>

datatype body_event = BodyChunk bytes | BodyFail string | FlushElapsed

text \<open>The parts of the actor that the configuration fixes.\<close>

record download_cfg =
  dc_b122 :: base122
  dc_cipher :: frame_cipher
  dc_encoding :: encoding_type
  dc_max_bytes :: "nat option"

record drain_state =
  dr_buffers :: decode_buffers
  dr_sock :: sock
  dr_expected_seq :: u64
  dr_received :: nat
  dr_trigger :: bool
  dr_fired :: bool

text \<open>\<open>prefetch_trigger.take()\<close> and the send, once the threshold is reached.\<close>

definition fire_prefetch :: "nat option \<Rightarrow> drain_state \<Rightarrow> drain_state" where
  "fire_prefetch prefetch_at d =
     (case prefetch_at of
        Some at \<Rightarrow> if dr_received d \<ge> at \<and> dr_trigger d then d\<lparr>dr_trigger := False, dr_fired := True\<rparr> else d
      | None \<Rightarrow> d)"

definition flush_state :: "drain_state \<Rightarrow> drain_state \<times> (unit, string) result" where
  "flush_state d = (let (b, sk, r) = flush (dr_buffers d) (dr_sock d) in (d\<lparr>dr_buffers := b, dr_sock := sk\<rparr>, r))"

definition ingest_state :: "download_cfg \<Rightarrow> bytes \<Rightarrow> drain_state \<Rightarrow> drain_state \<times> (unit, string) result" where
  "ingest_state cfg chunk d =
     (let (b, s, r) = ingest (dc_b122 cfg) (dc_cipher cfg) (dc_encoding cfg) chunk (dr_buffers d) (dr_expected_seq d)
      in (d\<lparr>dr_buffers := b, dr_expected_seq := s\<rparr>, r))"

text \<open>One round of the \<open>select!\<close> loop.\<close>

definition drain_event :: "download_cfg \<Rightarrow> nat option \<Rightarrow> body_event \<Rightarrow> drain_state \<Rightarrow> drain_state \<times> (unit, string) result" where
  "drain_event cfg prefetch_at ev d =
     (case ev of
        BodyFail e \<Rightarrow> (d, Err (''response read error: '' @ e))
      | BodyChunk chunk \<Rightarrow>
          (let d = fire_prefetch prefetch_at (d\<lparr>dr_received := dr_received d + length chunk\<rparr>) in
           case ingest_state cfg chunk d of
             (d, Err e) \<Rightarrow> (d, Err e)
           | (d, Ok u) \<Rightarrow> if needs_flush (dr_buffers d) then flush_state d else (d, Ok ()))
      | FlushElapsed \<Rightarrow> if buffers_has_pending (dr_buffers d) then flush_state d else (d, Ok ()))"

text \<open>The loop to the end of the body, then the last flush and the reset of the input buffer.\<close>

fun drain_response :: "download_cfg \<Rightarrow> nat option \<Rightarrow> body_event list \<Rightarrow> drain_state \<Rightarrow> drain_state \<times> (unit, string) result" where
  "drain_response cfg prefetch_at [] d =
     (case flush_state d of
        (d, Err e) \<Rightarrow> (d, Err e)
      | (d, Ok u) \<Rightarrow> (d\<lparr>dr_buffers := (dr_buffers d)\<lparr>db_input := []\<rparr>\<rparr>, Ok ()))"
| "drain_response cfg prefetch_at (ev # evs) d =
     (case drain_event cfg prefetch_at ev d of
        (d, Err e) \<Rightarrow> (d, Err e)
      | (d, Ok u) \<Rightarrow> drain_response cfg prefetch_at evs d)"

section \<open>The actor\<close>

type_synonym response_body = "body_event list"

datatype dl_phase =
    Streaming response_body u64 "nat option" bool
  | DlRotating u64 "bool option"
  | DlDone

text \<open>
  In \<open>Streaming\<close> the flag says that a prefetch task waits for its trigger; in \<open>Rotating\<close> the option is the receiver of
  its result, with whether the trigger was sent.
\<close>

record download_actor =
  dl_buffers :: decode_buffers
  dl_sock :: sock
  dl_phase :: dl_phase

datatype request_outcome = ReqTimeout | ReqFailed | ReqAnswer nat response_body

definition is_success :: "nat \<Rightarrow> bool" where
  "is_success status \<longleftrightarrow> 200 \<le> status \<and> status < 300"

definition check_response_status :: "nat \<Rightarrow> response_body \<Rightarrow> string \<Rightarrow> (response_body, string) result" where
  "check_response_status status body ctx = (if \<not> is_success status then Err ctx else Ok body)"

definition send_continue_request :: "request_outcome \<Rightarrow> (response_body, string) result" where
  "send_continue_request outcome =
     (case outcome of
        ReqTimeout \<Rightarrow> Err ''continuation timed out''
      | ReqFailed \<Rightarrow> Err ''continuation failed''
      | ReqAnswer status body \<Rightarrow> check_response_status status body ''continuation rejected'')"

text \<open>
  The prefetch task: without a trigger it ends and drops the result channel. \<open>None\<close> is a receiver that sees the channel
  closed.
\<close>

definition prefetch_result :: "bool \<Rightarrow> request_outcome \<Rightarrow> (response_body, string) result option" where
  "prefetch_result fired outcome = (if \<not> fired then None else Some (send_continue_request outcome))"

record rotate_obs =
  ro_windows :: nat
  ro_prefetch :: request_outcome
  ro_continue :: request_outcome

text \<open>
  \<open>ro_windows\<close> counts the rotate timeouts that pass before the result of a triggered prefetch arrives; a prefetch task
  without a trigger is seen closed at once.
\<close>

definition use_prefetch :: "download_cfg \<Rightarrow> bool" where
  "use_prefetch cfg \<longleftrightarrow> (case dc_max_bytes cfg of Some m \<Rightarrow> m - PREFETCH_LEAD_BYTES > 0 | None \<Rightarrow> False)"

definition prefetch_at :: "download_cfg \<Rightarrow> nat option" where
  "prefetch_at cfg = map_option (\<lambda>m. m - PREFETCH_LEAD_BYTES) (dc_max_bytes cfg)"

definition download_new :: "download_cfg \<Rightarrow> response_body \<Rightarrow> sock \<Rightarrow> download_actor" where
  "download_new cfg initial_response write_half =
     (let rotate_enabled = (case dc_max_bytes cfg of Some m \<Rightarrow> m > 0 | None \<Rightarrow> False) in
      \<lparr>dl_buffers = buffers_new, dl_sock = write_half,
       dl_phase = Streaming initial_response 0 (prefetch_at cfg) (rotate_enabled \<and> use_prefetch cfg)\<rparr>)"

definition do_streaming ::
    "download_cfg \<Rightarrow> response_body \<Rightarrow> u64 \<Rightarrow> nat option \<Rightarrow> bool \<Rightarrow> download_actor \<Rightarrow> download_actor \<times> (dl_phase, string) result" where
  "do_streaming cfg response expected_seq at trigger a =
     (let (d, r) = drain_response cfg at response
            \<lparr>dr_buffers = dl_buffers a, dr_sock = dl_sock a, dr_expected_seq = expected_seq, dr_received = 0,
             dr_trigger = trigger, dr_fired = False\<rparr>;
          a = a\<lparr>dl_buffers := dr_buffers d, dl_sock := dr_sock d\<rparr>
      in case r of
           Err e \<Rightarrow> (a, Err e)
         | Ok u \<Rightarrow>
             (let bytes = dr_received d;
                  should_rotate = (bytes > 0 \<and> (case dc_max_bytes cfg of Some m \<Rightarrow> bytes \<ge> m | None \<Rightarrow> False))
              in if \<not> should_rotate then (a, Ok DlDone)
                 else (a, Ok (DlRotating (dr_expected_seq d) (if trigger then Some (dr_fired d) else None)))))"

definition rotate_response :: "bool option \<Rightarrow> rotate_obs \<Rightarrow> (response_body, string) result" where
  "rotate_response prefetch_rx obs =
     (case prefetch_rx of
        None \<Rightarrow> send_continue_request (ro_continue obs)
      | Some fired \<Rightarrow>
          (case prefetch_result fired (ro_prefetch obs) of
             None \<Rightarrow> send_continue_request (ro_continue obs)
           | Some r \<Rightarrow>
               if ro_windows obs = 0
               then (case r of Ok resp \<Rightarrow> Ok resp | Err e \<Rightarrow> send_continue_request (ro_continue obs))
               else if ro_windows obs = 1
               then (case r of Ok resp \<Rightarrow> Ok resp | Err e \<Rightarrow> Err ''prefetch continuation timed out after 10s'')
               else Err ''prefetch continuation timed out after 10s''))"

definition do_rotate :: "download_cfg \<Rightarrow> u64 \<Rightarrow> bool option \<Rightarrow> rotate_obs \<Rightarrow> (dl_phase, string) result" where
  "do_rotate cfg expected_seq prefetch_rx obs =
     rbind (rotate_response prefetch_rx obs) (\<lambda>response.
       Ok (Streaming response expected_seq (prefetch_at cfg) (use_prefetch cfg)))"

fun phase_rank :: "dl_phase \<Rightarrow> nat" where
  "phase_rank (Streaming r s at t) = 2"
| "phase_rank (DlRotating s p) = 1"
| "phase_rank DlDone = 0"

lemma do_streaming_rank: "do_streaming cfg r s at t a = (a', Ok p) \<Longrightarrow> phase_rank p < 2"
  by (auto simp: do_streaming_def Let_def split: prod.splits result.splits if_splits)

text \<open>
  The loop of \<open>run\<close>, one observation per rotation; \<open>None\<close> is an actor that still waits for the next one. After the last
  phase the write half is shut down.
\<close>

function download_run :: "download_cfg \<Rightarrow> rotate_obs list \<Rightarrow> download_actor \<Rightarrow> download_actor \<times> (unit, string) result option" where
  "download_run cfg obs a =
     (case dl_phase a of
        Streaming response expected_seq at trigger \<Rightarrow>
          (case do_streaming cfg response expected_seq at trigger (a\<lparr>dl_phase := DlDone\<rparr>) of
             (a, Err e) \<Rightarrow> (a, Some (Err e))
           | (a, Ok phase) \<Rightarrow> download_run cfg obs (a\<lparr>dl_phase := phase\<rparr>))
      | DlRotating expected_seq prefetch_rx \<Rightarrow>
          (case obs of
             [] \<Rightarrow> (a, None)
           | ob # obs \<Rightarrow>
               (case do_rotate cfg expected_seq prefetch_rx ob of
                  Err e \<Rightarrow> (a\<lparr>dl_phase := DlDone\<rparr>, Some (Err e))
                | Ok phase \<Rightarrow> download_run cfg obs (a\<lparr>dl_phase := phase\<rparr>)))
      | DlDone \<Rightarrow> (a, Some (Ok ())))"
  by pat_completeness auto
termination
  by (relation "measures [\<lambda>(cfg, obs, a). length obs, \<lambda>(cfg, obs, a). phase_rank (dl_phase a)]")
    (auto dest: sym [THEN do_streaming_rank] do_streaming_rank)

declare download_run.simps [simp del]

section \<open>Lemmas: writing\<close>

definition buffers_ok :: "decode_buffers \<Rightarrow> bool" where
  "buffers_ok b \<longleftrightarrow> db_pending_bytes b = length (concat (db_pending b)) \<and> [] \<notin> set (db_pending b)"

definition buffered :: "decode_buffers \<Rightarrow> bytes" where
  "buffered b = concat (db_pending b)"

lemma consume_chunks_spec:
  "pb = length (concat p) \<Longrightarrow> [] \<notin> set p \<Longrightarrow> n \<le> length (concat p) \<Longrightarrow> consume_chunks n p pb = (p', pb') \<Longrightarrow>
     concat p' = drop n (concat p) \<and> pb' = length (concat p') \<and> [] \<notin> set p'"
proof (induction n p pb rule: consume_chunks.induct)
  case (2 n front rest pb)
  consider "n = 0" | "0 < n" "length front \<le> n" | "0 < n" "n < length front" by linarith
  then show ?case
  proof cases
    case 1
    then show ?thesis using 2 by auto
  next
    case 2
    then show ?thesis using "2.IH" "2.prems" by simp
  next
    case 3
    then show ?thesis using "2.prems" by auto
  qed
qed auto

lemma consume_spec:
  assumes "buffers_ok b" and "n \<le> length (buffered b)"
  shows "buffers_ok (consume n b) \<and> buffered (consume n b) = drop n (buffered b)
       \<and> db_input (consume n b) = db_input b \<and> db_scratch (consume n b) = db_scratch b"
proof -
  obtain p pb where "consume_chunks n (db_pending b) (db_pending_bytes b) = (p, pb)" by fastforce
  then show ?thesis
    using consume_chunks_spec [of "db_pending_bytes b" "db_pending b" n p pb] assms
    by (simp add: consume_def buffers_ok_def buffered_def)
qed

interpretation download_writer: partial_writer buffered consume buffers_ok
  by unfold_locales (simp_all add: consume_spec)

lemma gather_slices_prefix: "\<exists>rest. p = gather_slices c t p @ rest"
  by (induction c t p rule: gather_slices.induct) auto

lemma gather_slices_nonempty:
  assumes "[] \<notin> set p" and "p \<noteq> []"
  shows "concat (gather_slices c t p) \<noteq> []"
  using assms by (cases p) auto

text \<open>A flush sends a prefix of what is pending, and everything when it succeeds.\<close>

lemma flush_sent:
  "buffers_ok b \<Longrightarrow> flush b sk = (b', sk', r) \<Longrightarrow>
     buffers_ok b' \<and> sk_sent sk @ buffered b = sk_sent sk' @ buffered b' \<and> db_input b' = db_input b \<and> db_scratch b' = db_scratch b
     \<and> (r = Ok () \<longrightarrow> db_pending b' = [])"
proof (induction b sk arbitrary: rule: flush.induct)
  case (1 b sk)
  note u = flush.simps [of b sk]
  show ?case
  proof (cases "db_pending b = []")
    case True
    then show ?thesis using 1 u by auto
  next
    case ne: False
    show ?thesis
    proof (cases "sk_script sk")
      case Nil
      then show ?thesis using 1 ne u by auto
    next
      case (Cons ev es)
      show ?thesis
      proof (cases ev)
        case (WFail e)
        then show ?thesis using 1 ne u Cons by auto
      next
        case (Accept n)
        define data where "data = concat (gather_slices 0 0 (db_pending b))"
        define w where "w = min n (length data)"
        define sk1 where "sk1 = sk\<lparr>sk_script := es, sk_sent := sk_sent sk @ take w data\<rparr>"
        have f: "flush b sk = (if w = 0 then (b, sk1, Err (io_message write_zero)) else flush (consume w b) sk1)"
          unfolding u data_def w_def sk1_def Cons Accept using ne by (simp only: Let_def if_False list.case write_event.case)
        show ?thesis
        proof (cases "w = 0")
          case True
          then show ?thesis using f 1 by (auto simp: sk1_def)
        next
          case False
          obtain rest where "db_pending b = gather_slices 0 0 (db_pending b) @ rest" using gather_slices_prefix by blast
          then have d: "buffered b = data @ concat rest" by (metis buffered_def concat_append data_def)
          then have wl: "w \<le> length (buffered b)" by (simp add: w_def)
          note c = consume_spec [OF 1(2) wl]
          have "sk_sent sk @ buffered b = sk_sent sk1 @ buffered (consume w b)"
            using c d by (simp add: sk1_def w_def)
          moreover have "flush (consume w b) sk1 = (b', sk', r)" using f False 1(3) by simp
          ultimately show ?thesis
            using 1(1) [OF ne Cons Accept data_def w_def sk1_def False] c by simp
        qed
      qed
    qed
  qed
qed

text \<open>A socket that will accept \<open>n\<close> more bytes, however it splits them.\<close>

definition healthy :: "sock \<Rightarrow> nat \<Rightarrow> bool" where
  "healthy sk n \<longleftrightarrow> (\<forall>ev \<in> set (sk_script sk). \<exists>k. ev = Accept k \<and> 0 < k) \<and> n \<le> length (sk_script sk)"

text \<open>A socket that accepts bytes takes all that is pending.\<close>

lemma flush_healthy:
  "buffers_ok b \<Longrightarrow> \<forall>ev \<in> set (sk_script sk). \<exists>n. ev = Accept n \<and> 0 < n \<Longrightarrow> length (buffered b) \<le> length (sk_script sk) \<Longrightarrow>
     flush b sk = (b', sk', r) \<Longrightarrow> r = Ok ()
       \<and> length (sk_script sk) \<le> length (buffered b) + length (sk_script sk') \<and> set (sk_script sk') \<subseteq> set (sk_script sk)"
proof (induction b sk rule: flush.induct)
  case (1 b sk)
  note u = flush.simps [of b sk]
  show ?case
  proof (cases "db_pending b = []")
    case True
    then show ?thesis using 1 u by auto
  next
    case ne: False
    then have "buffered b \<noteq> []" using 1(2) by (cases "db_pending b") (auto simp: buffers_ok_def buffered_def)
    then obtain n es where s: "sk_script sk = Accept n # es" and n: "0 < n"
      using 1(3,4) by (cases "sk_script sk") auto
    define data where "data = concat (gather_slices 0 0 (db_pending b))"
    define w where "w = min n (length data)"
    define sk1 where "sk1 = sk\<lparr>sk_script := es, sk_sent := sk_sent sk @ take w data\<rparr>"
    have "data \<noteq> []" using gather_slices_nonempty [of "db_pending b"] ne 1(2) by (simp add: data_def buffers_ok_def)
    then have w: "0 < w" using n by (simp add: w_def)
    obtain rest where "db_pending b = gather_slices 0 0 (db_pending b) @ rest" using gather_slices_prefix by blast
    then have "buffered b = data @ concat rest" by (metis buffered_def concat_append data_def)
    then have wl: "w \<le> length (buffered b)" by (simp add: w_def)
    note c = consume_spec [OF 1(2) wl]
    have f: "flush (consume w b) sk1 = (b', sk', r)"
      using u ne s w 1(5) by (simp add: data_def [symmetric] w_def [symmetric] sk1_def [symmetric] Let_def)
    have "length (buffered (consume w b)) \<le> length (sk_script sk1)" using c w wl 1(4) s by (simp add: sk1_def)
    then show ?thesis
      using 1(1) [OF ne s refl data_def w_def sk1_def] w c f 1(3) wl s by (auto simp: sk1_def)
  qed
qed

lemma flush_healthy_left:
  assumes "buffers_ok b" and "healthy sk (length (buffered b) + m)" and "flush b sk = (b', sk', r)"
  shows "r = Ok () \<and> healthy sk' m"
proof -
  have all: "\<forall>ev \<in> set (sk_script sk). \<exists>k. ev = Accept k \<and> 0 < k" and len: "length (buffered b) \<le> length (sk_script sk)"
    using assms(2) by (auto simp: healthy_def)
  show ?thesis using flush_healthy [OF assms(1) all len assms(3)] assms(2) by (auto simp: healthy_def)
qed

section \<open>Lemmas: one response\<close>

fun event_bytes :: "body_event list \<Rightarrow> bytes" where
  "event_bytes [] = []"
| "event_bytes (BodyChunk c # es) = c @ event_bytes es"
| "event_bytes (e # es) = event_bytes es"

abbreviation cfg_frames :: "download_cfg \<Rightarrow> u64 \<Rightarrow> (u64 \<times> bytes) list \<Rightarrow> bytes list \<Rightarrow> bool" where
  "cfg_frames cfg \<equiv> frame_list_ok (dc_b122 cfg) (dc_cipher cfg) (dc_encoding cfg)"

text \<open>
  \<open>expects cfg seq b rest fs ds\<close>: the bytes in the input buffer and the bytes still to come are the frames \<open>fs\<close>, with
  payloads \<open>ds\<close> and numbers from \<open>seq\<close> on.
\<close>

definition expects :: "download_cfg \<Rightarrow> u64 \<Rightarrow> decode_buffers \<Rightarrow> bytes \<Rightarrow> (u64 \<times> bytes) list \<Rightarrow> bytes list \<Rightarrow> bool" where
  "expects cfg seq b rest fs ds \<longleftrightarrow>
     buffers_ok b \<and> db_input b @ rest = concat (map snd fs) \<and> cfg_frames cfg seq fs ds"

lemma ingest_loop_frames:
  "expects cfg seq b rest fs ds \<Longrightarrow>
     \<exists>b' k. ingest_loop (dc_b122 cfg) (dc_cipher cfg) (dc_encoding cfg) b seq = (b', seq + of_nat k, Ok ())
       \<and> k \<le> length fs \<and> expects cfg (seq + of_nat k) b' rest (drop k fs) (drop k ds)
       \<and> buffered b' = buffered b @ concat (take k ds) \<and> (rest = [] \<longrightarrow> k = length fs)"
proof (induction fs arbitrary: b seq ds)
  case Nil
  then have "db_input b = []" "rest = []" by (auto simp: expects_def)
  then show ?case using Nil
    by (intro exI [of _ b] exI [of _ 0]) (simp add: ingest_loop.simps decode_frame_Nil expects_def)
next
  case (Cons nf fs)
  obtain n f where nf: "nf = (n, f)" by (cases nf)
  from Cons.prems obtain d ds' where ds: "ds = d # ds'" and n: "n = seq" and d: "d \<noteq> []"
      and dec: "decodes_as (dc_b122 cfg) (dc_cipher cfg) (dc_encoding cfg) f seq d" and tl: "cfg_frames cfg (seq + 1) fs ds'"
    unfolding expects_def nf by (auto elim: frame_list_ok_ConsE)
  have eq: "db_input b @ rest = f @ concat (map snd fs)" and ok: "buffers_ok b"
    using Cons.prems nf by (auto simp: expects_def)
  note u = ingest_loop.simps [of "dc_b122 cfg" "dc_cipher cfg" "dc_encoding cfg" b seq]
  show ?case
  proof (cases "length f \<le> length (db_input b)")
    case True
    define input where "input = drop (length f) (db_input b)"
    have inp: "db_input b = f @ input"
      using eq True by (metis append_eq_append_conv_if append_take_drop_id input_def)
    have rest: "input @ rest = concat (map snd fs)" using eq unfolding inp by simp
    obtain scratch fr where df: "decode_frame (dc_b122 cfg) (dc_cipher cfg) (dc_encoding cfg) (db_input b) (db_scratch b)
          = (input, Ok (scratch, Some fr))" and fc: "frame_contents scratch fr = (seq, d)"
      using decodes_asE [OF dec, of input "db_scratch b"] inp by metis
    define b1 where "b1 = b\<lparr>db_input := input, db_scratch := (case fr of InJsonScratch s st e \<Rightarrow> [] | Owned s d \<Rightarrow> scratch),
        db_pending := db_pending b @ [d], db_pending_bytes := db_pending_bytes b + length d\<rparr>"
    have l: "ingest_loop (dc_b122 cfg) (dc_cipher cfg) (dc_encoding cfg) b seq
        = ingest_loop (dc_b122 cfg) (dc_cipher cfg) (dc_encoding cfg) b1 (seq + 1)"
      unfolding u df by (simp add: fc b1_def)
    have "expects cfg (seq + 1) b1 rest fs ds'"
      using ok d rest tl by (auto simp: expects_def b1_def buffers_ok_def)
    from Cons.IH [OF this] obtain b' k where "ingest_loop (dc_b122 cfg) (dc_cipher cfg) (dc_encoding cfg) b1 (seq + 1) = (b', seq + 1 + of_nat k, Ok ())"
        "k \<le> length fs" "expects cfg (seq + 1 + of_nat k) b' rest (drop k fs) (drop k ds')"
        "buffered b' = buffered b1 @ concat (take k ds')" "rest = [] \<longrightarrow> k = length fs"
      by blast
    then show ?thesis using l ds
      by (intro exI [of _ b'] exI [of _ "Suc k"]) (simp add: b1_def buffered_def algebra_simps)
  next
    case False
    then have "db_input b = take (length (db_input b)) f" and ne: "rest \<noteq> []"
      using eq by (metis append_eq_append_conv_if append_eq_conv_conj linorder_le_cases, auto)
    then have "decode_frame (dc_b122 cfg) (dc_cipher cfg) (dc_encoding cfg) (db_input b) (db_scratch b) = (db_input b, Ok (db_scratch b, None))"
      using decodes_as_prefix [OF dec, of "length (db_input b)"] False by (metis not_le)
    then show ?thesis using Cons.prems ne by (intro exI [of _ b] exI [of _ 0]) (simp add: u)
  qed
qed

text \<open>Whatever happens to the body, only payloads of frames reach the socket, in order.\<close>

definition delivers :: "bytes \<Rightarrow> decode_buffers \<Rightarrow> sock \<Rightarrow> bytes list \<Rightarrow> bool" where
  "delivers out b sk ds \<longleftrightarrow> out = sk_sent sk @ buffered b @ concat ds"

lemma flush_state_delivers:
  assumes "buffers_ok (dr_buffers d)" and "flush_state d = (d', r)"
  shows "buffers_ok (dr_buffers d') \<and> sk_sent (dr_sock d') @ buffered (dr_buffers d') = sk_sent (dr_sock d) @ buffered (dr_buffers d)
     \<and> db_input (dr_buffers d') = db_input (dr_buffers d) \<and> (r = Ok () \<longrightarrow> buffered (dr_buffers d') = [])
     \<and> dr_expected_seq d' = dr_expected_seq d
     \<and> (\<forall>m. healthy (dr_sock d) (length (buffered (dr_buffers d)) + m) \<longrightarrow> r = Ok () \<and> healthy (dr_sock d') m)"
proof -
  obtain b sk where f: "flush (dr_buffers d) (dr_sock d) = (b, sk, r)" and d': "d' = d\<lparr>dr_buffers := b, dr_sock := sk\<rparr>"
    using assms(2) by (auto simp: flush_state_def split: prod.splits)
  show ?thesis using flush_sent [OF assms(1) f] flush_healthy_left [OF assms(1) _ f] d' by (auto simp: buffered_def)
qed

lemma ingest_state_frames:
  assumes "expects cfg (dr_expected_seq d) (dr_buffers d) (chunk @ rest) fs ds"
  shows "\<exists>b k. ingest_state cfg chunk d = (d\<lparr>dr_buffers := b, dr_expected_seq := dr_expected_seq d + of_nat k\<rparr>, Ok ())
     \<and> k \<le> length fs \<and> expects cfg (dr_expected_seq d + of_nat k) b rest (drop k fs) (drop k ds)
     \<and> buffered b = buffered (dr_buffers d) @ concat (take k ds) \<and> (rest = [] \<longrightarrow> k = length fs)"
proof -
  let ?b = "(dr_buffers d)\<lparr>db_input := db_input (dr_buffers d) @ chunk\<rparr>"
  have "expects cfg (dr_expected_seq d) ?b rest fs ds" using assms by (simp add: expects_def buffers_ok_def)
  from ingest_loop_frames [OF this] obtain b k where
      "ingest_loop (dc_b122 cfg) (dc_cipher cfg) (dc_encoding cfg) ?b (dr_expected_seq d) = (b, dr_expected_seq d + of_nat k, Ok ())"
      "k \<le> length fs" "expects cfg (dr_expected_seq d + of_nat k) b rest (drop k fs) (drop k ds)"
      "buffered b = buffered (dr_buffers d) @ concat (take k ds)" "rest = [] \<longrightarrow> k = length fs"
    by (auto simp: buffered_def)
  moreover have "ingest (dc_b122 cfg) (dc_cipher cfg) (dc_encoding cfg) chunk (dr_buffers d) (dr_expected_seq d)
      = ingest_loop (dc_b122 cfg) (dc_cipher cfg) (dc_encoding cfg) ?b (dr_expected_seq d)"
    by (simp add: ingest_def)
  ultimately show ?thesis by (intro exI [of _ b] exI [of _ k]) (simp add: ingest_state_def)
qed

text \<open>
  One response whose body is whole frames: success sends all payloads, failure a prefix of them and only because the
  socket failed.
\<close>

definition drain_ok :: "download_cfg \<Rightarrow> drain_state \<Rightarrow> (u64 \<times> bytes) list \<Rightarrow> bytes list \<Rightarrow> drain_state \<times> (unit, string) result \<Rightarrow> bool" where
  "drain_ok cfg d fs ds r \<longleftrightarrow>
     prefix (sk_sent (dr_sock (fst r))) (sk_sent (dr_sock d) @ buffered (dr_buffers d) @ concat ds)
   \<and> (snd r = Ok () \<longrightarrow>
        sk_sent (dr_sock (fst r)) = sk_sent (dr_sock d) @ buffered (dr_buffers d) @ concat ds
      \<and> buffers_ok (dr_buffers (fst r)) \<and> buffered (dr_buffers (fst r)) = [] \<and> db_input (dr_buffers (fst r)) = []
      \<and> dr_expected_seq (fst r) = dr_expected_seq d + of_nat (length fs))
   \<and> (\<forall>m. healthy (dr_sock d) (length (buffered (dr_buffers d)) + length (concat ds) + m) \<longrightarrow>
        snd r = Ok () \<and> healthy (dr_sock (fst r)) m)"

definition drain_healthy :: "drain_state \<Rightarrow> nat \<Rightarrow> drain_state \<Rightarrow> bool" where
  "drain_healthy d n d' \<longleftrightarrow>
     (\<forall>m. healthy (dr_sock d) (length (buffered (dr_buffers d)) + n + m) \<longrightarrow> healthy (dr_sock d') (length (buffered (dr_buffers d')) + m))"

lemma drain_ok_step:
  assumes "drain_ok cfg d' (drop k fs) (drop k ds) r" and "k \<le> length fs"
    and "dr_expected_seq d' = dr_expected_seq d + of_nat k"
    and "sk_sent (dr_sock d') @ buffered (dr_buffers d') = sk_sent (dr_sock d) @ buffered (dr_buffers d) @ concat (take k ds)"
    and h: "drain_healthy d (length (concat (take k ds))) d'"
  shows "drain_ok cfg d fs ds r"
proof -
  have "length (concat ds) = length (concat (take k ds)) + length (concat (drop k ds))"
    by (metis append_take_drop_id concat_append length_append)
  then have hm: "healthy (dr_sock d) (length (buffered (dr_buffers d)) + length (concat ds) + m) \<Longrightarrow>
      healthy (dr_sock d') (length (buffered (dr_buffers d')) + length (concat (drop k ds)) + m)" for m
    using h [unfolded drain_healthy_def, rule_format, of "length (concat (drop k ds)) + m"] by (simp add: algebra_simps)
  have "sk_sent (dr_sock d') @ buffered (dr_buffers d') @ concat (drop k ds) = sk_sent (dr_sock d) @ buffered (dr_buffers d) @ concat ds"
    using assms(4) by (metis append.assoc append_take_drop_id concat_append)
  moreover have "of_nat k + of_nat (length fs - k) = (of_nat (length fs) :: u64)" using assms(2) by (metis le_add_diff_inverse of_nat_add)
  moreover have "snd r = Ok () \<and> healthy (dr_sock (fst r)) m"
    if "healthy (dr_sock d) (length (buffered (dr_buffers d)) + length (concat ds) + m)" for m
    using hm [OF that] assms(1) unfolding drain_ok_def by blast
  ultimately show ?thesis using assms(1,3) unfolding drain_ok_def by (simp add: add.assoc)
qed

lemma flush_state_err:
  assumes "buffers_ok (dr_buffers d)" and "flush_state d = (d', Err e)"
  shows "drain_ok cfg d fs ds (d', Err e)"
proof -
  note f = flush_state_delivers [OF assms]
  have "prefix (sk_sent (dr_sock d')) (sk_sent (dr_sock d) @ buffered (dr_buffers d) @ concat ds)"
    using f by (metis append.assoc prefixI)
  moreover have "\<not> healthy (dr_sock d) (length (buffered (dr_buffers d)) + (length (concat ds) + m))" for m using f by blast
  ultimately show ?thesis by (simp add: drain_ok_def add.assoc)
qed

text \<open>What one event of the response leads to: an error, or \<open>k\<close> more frames that are written or buffered.\<close>

definition event_outcome ::
    "download_cfg \<Rightarrow> body_event \<Rightarrow> body_event list \<Rightarrow> (u64 \<times> bytes) list \<Rightarrow> bytes list \<Rightarrow> drain_state \<Rightarrow> drain_state \<times> (unit, string) result \<Rightarrow> bool" where
  "event_outcome cfg ev evs fs ds d res \<longleftrightarrow>
     (case res of
        (d', Err e) \<Rightarrow> drain_ok cfg d fs ds (d', Err e)
      | (d', Ok u) \<Rightarrow>
          \<exists>k \<le> length fs. dr_expected_seq d' = dr_expected_seq d + of_nat k
            \<and> sk_sent (dr_sock d') @ buffered (dr_buffers d') = sk_sent (dr_sock d) @ buffered (dr_buffers d) @ concat (take k ds)
            \<and> expects cfg (dr_expected_seq d') (dr_buffers d') (event_bytes evs) (drop k fs) (drop k ds)
            \<and> (event_bytes evs = [] \<longrightarrow> ev = FlushElapsed \<or> k = length fs)
            \<and> drain_healthy d (length (concat (take k ds))) d')"

lemma flush_event_outcome:
  assumes ex: "expects cfg (dr_expected_seq d) (dr_buffers d) (event_bytes evs) fs ds"
  shows "event_outcome cfg FlushElapsed evs fs ds d (drain_event cfg at FlushElapsed d)"
proof (cases "buffers_has_pending (dr_buffers d)")
  case True
  obtain d' r where f: "flush_state d = (d', r)" by fastforce
  have ok: "buffers_ok (dr_buffers d)" using ex by (simp add: expects_def)
  show ?thesis
  proof (cases r)
    case (Err e)
    then show ?thesis using f True flush_state_err [OF ok] by (simp add: drain_event_def event_outcome_def)
  next
    case (Ok u)
    then show ?thesis using f True flush_state_delivers [OF ok f] ex
      by (auto simp: drain_event_def event_outcome_def expects_def drain_healthy_def intro!: exI [of _ 0])
  qed
next
  case False
  then show ?thesis using ex by (auto simp: drain_event_def event_outcome_def drain_healthy_def intro!: exI [of _ 0])
qed

lemma chunk_event_outcome:
  assumes ex: "expects cfg (dr_expected_seq d) (dr_buffers d) (chunk @ event_bytes evs) fs ds"
  shows "event_outcome cfg (BodyChunk chunk) evs fs ds d (drain_event cfg at (BodyChunk chunk) d)"
proof -
  define d1 where "d1 = fire_prefetch at (d\<lparr>dr_received := dr_received d + length chunk\<rparr>)"
  have d1: "dr_buffers d1 = dr_buffers d" "dr_sock d1 = dr_sock d" "dr_expected_seq d1 = dr_expected_seq d"
    by (simp_all add: d1_def fire_prefetch_def split: option.split)
  have "expects cfg (dr_expected_seq d1) (dr_buffers d1) (chunk @ event_bytes evs) fs ds" using ex d1 by simp
  from ingest_state_frames [OF this] obtain b k where
      i: "ingest_state cfg chunk d1 = (d1\<lparr>dr_buffers := b, dr_expected_seq := dr_expected_seq d + of_nat k\<rparr>, Ok ())"
      and k: "k \<le> length fs" and e: "expects cfg (dr_expected_seq d + of_nat k) b (event_bytes evs) (drop k fs) (drop k ds)"
      and b: "buffered b = buffered (dr_buffers d) @ concat (take k ds)" "event_bytes evs = [] \<longrightarrow> k = length fs"
    using d1 by auto
  define d2 where "d2 = d1\<lparr>dr_buffers := b, dr_expected_seq := dr_expected_seq d + of_nat k\<rparr>"
  have ev: "drain_event cfg at (BodyChunk chunk) d = (if needs_flush b then flush_state d2 else (d2, Ok ()))"
    using i by (simp add: drain_event_def d1_def [symmetric] d2_def)
  have d2: "dr_buffers d2 = b" "dr_sock d2 = dr_sock d" "dr_expected_seq d2 = dr_expected_seq d + of_nat k" using d1 by (simp_all add: d2_def)
  have ok: "buffers_ok (dr_buffers d2)" using e d2 by (simp add: expects_def)
  obtain d' r where f: "flush_state d2 = (d', r)" by fastforce
  note fd = flush_state_delivers [OF ok f]
  consider (stay) "\<not> needs_flush b" | (flushed) "needs_flush b" "r = Ok ()" | (failed) er where "needs_flush b" "r = Err er"
    by (cases r) auto
  then show ?thesis
  proof cases
    case stay
    moreover have "drain_healthy d (length (concat (take k ds))) d2" using d2 b(1) by (simp add: drain_healthy_def algebra_simps)
    ultimately show ?thesis using ev d2 b k e by (auto simp: event_outcome_def)
  next
    case flushed
    have "expects cfg (dr_expected_seq d') (dr_buffers d') (event_bytes evs) (drop k fs) (drop k ds)" using e fd d2 by (simp add: expects_def)
    moreover have "drain_healthy d (length (concat (take k ds))) d'" using fd d2 b(1) by (simp add: drain_healthy_def algebra_simps)
    ultimately show ?thesis using flushed ev f fd d2 b k by (auto simp: event_outcome_def)
  next
    case failed
    have "drain_ok cfg d2 (drop k fs) (drop k ds) (d', Err er)" using flush_state_err [OF ok] f failed by simp
    then have "drain_ok cfg d fs ds (d', Err er)"
      by (rule drain_ok_step [OF _ k d2(3)]) (simp_all add: d2(1,2) b(1) drain_healthy_def algebra_simps)
    then show ?thesis using ev failed f by (simp add: event_outcome_def)
  qed
qed

lemma drain_event_outcome:
  assumes ex: "expects cfg (dr_expected_seq d) (dr_buffers d) (event_bytes (ev # evs)) fs ds" and nf: "\<forall>e. ev \<noteq> BodyFail e"
  obtains (failed) d' e where "drain_event cfg at ev d = (d', Err e)" "drain_ok cfg d fs ds (d', Err e)"
    | (went) d' k where "drain_event cfg at ev d = (d', Ok ())" "k \<le> length fs" "dr_expected_seq d' = dr_expected_seq d + of_nat k"
      "sk_sent (dr_sock d') @ buffered (dr_buffers d') = sk_sent (dr_sock d) @ buffered (dr_buffers d) @ concat (take k ds)"
      "expects cfg (dr_expected_seq d') (dr_buffers d') (event_bytes evs) (drop k fs) (drop k ds)"
      "event_bytes evs = [] \<Longrightarrow> ev = FlushElapsed \<or> k = length fs"
      "drain_healthy d (length (concat (take k ds))) d'"
proof -
  have "event_outcome cfg ev evs fs ds d (drain_event cfg at ev d)"
    using ex nf flush_event_outcome chunk_event_outcome by (cases ev) auto
  then have outcome: "event_outcome cfg ev evs fs ds d (d', r)" if "drain_event cfg at ev d = (d', r)" for d' r using that by simp
  obtain d' r where e: "drain_event cfg at ev d = (d', r)" by fastforce
  show thesis
  proof (cases r)
    case (Err x)
    then show thesis using failed [of d' x] e outcome [OF e] by (simp add: event_outcome_def)
  next
    case (Ok u)
    then obtain k where "k \<le> length fs" "dr_expected_seq d' = dr_expected_seq d + of_nat k"
      "sk_sent (dr_sock d') @ buffered (dr_buffers d') = sk_sent (dr_sock d) @ buffered (dr_buffers d) @ concat (take k ds)"
      "expects cfg (dr_expected_seq d') (dr_buffers d') (event_bytes evs) (drop k fs) (drop k ds)"
      "event_bytes evs = [] \<longrightarrow> ev = FlushElapsed \<or> k = length fs" "drain_healthy d (length (concat (take k ds))) d'"
      using outcome [OF e] unfolding event_outcome_def Ok prod.case result.case by (elim exE conjE)
    then show thesis using e Ok by (intro went [of d' k]) simp_all
  qed
qed

lemma drain_response_outcome:
  assumes "expects cfg (dr_expected_seq d) (dr_buffers d) (event_bytes evs) fs ds" and "\<forall>e. BodyFail e \<notin> set evs"
    and "event_bytes evs = [] \<Longrightarrow> fs = []"
  shows "drain_ok cfg d fs ds (drain_response cfg at evs d)"
  using assms
proof (induction evs arbitrary: d fs ds)
  case Nil
  have fs: "fs = []" "ds = []" "db_input (dr_buffers d) = []" and ok: "buffers_ok (dr_buffers d)"
    using Nil by (auto simp: expects_def frame_list_ok_def)
  obtain d' r where f: "flush_state d = (d', r)" by fastforce
  show ?case
  proof (cases r)
    case (Err e)
    then show ?thesis using f flush_state_err [OF ok] by simp
  next
    case (Ok u)
    then have "sk_sent (dr_sock d') = sk_sent (dr_sock d) @ buffered (dr_buffers d)" "buffers_ok (dr_buffers d')" "db_pending (dr_buffers d') = [] \<or> buffered (dr_buffers d') = []"
      using flush_state_delivers [OF ok f] by auto
    then show ?thesis using f Ok fs flush_state_delivers [OF ok f] by (simp add: drain_ok_def buffers_ok_def buffered_def)
  qed
next
  case (Cons ev evs)
  have nf: "\<forall>e. ev \<noteq> BodyFail e" using Cons.prems(2) by auto
  from Cons.prems(1) nf show ?case
  proof (cases rule: drain_event_outcome [where at = at])
    case (failed d' e)
    then show ?thesis by simp
  next
    case (went d' k)
    have "drain_ok cfg d' (drop k fs) (drop k ds) (drain_response cfg at evs d')"
    proof (rule Cons.IH [OF went(5)])
      show "\<forall>e. BodyFail e \<notin> set evs" using Cons.prems(2) by auto
      show "drop k fs = []" if "event_bytes evs = []"
        using went(6) [OF that] Cons.prems(3) that by auto
    qed
    then show ?thesis using went(1) drain_ok_step [OF _ went(2,3,4,7)] by simp
  qed
qed

lemma frames_empty: "cfg_frames cfg seq fs ds \<Longrightarrow> concat (map snd fs) = [] \<Longrightarrow> fs = []"
  by (cases fs) (auto elim!: frame_list_ok_ConsE simp: decodes_as_def)

text \<open>The trigger is fired as soon as the threshold is reached.\<close>

definition trigger_inv :: "nat option \<Rightarrow> bool \<Rightarrow> drain_state \<Rightarrow> bool" where
  "trigger_inv at trigger d \<longleftrightarrow>
     (case at of Some a \<Rightarrow> trigger \<and> 0 < a \<longrightarrow> (if dr_received d \<ge> a then dr_fired d else dr_trigger d) | None \<Rightarrow> True)"

lemma trigger_inv_drain: "trigger_inv at trigger d \<Longrightarrow> trigger_inv at trigger (fst (drain_response cfg at evs d))"
proof (induction evs arbitrary: d)
  case Nil
  then show ?case
    by (auto simp: flush_state_def trigger_inv_def split: prod.split result.split option.splits if_splits)
next
  case (Cons ev evs)
  have "trigger_inv at trigger (fst (drain_event cfg at ev d))"
    using Cons.prems
    by (cases ev) (auto simp: drain_event_def fire_prefetch_def ingest_state_def flush_state_def trigger_inv_def Let_def
        split: prod.split result.split option.splits if_splits)
  then show ?case using Cons.IH by (auto split: prod.split result.split)
qed

section \<open>Lemmas: the actor\<close>

text \<open>A body that is whole frames with numbers from \<open>seq\<close> on and payloads \<open>ds\<close>.\<close>

definition carries :: "download_cfg \<Rightarrow> u64 \<Rightarrow> response_body \<Rightarrow> bytes list \<Rightarrow> bool" where
  "carries cfg seq body ds \<longleftrightarrow>
     (\<forall>e. BodyFail e \<notin> set body) \<and> (\<exists>fs. event_bytes body = concat (map snd fs) \<and> cfg_frames cfg seq fs ds)"

text \<open>Every answer to a continuation request carries the next frames.\<close>

fun obs_carry :: "download_cfg \<Rightarrow> u64 \<Rightarrow> rotate_obs list \<Rightarrow> bytes list list \<Rightarrow> bool" where
  "obs_carry cfg seq [] dss \<longleftrightarrow> dss = []"
| "obs_carry cfg seq (ob # obs) dss \<longleftrightarrow>
     dss \<noteq> [] \<and> (\<forall>body. send_continue_request (ro_prefetch ob) = Ok body \<or> send_continue_request (ro_continue ob) = Ok body
         \<longrightarrow> carries cfg seq body (hd dss))
     \<and> obs_carry cfg (seq + of_nat (length (hd dss))) obs (tl dss)"

definition clean :: "download_actor \<Rightarrow> bool" where
  "clean a \<longleftrightarrow> buffers_ok (dl_buffers a) \<and> buffered (dl_buffers a) = [] \<and> db_input (dl_buffers a) = []"

fun run_inv :: "download_cfg \<Rightarrow> rotate_obs list \<Rightarrow> dl_phase \<Rightarrow> bytes list list \<Rightarrow> bool" where
  "run_inv cfg obs (Streaming body seq at trigger) dss \<longleftrightarrow>
     dss \<noteq> [] \<and> carries cfg seq body (hd dss) \<and> obs_carry cfg (seq + of_nat (length (hd dss))) obs (tl dss)
     \<and> at = prefetch_at cfg \<and> (trigger \<longrightarrow> use_prefetch cfg)"
| "run_inv cfg obs (DlRotating seq rx) dss \<longleftrightarrow> obs_carry cfg seq obs dss \<and> rx \<noteq> Some False"
| "run_inv cfg obs DlDone dss \<longleftrightarrow> True"

text \<open>Answers that arrive: the prefetch within two windows and with success, and a continuation request that succeeds.\<close>

definition answered :: "rotate_obs \<Rightarrow> bool" where
  "answered ob \<longleftrightarrow> (\<exists>b. send_continue_request (ro_prefetch ob) = Ok b) \<and> ro_windows ob \<le> 1
     \<and> (\<exists>b. send_continue_request (ro_continue ob) = Ok b)"

lemma frame_list_ok_length: "frame_list_ok B C e seq fs ds \<Longrightarrow> length fs = length ds"
  by (auto simp: frame_list_ok_def list_all2_lengthD)

lemma do_streaming_outcome:
  assumes "clean a" and c: "carries cfg seq body ds" and at: "at = prefetch_at cfg" "trigger \<longrightarrow> use_prefetch cfg"
    and "do_streaming cfg body seq at trigger a = (a', r)"
  shows "prefix (sk_sent (dl_sock a')) (sk_sent (dl_sock a) @ concat ds)
    \<and> (\<forall>p. r = Ok p \<longrightarrow> sk_sent (dl_sock a') = sk_sent (dl_sock a) @ concat ds \<and> clean a'
         \<and> (p = DlDone \<or> (\<exists>rx. p = DlRotating (seq + of_nat (length ds)) rx \<and> rx \<noteq> Some False)))
    \<and> (\<forall>m. healthy (dl_sock a) (length (concat ds) + m) \<longrightarrow> (\<exists>p. r = Ok p) \<and> healthy (dl_sock a') m)"
proof -
  obtain fs where body: "event_bytes body = concat (map snd fs)" and fs: "cfg_frames cfg seq fs ds" and nf: "\<forall>e. BodyFail e \<notin> set body"
    using c by (auto simp: carries_def)
  define d where "d = \<lparr>dr_buffers = dl_buffers a, dr_sock = dl_sock a, dr_expected_seq = seq, dr_received = 0,
             dr_trigger = trigger, dr_fired = False\<rparr>"
  obtain d' q where dr: "drain_response cfg at body d = (d', q)" by fastforce
  have "expects cfg seq (dl_buffers a) (event_bytes body) fs ds" using assms(1) body fs by (simp add: expects_def clean_def)
  then have ex: "expects cfg (dr_expected_seq d) (dr_buffers d) (event_bytes body) fs ds" by (simp add: d_def)
  have "fs = []" if "event_bytes body = []" using frames_empty [OF fs] that unfolding body .
  from drain_response_outcome [OF ex nf this, of at] have ok: "drain_ok cfg d fs ds (d', q)" unfolding dr .
  have "trigger_inv at trigger d" by (simp add: trigger_inv_def d_def split: option.split)
  then have tr: "trigger_inv at trigger d'" using trigger_inv_drain [of at trigger d cfg body] dr by simp
  have fired: "dr_fired d'" if "trigger" "dc_max_bytes cfg = Some m" "m \<le> dr_received d'" for m
    using tr that at by (auto simp: trigger_inv_def prefetch_at_def use_prefetch_def split: if_splits)
  define rot where "rot \<longleftrightarrow> dr_received d' > 0 \<and> (case dc_max_bytes cfg of Some m \<Rightarrow> m \<le> dr_received d' | None \<Rightarrow> False)"
  have eq: "(a', r) = (a\<lparr>dl_buffers := dr_buffers d', dl_sock := dr_sock d'\<rparr>,
      case q of Err e \<Rightarrow> Err e | Ok u \<Rightarrow>
        (if rot then Ok (DlRotating (dr_expected_seq d') (if trigger then Some (dr_fired d') else None)) else Ok DlDone))"
    unfolding assms(5) [symmetric] do_streaming_def d_def [symmetric] dr
    by (cases q; cases rot) (simp_all only: Let_def prod.case result.case rot_def [symmetric] not_True_eq_False not_False_eq_True if_True if_False)
  then have st: "a' = a\<lparr>dl_buffers := dr_buffers d', dl_sock := dr_sock d'\<rparr>"
      and r: "r = (case q of Err e \<Rightarrow> Err e | Ok u \<Rightarrow>
        (if rot then Ok (DlRotating (dr_expected_seq d') (if trigger then Some (dr_fired d') else None)) else Ok DlDone))"
    by simp_all
  have qOk: "q = Ok ()" if "r = Ok p" for p using r that by (cases q) auto
  have len: "length fs = length ds" using frame_list_ok_length [OF fs] .
  show ?thesis
  proof (intro conjI allI impI)
    show "prefix (sk_sent (dl_sock a')) (sk_sent (dl_sock a) @ concat ds)"
      using ok assms(1) st by (simp add: drain_ok_def d_def clean_def)
  next
    fix p assume "r = Ok p"
    note q = qOk [OF this]
    have e: "dr_expected_seq d' = seq + of_nat (length ds)" using ok q len by (simp add: drain_ok_def d_def)
    from q show "sk_sent (dl_sock a') = sk_sent (dl_sock a) @ concat ds" and "clean a'"
      using ok assms(1) st by (simp_all add: drain_ok_def d_def clean_def)
    show "p = DlDone \<or> (\<exists>rx. p = DlRotating (seq + of_nat (length ds)) rx \<and> rx \<noteq> Some False)"
      using r \<open>r = Ok p\<close> q e fired by (cases "dc_max_bytes cfg") (simp_all add: rot_def split: if_splits)
  next
    fix m assume h: "healthy (dl_sock a) (length (concat ds) + m)"
    then have "q = Ok ()" and "healthy (dl_sock a') m" using ok assms(1) st by (auto simp: drain_ok_def d_def clean_def)
    then show "\<exists>p. r = Ok p" and "healthy (dl_sock a') m" using r by auto
  qed
qed

lemma do_rotate_outcome:
  assumes "obs_carry cfg seq (ob # obs) dss" and rx: "rx \<noteq> Some False" and "do_rotate cfg seq rx ob = r"
  shows "(\<forall>p. r = Ok p \<longrightarrow> run_inv cfg obs p dss) \<and> (answered ob \<longrightarrow> (\<exists>p. r = Ok p))"
proof -
  have one: "rotate_response rx ob = Ok body \<Longrightarrow> send_continue_request (ro_prefetch ob) = Ok body \<or> send_continue_request (ro_continue ob) = Ok body" for body
    using rx by (auto simp: rotate_response_def prefetch_result_def split: option.splits if_splits result.splits)
  have "answered ob \<Longrightarrow> \<exists>body. rotate_response rx ob = Ok body"
    using rx by (cases rx) (auto simp: rotate_response_def prefetch_result_def answered_def)
  then show ?thesis using assms(1,3) one by (auto simp: do_rotate_def rbind_Ok_iff)
qed

text \<open>What a run leaves: a prefix of the payloads of the first responses, all of them unless it fails.\<close>

definition run_outcome ::
    "rotate_obs list \<Rightarrow> bytes list list \<Rightarrow> download_actor \<Rightarrow> download_actor \<Rightarrow> (unit, string) result option \<Rightarrow> bool" where
  "run_outcome obs dss a a' r \<longleftrightarrow>
     (\<exists>k. prefix (sk_sent (dl_sock a')) (sk_sent (dl_sock a) @ concat (concat (take k dss)))
        \<and> (r = Some (Ok ()) \<longrightarrow> sk_sent (dl_sock a') = sk_sent (dl_sock a) @ concat (concat (take k dss)))
        \<and> (phase_rank (dl_phase a) = 2 \<longrightarrow> 0 < k))
     \<and> (r = None \<longrightarrow> sk_sent (dl_sock a') = sk_sent (dl_sock a) @ concat (concat dss))
     \<and> (healthy (dl_sock a) (length (concat (concat dss))) \<and> list_all answered obs \<longrightarrow> r = None \<or> r = Some (Ok ()))"

lemma run_outcome_streamed:
  assumes "run_outcome obs dss a1 a' r" and "sk_sent (dl_sock a1) = sk_sent (dl_sock a) @ concat ds"
    and "healthy (dl_sock a) (length (concat (concat (ds # dss)))) \<Longrightarrow> healthy (dl_sock a1) (length (concat (concat dss)))"
  shows "run_outcome obs (ds # dss) a a' r"
proof -
  obtain k where k: "prefix (sk_sent (dl_sock a')) (sk_sent (dl_sock a1) @ concat (concat (take k dss)))"
      "r = Some (Ok ()) \<longrightarrow> sk_sent (dl_sock a') = sk_sent (dl_sock a1) @ concat (concat (take k dss))"
    using assms(1) by (auto simp: run_outcome_def)
  have "\<exists>k. prefix (sk_sent (dl_sock a')) (sk_sent (dl_sock a) @ concat (concat (take k (ds # dss))))
      \<and> (r = Some (Ok ()) \<longrightarrow> sk_sent (dl_sock a') = sk_sent (dl_sock a) @ concat (concat (take k (ds # dss))))
      \<and> (phase_rank (dl_phase a) = 2 \<longrightarrow> 0 < k)"
    using k assms(2) by (intro exI [of _ "Suc k"]) simp
  then show ?thesis using assms unfolding run_outcome_def by simp
qed

lemma download_run_outcome:
  "clean a \<Longrightarrow> run_inv cfg obs (dl_phase a) dss \<Longrightarrow> download_run cfg obs a = (a', r) \<Longrightarrow> run_outcome obs dss a a' r"
proof (induction cfg obs a arbitrary: dss rule: download_run.induct)
  case (1 cfg obs a)
  note u = download_run.simps [of cfg obs a]
  show ?case
  proof (cases "dl_phase a")
    case DlDone
    then show ?thesis using 1(5) u by (auto simp: run_outcome_def intro!: exI [of _ 0])
  next
    case (DlRotating seq rx)
    show ?thesis
    proof (cases obs)
      case Nil
      then show ?thesis using 1(4,5) u DlRotating by (auto simp: run_outcome_def intro!: exI [of _ 0])
    next
      case (Cons ob obs')
      obtain q where q: "do_rotate cfg seq rx ob = q" by blast
      have "obs_carry cfg seq (ob # obs') dss" "rx \<noteq> Some False" using 1(4) DlRotating Cons by simp_all
      note dr = do_rotate_outcome [OF this q]
      show ?thesis
      proof (cases q)
        case (Err e)
        then show ?thesis using u DlRotating Cons q dr 1(5) by (auto simp: run_outcome_def intro!: exI [of _ 0])
      next
        case (Ok p)
        have run: "download_run cfg obs' (a\<lparr>dl_phase := p\<rparr>) = (a', r)" using u DlRotating Cons q Ok 1(5) by simp
        have "clean (a\<lparr>dl_phase := p\<rparr>)" using 1(3) by (simp add: clean_def)
        from 1(2) [OF DlRotating Cons] q Ok dr run this show ?thesis unfolding Cons DlRotating by (auto simp: run_outcome_def DlRotating)
      qed
    qed
  next
    case (Streaming body seq at trigger)
    let ?a = "a\<lparr>dl_phase := DlDone\<rparr>"
    obtain a1 q where q: "do_streaming cfg body seq at trigger ?a = (a1, q)" by fastforce
    obtain ds dss' where dss: "dss = ds # dss'" and c: "carries cfg seq body ds" "at = prefetch_at cfg" "trigger \<longrightarrow> use_prefetch cfg"
        and oc: "obs_carry cfg (seq + of_nat (length ds)) obs dss'"
      using 1(4) Streaming by (cases dss) auto
    have "clean ?a" using 1(3) by (simp add: clean_def)
    note ds = do_streaming_outcome [OF this c q]
    show ?thesis
    proof (cases q)
      case (Err e)
      have "download_run cfg obs a = (a1, Some (Err e))" using u Streaming q Err by simp
      moreover have "prefix (sk_sent (dl_sock a1)) (sk_sent (dl_sock a) @ concat (concat (take 1 dss)))" using ds dss by simp
      moreover have "\<not> healthy (dl_sock a) (length (concat (concat dss)))"
        using ds Err dss by (auto dest!: spec [of _ "length (concat (concat dss'))"])
      ultimately show ?thesis using 1(5) by (auto simp: run_outcome_def intro!: exI [of _ 1])
    next
      case (Ok p)
      have run: "download_run cfg obs (a1\<lparr>dl_phase := p\<rparr>) = (a', r)" using u Streaming q Ok 1(5) by simp
      have "run_inv cfg obs (dl_phase (a1\<lparr>dl_phase := p\<rparr>)) dss'" and cl: "clean (a1\<lparr>dl_phase := p\<rparr>)" using ds Ok oc by (auto simp: clean_def)
      from 1(1) [OF Streaming q [symmetric] Ok cl this(1) run] show ?thesis
        unfolding dss by (rule run_outcome_streamed) (use ds Ok in simp_all)
    qed
  qed
qed

section \<open>Properties\<close>

text \<open>C22: when the first body and every answer to a continuation request are whole frames that go on with the sequence
  numbers, the local socket receives a prefix of their payloads in order, for every way of cutting the bodies into chunks,
  every moment of the flush timer, every behaviour of the socket and of the prefetch; when the actor ends well it has
  delivered the payloads of every response it took, completely; when it still waits for a continuation everything
  received so far is delivered; and with a socket that keeps accepting bytes and answers that arrive it does not fail.\<close>

theorem download_delivers_in_order:
  assumes "carries cfg 0 body ds" and "obs_carry cfg (of_nat (length ds)) obs dss"
    and "download_run cfg obs (download_new cfg body sk) = (a, r)"
  shows "(\<exists>k. prefix (sk_sent (dl_sock a)) (sk_sent sk @ concat (concat (take (Suc k) (ds # dss))))
        \<and> (r = Some (Ok ()) \<longrightarrow> sk_sent (dl_sock a) = sk_sent sk @ concat (concat (take (Suc k) (ds # dss)))))
     \<and> (r = None \<longrightarrow> sk_sent (dl_sock a) = sk_sent sk @ concat (concat (ds # dss)))
     \<and> (healthy sk (length (concat (concat (ds # dss)))) \<and> list_all answered obs \<longrightarrow> r = None \<or> r = Some (Ok ()))"
proof -
  have "clean (download_new cfg body sk)"
    by (simp add: download_new_def Let_def clean_def buffers_new_def buffers_ok_def buffered_def)
  moreover have "run_inv cfg obs (dl_phase (download_new cfg body sk)) (ds # dss)"
    using assms(1,2) by (auto simp: download_new_def Let_def)
  ultimately obtain k where "prefix (sk_sent (dl_sock a)) (sk_sent sk @ concat (concat (take k (ds # dss))))"
      "r = Some (Ok ()) \<longrightarrow> sk_sent (dl_sock a) = sk_sent sk @ concat (concat (take k (ds # dss)))" "0 < k"
      and "r = None \<longrightarrow> sk_sent (dl_sock a) = sk_sent sk @ concat (concat (ds # dss))"
      and "healthy sk (length (concat (concat (ds # dss)))) \<and> list_all answered obs \<longrightarrow> r = None \<or> r = Some (Ok ())"
    using download_run_outcome [OF _ _ assms(3), of "ds # dss"] by (auto simp: run_outcome_def download_new_def Let_def)
  then show ?thesis by (metis Suc_pred)
qed

text \<open>A frame whose number is not the expected one ends the actor with an error, and its payload is not delivered.\<close>

theorem download_rejects_out_of_order:
  assumes "decodes_as (dc_b122 cfg) (dc_cipher cfg) (dc_encoding cfg) f n d" and "n \<noteq> seq"
  shows "\<exists>a. do_streaming cfg [BodyChunk (f @ rest)] seq at trigger \<lparr>dl_buffers = buffers_new, dl_sock = sk, dl_phase = ph\<rparr>
      = (a, Err ''download frame out of order'') \<and> dl_sock a = sk \<and> db_pending (dl_buffers a) = []"
proof -
  obtain scratch fr where "decode_frame (dc_b122 cfg) (dc_cipher cfg) (dc_encoding cfg) (f @ rest) [] = (rest, Ok (scratch, Some fr))"
      and "frame_contents scratch fr = (n, d)"
    using assms(1) by (rule decodes_asE)
  then show ?thesis using assms(2)
    by (simp add: do_streaming_def drain_event_def fire_prefetch_def ingest_state_def ingest_def buffers_new_def
        ingest_loop.simps Let_def split: option.split)
qed

text \<open>A frame in two chunks with the timer in between, over a socket that takes one byte at a time.\<close>

definition example_cfg :: download_cfg where
  "example_cfg = \<lparr>dc_b122 = positional122, dc_cipher = example_cipher, dc_encoding = Binary, dc_max_bytes = Some 1\<rparr>"

lemma example_download_frame: "\<exists>f. decodes_as positional122 example_cipher Binary f 0 [104, 105]"
  using encode_frame_into_ok [OF example_params, of 0 0 "replicate 12 1" "[104, 105]" Binary 0 0 "[]"]
  by (auto simp: wire_simps frame_raw_limit_def)

theorem download_delivers_in_order_witness:
  "\<exists>f a r. download_run example_cfg [] (download_new example_cfg [BodyChunk (take 3 f), FlushElapsed, BodyChunk (drop 3 f)]
       \<lparr>sk_script = [Accept 1, Accept 1], sk_sent = []\<rparr>) = (a, r) \<and> sk_sent (dl_sock a) = [104, 105]"
proof -
  obtain f where f: "decodes_as positional122 example_cipher Binary f 0 [104, 105]" using example_download_frame by blast
  let ?body = "[BodyChunk (take 3 f), FlushElapsed, BodyChunk (drop 3 f)]" and ?sk = "\<lparr>sk_script = [Accept 1, Accept 1], sk_sent = []\<rparr> :: sock"
  have c: "carries example_cfg 0 ?body [[104, 105]]"
    using frame_list_ok_Cons [OF frame_list_ok_Nil, of positional122 example_cipher Binary f 0 "[104, 105]"] f
    by (auto simp: carries_def example_cfg_def intro!: exI [of _ "[(0, f)]"])
  obtain a r where run: "download_run example_cfg [] (download_new example_cfg ?body ?sk) = (a, r)" by fastforce
  have "healthy ?sk (Suc (Suc 0))" by (simp add: healthy_def)
  then have "sk_sent (dl_sock a) = [104, 105]"
    using download_delivers_in_order [OF c _ run, of "[]"] by auto
  with run show ?thesis by blast
qed

theorem download_rejects_out_of_order_witness:
  "\<exists>f a. do_streaming example_cfg [BodyChunk (f @ [])] 1 None False
       \<lparr>dl_buffers = buffers_new, dl_sock = \<lparr>sk_script = [], sk_sent = []\<rparr>, dl_phase = DlDone\<rparr>
     = (a, Err ''download frame out of order'')"
proof -
  obtain f where "decodes_as positional122 example_cipher Binary f 0 [104, 105]" using example_download_frame by blast
  then have f: "decodes_as (dc_b122 example_cfg) (dc_cipher example_cfg) (dc_encoding example_cfg) f 0 [104, 105]"
    by (simp add: example_cfg_def)
  show ?thesis
    using download_rejects_out_of_order [OF f, of 1 "[]" None False "\<lparr>sk_script = [], sk_sent = []\<rparr>" DlDone] by auto
qed

end
