(* ===== verification/Upload_Loop.thy ===== *)
theory Upload_Loop
  imports Download_Loop Cookies
begin

text \<open>
  The upload half of a client connection, \<^verbatim>\<open>src/src/client/actor/upload_loop.rs\<close>: the shaper seals what the local
  socket delivers into frames, the frames are collected into batches, and every batch is the body of one POST. Two
  semaphores bound the number of requests and of bytes in flight; the requests run as tasks.

  The actor is a step machine. Its program points are the places where the code waits or branches on something outside
  (the \<open>select!\<close>, the polling loop, the two semaphores, the joining of tasks); an event is what happens there next: a poll
  of the shaper, a task that ends, a finished task that is joined, or the code going on. \<open>None\<close> says that the event cannot
  happen at this point. \<open>upload_reach\<close> is the set of reachable states.

  Lemmas: the bodies are whole frames and together, in the order of posting, the frames of the stream in sequence; the
  permits account for every running request; a waiting actor can always go on once the running requests end; the
  actor succeeds only after the stream has ended and every POST has been answered with success.
\<close>

section \<open>Requests\<close>

definition MAX_BATCH_BYTES :: nat where "MAX_BATCH_BYTES = 1024 * 1024"

text \<open>\<open>send_upload_post\<close>: the answer, and whether its body can be drained.\<close>

definition send_upload_post :: "request_outcome \<Rightarrow> bool \<Rightarrow> (unit, string) result" where
  "send_upload_post outcome drained =
     (case outcome of
        ReqTimeout \<Rightarrow> Err ''upload POST timed out''
      | ReqFailed \<Rightarrow> Err ''http post failed''
      | ReqAnswer status body \<Rightarrow>
          rbind (check_response_status status body ''upstream rejected upload'') (\<lambda>body.
            if drained then Ok () else Err ''drain upload response''))"

datatype task_end = TaskReturns request_outcome bool | TaskPanics

text \<open>What a task leaves behind to be joined; \<open>None\<close> is a panic. Only the batching code adds its context to an error.\<close>

definition task_result :: "task_end \<Rightarrow> (unit, string) result option" where
  "task_result t = (case t of TaskReturns outcome drained \<Rightarrow> Some (send_upload_post outcome drained) | TaskPanics \<Rightarrow> None)"

definition joined :: "string \<Rightarrow> (unit, string) result option \<Rightarrow> (unit, string) result" where
  "joined ctx r = (case r of None \<Rightarrow> Err ''upload task panicked'' | Some q \<Rightarrow> map_err (\<lambda>e. ctx @ e) q)"

section \<open>The actor\<close>

datatype ul_point =
    Select bytes
  | Fill bytes
  | WaitRequest bytes bool
  | WaitBytes bytes bool
  | Reap bool
  | Draining nat
  | Finished "(unit, string) result"

record upload_loop =
  ul_shaper :: shaper
  ul_reader :: "read_event list"
  ul_request_sem :: nat
  ul_bytes_sem :: nat
  ul_max_batch_bytes :: nat
  ul_max_in_flight_bytes :: nat
  ul_running :: "(nat \<times> bytes) list"
  ul_joinable :: "(unit, string) result option list"
  ul_posted :: "bytes list"
  ul_point :: ul_point

text \<open>The two semaphores hold a number of permits; \<open>Semaphore::new\<close> panics above \<open>usize::MAX >> 3\<close>, so a configuration
  beyond that does not get here.\<close>

definition upload_loop_new ::
    "nat \<Rightarrow> nat \<Rightarrow> resolved_config \<Rightarrow> nat \<Rightarrow> nat \<Rightarrow> bytes \<Rightarrow> read_event list \<Rightarrow> frame_cipher \<Rightarrow> u64 \<Rightarrow> upload_loop" where
  "upload_loop_new now rnd config upload_concurrency max_in_flight_bytes initial_payload read_half cipher start_seq =
     (let reader = (if initial_payload = [] then read_half else RData initial_payload # read_half);
          frame_headroom = max_encoded_frame_len (rc_encoding config)
      in \<lparr>ul_shaper = with_seq now rnd config cipher start_seq, ul_reader = reader,
          ul_request_sem = upload_concurrency, ul_bytes_sem = max_in_flight_bytes,
          ul_max_batch_bytes = max (min MAX_BATCH_BYTES (max_in_flight_bytes - frame_headroom)) 1,
          ul_max_in_flight_bytes = max_in_flight_bytes, ul_running = [], ul_joinable = [], ul_posted = [],
          ul_point = Select []\<rparr>)"

definition tasks_len :: "upload_loop \<Rightarrow> nat" where
  "tasks_len u = length (ul_running u) + length (ul_joinable u)"

text \<open>The end of the filling: an empty batch goes back or drains, any other batch waits for its permits.\<close>

definition after_fill :: "bytes \<Rightarrow> bool \<Rightarrow> upload_loop \<Rightarrow> upload_loop" where
  "after_fill batch_buf stream_ended u =
     (if batch_buf = [] then (if stream_ended then u\<lparr>ul_point := Draining (tasks_len u)\<rparr> else u\<lparr>ul_point := Select []\<rparr>)
      else u\<lparr>ul_point := WaitRequest batch_buf stream_ended\<rparr>)"

definition poll_shaper ::
    "shaper_env \<Rightarrow> (nat \<Rightarrow> bool) \<Rightarrow> nat \<Rightarrow> bytes \<Rightarrow> upload_loop \<Rightarrow> (upload_loop \<times> ((u64 \<times> bytes) option, io_error) result poll) option" where
  "poll_shaper env elapsed now batch_buf u =
     map_option (\<lambda>(sh, rd, p). (u\<lparr>ul_shaper := sh, ul_reader := rd\<rparr>, p))
       (poll_fill_and_seal env elapsed now (ul_shaper u) (ul_reader u) batch_buf)"

definition permit_bytes :: "bytes \<Rightarrow> upload_loop \<Rightarrow> nat" where
  "permit_bytes batch_buf u = max (min (length batch_buf) (ul_max_in_flight_bytes u)) 1 mod 2 ^ 32"

datatype ul_event =
    PollSeal "nat \<Rightarrow> bool" nat
  | TaskEnds nat task_end
  | JoinNext
  | GoOn

text \<open>A task that ends gives its permits back; its result waits to be joined.\<close>

definition task_ends :: "nat \<Rightarrow> task_end \<Rightarrow> upload_loop \<Rightarrow> upload_loop option" where
  "task_ends i t u =
     (if i < length (ul_running u)
      then Some (u\<lparr>ul_running := take i (ul_running u) @ drop (Suc i) (ul_running u),
                   ul_request_sem := ul_request_sem u + 1, ul_bytes_sem := ul_bytes_sem u + fst (ul_running u ! i),
                   ul_joinable := ul_joinable u @ [task_result t]\<rparr>)
      else None)"

definition spawn_post :: "bytes \<Rightarrow> upload_loop \<Rightarrow> upload_loop" where
  "spawn_post body u =
     u\<lparr>ul_bytes_sem := ul_bytes_sem u - permit_bytes body u,
       ul_running := ul_running u @ [(permit_bytes body u, body)], ul_posted := ul_posted u @ [body]\<rparr>"

fun upload_loop_step :: "shaper_env \<Rightarrow> ul_event \<Rightarrow> upload_loop \<Rightarrow> upload_loop option" where
  "upload_loop_step env (TaskEnds i t) u = (case ul_point u of Finished r \<Rightarrow> None | _ \<Rightarrow> task_ends i t u)"
| "upload_loop_step env (PollSeal elapsed now) u =
     (case ul_point u of
        Select batch_buf \<Rightarrow>
          (case poll_shaper env elapsed now batch_buf u of
             Some (u, Ready (Ok (Some (seq, out)))) \<Rightarrow> Some (u\<lparr>ul_point := Fill out\<rparr>)
           | Some (u, Ready (Ok None)) \<Rightarrow> Some (after_fill batch_buf True u)
           | Some (u, Ready (Err e)) \<Rightarrow> Some (u\<lparr>ul_point := Finished (Err (io_message e))\<rparr>)
           | Some (u, Pending) \<Rightarrow> Some u
           | None \<Rightarrow> None)
      | Fill batch_buf \<Rightarrow>
          (if length batch_buf < ul_max_batch_bytes u
           then (case poll_shaper env elapsed now batch_buf u of
                   Some (u, Ready (Ok (Some (seq, out)))) \<Rightarrow> Some (u\<lparr>ul_point := Fill out\<rparr>)
                 | Some (u, Ready (Ok None)) \<Rightarrow> Some (after_fill batch_buf True u)
                 | Some (u, Ready (Err e)) \<Rightarrow> Some (u\<lparr>ul_point := Finished (Err (io_message e))\<rparr>)
                 | Some (u, Pending) \<Rightarrow> Some (after_fill batch_buf False u)
                 | None \<Rightarrow> None)
           else None)
      | _ \<Rightarrow> None)"
| "upload_loop_step env JoinNext u =
     (case ul_joinable u of
        [] \<Rightarrow> None
      | r # rs \<Rightarrow>
          (let u' = u\<lparr>ul_joinable := rs\<rparr> in
           case ul_point u of
             Select batch_buf \<Rightarrow> Some (case joined ''upload POST failed: '' r of Ok x \<Rightarrow> u'\<lparr>ul_point := Fill batch_buf\<rparr> | Err e \<Rightarrow> u'\<lparr>ul_point := Finished (Err e)\<rparr>)
           | Reap ended \<Rightarrow> Some (case joined ''upload POST failed: '' r of Ok x \<Rightarrow> u' | Err e \<Rightarrow> u'\<lparr>ul_point := Finished (Err e)\<rparr>)
           | Draining (Suc n) \<Rightarrow> Some (case joined [] r of Ok x \<Rightarrow> u'\<lparr>ul_point := Draining n\<rparr> | Err e \<Rightarrow> u'\<lparr>ul_point := Finished (Err e)\<rparr>)
           | _ \<Rightarrow> None))"
| "upload_loop_step env GoOn u =
     (case ul_point u of
        Fill batch_buf \<Rightarrow> if length batch_buf < ul_max_batch_bytes u then None else Some (after_fill batch_buf False u)
      | WaitRequest batch_buf ended \<Rightarrow>
          if 0 < ul_request_sem u then Some (u\<lparr>ul_request_sem := ul_request_sem u - 1, ul_point := WaitBytes batch_buf ended\<rparr>) else None
      | WaitBytes batch_buf ended \<Rightarrow>
          if permit_bytes batch_buf u \<le> ul_bytes_sem u then Some ((spawn_post batch_buf u)\<lparr>ul_point := Reap ended\<rparr>) else None
      | Reap ended \<Rightarrow>
          if ul_joinable u \<noteq> [] then None
          else if ended then Some (u\<lparr>ul_point := Draining (tasks_len u)\<rparr>) else Some (u\<lparr>ul_point := Select []\<rparr>)
      | Draining n \<Rightarrow> if n = 0 \<or> tasks_len u = 0 then Some (u\<lparr>ul_point := Finished (Ok ())\<rparr>) else None
      | _ \<Rightarrow> None)"

inductive upload_trace :: "shaper_env \<Rightarrow> upload_loop \<Rightarrow> ul_event list \<Rightarrow> upload_loop \<Rightarrow> bool" for env u0 where
  start: "upload_trace env u0 [] u0"
| step: "upload_trace env u0 es u \<Longrightarrow> upload_loop_step env ev u = Some u' \<Longrightarrow> upload_trace env u0 (es @ [ev]) u'"

section \<open>Lemmas: permits\<close>

fun point_buf :: "ul_point \<Rightarrow> bytes" where
  "point_buf (Select b) = b"
| "point_buf (Fill b) = b"
| "point_buf (WaitRequest b e) = b"
| "point_buf (WaitBytes b e) = b"
| "point_buf (Reap e) = []"
| "point_buf (Draining n) = []"
| "point_buf (Finished r) = []"

definition batch_limit :: "encoding_type \<Rightarrow> upload_loop \<Rightarrow> nat" where
  "batch_limit enc u = ul_max_batch_bytes u + max_encoded_frame_len enc"

definition holds_request :: "ul_point \<Rightarrow> nat" where
  "holds_request p = (case p of WaitBytes b e \<Rightarrow> 1 | _ \<Rightarrow> 0)"

definition permits_ok :: "encoding_type \<Rightarrow> nat \<Rightarrow> nat \<Rightarrow> upload_loop \<Rightarrow> bool" where
  "permits_ok enc conc flight u \<longleftrightarrow>
     ul_max_in_flight_bytes u = flight \<and> ul_max_batch_bytes u = max (min MAX_BATCH_BYTES (flight - max_encoded_frame_len enc)) 1
   \<and> sum_list (map fst (ul_running u)) + ul_bytes_sem u = flight
   \<and> length (ul_running u) + ul_request_sem u + (case ul_point u of Finished r \<Rightarrow> 0 | p \<Rightarrow> holds_request p) = conc
   \<and> length (point_buf (ul_point u)) \<le> batch_limit enc u
   \<and> (\<forall>(p, b) \<in> set (ul_running u). p = length b)"

lemma headroom_le: "max_encoded_frame_len enc \<le> 18781"
  by (cases enc) (simp_all add: max_encoded_frame_len_def wire_simps)

lemma permit_bytes_eq:
  assumes "permits_ok enc conc flight u" and "max_encoded_frame_len enc < flight" and "b \<noteq> []" and "length b \<le> batch_limit enc u"
  shows "permit_bytes b u = length b"
proof -
  have "batch_limit enc u \<le> flight" and "batch_limit enc u \<le> 1024 * 1024 + 18781"
    using assms(1,2) headroom_le [of enc] by (auto simp: permits_ok_def batch_limit_def MAX_BATCH_BYTES_def)
  then have "length b \<le> flight" "length b < 2 ^ 32" "1 \<le> length b" using assms(3,4) by (auto simp: Suc_le_eq)
  then show ?thesis using assms(1) by (simp add: permit_bytes_def permits_ok_def max_def min_def)
qed

text \<open>What a poll of the shaper does to the state.\<close>

lemma poll_shaper_outcome:
  assumes "env_ok env" and "shaper_ok (ul_shaper u)"
  obtains sh rd p where "poll_shaper env elapsed now b u = Some (u\<lparr>ul_shaper := sh, ul_reader := rd\<rparr>, p)"
    and "seal_outcome (se_b122 env) (ul_shaper u) (ul_reader u) b (sh, rd, p)"
proof -
  obtain sh rd p where "poll_fill_and_seal env elapsed now (ul_shaper u) (ul_reader u) b = Some (sh, rd, p)"
      and "seal_outcome (se_b122 env) (ul_shaper u) (ul_reader u) b (sh, rd, p)"
    using poll_fill_and_seal_outcome [OF assms, of elapsed now "ul_reader u" b] by (metis prod.collapse)
  then show thesis by (intro that) (simp_all add: poll_shaper_def)
qed

section \<open>Lemmas: the stream\<close>

definition body_of :: "(u64 \<times> bytes) list \<Rightarrow> bytes" where
  "body_of fs = concat (map snd fs)"

text \<open>The frames \<open>cur\<close> that a program point holds in its batch.\<close>

fun point_holds :: "ul_point \<Rightarrow> (u64 \<times> bytes) list \<Rightarrow> bool" where
  "point_holds (Select b) cur \<longleftrightarrow> b = [] \<and> cur = []"
| "point_holds (Fill b) cur \<longleftrightarrow> b = body_of cur"
| "point_holds (WaitRequest b e) cur \<longleftrightarrow> b \<noteq> [] \<and> b = body_of cur"
| "point_holds (WaitBytes b e) cur \<longleftrightarrow> b \<noteq> [] \<and> b = body_of cur"
| "point_holds (Finished r) cur \<longleftrightarrow> r = Ok () \<longrightarrow> cur = []"
| "point_holds (Reap e) cur \<longleftrightarrow> cur = []"
| "point_holds (Draining n) cur \<longleftrightarrow> cur = []"

fun point_ended :: "ul_point \<Rightarrow> bool" where
  "point_ended (WaitRequest b e) \<longleftrightarrow> e"
| "point_ended (WaitBytes b e) \<longleftrightarrow> e"
| "point_ended (Reap e) \<longleftrightarrow> e"
| "point_ended (Draining n) \<longleftrightarrow> True"
| "point_ended (Finished r) \<longleftrightarrow> r = Ok ()"
| "point_ended p \<longleftrightarrow> False"

definition stream_at :: "base122 \<Rightarrow> frame_cipher \<Rightarrow> encoding_type \<Rightarrow> u64 \<Rightarrow> bytes \<Rightarrow> (u64 \<times> bytes) list \<Rightarrow> shaper \<Rightarrow> read_event list \<Rightarrow> bool" where
  "stream_at B C enc seq0 input fs sh rd \<longleftrightarrow>
     shaper_ok sh \<and> sh_cipher sh = C \<and> sh_encoding sh = enc \<and> sh_seq sh = seq0 + of_nat (length fs) \<and> RData [] \<notin> set rd
   \<and> (\<exists>ds. frame_list_ok B C enc seq0 fs ds \<and> input = concat ds @ unsent sh rd)"

definition stream_inv :: "base122 \<Rightarrow> frame_cipher \<Rightarrow> encoding_type \<Rightarrow> u64 \<Rightarrow> bytes \<Rightarrow> upload_loop \<Rightarrow> bool" where
  "stream_inv B C enc seq0 input u \<longleftrightarrow>
     (\<exists>fss cur. ul_posted u = map body_of fss \<and> [] \<notin> set fss \<and> point_holds (ul_point u) cur
        \<and> stream_at B C enc seq0 input (concat fss @ cur) (ul_shaper u) (ul_reader u)
        \<and> (point_ended (ul_point u) \<longrightarrow> unsent (ul_shaper u) (ul_reader u) = []))"

lemma stream_invI:
  "ul_posted u = map body_of fss \<Longrightarrow> [] \<notin> set fss \<Longrightarrow> point_holds (ul_point u) cur \<Longrightarrow>
   stream_at B C enc seq0 input (concat fss @ cur) (ul_shaper u) (ul_reader u) \<Longrightarrow>
   (point_ended (ul_point u) \<Longrightarrow> unsent (ul_shaper u) (ul_reader u) = []) \<Longrightarrow> stream_inv B C enc seq0 input u"
  unfolding stream_inv_def by blast

lemma stream_at_poll:
  assumes "stream_at B C enc seq0 input fs sh rd" and "seal_outcome B sh rd b (sh', rd', p)"
  shows "case p of
      Ready (Ok (Some (seq, out))) \<Rightarrow> (\<exists>f. out = b @ f \<and> length f \<le> max_encoded_frame_len enc \<and> f \<noteq> []
          \<and> stream_at B C enc seq0 input (fs @ [(seq, f)]) sh' rd')
    | Ready (Ok None) \<Rightarrow> stream_at B C enc seq0 input fs sh' rd' \<and> unsent sh' rd' = []
    | Ready (Err e) \<Rightarrow> stream_at B C enc seq0 input fs sh' rd'
    | Pending \<Rightarrow> stream_at B C enc seq0 input fs sh' rd'"
proof (cases "\<exists>seq out. p = Ready (Ok (Some (seq, out)))")
  case True
  then obtain seq out where p: "p = Ready (Ok (Some (seq, out)))" by blast
  obtain ds where ds: "frame_list_ok B C enc seq0 fs ds" "input = concat ds @ unsent sh rd" using assms(1) by (auto simp: stream_at_def)
  obtain f d where f: "out = b @ f" "decodes_as B C enc f seq d" "d \<noteq> []" "unsent sh rd = d @ unsent sh' rd'"
      and seq: "seq = sh_seq sh" "sh_seq sh' = sh_seq sh + 1"
    using assms p by (auto simp: seal_outcome_def stream_at_def)
  have "seq = seq0 + of_nat (length fs)" using seq assms(1) by (simp add: stream_at_def)
  then have "frame_list_ok B C enc seq0 (fs @ [(seq, f)]) (ds @ [d])" using frame_list_ok_snoc [OF ds(1), of f d] f by simp
  then have "stream_at B C enc seq0 input (fs @ [(seq, f)]) sh' rd'"
    using assms p seq ds f by (auto simp: stream_at_def seal_outcome_def same_wire_def intro!: exI [of _ "ds @ [d]"])
  then show ?thesis using p f by (auto simp: decodes_as_def)
next
  case False
  then show ?thesis
    using assms by (auto simp: stream_at_def seal_outcome_def same_wire_def unsent_def split: poll.splits result.splits option.splits)
qed

lemma stream_at_nonempty: "stream_at B C enc seq0 input (xs @ cur) sh rd \<Longrightarrow> body_of cur = [] \<longleftrightarrow> cur = []"
proof -
  assume "stream_at B C enc seq0 input (xs @ cur) sh rd"
  then obtain ds where "list_all2 (\<lambda>(n, f) d. decodes_as B C enc f n d \<and> d \<noteq> []) (xs @ cur) ds"
    by (auto simp: stream_at_def frame_list_ok_def)
  then have "\<forall>(n, f) \<in> set (xs @ cur). f \<noteq> []"
    by (induction rule: list_all2_induct) (auto simp: decodes_as_def)
  then show ?thesis by (cases cur) (auto simp: body_of_def)
qed

lemma after_fill_fields [simp]:
  "ul_posted (after_fill b e u) = ul_posted u" "ul_shaper (after_fill b e u) = ul_shaper u" "ul_reader (after_fill b e u) = ul_reader u"
  "ul_running (after_fill b e u) = ul_running u" "ul_joinable (after_fill b e u) = ul_joinable u"
  "ul_request_sem (after_fill b e u) = ul_request_sem u" "ul_bytes_sem (after_fill b e u) = ul_bytes_sem u"
  "ul_max_batch_bytes (after_fill b e u) = ul_max_batch_bytes u" "ul_max_in_flight_bytes (after_fill b e u) = ul_max_in_flight_bytes u"
  by (simp_all add: after_fill_def)

lemma stream_inv_after_fill:
  assumes "ul_posted u = map body_of fss" and "[] \<notin> set fss" and "b = body_of cur"
    and at: "stream_at B C enc seq0 input (concat fss @ cur) (ul_shaper u) (ul_reader u)"
    and "e \<Longrightarrow> unsent (ul_shaper u) (ul_reader u) = []"
  shows "stream_inv B C enc seq0 input (after_fill b e u)"
proof (rule stream_invI [of _ fss cur])
  show "point_holds (ul_point (after_fill b e u)) cur"
    using assms(3) stream_at_nonempty [OF at] by (auto simp: after_fill_def)
  show "point_ended (ul_point (after_fill b e u)) \<Longrightarrow> unsent (ul_shaper (after_fill b e u)) (ul_reader (after_fill b e u)) = []"
    using assms(5) by (auto simp: after_fill_def split: if_splits)
qed (use assms in simp_all)

text \<open>A poll in the \<open>select!\<close> or in the filling loop.\<close>

lemma poll_step_cases:
  assumes "upload_loop_step env (PollSeal elapsed now) u = Some u'"
  obtains b sh rd p where "ul_point u = Select b \<or> ul_point u = Fill b \<and> length b < ul_max_batch_bytes u"
    and "poll_fill_and_seal env elapsed now (ul_shaper u) (ul_reader u) b = Some (sh, rd, p)"
    and "(\<exists>seq out. p = Ready (Ok (Some (seq, out))) \<and> u' = u\<lparr>ul_shaper := sh, ul_reader := rd, ul_point := Fill out\<rparr>)
       \<or> (p = Ready (Ok None) \<and> u' = after_fill b True (u\<lparr>ul_shaper := sh, ul_reader := rd\<rparr>))
       \<or> (\<exists>e. p = Ready (Err e) \<and> u' = u\<lparr>ul_shaper := sh, ul_reader := rd, ul_point := Finished (Err (io_message e))\<rparr>)
       \<or> (p = Pending \<and> u' \<in> {u\<lparr>ul_shaper := sh, ul_reader := rd\<rparr>, after_fill b False (u\<lparr>ul_shaper := sh, ul_reader := rd\<rparr>)})"
proof -
  obtain b where b: "ul_point u = Select b \<or> ul_point u = Fill b \<and> length b < ul_max_batch_bytes u"
    using assms by (auto split: ul_point.splits if_splits)
  have "poll_shaper env elapsed now b u \<noteq> None" using assms b by (cases "poll_shaper env elapsed now b u") auto
  then obtain sh rd p where f: "poll_fill_and_seal env elapsed now (ul_shaper u) (ul_reader u) b = Some (sh, rd, p)"
    by (auto simp: poll_shaper_def)
  then have poll: "poll_shaper env elapsed now b u = Some (u\<lparr>ul_shaper := sh, ul_reader := rd\<rparr>, p)" by (simp add: poll_shaper_def)
  consider (frame) seq out' where "p = Ready (Ok (Some (seq, out')))" | (eof) "p = Ready (Ok None)"
    | (err) e where "p = Ready (Err e)" | (pend) "p = Pending"
    by (metis option.exhaust poll.exhaust prod.collapse result.exhaust)
  then show thesis
    by cases (use assms b poll in \<open>auto intro!: that [OF b f]\<close>)
qed

lemma stream_inv_poll:
  assumes env: "env_ok env" and inv: "stream_inv (se_b122 env) C enc seq0 input u"
    and pt: "ul_point u = Select b \<or> ul_point u = Fill b" and st: "upload_loop_step env (PollSeal elapsed now) u = Some u'"
  shows "stream_inv (se_b122 env) C enc seq0 input u'"
proof -
  obtain fss cur where fss: "ul_posted u = map body_of fss" "[] \<notin> set fss" and b: "b = body_of cur"
      and ph: "point_holds (ul_point u) cur"
      and at: "stream_at (se_b122 env) C enc seq0 input (concat fss @ cur) (ul_shaper u) (ul_reader u)"
    using inv pt by (auto simp: stream_inv_def body_of_def)
  have "shaper_ok (ul_shaper u)" using at by (simp add: stream_at_def)
  with env obtain sh rd p where poll: "poll_shaper env elapsed now b u = Some (u\<lparr>ul_shaper := sh, ul_reader := rd\<rparr>, p)"
      and out: "seal_outcome (se_b122 env) (ul_shaper u) (ul_reader u) b (sh, rd, p)"
    by (rule poll_shaper_outcome)
  let ?u = "u\<lparr>ul_shaper := sh, ul_reader := rd\<rparr>"
  note sp = stream_at_poll [OF at out]
  consider (frame) seq out' where "p = Ready (Ok (Some (seq, out')))" | (eof) "p = Ready (Ok None)"
    | (err) e where "p = Ready (Err e)" | (pend) "p = Pending"
    by (metis option.exhaust poll.exhaust prod.collapse result.exhaust)
  then show ?thesis
  proof cases
    case frame
    then have u': "u' = ?u\<lparr>ul_point := Fill out'\<rparr>" using st pt poll by (auto split: if_splits)
    obtain f where "out' = b @ f" "stream_at (se_b122 env) C enc seq0 input (concat fss @ (cur @ [(seq, f)])) sh rd"
      using sp frame by auto
    then show ?thesis using fss b by (intro stream_invI [of _ fss "cur @ [(seq, f)]"]) (simp_all add: u' body_of_def)
  next
    case eof
    then have u': "u' = after_fill b True ?u" using st pt poll by (auto split: if_splits)
    show ?thesis unfolding u' using sp eof fss b by (intro stream_inv_after_fill [of _ fss _ cur]) simp_all
  next
    case err
    then have u': "u' = ?u\<lparr>ul_point := Finished (Err (io_message e))\<rparr>" using st pt poll by (auto split: if_splits)
    show ?thesis using sp err fss by (intro stream_invI [of _ fss cur]) (simp_all add: u')
  next
    case pend
    then have u': "u' = ?u \<or> u' = after_fill b False ?u"
      using st pt poll by (auto split: if_splits)
    show ?thesis using u'
    proof
      assume "u' = ?u"
      then show ?thesis using sp pend fss ph pt by (intro stream_invI [of _ fss cur]) auto
    next
      assume "u' = after_fill b False ?u"
      then show ?thesis using sp pend fss b by (auto intro!: stream_inv_after_fill [of _ fss _ cur])
    qed
  qed
qed

lemma stream_inv_point:
  assumes "stream_inv B C enc seq0 input u" and "ul_posted u' = ul_posted u" "ul_shaper u' = ul_shaper u" "ul_reader u' = ul_reader u"
    and "\<And>cur. point_holds (ul_point u) cur \<Longrightarrow> point_holds (ul_point u') cur"
    and "point_ended (ul_point u') \<Longrightarrow> point_ended (ul_point u)"
  shows "stream_inv B C enc seq0 input u'"
  using assms unfolding stream_inv_def by metis

lemma task_ends_fields:
  assumes "task_ends i t u = Some u'"
  shows "ul_posted u' = ul_posted u \<and> ul_shaper u' = ul_shaper u \<and> ul_reader u' = ul_reader u \<and> ul_point u' = ul_point u
    \<and> ul_max_batch_bytes u' = ul_max_batch_bytes u \<and> ul_max_in_flight_bytes u' = ul_max_in_flight_bytes u
    \<and> ul_joinable u' = ul_joinable u @ [task_result t] \<and> Suc (length (ul_running u')) = length (ul_running u)
    \<and> ul_request_sem u' = ul_request_sem u + 1 \<and> set (ul_running u') \<subseteq> set (ul_running u)
    \<and> sum_list (map fst (ul_running u')) + ul_bytes_sem u' = sum_list (map fst (ul_running u)) + ul_bytes_sem u"
proof -
  have i: "i < length (ul_running u)" and u': "u' = u\<lparr>ul_running := take i (ul_running u) @ drop (Suc i) (ul_running u),
                   ul_request_sem := ul_request_sem u + 1, ul_bytes_sem := ul_bytes_sem u + fst (ul_running u ! i),
                   ul_joinable := ul_joinable u @ [task_result t]\<rparr>"
    using assms by (auto simp: task_ends_def split: if_splits)
  have "ul_running u = take i (ul_running u) @ ul_running u ! i # drop (Suc i) (ul_running u)" using i by (rule id_take_nth_drop)
  then have "sum_list (map fst (ul_running u)) = sum_list (map fst (take i (ul_running u))) + fst (ul_running u ! i) + sum_list (map fst (drop (Suc i) (ul_running u)))"
    by (metis (no_types, lifting) add.assoc list.simps(9) map_append sum_list.Cons sum_list_append)
  then show ?thesis using i u' by (auto dest: in_set_takeD in_set_dropD)
qed

lemma joined_Ok_iff: "joined ctx r = Ok () \<longleftrightarrow> r = Some (Ok ())"
  by (cases r) (auto simp: joined_def map_err_Ok_iff)

lemma join_step_cases:
  assumes "upload_loop_step env JoinNext u = Some u'"
  obtains r rs p where "ul_joinable u = r # rs" and "u' = u\<lparr>ul_joinable := rs, ul_point := p\<rparr>"
    and "r = Some (Ok ()) \<and> ((\<exists>b. ul_point u = Select b \<and> p = Fill b) \<or> (\<exists>e. ul_point u = Reap e \<and> p = Reap e)
            \<or> (\<exists>n. ul_point u = Draining (Suc n) \<and> p = Draining n))
       \<or> r \<noteq> Some (Ok ()) \<and> (\<exists>e. p = Finished (Err e)) \<and> (\<forall>q. ul_point u \<noteq> Finished q)"
proof -
  from assms obtain r rs where j: "ul_joinable u = r # rs" by (auto split: list.splits)
  show thesis
  proof (cases "r = Some (Ok ())")
    case True
    then have "joined ctx r = Ok ()" for ctx by (simp add: joined_Ok_iff)
    then show thesis
      by (cases "ul_point u") (use assms j True in \<open>auto simp: Let_def split: nat.splits intro!: that [OF j]\<close>)
  next
    case False
    have "joined ctx r = Ok () \<or> (\<exists>e. joined ctx r = Err e)" for ctx by (cases "joined ctx r") auto
    then obtain e where "joined ctx r = Err (e ctx)" for ctx using joined_Ok_iff False by metis
    then show thesis
      by (cases "ul_point u") (use assms j False in \<open>auto simp: Let_def split: nat.splits intro!: that [OF j]\<close>)
  qed
qed

lemma stream_inv_step:
  assumes env: "env_ok env" and inv: "stream_inv (se_b122 env) C enc seq0 input u" and st: "upload_loop_step env ev u = Some u'"
  shows "stream_inv (se_b122 env) C enc seq0 input u'"
proof (cases ev)
  case (PollSeal elapsed now)
  then obtain b where "ul_point u = Select b \<or> ul_point u = Fill b" using st by (auto split: ul_point.splits)
  then show ?thesis using stream_inv_poll [OF env inv] st PollSeal by simp
next
  case (TaskEnds i t)
  then have "task_ends i t u = Some u'" using st by (simp split: ul_point.splits)
  then show ?thesis using inv task_ends_fields by (intro stream_inv_point [OF inv]) auto
next
  case JoinNext
  from st [unfolded JoinNext] show ?thesis
    by (rule join_step_cases) (auto simp: body_of_def intro!: stream_inv_point [OF inv])
next
  case GoOn
  show ?thesis
  proof (cases "ul_point u")
    case (Fill b)
    then have "u' = after_fill b False u" using st GoOn by (auto split: if_splits)
    moreover obtain fss cur where "ul_posted u = map body_of fss" "[] \<notin> set fss" "b = body_of cur"
        "stream_at (se_b122 env) C enc seq0 input (concat fss @ cur) (ul_shaper u) (ul_reader u)"
      using inv Fill by (auto simp: stream_inv_def)
    ultimately show ?thesis by (simp add: stream_inv_after_fill)
  next
    case (WaitBytes b e)
    then have u': "u' = (spawn_post b u)\<lparr>ul_point := Reap e\<rparr>" using st GoOn by (auto split: if_splits)
    obtain fss cur where fss: "ul_posted u = map body_of fss" "[] \<notin> set fss" and b: "b = body_of cur" "b \<noteq> []"
        and at: "stream_at (se_b122 env) C enc seq0 input (concat fss @ cur) (ul_shaper u) (ul_reader u)"
        and e: "e \<longrightarrow> unsent (ul_shaper u) (ul_reader u) = []"
      using inv WaitBytes by (auto simp: stream_inv_def)
    have "cur \<noteq> []" using b by (auto simp: body_of_def)
    then show ?thesis using fss b at e by (intro stream_invI [of _ "fss @ [cur]" "[]"]) (auto simp: u' spawn_post_def)
  qed (use st GoOn in \<open>auto intro!: stream_inv_point [OF inv] split: if_splits\<close>)
qed

section \<open>Lemmas: permits and answers along a trace\<close>

lemma permits_ok_step:
  assumes env: "env_ok env" and sinv: "stream_inv (se_b122 env) C enc seq0 input u" and inv: "permits_ok enc conc flight u"
    and room: "max_encoded_frame_len enc < flight" and st: "upload_loop_step env ev u = Some u'"
    and alive: "\<forall>r. ul_point u' \<noteq> Finished r"
  shows "permits_ok enc conc flight u'"
proof (cases ev)
  case (PollSeal elapsed now)
  from st [unfolded PollSeal] obtain b sh rd p where pt: "ul_point u = Select b \<or> ul_point u = Fill b \<and> length b < ul_max_batch_bytes u"
      and poll: "poll_fill_and_seal env elapsed now (ul_shaper u) (ul_reader u) b = Some (sh, rd, p)"
      and alt: "(\<exists>seq out. p = Ready (Ok (Some (seq, out))) \<and> u' = u\<lparr>ul_shaper := sh, ul_reader := rd, ul_point := Fill out\<rparr>)
       \<or> (p = Ready (Ok None) \<and> u' = after_fill b True (u\<lparr>ul_shaper := sh, ul_reader := rd\<rparr>))
       \<or> (\<exists>e. p = Ready (Err e) \<and> u' = u\<lparr>ul_shaper := sh, ul_reader := rd, ul_point := Finished (Err (io_message e))\<rparr>)
       \<or> (p = Pending \<and> u' \<in> {u\<lparr>ul_shaper := sh, ul_reader := rd\<rparr>, after_fill b False (u\<lparr>ul_shaper := sh, ul_reader := rd\<rparr>)})"
    by (rule poll_step_cases)
  have nf: "u' \<noteq> u\<lparr>ul_shaper := sh, ul_reader := rd, ul_point := Finished (Err e)\<rparr>" for e using alive by auto
  from alt have u': "(\<exists>seq out'. p = Ready (Ok (Some (seq, out'))) \<and> u' = u\<lparr>ul_shaper := sh, ul_reader := rd, ul_point := Fill out'\<rparr>)
         \<or> u' = u\<lparr>ul_shaper := sh, ul_reader := rd\<rparr> \<or> (\<exists>e. u' = after_fill b e (u\<lparr>ul_shaper := sh, ul_reader := rd\<rparr>))"
    using nf by blast
  let ?u = "u\<lparr>ul_shaper := sh, ul_reader := rd\<rparr>"
  obtain fss cur where ph: "point_holds (ul_point u) cur"
      and at: "stream_at (se_b122 env) C enc seq0 input (concat fss @ cur) (ul_shaper u) (ul_reader u)"
    using sinv by (auto simp: stream_inv_def)
  have ok: "shaper_ok (ul_shaper u)" using at by (simp add: stream_at_def)
  have out: "seal_outcome (se_b122 env) (ul_shaper u) (ul_reader u) b (sh, rd, p)"
    using poll_fill_and_seal_outcome [OF env ok, of elapsed now "ul_reader u" b] poll by auto
  have len: "length b \<le> ul_max_batch_bytes u" "length b \<le> batch_limit enc u" using ph pt by (auto simp: batch_limit_def)
  have fr: "length out' \<le> batch_limit enc u" if "p = Ready (Ok (Some (seq, out')))" for seq out'
    using stream_at_poll [OF at out] that len by (auto simp: batch_limit_def)
  have "permits_ok enc conc flight (after_fill b e ?u)" for e
    using inv len pt by (auto simp: permits_ok_def after_fill_def batch_limit_def holds_request_def)
  moreover have "permits_ok enc conc flight (?u\<lparr>ul_point := Fill out'\<rparr>)" if "length out' \<le> batch_limit enc u" for out'
    using inv that pt by (auto simp: permits_ok_def batch_limit_def holds_request_def)
  moreover have "permits_ok enc conc flight ?u" using inv by (simp add: permits_ok_def batch_limit_def)
  ultimately show ?thesis using u' fr by auto
next
  case (TaskEnds i t)
  then have t: "task_ends i t u = Some u'" using st by (simp split: ul_point.splits)
  then show ?thesis using inv task_ends_fields [OF t] by (auto simp: permits_ok_def batch_limit_def split: ul_point.splits)
next
  case JoinNext
  from st [unfolded JoinNext] show ?thesis
    by (rule join_step_cases) (use inv alive in \<open>auto simp: permits_ok_def batch_limit_def holds_request_def\<close>)
next
  case GoOn
  show ?thesis
  proof (cases "ul_point u")
    case (WaitBytes b e)
    have b: "b \<noteq> []" using sinv WaitBytes by (auto simp: stream_inv_def)
    have pb: "permit_bytes b u = length b"
      using permit_bytes_eq [OF inv room b] inv WaitBytes by (simp add: permits_ok_def)
    have "u' = (spawn_post b u)\<lparr>ul_point := Reap e\<rparr>" and "permit_bytes b u \<le> ul_bytes_sem u" using st GoOn WaitBytes by (auto split: if_splits)
    then show ?thesis using inv WaitBytes pb by (auto simp: permits_ok_def spawn_post_def batch_limit_def holds_request_def)
  qed (use st GoOn inv alive in \<open>auto simp: permits_ok_def after_fill_def batch_limit_def holds_request_def split: if_splits\<close>)
qed

text \<open>What a trace has heard from its requests.\<close>

fun ends_of :: "ul_event list \<Rightarrow> (unit, string) result option list" where
  "ends_of [] = []"
| "ends_of (TaskEnds i t # es) = task_result t # ends_of es"
| "ends_of (e # es) = ends_of es"

lemma ends_of_append [simp]: "ends_of (xs @ ys) = ends_of xs @ ends_of ys"
  by (induction xs rule: ends_of.induct) auto

definition answers_ok :: "ul_event list \<Rightarrow> upload_loop \<Rightarrow> bool" where
  "answers_ok es u \<longleftrightarrow>
     length (ul_posted u) = length (ends_of es) + length (ul_running u)
   \<and> ((\<exists>r \<in> set (ends_of es). r \<noteq> Some (Ok ())) \<longrightarrow> (\<exists>r \<in> set (ul_joinable u). r \<noteq> Some (Ok ())) \<or> (\<exists>e. ul_point u = Finished (Err e)))
   \<and> (\<forall>n. ul_point u = Draining n \<longrightarrow> n = tasks_len u)
   \<and> (ul_point u = Finished (Ok ()) \<longrightarrow> ul_running u = [] \<and> ul_joinable u = [])"

lemma answers_ok_step:
  assumes inv: "answers_ok es u" and st: "upload_loop_step env ev u = Some u'"
  shows "answers_ok (es @ [ev]) u'"
proof (cases ev)
  case (PollSeal elapsed now)
  from st [unfolded PollSeal] obtain b sh rd p where pt: "ul_point u = Select b \<or> ul_point u = Fill b"
      and u': "(\<exists>p'. u' = u\<lparr>ul_shaper := sh, ul_reader := rd, ul_point := p'\<rparr> \<and> (\<forall>n. p' \<noteq> Draining n) \<and> p' \<noteq> Finished (Ok ()))
          \<or> (\<exists>e. u' = after_fill b e (u\<lparr>ul_shaper := sh, ul_reader := rd\<rparr>)) \<or> u' = u\<lparr>ul_shaper := sh, ul_reader := rd\<rparr>"
    by (rule poll_step_cases) blast
  have "answers_ok (es @ [ev]) (u\<lparr>ul_shaper := sh, ul_reader := rd, ul_point := p'\<rparr>)" if "\<forall>n. p' \<noteq> Draining n" "p' \<noteq> Finished (Ok ())" for p'
    using inv pt that PollSeal by (auto simp: answers_ok_def)
  moreover have "answers_ok (es @ [ev]) (after_fill b e (u\<lparr>ul_shaper := sh, ul_reader := rd\<rparr>))" for e
    using inv pt PollSeal by (auto simp: answers_ok_def after_fill_def tasks_len_def)
  moreover have "answers_ok (es @ [ev]) (u\<lparr>ul_shaper := sh, ul_reader := rd\<rparr>)"
    using inv pt PollSeal by (auto simp: answers_ok_def tasks_len_def)
  ultimately show ?thesis using u' by blast
next
  case (TaskEnds i t)
  then have t: "task_ends i t u = Some u'" and "\<forall>r. ul_point u \<noteq> Finished r" using st by (auto split: ul_point.splits)
  then show ?thesis using inv task_ends_fields [OF t] TaskEnds by (auto simp: answers_ok_def tasks_len_def)
next
  case JoinNext
  from st [unfolded JoinNext] show ?thesis
    by (rule join_step_cases) (use inv JoinNext in \<open>auto simp: answers_ok_def tasks_len_def\<close>)
next
  case GoOn
  then show ?thesis using inv st
    by (auto simp: answers_ok_def tasks_len_def after_fill_def spawn_post_def split: ul_point.splits if_splits)
qed

lemma finished_no_step: "ul_point u = Finished r \<Longrightarrow> upload_loop_step env ev u = None"
  by (cases ev) (auto simp: Let_def split: list.split)

lemma upload_trace_stream:
  assumes "env_ok env" and "stream_inv (se_b122 env) C enc seq0 input u0" and "answers_ok [] u0" and "upload_trace env u0 es u"
  shows "stream_inv (se_b122 env) C enc seq0 input u \<and> answers_ok es u"
  using assms(4,2,3) by induction (auto intro: stream_inv_step [OF assms(1)] answers_ok_step)

lemma upload_trace_permits:
  assumes "env_ok env" and "stream_inv (se_b122 env) C enc seq0 input u0" and "answers_ok [] u0" and "permits_ok enc conc flight u0"
    and "max_encoded_frame_len enc < flight" and "upload_trace env u0 es u" and "\<forall>r. ul_point u \<noteq> Finished r"
  shows "permits_ok enc conc flight u"
  using assms(6,7,4)
proof induction
  case (step es u ev u')
  have "stream_inv (se_b122 env) C enc seq0 input u" using upload_trace_stream [OF assms(1-3) step(1)] by blast
  moreover have "permits_ok enc conc flight u" using step finished_no_step [of u _ env ev] by auto
  ultimately show ?case using permits_ok_step [OF assms(1) _ _ assms(5)] step by blast
qed simp

lemma upload_loop_new_inv:
  assumes "validate_traffic tcfg = Ok ()" and "cipher_contract C" and "RData [] \<notin> set rd"
    and "u0 = upload_loop_new now rnd (resolve_config tcfg) conc flight payload rd C seq0"
  shows "stream_inv B C (rc_encoding (resolve_config tcfg)) seq0 (payload @ script_bytes rd) u0"
    and "answers_ok [] u0" and "permits_ok (rc_encoding (resolve_config tcfg)) conc flight u0"
proof -
  have "shaper_ok (with_seq now rnd (resolve_config tcfg) C seq0)" using with_seq_ok [OF assms(1,2)] .
  then show "stream_inv B C (rc_encoding (resolve_config tcfg)) seq0 (payload @ script_bytes rd) u0"
    using assms(3,4)
    by (intro stream_invI [of _ "[]" "[]"])
      (auto simp: upload_loop_new_def Let_def stream_at_def with_seq_def unsent_def intro!: exI [of _ "[]"] frame_list_ok_Nil)
  show "answers_ok [] u0" by (simp add: assms(4) answers_ok_def upload_loop_new_def Let_def)
  show "permits_ok (rc_encoding (resolve_config tcfg)) conc flight u0"
    by (simp add: assms(4) permits_ok_def upload_loop_new_def Let_def holds_request_def)
qed

section \<open>Properties\<close>

text \<open>Whatever the timing of polls, requests and answers, the bodies the upload loop posts are whole frames, and taken
  in the order of posting they are the frames of the stream, numbered consecutively from the start number, each decoding
  to the next bytes of the early payload and the local socket. When the loop succeeds the whole stream has been
  posted, every request has ended, and every answer was a success.\<close>

theorem upload_loop_posts_in_order:
  assumes "env_ok env" and "validate_traffic tcfg = Ok ()" and "cipher_contract C" and "RData [] \<notin> set rd"
    and "upload_trace env (upload_loop_new now rnd (resolve_config tcfg) conc flight payload rd C seq0) es u"
  shows "\<exists>fss cur ds. ul_posted u = map body_of fss \<and> [] \<notin> set fss
     \<and> frame_list_ok (se_b122 env) C (rc_encoding (resolve_config tcfg)) seq0 (concat fss @ cur) ds
     \<and> payload @ script_bytes rd = concat ds @ unsent (ul_shaper u) (ul_reader u)
     \<and> (ul_point u = Finished (Ok ()) \<longrightarrow> cur = [] \<and> payload @ script_bytes rd = concat ds
          \<and> length (ends_of es) = length (ul_posted u) \<and> (\<forall>r \<in> set (ends_of es). r = Some (Ok ())))"
proof -
  note new = upload_loop_new_inv [OF assms(2-4) refl]
  note tr = upload_trace_stream [OF assms(1) new(1,2) assms(5)]
  then obtain fss cur where fss: "ul_posted u = map body_of fss" "[] \<notin> set fss" "point_holds (ul_point u) cur"
      and at: "stream_at (se_b122 env) C (rc_encoding (resolve_config tcfg)) seq0 (payload @ script_bytes rd) (concat fss @ cur) (ul_shaper u) (ul_reader u)"
      and e: "point_ended (ul_point u) \<longrightarrow> unsent (ul_shaper u) (ul_reader u) = []"
    by (auto simp: stream_inv_def)
  then obtain ds where "frame_list_ok (se_b122 env) C (rc_encoding (resolve_config tcfg)) seq0 (concat fss @ cur) ds"
      "payload @ script_bytes rd = concat ds @ unsent (ul_shaper u) (ul_reader u)"
    by (auto simp: stream_at_def)
  moreover have "length (ends_of es) = length (ul_posted u) \<and> (\<forall>r \<in> set (ends_of es). r = Some (Ok ()))" if "ul_point u = Finished (Ok ())"
    using tr that by (auto simp: answers_ok_def)
  ultimately show ?thesis using fss e by (intro exI [of _ fss] exI [of _ cur] exI [of _ ds]) auto
qed

text \<open>As long as the loop runs, no more requests are in flight than the concurrency limit and no more body bytes than
  \<open>max_in_flight_bytes\<close>, and the loop is never stuck: at every point it can go on by itself, be polled, or join, or a request
  is running whose end it waits for.\<close>

theorem upload_loop_bounded_and_live:
  assumes "env_ok env" and "validate_traffic tcfg = Ok ()" and "cipher_contract C" and "RData [] \<notin> set rd"
    and "upload_trace env (upload_loop_new now rnd (resolve_config tcfg) conc flight payload rd C seq0) es u"
    and "max_encoded_frame_len (rc_encoding (resolve_config tcfg)) < flight" and "0 < conc" and "\<forall>r. ul_point u \<noteq> Finished r"
  shows "length (ul_running u) \<le> conc \<and> length (concat (map snd (ul_running u))) \<le> flight
     \<and> (ul_running u \<noteq> [] \<or> (\<exists>ev u'. upload_loop_step env ev u = Some u'))"
proof -
  let ?enc = "rc_encoding (resolve_config tcfg)"
  note new = upload_loop_new_inv [OF assms(2-4) refl]
  note tr = upload_trace_stream [OF assms(1) new(1,2) assms(5)]
  have inv: "permits_ok ?enc conc flight u" using upload_trace_permits [OF assms(1) new assms(6,5,8)] .
  have "map fst (ul_running u) = map (\<lambda>x. length (snd x)) (ul_running u)" using inv by (auto simp: permits_ok_def)
  then have "length (concat (map snd (ul_running u))) = sum_list (map fst (ul_running u))"
    by (simp only: length_concat map_map o_def)
  then have bound: "length (ul_running u) \<le> conc" "length (concat (map snd (ul_running u))) \<le> flight" using inv by (auto simp: permits_ok_def)
  have ok: "shaper_ok (ul_shaper u)" using tr by (auto simp: stream_inv_def stream_at_def)
  have "\<exists>ev u'. upload_loop_step env ev u = Some u'" if idle: "ul_running u = []"
  proof (cases "ul_point u")
    case (Finished r)
    then show ?thesis using assms(8) by simp
  next
    case (WaitBytes b e)
    have "b \<noteq> []" using tr WaitBytes by (auto simp: stream_inv_def)
    then have "permit_bytes b u = length b" using permit_bytes_eq [OF inv assms(6)] inv WaitBytes by (simp add: permits_ok_def)
    moreover have "length b \<le> batch_limit ?enc u" "batch_limit ?enc u \<le> flight" "ul_bytes_sem u = flight"
      using inv WaitBytes idle assms(6) by (auto simp: permits_ok_def batch_limit_def)
    ultimately show ?thesis using WaitBytes by (intro exI [of _ GoOn]) simp
  next
    case (Draining n)
    have n: "n = length (ul_joinable u)" using tr idle Draining by (auto simp: answers_ok_def tasks_len_def)
    show ?thesis
    proof (cases "ul_joinable u")
      case Nil
      then show ?thesis using Draining n by (intro exI [of _ GoOn]) simp
    next
      case (Cons r rs)
      then show ?thesis using Draining n by (intro exI [of _ JoinNext]) (simp add: Let_def)
    qed
  next
    case (Reap e)
    show ?thesis
    proof (cases "ul_joinable u")
      case Nil
      then show ?thesis using Reap by (intro exI [of _ GoOn]) simp
    next
      case (Cons r rs)
      then show ?thesis using Reap by (intro exI [of _ JoinNext]) (simp add: Let_def)
    qed
  next
    case (WaitRequest b e)
    then show ?thesis using inv idle assms(7) by (intro exI [of _ GoOn]) (auto simp: permits_ok_def holds_request_def)
  next
    case (Select b)
    obtain u1 p where "poll_shaper env (\<lambda>_. False) 0 b u = Some (u1, p)" using poll_shaper_outcome [OF assms(1) ok] by metis
    then show ?thesis using Select by (intro exI [of _ "PollSeal (\<lambda>_. False) 0"]) (auto split: poll.split result.split option.split)
  next
    case (Fill b)
    obtain u1 p where "poll_shaper env (\<lambda>_. False) 0 b u = Some (u1, p)" using poll_shaper_outcome [OF assms(1) ok] by metis
    then have "length b < ul_max_batch_bytes u \<Longrightarrow> \<exists>u'. upload_loop_step env (PollSeal (\<lambda>_. False) 0) u = Some u'"
      using Fill by (auto split: poll.split result.split option.split)
    moreover have "\<not> length b < ul_max_batch_bytes u \<Longrightarrow> \<exists>u'. upload_loop_step env GoOn u = Some u'" using Fill by simp
    ultimately show ?thesis by blast
  qed
  then show ?thesis using bound by blast
qed

text \<open>A stream that ends at once, drained and finished; and its first state.\<close>

definition example_upload :: upload_loop where
  "example_upload = upload_loop_new 0 0 (resolve_config example_config) 1 20480 [] [] example_cipher 40"

lemma example_upload_trace:
  "upload_trace example_env example_upload [PollSeal (\<lambda>_. False) 0, GoOn] (example_upload\<lparr>ul_point := Finished (Ok ())\<rparr>)"
proof -
  have "poll_fill_and_seal example_env (\<lambda>_. False) 0 (ul_shaper example_upload) [] [] = Some (ul_shaper example_upload, [], Ready (Ok None))"
    by (simp add: poll_fill_and_seal.simps example_upload_def upload_loop_new_def with_seq_def seal_threshold_of_def resolve_config_def
        example_config_def wire_simps)
  then have "upload_loop_step example_env (PollSeal (\<lambda>_. False) 0) example_upload = Some (example_upload\<lparr>ul_point := Draining 0\<rparr>)"
    by (simp add: example_upload_def upload_loop_new_def poll_shaper_def after_fill_def tasks_len_def)
  from step [OF start this] have "upload_trace example_env example_upload [PollSeal (\<lambda>_. False) 0] (example_upload\<lparr>ul_point := Draining 0\<rparr>)"
    by simp
  from step [OF this, of GoOn] show ?thesis by simp
qed

lemma example_traffic_valid: "validate_traffic example_config = Ok ()"
  by (simp add: validate_traffic_def example_config_def)

theorem upload_loop_posts_in_order_witness:
  "\<exists>fss cur ds. ul_posted example_upload = map body_of fss \<and> cur = []
     \<and> frame_list_ok positional122 example_cipher Binary 40 (concat fss @ cur) ds \<and> concat ds = []"
  using upload_loop_posts_in_order [OF example_env_ok example_traffic_valid example_cipher_contract _ example_upload_trace [unfolded example_upload_def]]
  by (simp add: example_upload_def resolve_config_def example_config_def example_env_def) blast

theorem upload_loop_bounded_and_live_witness:
  "\<exists>ev u'. upload_loop_step example_env ev example_upload = Some u'"
proof -
  have "\<forall>r. ul_point example_upload \<noteq> Finished r" by (simp add: example_upload_def upload_loop_new_def)
  moreover have "max_encoded_frame_len (rc_encoding (resolve_config example_config)) < 20480"
    by (simp add: resolve_config_def example_config_def max_encoded_frame_len_def wire_simps)
  ultimately have "ul_running example_upload \<noteq> [] \<or> (\<exists>ev u'. upload_loop_step example_env ev example_upload = Some u')"
    using upload_loop_bounded_and_live [OF example_env_ok example_traffic_valid example_cipher_contract _
        start [of example_env "upload_loop_new 0 0 (resolve_config example_config) 1 20480 [] [] example_cipher 40"]]
    by (simp add: example_upload_def)
  then show ?thesis by (simp add: example_upload_def upload_loop_new_def)
qed

end
