(* ===== verification/Proxy.thy ===== *)
theory Proxy
  imports Bypass Download_Loop
begin

text \<open>
  The head of a proxied request on the client, \<^verbatim>\<open>src/src/client/proxy.rs\<close> and
  \<^verbatim>\<open>src/src/client/actor/connection.rs\<close>: reading and parsing it, the proxy credentials, the target, and the rewriting
  of a plain request into origin form without the headers meant for the proxy.

  Parameters: the HTTP parser (\<open>httparse\<close>), the parser of an authority (\<open>http\<close>) and of a URL (\<open>url\<close>). A local socket is a
  script of reads.

  Lemmas: rewriting the request line in place and into a new buffer give the same bytes; stripping removes exactly the
  proxy headers with their continuation lines and leaves the rest of the head and the body alone; the target of a CONNECT
  to an IPv6 literal loses the brackets that the bypass rules look for.
\<close>

section \<open>The parsers\<close>

record http_header =
  hh_name :: string
  hh_value :: bytes

datatype http_status = Complete nat "string option" "string option" "http_header list" | Partial

record url_view =
  uv_host :: "string option"
  uv_port :: "nat option"
  uv_path :: string
  uv_query :: "string option"

record parsers =
  pa_http :: "bytes \<Rightarrow> (http_status, string) result"
  pa_authority :: "string \<Rightarrow> (string \<times> nat option) option"
  pa_url :: "string \<Rightarrow> url_view option"

section \<open>Reading the head\<close>

definition MAX_HEADER_LEN :: nat where "MAX_HEADER_LEN = 16 * 1024"
definition MAX_VERSION_LEN :: nat where "MAX_VERSION_LEN = 16"

record proxy_request =
  pr_method :: string
  pr_header_len :: nat
  pr_target :: string
  pr_authorized :: bool

definition trim_ascii :: "bytes \<Rightarrow> bytes" where
  "trim_ascii = trim_matches is_ascii_whitespace_byte"

definition bytes_eq_ignore_case :: "bytes \<Rightarrow> bytes \<Rightarrow> bool" where
  "bytes_eq_ignore_case a b \<longleftrightarrow> map to_lower_byte a = map to_lower_byte b"

definition auth_matches :: "http_header list \<Rightarrow> string \<Rightarrow> bool" where
  "auth_matches headers expected =
     (case find (\<lambda>h. bytes_eq_ignore_case (as_bytes (hh_name h)) (as_bytes ''proxy-authorization'')) headers of
        None \<Rightarrow> False
      | Some header \<Rightarrow> trim_ascii (hh_value header) = as_bytes expected)"

definition try_parse_head :: "parsers \<Rightarrow> bytes \<Rightarrow> string option \<Rightarrow> (proxy_request option, string) result" where
  "try_parse_head P buffer expected_auth =
     rbind (pa_http P buffer) (\<lambda>st.
       case st of
         Complete amt method path headers \<Rightarrow>
           rbind (ok_or method ''no method'') (\<lambda>method.
           rbind (ok_or path ''no path'') (\<lambda>target.
             Ok (Some \<lparr>pr_method = method, pr_header_len = amt, pr_target = target,
                       pr_authorized = (case expected_auth of None \<Rightarrow> True | Some expected \<Rightarrow> auth_matches headers expected)\<rparr>)))
       | Partial \<Rightarrow> Ok None)"

text \<open>The reading loop; the end of the script is the end of the connection, so it always ends.\<close>

fun parse_proxy_request ::
    "parsers \<Rightarrow> read_event list \<Rightarrow> bytes \<Rightarrow> string option \<Rightarrow> read_event list \<times> bytes \<times> (proxy_request, string) result" where
  "parse_proxy_request P [] buffer expected_auth =
     ([], buffer, rbind (try_parse_head P buffer expected_auth) (\<lambda>r.
        case r of Some request \<Rightarrow> Ok request
        | None \<Rightarrow> Err (if length buffer > MAX_HEADER_LEN then ''header too large'' else ''connection closed during header parsing'')))"
| "parse_proxy_request P (ev # rd) buffer expected_auth =
     (case try_parse_head P buffer expected_auth of
        Err e \<Rightarrow> (ev # rd, buffer, Err e)
      | Ok (Some request) \<Rightarrow> (ev # rd, buffer, Ok request)
      | Ok None \<Rightarrow>
          if length buffer > MAX_HEADER_LEN then (ev # rd, buffer, Err ''header too large'')
          else (case ev of
                  RErr e \<Rightarrow> (rd, buffer, Err (io_message e))
                | RData d \<Rightarrow> if d = [] then (rd, buffer, Err ''connection closed during header parsing'')
                             else parse_proxy_request P rd (buffer @ d) expected_auth
                | RPending \<Rightarrow> parse_proxy_request P rd buffer expected_auth))"

section \<open>The target\<close>

definition resolve_connect_host :: "parsers \<Rightarrow> string \<Rightarrow> (string, string) result" where
  "resolve_connect_host P authority =
     rbind (ok_or (pa_authority P authority) (''invalid target: '' @ authority)) (\<lambda>(host, port).
     rbind (ok_or port (''port required: '' @ authority)) (\<lambda>port.
       let host = (case Option.bind (strip_prefix ''['' host) (strip_suffix '']'') of Some h \<Rightarrow> h | None \<Rightarrow> host)
       in Ok (host @ '':'' @ show_nat port)))"

definition origin_form :: "url_view \<Rightarrow> string" where
  "origin_form url =
     (if uv_path url = [] then ''/'' else uv_path url) @ (case uv_query url of Some q \<Rightarrow> ''?'' @ q | None \<Rightarrow> [])"

definition resolve_request :: "parsers \<Rightarrow> string \<Rightarrow> string \<Rightarrow> (string \<times> string option, string) result" where
  "resolve_request P method target =
     (if method = ''CONNECT'' then rbind (resolve_connect_host P target) (\<lambda>h. Ok (h, None))
      else rbind (ok_or (pa_url P target) ''invalid proxy URL'') (\<lambda>url.
           rbind (ok_or (uv_host url) ''URL has no host'') (\<lambda>host.
           rbind (ok_or (uv_port url) ''port required'') (\<lambda>port.
             Ok (host @ '':'' @ show_nat port, Some (origin_form url))))))"

definition resolve_target_host :: "parsers \<Rightarrow> string \<Rightarrow> string \<Rightarrow> (string, string) result" where
  "resolve_target_host P method url_str = rbind (resolve_request P method url_str) (\<lambda>(host, o_form). Ok host)"

section \<open>The request line\<close>

text \<open>\<open>copy_within\<close> and \<open>copy_from_slice\<close> on a buffer.\<close>

definition copy_within :: "nat \<Rightarrow> nat \<Rightarrow> 'a list \<Rightarrow> 'a list" where
  "copy_within src dst buf = take dst buf @ drop src buf @ drop (dst + (length buf - src)) buf"

definition copy_at :: "nat \<Rightarrow> 'a list \<Rightarrow> 'a list \<Rightarrow> 'a list" where
  "copy_at pos src dst = take pos dst @ src @ drop (pos + length src) dst"

definition write_request_line :: "bytes \<Rightarrow> string \<Rightarrow> string \<Rightarrow> bytes \<Rightarrow> bytes" where
  "write_request_line dst method origin_path version =
     (let n = length method;
          dst = copy_at 0 (as_bytes method) dst;
          pos = n;
          dst = dst[pos := 32];
          pos = pos + 1;
          dst = copy_at pos (as_bytes origin_path) dst;
          pos = pos + length origin_path;
          dst = dst[pos := 32];
          pos = pos + 1;
          dst = copy_at pos version dst;
          pos = pos + length version
      in (dst[pos := 13])[pos + 1 := 10])"

definition rewrite_request_line :: "bytes \<Rightarrow> nat \<Rightarrow> string \<Rightarrow> string \<Rightarrow> (bytes, string) result" where
  "rewrite_request_line buf header_len method origin_path =
     (let scan_len = min header_len (length buf) in
      rbind (ok_or (memchr 10 (take scan_len buf)) ''request line has no newline'') (\<lambda>line_end.
      let old_line_len = line_end + 1 in
      if \<not> utf8_valid (take line_end buf) then Err ''request line is not valid UTF-8''
      else let first_line_trimmed = trim_end_matches (\<lambda>b. b = 13) (take line_end buf) in
      rbind (ok_or (rsplit_once 32 first_line_trimmed) ''malformed request line'') (\<lambda>(l, version).
        if length version > MAX_VERSION_LEN then Err ''unsupported HTTP version''
        else let new_line_len = length method + 1 + length origin_path + 1 + length version + 2 in
          if new_line_len \<le> old_line_len
          then (let tot = length buf;
                    delta = old_line_len - new_line_len;
                    buf = copy_within old_line_len new_line_len buf;
                    buf = write_request_line (take new_line_len buf) method origin_path version @ drop new_line_len buf
                in Ok (take (tot - delta) buf))
          else (let new_line = as_bytes method @ [32] @ as_bytes origin_path @ [32] @ version @ [13, 10];
                    rest = drop old_line_len buf
                in Ok (new_line @ rest)))))"

definition rewrite_absolute_url :: "parsers \<Rightarrow> bytes \<Rightarrow> string \<Rightarrow> string \<Rightarrow> (bytes, string) result" where
  "rewrite_absolute_url P buf method url_str =
     (case pa_url P url_str of None \<Rightarrow> Ok buf | Some url \<Rightarrow> rewrite_request_line buf (length buf) method (origin_form url))"

section \<open>Proxy headers\<close>

definition PROXY_ONLY_HEADERS :: "bytes list" where
  "PROXY_ONLY_HEADERS = [as_bytes ''proxy-authorization'', as_bytes ''proxy-connection'']"

definition is_proxy_only_header :: "bytes \<Rightarrow> bool" where
  "is_proxy_only_header line =
     (case memchr 58 line of
        None \<Rightarrow> False
      | Some colon \<Rightarrow> list_ex (bytes_eq_ignore_case (trim_ascii (take colon line))) PROXY_ONLY_HEADERS)"

definition continuation_line :: "bytes \<Rightarrow> bool" where
  "continuation_line line \<longleftrightarrow> line \<noteq> [] \<and> (hd line = 32 \<or> hd line = 9)"

text \<open>The loop over the lines of the head; \<open>rest\<close> is the head from the cursor on.\<close>

function strip_lines :: "bytes \<Rightarrow> bool \<Rightarrow> bytes \<Rightarrow> bytes" where
  "strip_lines rest dropping kept =
     (if rest = [] then kept
      else (case memchr 10 rest of
              None \<Rightarrow> kept @ rest
            | Some rel \<Rightarrow>
                (let line = take (rel + 1) rest; rest' = drop (rel + 1) rest in
                 if continuation_line line then strip_lines rest' dropping (if dropping then kept else kept @ line)
                 else (let dropping = is_proxy_only_header line
                       in strip_lines rest' dropping (if dropping then kept else kept @ line)))))"
  by pat_completeness auto
termination by (relation "measure (\<lambda>(rest, dropping, kept). length rest)") auto

declare strip_lines.simps [simp del]

definition strip_proxy_headers :: "bytes \<Rightarrow> nat \<Rightarrow> bytes \<times> nat" where
  "strip_proxy_headers buf header_len =
     (let head_end = min header_len (length buf); head = take head_end buf in
      case memchr 10 head of
        None \<Rightarrow> (buf, header_len)
      | Some pos \<Rightarrow>
          (let request_line_end = pos + 1;
               kept = strip_lines (drop request_line_end head) False (take request_line_end head)
           in if length kept = length head then (buf, header_len)
              else (let new_len = length kept;
                        buf = copy_at 0 kept buf
                    in if length buf > header_len
                       then (let tail_len = length buf - header_len; buf = copy_within header_len new_len buf
                             in (take (new_len + tail_len) buf, new_len))
                       else (take new_len buf, new_len))))"

section \<open>The connection actor\<close>

definition CONNECT_RESPONSE :: bytes where
  "CONNECT_RESPONSE = as_bytes ''HTTP/1.1 200 Connection Established'' @ [13, 10, 13, 10]"

definition PROXY_AUTH_REQUIRED_RESPONSE :: bytes where
  "PROXY_AUTH_REQUIRED_RESPONSE =
     as_bytes ''HTTP/1.1 407 Proxy Authentication Required'' @ [13, 10]
     @ as_bytes ''Proxy-Authenticate: Basic realm=\"httproxy\"'' @ [13, 10]
     @ as_bytes ''Proxy-Connection: close'' @ [13, 10] @ as_bytes ''Connection: close'' @ [13, 10]
     @ as_bytes ''Content-Length: 0'' @ [13, 10, 13, 10]"

text \<open>How a connection ends or goes on: \<open>ConnStalled\<close> is a write to the local socket that never completes.\<close>

datatype conn_result = ConnFail string | ConnRejected | ConnStalled | ConnTunnel string bytes

text \<open>Reading early data of a CONNECT: a pending read is the end of the window.\<close>

fun read_early_data :: "read_event list \<Rightarrow> bytes \<Rightarrow> read_event list \<times> bytes" where
  "read_early_data rd buf =
     (if MAX_RAW_PAYLOAD - length buf = 0 then (rd, buf)
      else (case rd of
              [] \<Rightarrow> ([], buf)
            | RPending # rd \<Rightarrow> (rd, buf)
            | RErr e # rd \<Rightarrow> (rd, buf)
            | RData d # rd \<Rightarrow> if d = [] then (rd, buf) else read_early_data rd (buf @ d)))"

declare read_early_data.simps [simp del]

definition reject_unauthorized :: "sock \<Rightarrow> sock \<times> conn_result" where
  "reject_unauthorized sk =
     (case write_all PROXY_AUTH_REQUIRED_RESPONSE sk of
        (sk, None) \<Rightarrow> (sk, ConnStalled)
      | (sk, Some (Err e)) \<Rightarrow> (sk, ConnFail (io_message e))
      | (sk, Some (Ok u)) \<Rightarrow> (sk, ConnRejected))"

definition read_request_head ::
    "parsers \<Rightarrow> bool \<Rightarrow> string option \<Rightarrow> read_event list \<Rightarrow> read_event list \<times> bytes \<times> (proxy_request, string) result" where
  "read_request_head P timed_out expected_auth rd =
     (if timed_out then (rd, [], Err ''proxy request parse timeout'') else parse_proxy_request P rd [] expected_auth)"

text \<open>What becomes of the buffer after the target is known.\<close>

definition forward_payload :: "bytes \<Rightarrow> nat \<Rightarrow> string \<Rightarrow> string option \<Rightarrow> (bytes, string) result" where
  "forward_payload buf header_len method o_form =
     (case o_form of
        None \<Rightarrow> Ok buf
      | Some origin_path \<Rightarrow>
          (let (buf, header_len) = strip_proxy_headers buf header_len in rewrite_request_line buf header_len method origin_path))"

definition open_request :: "parsers \<Rightarrow> proxy_request \<Rightarrow> read_event list \<Rightarrow> bytes \<Rightarrow> sock \<Rightarrow> read_event list \<times> sock \<times> conn_result" where
  "open_request P req rd buf sk =
     (case rbind (resolve_request P (pr_method req) (pr_target req)) (\<lambda>(target_host, o_form).
             rbind (forward_payload buf (pr_header_len req) (pr_method req) o_form) (\<lambda>payload. Ok (target_host, payload))) of
        Err e \<Rightarrow> (rd, sk, ConnFail e)
      | Ok (target_host, payload) \<Rightarrow> (rd, sk, ConnTunnel target_host payload))"

text \<open>\<open>ClientConnectionActor::run\<close> up to the tunnel.\<close>

definition connection_run :: "parsers \<Rightarrow> bool \<Rightarrow> string option \<Rightarrow> read_event list \<Rightarrow> sock \<Rightarrow> read_event list \<times> sock \<times> conn_result" where
  "connection_run P timed_out expected_auth rd sk =
     (case read_request_head P timed_out expected_auth rd of
        (rd, buf, Err e) \<Rightarrow> (rd, sk, ConnFail e)
      | (rd, buf, Ok req) \<Rightarrow>
          if \<not> pr_authorized req then (let (sk, r) = reject_unauthorized sk in (rd, sk, r))
          else if pr_method req = ''CONNECT''
          then (case write_all CONNECT_RESPONSE sk of
                  (sk, None) \<Rightarrow> (rd, sk, ConnStalled)
                | (sk, Some (Err e)) \<Rightarrow> (rd, sk, ConnFail (io_message e))
                | (sk, Some (Ok u)) \<Rightarrow>
                    (let (rd, buf) = read_early_data rd (drop (pr_header_len req) buf) in open_request P req rd buf sk))
          else open_request P req rd buf sk)"

section \<open>Lemmas: the request line\<close>

definition request_line :: "string \<Rightarrow> string \<Rightarrow> bytes \<Rightarrow> bytes" where
  "request_line method path version = as_bytes method @ [32] @ as_bytes path @ [32] @ version @ [13, 10]"

lemma write_request_line_eq:
  assumes "length dst = length method + 1 + length path + 1 + length version + 2"
  shows "write_request_line dst method path version = request_line method path version"
proof -
  have upd: "(xs @ y # ys)[length xs := z] = xs @ z # ys" for xs ys :: bytes and y z by simp
  obtain a b c d e f g where d: "dst = a @ b # c @ d # e @ [f, g]" "length a = length method" "length c = length path" "length e = length version"
  proof -
    have 1: "dst = take (length method) dst @ dst ! length method # drop (Suc (length method)) dst"
      using assms by (intro id_take_nth_drop) simp
    let ?r = "drop (Suc (length method)) dst"
    have 2: "?r = take (length path) ?r @ ?r ! length path # drop (Suc (length path)) ?r"
      using assms by (intro id_take_nth_drop) simp
    let ?q = "drop (Suc (length path)) ?r"
    have lq: "length ?q = length version + 2" using assms by simp
    then have "length (drop (length version) ?q) = Suc (Suc 0)" by simp
    moreover have "\<exists>f g. xs = [f, g]" if "length xs = Suc (Suc 0)" for xs :: bytes using that by (auto simp: length_Suc_conv)
    ultimately obtain f g where "drop (length version) ?q = [f, g]" by blast
    then have 3: "?q = take (length version) ?q @ [f, g]" by (metis append_take_drop_id)
    show thesis
      by (rule that [of "take (length method) dst" "dst ! length method" "take (length path) ?r" "?r ! length path" "take (length version) ?q" f g])
        (use 1 2 3 assms lq in simp_all)
  qed
  have a: "copy_at 0 (as_bytes method) dst = as_bytes method @ b # c @ d # e @ [f, g]" using d by (simp add: copy_at_def)
  show ?thesis
    unfolding write_request_line_def Let_def a using d(2-4)
    by (simp add: copy_at_def request_line_def list_update_append)
qed

text \<open>Rewriting, in terms of the line it replaces: both branches of the code give this.\<close>

lemma rewrite_request_line_eq:
  assumes "memchr 10 (take (min header_len (length buf)) buf) = Some line_end" and "utf8_valid (take line_end buf)"
    and "rsplit_once 32 (trim_end_matches (\<lambda>b. b = 13) (take line_end buf)) = Some (l, version)" and "length version \<le> MAX_VERSION_LEN"
  shows "rewrite_request_line buf header_len method path = Ok (request_line method path version @ drop (line_end + 1) buf)"
proof -
  define n where "n = length method + 1 + length path + 1 + length version + 2"
  have "line_end < min header_len (length buf)" using memchr_SomeD [OF assms(1)] by simp
  then have le: "line_end + 1 \<le> length buf" by simp
  let ?c = "copy_within (line_end + 1) n buf"
  have eq: "rewrite_request_line buf header_len method path =
      (if n \<le> line_end + 1
       then Ok (take (length buf - (line_end + 1 - n)) (write_request_line (take n ?c) method path version @ drop n ?c))
       else Ok (request_line method path version @ drop (line_end + 1) buf))"
    unfolding rewrite_request_line_def Let_def assms(1) ok_or.simps rbind.simps assms(3) prod.case n_def [symmetric]
    using assms(2,4) by (simp add: request_line_def)
  show ?thesis
  proof (cases "n \<le> line_end + 1")
    case True
    have "length (take n ?c) = n" using True le by (simp add: copy_within_def)
    then have w: "write_request_line (take n ?c) method path version = request_line method path version"
      by (intro write_request_line_eq) (simp add: n_def)
    have len: "length (request_line method path version) = n" by (simp add: request_line_def n_def)
    have "drop n ?c = drop (line_end + 1) buf @ drop (n + (length buf - (line_end + 1))) buf"
      using True le by (simp add: copy_within_def)
    then have "take (length buf - (line_end + 1 - n)) (request_line method path version @ drop n ?c)
        = request_line method path version @ drop (line_end + 1) buf"
      using True le len by simp
    then show ?thesis unfolding eq w using True by simp
  next
    case False
    then show ?thesis unfolding eq by simp
  qed
qed

section \<open>Lemmas: stripping\<close>

text \<open>The lines of a head, each with its line feed.\<close>

fun lines_of :: "bytes \<Rightarrow> bytes list" where
  "lines_of [] = []"
| "lines_of (b # bs) =
     (if b = 10 then [b] # lines_of bs else (case lines_of bs of [] \<Rightarrow> [[b]] | l # ls \<Rightarrow> (b # l) # ls))"

fun keep_lines :: "bool \<Rightarrow> bytes list \<Rightarrow> bytes list" where
  "keep_lines dropping [] = []"
| "keep_lines dropping (l # ls) =
     (let dropping = (if continuation_line l then dropping else is_proxy_only_header l)
      in (if dropping then [] else [l]) @ keep_lines dropping ls)"

lemma concat_lines_of [simp]: "concat (lines_of bs) = bs"
  by (induction bs) (auto split: list.split)

lemma lines_of_line: "10 \<notin> set l \<Longrightarrow> lines_of (l @ 10 # bs) = (l @ [10]) # lines_of bs"
  by (induction l) auto

lemma memchr_line:
  assumes "memchr 10 bs = Some rel"
  shows "lines_of bs = take (rel + 1) bs # lines_of (drop (rel + 1) bs)"
proof -
  have r: "rel < length bs" "bs ! rel = 10" "10 \<notin> set (take rel bs)" using memchr_SomeD [OF assms] by auto
  have "bs = take rel bs @ 10 # drop (rel + 1) bs" using id_take_nth_drop [OF r(1)] r(2) by simp
  then show ?thesis using lines_of_line [OF r(3)] r by (metis Suc_eq_plus1 take_Suc_conv_app_nth)
qed

text \<open>A head whose last line is ended.\<close>

definition ends_line :: "bytes \<Rightarrow> bool" where
  "ends_line bs \<longleftrightarrow> bs = [] \<or> last bs = 10"

lemma ends_line_drop: "ends_line bs \<Longrightarrow> ends_line (drop n bs)"
  by (cases "n < length bs") (auto simp: ends_line_def last_drop)

lemma strip_lines_eq: "ends_line rest \<Longrightarrow> strip_lines rest dropping kept = kept @ concat (keep_lines dropping (lines_of rest))"
proof (induction rest dropping kept rule: strip_lines.induct)
  case (1 rest dropping kept)
  show ?case
  proof (cases "rest = []")
    case True
    then show ?thesis by (simp add: strip_lines.simps)
  next
    case ne: False
    then have "10 \<in> set rest" using 1(3) last_in_set [of rest] by (auto simp: ends_line_def)
    then obtain rel where m: "memchr 10 rest = Some rel" by (metis memchr_None_iff option.exhaust)
    note ln = memchr_line [OF m] and el = ends_line_drop [OF 1(3), of "rel + 1"]
    show ?thesis
    proof (cases "continuation_line (take (rel + 1) rest)")
      case True
      then show ?thesis using 1(1) [OF ne m refl refl True el] ne m ln by (cases dropping) (simp_all add: strip_lines.simps [of rest] Let_def)
    next
      case False
      then show ?thesis using 1(2) [OF ne m refl refl False refl el] ne m ln
        by (cases "is_proxy_only_header (take (rel + 1) rest)") (simp_all add: strip_lines.simps [of rest] Let_def)
    qed
  qed
qed

lemma lines_of_nonempty: "[] \<notin> set (lines_of bs)"
  by (induction bs) (auto split: list.split)

text \<open>The header fields of a head, each a list of lines: the line that starts it and the folded lines after it. A proxy field
  is one whose name, the part before the first colon without surrounding blanks, is one of the two names in any case.\<close>

function header_fields :: "bytes list \<Rightarrow> bytes list list" where
  "header_fields [] = []"
| "header_fields (l # ls) = (l # takeWhile continuation_line ls) # header_fields (dropWhile continuation_line ls)"
  by pat_completeness auto
termination by (relation "measure length") (auto simp: le_imp_less_Suc length_dropWhile_le)

definition field_name :: "bytes list \<Rightarrow> bytes" where
  "field_name f = map to_lower_byte (trim_ascii (takeWhile (\<lambda>b. b \<noteq> 58) (hd f)))"

definition proxy_field :: "bytes list \<Rightarrow> bool" where
  "proxy_field f \<longleftrightarrow> \<not> continuation_line (hd f) \<and> 58 \<in> set (hd f)
     \<and> (field_name f = as_bytes ''proxy-authorization'' \<or> field_name f = as_bytes ''proxy-connection'')"

lemma memchr_takeWhile:
  assumes "memchr c xs = Some k"
  shows "take k xs = takeWhile (\<lambda>b. b \<noteq> c) xs" and "c \<in> set xs"
proof -
  have m: "k < length xs" "xs ! k = c" "c \<notin> set (take k xs)" using memchr_SomeD [OF assms] by auto
  then have "takeWhile (\<lambda>b. b \<noteq> c) (take k xs @ c # drop (Suc k) xs) = take k xs" by (subst takeWhile_append2) auto
  then show "take k xs = takeWhile (\<lambda>b. b \<noteq> c) xs" using m id_take_nth_drop [OF m(1)] by simp
  show "c \<in> set xs" using m nth_mem [OF m(1)] by simp
qed

lemma is_proxy_only_header_field: "is_proxy_only_header l \<and> \<not> continuation_line l \<longleftrightarrow> proxy_field (l # fs)"
proof -
  have low: "map to_lower_byte (as_bytes ''proxy-authorization'') = as_bytes ''proxy-authorization''"
    "map to_lower_byte (as_bytes ''proxy-connection'') = as_bytes ''proxy-connection''" by code_simp+
  show ?thesis
  proof (cases "memchr 58 l")
    case None
    have "\<not> is_proxy_only_header l" unfolding is_proxy_only_header_def None by simp
    moreover have "58 \<notin> set l" using None by simp
    ultimately show ?thesis by (simp add: proxy_field_def)
  next
    case (Some k)
    then show ?thesis using memchr_takeWhile [OF Some] low
      by (auto simp: is_proxy_only_header_def proxy_field_def field_name_def PROXY_ONLY_HEADERS_def bytes_eq_ignore_case_def)
  qed
qed

lemma keep_lines_folded:
  "keep_lines d ls = (if d then [] else takeWhile continuation_line ls) @ keep_lines False (dropWhile continuation_line ls)"
proof (induction ls)
  case (Cons l ls)
  then show ?case by (cases d; cases "continuation_line l") (auto simp: Let_def)
qed simp

lemma keep_lines_fields: "keep_lines False ls = concat (filter (\<lambda>f. \<not> proxy_field f) (header_fields ls))"
proof (induction ls rule: header_fields.induct)
  case (2 l ls)
  have "keep_lines False (l # ls) = (if proxy_field (l # takeWhile continuation_line ls) then [] else l # takeWhile continuation_line ls)
      @ keep_lines False (dropWhile continuation_line ls)"
    using is_proxy_only_header_field [of l "takeWhile continuation_line ls"]
    by (auto simp: Let_def proxy_field_def keep_lines_folded [of True ls] keep_lines_folded [of False ls])
  then show ?case using 2 by simp
qed simp

lemma keep_lines_length: "length (concat (keep_lines d ls)) \<le> length (concat ls)"
  by (induction d ls rule: keep_lines.induct) (auto simp: Let_def intro: le_trans)

lemma keep_lines_same: "[] \<notin> set ls \<Longrightarrow> length (concat (keep_lines d ls)) = length (concat ls) \<Longrightarrow> keep_lines d ls = ls"
proof (induction d ls rule: keep_lines.induct)
  case (2 d l ls)
  let ?d = "if continuation_line l then d else is_proxy_only_header l"
  have "\<not> ?d"
  proof
    assume "?d"
    then have "length (concat (keep_lines ?d ls)) = length l + length (concat ls)" using 2(3) by (simp add: Let_def split: if_splits)
    then show False using keep_lines_length [of ?d ls] 2(2) by simp
  qed
  then show ?case using 2 by (auto simp: Let_def split: if_splits)
qed simp

lemma strip_proxy_headers_eq:
  assumes "lines_of head = l0 # ls" and "ends_line head"
  shows "strip_proxy_headers (head @ body) (length head)
       = (l0 @ concat (keep_lines False ls) @ body, length (l0 @ concat (keep_lines False ls)))"
proof -
  have head: "head = l0 @ concat ls" using concat_lines_of [of head] assms(1) by simp
  have ne: "[] \<notin> set ls" "head \<noteq> []" using lines_of_nonempty [of head] assms(1) by auto
  then have "10 \<in> set head" using assms(2) last_in_set [of head] by (auto simp: ends_line_def)
  then obtain pos where m: "memchr 10 head = Some pos" by (metis memchr_None_iff option.exhaust)
  then have l0: "take (pos + 1) head = l0" and ls: "lines_of (drop (pos + 1) head) = ls" using memchr_line assms(1) by auto
  define kept where "kept = l0 @ concat (keep_lines False ls)"
  have k: "strip_lines (drop (pos + 1) head) False (take (pos + 1) head) = kept"
    using strip_lines_eq [OF ends_line_drop [OF assms(2)]] l0 ls by (simp add: kept_def)
  have le: "length kept \<le> length head" using keep_lines_length [of False ls] by (simp add: kept_def head)
  have eq: "strip_proxy_headers (head @ body) (length head) =
      (if length kept = length head then (head @ body, length head)
       else let buf = copy_at 0 kept (head @ body)
            in if length buf > length head then (take (length kept + (length buf - length head)) (copy_within (length head) (length kept) buf), length kept)
               else (take (length kept) buf, length kept))"
    using m k by (simp add: strip_proxy_headers_def Let_def)
  show ?thesis
  proof (cases "length kept = length head")
    case True
    then have "keep_lines False ls = ls" using keep_lines_same [OF ne(1)] by (simp add: kept_def head)
    then show ?thesis using eq True by (simp add: head kept_def)
  next
    case False
    have "copy_at 0 kept (head @ body) = kept @ drop (length kept) head @ body" using le by (simp add: copy_at_def)
    moreover have "drop (length head) (kept @ drop (length kept) head @ body) = body" using le by simp
    ultimately show ?thesis using eq False le by (simp add: copy_within_def Let_def kept_def [symmetric])
  qed
qed

lemma first_line_memchr:
  assumes "lines_of head = l0 # ls" and "ends_line head"
  shows "memchr 10 (l0 @ xs) = Some (length l0 - 1)" and "0 < length l0" and "take (length l0 - 1) (l0 @ xs) = butlast l0"
proof -
  have "head \<noteq> []" using assms(1) by auto
  then have "10 \<in> set head" using assms(2) last_in_set [of head] by (auto simp: ends_line_def)
  then obtain pos where m: "memchr 10 head = Some pos" by (metis memchr_None_iff option.exhaust)
  then have l0: "l0 = take (pos + 1) head" using memchr_line assms(1) by auto
  have r: "pos < length head" "head ! pos = 10" "10 \<notin> set (take pos head)" using memchr_SomeD [OF m] by auto
  then have eq: "l0 = take pos head @ [10]" by (simp add: l0 take_Suc_conv_app_nth)
  then show "0 < length l0" "take (length l0 - 1) (l0 @ xs) = butlast l0" using r(1) by simp_all
  show "memchr 10 (l0 @ xs) = Some (length l0 - 1)" using memchr_append_notin [OF r(3), of xs] r(1) by (simp add: eq)
qed

section \<open>Properties\<close>

text \<open>C25: a plain request goes out in origin form and without the proxy's header fields. When the head that was read is
  authorized, is not a CONNECT and resolves to a host and an origin path, the connection opens a tunnel to that host whose
  first bytes are exactly: the new request line with the version of the old one, every header field but those named
  Proxy-Authorization or Proxy-Connection in whatever case, each with its folded lines and in the order they came, then
  the bytes behind the head unchanged. Of a proxy field nothing is left, folded lines included.\<close>

theorem plain_request_forwarded:
  assumes "read_request_head P timed_out expected_auth rd = (rd', head @ body, Ok req)" and "pr_header_len req = length head"
    and "pr_authorized req" and "pr_method req \<noteq> ''CONNECT''"
    and "resolve_request P (pr_method req) (pr_target req) = Ok (host, Some path)"
    and "lines_of head = l0 # ls" and "ends_line head" and "utf8_valid (butlast l0)"
    and "rsplit_once 32 (trim_end_matches (\<lambda>b. b = 13) (butlast l0)) = Some (l, version)" and "length version \<le> MAX_VERSION_LEN"
  shows "connection_run P timed_out expected_auth rd sk = (rd', sk, ConnTunnel host
     (request_line (pr_method req) path version @ concat (concat (filter (\<lambda>f. \<not> proxy_field f) (header_fields ls))) @ body))"
proof -
  let ?kept = "keep_lines False ls" and ?meth = "pr_method req"
  note fl = first_line_memchr [OF assms(6,7)]
  let ?buf = "l0 @ concat ?kept @ body" and ?n = "length (l0 @ concat ?kept)"
  have "take (min ?n (length ?buf)) ?buf = l0 @ concat ?kept" by simp
  then have "memchr 10 (take (min ?n (length ?buf)) ?buf) = Some (length l0 - 1)" using fl(1) by simp
  moreover have "take (length l0 - 1) ?buf = butlast l0" using fl(3) by simp
  ultimately have "rewrite_request_line ?buf ?n ?meth path = Ok (request_line ?meth path version @ drop (length l0 - 1 + 1) ?buf)"
    using assms(8-10) by (intro rewrite_request_line_eq [of _ _ _ l]) simp_all
  then have "forward_payload (head @ body) (length head) ?meth (Some path) = Ok (request_line ?meth path version @ concat ?kept @ body)"
    using fl(2) strip_proxy_headers_eq [OF assms(6,7), of body] by (simp add: forward_payload_def)
  then show ?thesis using assms(1-5) by (simp add: connection_run_def open_request_def keep_lines_fields)
qed

lemma parse_proxy_request_head:
  "parse_proxy_request P rd buf expected_auth = (rd', buf', Ok req) \<Longrightarrow>
     try_parse_head P buf' expected_auth = Ok (Some req) \<and> prefix buf' (buf @ script_bytes rd)"
proof (induction P rd buf expected_auth rule: parse_proxy_request.induct)
  case (1 P buffer expected_auth)
  then show ?case by (auto simp: rbind_Ok_iff split: option.splits)
next
  case (2 P ev rd buffer expected_auth)
  then show ?case by (auto split: result.splits option.splits if_splits read_event.splits)
qed

lemma open_request_sock: "open_request P req rd buf sk = (rd', sk', r) \<Longrightarrow> sk' = sk"
  by (auto simp: open_request_def split: result.splits prod.splits)

lemma open_request_target:
  "open_request P req rd buf sk = (rd', sk', ConnTunnel target payload) \<Longrightarrow>
     \<exists>form. resolve_request P (pr_method req) (pr_target req) = Ok (target, form)"
  by (auto simp: open_request_def rbind_Ok_iff split: result.splits prod.splits)

text \<open>C26: with proxy credentials configured, no tunnel is opened without them. Whatever the client sends, a tunnel is
  opened only when the first bytes it sent parse as a complete head whose first Proxy-Authorization header has exactly
  the expected value, and the tunnel then goes to the target of that head; and a connection that is turned away has been sent the 407 answer and nothing else.\<close>

theorem tunnel_needs_credentials:
  assumes "connection_run P timed_out (Some expected) rd sk = (rd', sk', r)"
  shows "(\<forall>target payload. r = ConnTunnel target payload \<longrightarrow>
           (\<exists>buf amt method path headers form. prefix buf (script_bytes rd) \<and> pa_http P buf = Ok (Complete amt (Some method) (Some path) headers)
              \<and> auth_matches headers expected \<and> resolve_request P method path = Ok (target, form)))
     \<and> (r = ConnRejected \<longrightarrow> sk_sent sk' = sk_sent sk @ PROXY_AUTH_REQUIRED_RESPONSE)"
proof -
  obtain rd1 buf q where h: "read_request_head P timed_out (Some expected) rd = (rd1, buf, q)" by (metis prod.collapse)
  show ?thesis
  proof (cases q)
    case (Err e)
    then show ?thesis using assms h by (auto simp: connection_run_def)
  next
    case (Ok req)
    then have "parse_proxy_request P rd [] (Some expected) = (rd1, buf, Ok req)" using h by (simp add: read_request_head_def split: if_splits)
    then have "try_parse_head P buf (Some expected) = Ok (Some req)" and pre: "prefix buf (script_bytes rd)"
      using parse_proxy_request_head [of P rd "[]"] by auto
    then obtain amt headers where "pa_http P buf = Ok (Complete amt (Some (pr_method req)) (Some (pr_target req)) headers)"
        "pr_authorized req = auth_matches headers expected"
      by (cases "pa_http P buf") (auto simp: try_parse_head_def rbind_Ok_iff ok_or_Ok_iff split: http_status.splits)
    moreover have "r \<noteq> ConnTunnel target payload \<and> (r = ConnRejected \<longrightarrow> sk_sent sk' = sk_sent sk @ PROXY_AUTH_REQUIRED_RESPONSE)"
      if "\<not> pr_authorized req" for target payload
      using assms h Ok that write_all_sent [of PROXY_AUTH_REQUIRED_RESPONSE sk]
      by (auto simp: connection_run_def reject_unauthorized_def dest: sent_prefix_ok split: prod.splits option.splits result.splits)
    moreover have "\<exists>form. resolve_request P (pr_method req) (pr_target req) = Ok (target, form)"
      if "r = ConnTunnel target payload" "pr_authorized req" for target payload
      using assms h Ok that
      by (auto simp: connection_run_def dest: open_request_target split: prod.splits option.splits result.splits if_splits)
    moreover have "r \<noteq> ConnRejected" if "pr_authorized req"
      using assms h Ok that by (auto simp: connection_run_def open_request_def split: prod.splits option.splits result.splits if_splits)
    ultimately show ?thesis using pre by blast
  qed
qed

text \<open>A CONNECT to an IPv6 literal is never bypassed by a network rule. The target loses its brackets when it is
  resolved, and the host that the bypass rules then take from it is the text before the first colon, which is not the
  address.\<close>

theorem ipv6_connect_not_bypassed:
  assumes "pa_authority P authority = Some (''['' @ h @ '']'', Some port)" and "CHR '':'' \<in> set h" and "hd h \<noteq> CHR ''[''"
    and "parse_ip (takeWhile (\<lambda>c. c \<noteq> CHR '':'') h) = None" and "br_domain_fst rules = []"
  shows "\<exists>target. resolve_request P ''CONNECT'' authority = Ok (target, None) \<and> \<not> should_bypass N rules target"
proof -
  have "strip_suffix '']'' (h @ '']'') = Some h" and "strip_prefix ''['' (''['' @ h @ '']'') = Some (h @ '']'')"
    by (simp_all only: strip_prefix_append strip_suffix_append)
  then have r: "resolve_request P ''CONNECT'' authority = Ok (h @ '':'' @ show_nat port, None)"
    using assms(1) by (simp add: resolve_request_def resolve_connect_host_def)
  obtain c h' where h: "h = c # h'" using assms(2) by (cases h) auto
  have "takeWhile (\<lambda>c. c \<noteq> CHR '':'') (h @ xs) = takeWhile (\<lambda>c. c \<noteq> CHR '':'') h" for xs
    using assms(2) by (auto intro: takeWhile_append1)
  then have "extract_host (h @ '':'' @ show_nat port) = takeWhile (\<lambda>c. c \<noteq> CHR '':'') h"
    using assms(3) h by (simp add: extract_host_def)
  moreover have "\<not> matches_loop [] bs e first buf" for bs e first buf
  proof (induction "[] :: bytes list" bs e first buf rule: matches_loop.induct)
    case (1 bs e first buf)
    then show ?case by (simp add: matches_loop.simps [of "[]" bs e first buf] Let_def)
  qed
  ultimately show ?thesis using r assms(4,5) by (simp add: should_bypass_def match_domain_def fst_matches_def Let_def)
qed

text \<open>A plain request with a folded Proxy-Authorization field; a request without credentials; a CONNECT to the IPv6 loopback.\<close>

definition example_head :: bytes where
  "example_head = as_bytes ''GET http://a/ HTTP/1.1'' @ [13, 10] @ as_bytes ''proxy-AUTHORIZATION: Basic'' @ [13, 10, 32]
     @ as_bytes ''dTpw'' @ [13, 10] @ as_bytes ''Host: x'' @ [13, 10, 13, 10]"

definition plain_parsers :: parsers where
  "plain_parsers = \<lparr>pa_http = (\<lambda>b. if length b < length example_head then Ok Partial
       else Ok (Complete (length example_head) (Some ''GET'') (Some ''http://a/'') [])),
     pa_authority = (\<lambda>a. None),
     pa_url = (\<lambda>u. Some \<lparr>uv_host = Some ''a'', uv_port = Some 80, uv_path = ''/'', uv_query = None\<rparr>)\<rparr>"

theorem plain_request_forwarded_witness:
  "\<exists>rd. connection_run plain_parsers False None [RData (example_head @ [1, 2])] \<lparr>sk_script = [], sk_sent = []\<rparr>
     = (rd, \<lparr>sk_script = [], sk_sent = []\<rparr>, ConnTunnel ''a:80''
         (as_bytes ''GET / HTTP/1.1'' @ [13, 10] @ as_bytes ''Host: x'' @ [13, 10, 13, 10, 1, 2]))"
proof -
  let ?l0 = "as_bytes ''GET http://a/ HTTP/1.1'' @ [13, 10]"
  let ?ls = "[as_bytes ''proxy-AUTHORIZATION: Basic'' @ [13, 10], [32] @ as_bytes ''dTpw'' @ [13, 10], as_bytes ''Host: x'' @ [13, 10], [13, 10]]"
  have 1: "lines_of example_head = ?l0 # ?ls" by code_simp
  have 2: "ends_line example_head" by (simp add: ends_line_def example_head_def)
  have 3: "utf8_valid (butlast ?l0)" by code_simp
  have 4: "rsplit_once 32 (trim_end_matches (\<lambda>b. b = 13) (butlast ?l0)) = Some (as_bytes ''GET http://a/'', as_bytes ''HTTP/1.1'')" by code_simp
  have 5: "length (as_bytes ''HTTP/1.1'') \<le> MAX_VERSION_LEN" by (simp add: MAX_VERSION_LEN_def)
  have 6: "concat (filter (\<lambda>f. \<not> proxy_field f) (header_fields ?ls)) = [as_bytes ''Host: x'' @ [13, 10], [13, 10]]" by code_simp
  let ?req = "\<lparr>pr_method = ''GET'', pr_header_len = length example_head, pr_target = ''http://a/'', pr_authorized = True\<rparr>"
  have 7: "read_request_head plain_parsers False None [RData (example_head @ [1, 2])] = ([], example_head @ [1, 2], Ok ?req)"
    by code_simp
  have 8: "resolve_request plain_parsers (pr_method ?req) (pr_target ?req) = Ok (''a:80'', Some ''/'')" by code_simp
  from plain_request_forwarded [OF 7 _ _ _ 8 1 2 3 4 5, of "\<lparr>sk_script = [], sk_sent = []\<rparr>"] show ?thesis
    unfolding 6 by (simp add: request_line_def as_bytes_def)
qed

definition example_parsers :: parsers where
  "example_parsers = \<lparr>pa_http = (\<lambda>b. Ok (Complete 0 (Some ''GET'') (Some ''/'') [])),
     pa_authority = (\<lambda>a. Some (''['' @ ''::1'' @ '']'', Some 443)), pa_url = (\<lambda>u. None)\<rparr>"

theorem tunnel_needs_credentials_witness:
  "\<exists>rd sk. connection_run example_parsers False (Some ''Basic eA=='') [] \<lparr>sk_script = [Accept 1000], sk_sent = []\<rparr> = (rd, sk, ConnRejected)
     \<and> sk_sent sk = PROXY_AUTH_REQUIRED_RESPONSE"
proof -
  let ?sk = "\<lparr>sk_script = [Accept 1000], sk_sent = []\<rparr> :: sock"
  have "length PROXY_AUTH_REQUIRED_RESPONSE \<le> 1000" "PROXY_AUTH_REQUIRED_RESPONSE \<noteq> []"
    by (simp_all add: PROXY_AUTH_REQUIRED_RESPONSE_def as_bytes_def)
  then have "write_all PROXY_AUTH_REQUIRED_RESPONSE ?sk = (\<lparr>sk_script = [], sk_sent = PROXY_AUTH_REQUIRED_RESPONSE\<rparr>, Some (Ok ()))"
    by (simp add: write_all.simps min_def Let_def)
  then have "connection_run example_parsers False (Some ''Basic eA=='') [] ?sk = ([], \<lparr>sk_script = [], sk_sent = PROXY_AUTH_REQUIRED_RESPONSE\<rparr>, ConnRejected)"
    by (simp add: connection_run_def read_request_head_def try_parse_head_def example_parsers_def auth_matches_def reject_unauthorized_def)
  with tunnel_needs_credentials [OF this] show ?thesis by simp
qed

theorem ipv6_connect_not_bypassed_witness:
  "\<exists>target. resolve_request example_parsers ''CONNECT'' ''[::1]:443'' = Ok (target, None)
     \<and> \<not> should_bypass demo_net \<lparr>br_domain_fst = [], br_ip_table = []\<rparr> target"
proof -
  have "parse_ip [] = None" by (simp add: parse_ip_def read_ipv4_None read_ipv6_def read_groups_end ends_groups_def strip_prefix_def)
  then show ?thesis by (intro ipv6_connect_not_bypassed [of _ _ "''::1''" 443]) (simp_all add: example_parsers_def)
qed

end
