(* ===== verification/Client_State.thy ===== *)
theory Client_State
  imports Server_Handlers Upload_Loop Proxy
begin

text \<open>
  The client's side of a session: the stored master key, the state machine that resumes a session or falls back to a
  handshake (\<^verbatim>\<open>src/src/client/state.rs\<close> and the end of \<^verbatim>\<open>src/src/client/handshake.rs\<close>), the race of the two halves of a
  tunnel (\<^verbatim>\<open>src/src/client/utils.rs\<close>), the choice between tunnel and direct connection with its copy loops
  (\<^verbatim>\<open>src/src/client/connection.rs\<close>), and the redirect rules (\<^verbatim>\<open>src/src/client/redirect.rs\<close>).

  What the network and the other connections of the client do is an observation: the answer to a request, the order in
  which the two halves end, the result of a handshake, and the changes that other connections make to the stored key while
  the first request of this one is under way (\<open>meanwhile\<close>) and while it waits for the handshake lock (\<open>others\<close>). The key is loaded
  and stored at two readings of the clock. While a connection holds the lock the store is empty and no other one fills it.

  Lemmas: a connection makes at most one handshake and two tunnel requests, always for its own target and payload; it
  never presents a session again that the server has refused, and does not discard the key of another session for it; its socket halves are not lost; a key that the client
  still resumes is one that the server still accepts.
\<close>

section \<open>The stored master key\<close>

definition MASTER_RESUME_WINDOW_SECS :: u64 where "MASTER_RESUME_WINDOW_SECS = 1170"

type_synonym initial_master_entry = "string \<times> bytes \<times> u64"

definition ticket_is_valid :: "u64 \<Rightarrow> u64 \<Rightarrow> bool" where
  "ticket_is_valid created now \<longleftrightarrow> saturating_sub now created < MASTER_RESUME_WINDOW_SECS"

definition load_and_validate_ticket ::
    "u64 \<Rightarrow> initial_master_entry option \<Rightarrow> initial_master_entry option \<times> pq_session_ticket option" where
  "load_and_validate_ticket now im =
     (case im of
        None \<Rightarrow> (None, None)
      | Some (session_id, master, created) \<Rightarrow>
          if \<not> ticket_is_valid created now then (None, None)
          else (im, Some \<lparr>tk_master = master, tk_session_id = session_id\<rparr>))"

definition invalidate_stale_master :: "string \<Rightarrow> initial_master_entry option \<Rightarrow> initial_master_entry option" where
  "invalidate_stale_master rejected_sid im =
     (case im of Some (sid, master, created) \<Rightarrow> if sid = rejected_sid then None else im | None \<Rightarrow> None)"

section \<open>One tunnel request\<close>

datatype connect_error = RehandshakeRequired string | HalfConsumed string | ConnectError string

text \<open>How the two halves end: which one first, and with what. \<open>None\<close> is a cancelled upload task.\<close>

datatype race_order = UploadFirst "(unit, string) result option" "(unit, string) result" | DownloadFirst "(unit, string) result"

definition race_upload_download :: "race_order \<Rightarrow> string option \<Rightarrow> (unit, string) result" where
  "race_upload_download race download_label =
     (case race of
        UploadFirst upload_res download_res \<Rightarrow>
          (case upload_res of
             Some (Err e) \<Rightarrow> Err e
           | _ \<Rightarrow> download_res)
      | DownloadFirst dl_res \<Rightarrow>
          (case download_label of Some label \<Rightarrow> map_err (\<lambda>e. label @ '': '' @ e) dl_res | None \<Rightarrow> dl_res))"

record connect_obs =
  co_request :: "(unit, string) result"
  co_outcome :: request_outcome
  co_race :: race_order

text \<open>The two halves of the local socket, as far as they are still there.\<close>

type_synonym halves = "bool \<times> bool"

text \<open>
  \<open>try_pq_connect\<close>: \<open>co_request\<close> is how building the request ends (\<open>pq_connect_request\<close>). The halves are taken only once the
  answer has been accepted.
\<close>

definition try_pq_connect :: "connect_obs \<Rightarrow> halves \<Rightarrow> halves \<times> (unit, connect_error) result" where
  "try_pq_connect ob h =
     (case co_request ob of
        Err e \<Rightarrow> (h, Err (ConnectError e))
      | Ok u \<Rightarrow>
          (case co_outcome ob of
             ReqTimeout \<Rightarrow> (h, Err (ConnectError ''session resumption download connect timed out''))
           | ReqFailed \<Rightarrow> (h, Err (ConnectError ''session resumption POST failed''))
           | ReqAnswer status body \<Rightarrow>
               if status = 428 then (h, Err (RehandshakeRequired ''server requests re-handshake (428)''))
               else (case check_response_status status body ''server rejected session resumption'' of
                       Err e \<Rightarrow> (h, Err (ConnectError e))
                     | Ok response \<Rightarrow>
                         (if \<not> fst h then (h, Err (HalfConsumed ''read half already consumed''))
                          else if \<not> snd h then ((False, snd h), Err (HalfConsumed ''write half already consumed''))
                          else ((False, False), map_err ConnectError (race_upload_download (co_race ob) (Some ''download failed'')))))))"

section \<open>The state machine\<close>

record resuming =
  re_ticket :: pq_session_ticket
  re_target_host :: string
  re_payload :: bytes
  re_halves :: halves

record handshaking =
  hk_target_host :: string
  hk_payload :: bytes

datatype client_pq_fsm = Resuming resuming | Handshaking handshaking

definition fsm_new ::
    "string \<Rightarrow> bytes \<Rightarrow> u64 \<Rightarrow> initial_master_entry option \<Rightarrow> initial_master_entry option \<times> client_pq_fsm" where
  "fsm_new target_host payload now im =
     (case load_and_validate_ticket now im of
        (im, Some ticket) \<Rightarrow> (im, Resuming \<lparr>re_ticket = ticket, re_target_host = target_host, re_payload = payload, re_halves = (True, True)\<rparr>)
      | (im, None) \<Rightarrow> (im, Handshaking \<lparr>hk_target_host = target_host, hk_payload = payload\<rparr>))"

text \<open>What the connection does on the network, in order.\<close>

datatype fsm_action = TunnelRequest pq_session_ticket string bytes | FullHandshake

record fsm_obs =
  fo_resume :: connect_obs
  fo_meanwhile :: "initial_master_entry option \<Rightarrow> initial_master_entry option"
  fo_others :: "initial_master_entry option \<Rightarrow> initial_master_entry option"
  fo_now :: u64
  fo_stored :: u64
  fo_handshake :: "(pq_session_ticket, string) result"
  fo_connect :: connect_obs

definition try_resume :: "connect_obs \<Rightarrow> resuming \<Rightarrow> (unit, resuming \<times> connect_error) result" where
  "try_resume ob r =
     (case try_pq_connect ob (re_halves r) of
        (h, Ok u) \<Rightarrow> Ok ()
      | (h, Err e) \<Rightarrow> Err (r\<lparr>re_halves := h\<rparr>, e))"

text \<open>The ticket of the handshaking state, under the handshake lock; a handshake stores its key.\<close>

definition handshake_ticket ::
    "fsm_obs \<Rightarrow> initial_master_entry option \<Rightarrow> initial_master_entry option \<times> fsm_action list \<times> (pq_session_ticket, string) result" where
  "handshake_ticket ob im =
     (case load_and_validate_ticket (fo_now ob) im of
        (im, Some ticket) \<Rightarrow> (im, [], Ok ticket)
      | (im, None) \<Rightarrow>
          (case fo_handshake ob of
             Err e \<Rightarrow> (im, [FullHandshake], Err e)
           | Ok ticket \<Rightarrow> (Some (tk_session_id ticket, tk_master ticket, fo_stored ob), [FullHandshake], Ok ticket)))"

fun fsm_rank :: "client_pq_fsm \<Rightarrow> nat" where
  "fsm_rank (Resuming r) = 1"
| "fsm_rank (Handshaking h) = 0"

function fsm_run ::
    "fsm_obs \<Rightarrow> client_pq_fsm \<Rightarrow> initial_master_entry option
      \<Rightarrow> initial_master_entry option \<times> fsm_action list \<times> (unit, connect_error) result" where
  "fsm_run ob (Resuming r) im =
     (let act = TunnelRequest (re_ticket r) (re_target_host r) (re_payload r); im = fo_meanwhile ob im in
      case try_resume (fo_resume ob) r of
        Ok u \<Rightarrow> (im, [act], Ok ())
      | Err (r', RehandshakeRequired e) \<Rightarrow>
          (let im = invalidate_stale_master (tk_session_id (re_ticket r')) im in
           if \<not> fst (re_halves r') then (im, [act], Err (HalfConsumed ''read half consumed''))
           else if \<not> snd (re_halves r') then (im, [act], Err (HalfConsumed ''write half consumed''))
           else (let (im, acts, res) = fsm_run ob (Handshaking \<lparr>hk_target_host = re_target_host r', hk_payload = re_payload r'\<rparr>) im
                 in (im, act # acts, res)))
      | Err (r', e) \<Rightarrow> (im, [act], Err e))"
| "fsm_run ob (Handshaking h) im =
     (case handshake_ticket ob (fo_others ob im) of
        (im, acts, Err e) \<Rightarrow> (im, acts, Err (ConnectError e))
      | (im, acts, Ok ticket) \<Rightarrow>
          (im, acts @ [TunnelRequest ticket (hk_target_host h) (hk_payload h)], snd (try_pq_connect (fo_connect ob) (True, True))))"
  by pat_completeness auto
termination by (relation "measure (\<lambda>(ob, f, im). fsm_rank f)") auto

section \<open>Tunnel or direct connection\<close>

definition COPY_BUF_SIZE :: nat where "COPY_BUF_SIZE = 64 * 1024"

function write_with_timeout :: "bytes \<Rightarrow> sock \<Rightarrow> sock \<times> (unit, io_error) result" where
  "write_with_timeout data sk =
     (if data = [] then (sk, Ok ())
      else (case sk_script sk of
              [] \<Rightarrow> (sk, Err (IoError TimedOut ''write stalled''))
            | WFail e # es \<Rightarrow> (sk\<lparr>sk_script := es\<rparr>, Err e)
            | Accept n # es \<Rightarrow>
                (let k = min n (length data);
                     sk = sk\<lparr>sk_script := es, sk_sent := sk_sent sk @ take k data\<rparr>
                 in if k = 0 then (sk, Err write_zero) else write_with_timeout (drop k data) sk)))"
  by pat_completeness auto
termination by (relation "measure (\<lambda>(data, sk). length (sk_script sk))") auto

declare write_with_timeout.simps [simp del]

lemma poll_read_measure:
  "poll_read (ev # rd) n = (rd', p) \<Longrightarrow> 0 < n \<Longrightarrow>
     length (script_bytes rd') + length rd' < length (script_bytes (ev # rd)) + length (ev # rd)"
  by (cases ev) (auto split: if_splits)

function copy_with_write_timeout :: "read_event list \<Rightarrow> sock \<Rightarrow> nat \<Rightarrow> read_event list \<times> sock \<times> (nat, io_error) result" where
  "copy_with_write_timeout rd sk copied =
     (case rd of
        [] \<Rightarrow> ([], sk, Ok copied)
      | _ \<Rightarrow>
          (case poll_read rd COPY_BUF_SIZE of
             (rd, Pending) \<Rightarrow> copy_with_write_timeout rd sk copied
           | (rd, Ready (Err e)) \<Rightarrow> (rd, sk, Err e)
           | (rd, Ready (Ok got)) \<Rightarrow>
               if got = [] then (rd, sk, Ok copied)
               else (case write_with_timeout got sk of
                       (sk, Err e) \<Rightarrow> (rd, sk, Err e)
                     | (sk, Ok u) \<Rightarrow> copy_with_write_timeout rd sk (copied + length got))))"
  by pat_completeness auto
termination
  by (relation "measure (\<lambda>(rd, sk, copied). length (script_bytes rd) + length rd)")
    (auto simp: COPY_BUF_SIZE_def dest: sym [THEN poll_read_measure])

declare copy_with_write_timeout.simps [simp del]

text \<open>
  \<open>handle_bypass_direct\<close>: the initial payload, then both directions. \<open>up\<close> is the remote's socket, \<open>down\<close> the local one; each
  side is shut down when its copy ends, which is not part of the byte streams.
\<close>

definition handle_bypass_direct ::
    "string \<Rightarrow> (unit, string) result \<Rightarrow> bytes \<Rightarrow> read_event list \<Rightarrow> read_event list \<Rightarrow> sock \<Rightarrow> sock \<Rightarrow> sock \<times> sock \<times> (unit, string) result" where
  "handle_bypass_direct target connected initial_payload local_rd remote_rd up down =
     (case connected of
        Err e \<Rightarrow> (up, down, Err (''bypass connect to '' @ target @ '' failed: '' @ e))
      | Ok u \<Rightarrow>
          (case (if initial_payload \<noteq> [] then write_with_timeout initial_payload up else (up, Ok ())) of
             (up, Err e) \<Rightarrow> (up, down, Err (io_message e))
           | (up, Ok u) \<Rightarrow>
               (let (rd1, up, up_res) = copy_with_write_timeout local_rd up 0;
                    (rd2, down, down_res) = copy_with_write_timeout remote_rd down 0
                in (up, down,
                    rbind (map_err (\<lambda>e. ''bypass client->remote: '' @ io_message e) up_res) (\<lambda>n.
                    rbind (map_err (\<lambda>e. ''bypass remote->client: '' @ io_message e) down_res) (\<lambda>m. Ok ()))))))"

datatype route = DirectRoute | TunnelRoute

definition open_tunnel_route :: "'n ipnet \<Rightarrow> 'n bypass_rules option \<Rightarrow> string \<Rightarrow> route" where
  "open_tunnel_route N bypass target_host =
     (case bypass of
        Some rules \<Rightarrow> if should_bypass N rules target_host then DirectRoute else TunnelRoute
      | None \<Rightarrow> TunnelRoute)"

section \<open>Redirect rules\<close>

record redirect_section =
  rd_listen :: string
  rd_target :: string

record 'a redirect_rule =
  rr_listen :: 'a
  rr_target :: string

text \<open>\<open>parse_addr\<close> is \<open>SocketAddr::from_str\<close>.\<close>

definition redirect_parse :: "(string \<Rightarrow> 'a option) \<Rightarrow> redirect_section \<Rightarrow> ('a redirect_rule, string) result" where
  "redirect_parse parse_addr sec =
     rbind (ok_or (parse_addr (rd_listen sec)) (''invalid [[redirect]] listen address: '' @ rd_listen sec)) (\<lambda>listen.
     let target = str_trim (rd_target sec) in
     rbind (ok_or (rsplit_once (CHR '':'') target) (''[[redirect]] target must be host:port, got: '' @ target)) (\<lambda>(host, port).
       if host = [] then Err (''[[redirect]] target has an empty host: '' @ target)
       else rbind (ok_or (parse_u16 port) (''invalid [[redirect]] target port: '' @ target)) (\<lambda>p.
         Ok \<lparr>rr_listen = listen, rr_target = target\<rparr>)))"

fun redirect_parse_all :: "(string \<Rightarrow> 'a option) \<Rightarrow> redirect_section list \<Rightarrow> 'a redirect_rule list \<Rightarrow> ('a redirect_rule list, string) result" where
  "redirect_parse_all parse_addr [] rules = Ok rules"
| "redirect_parse_all parse_addr (sec # secs) rules =
     rbind (redirect_parse parse_addr sec) (\<lambda>rule.
       if list_ex (\<lambda>r. rr_listen r = rr_listen rule) rules then Err ''duplicate [[redirect]] listen address''
       else redirect_parse_all parse_addr secs (rules @ [rule]))"

section \<open>Lemmas\<close>

lemma write_with_timeout_write_all:
  "write_with_timeout data sk = (case write_all data sk of (sk', Some r) \<Rightarrow> (sk', r) | (sk', None) \<Rightarrow> (sk', Err (IoError TimedOut ''write stalled'')))"
proof (induction data sk rule: write_with_timeout.induct)
  case (1 data sk)
  note u = write_with_timeout.simps [of data sk] write_all.simps [of data sk]
  show ?case
  proof (cases "data = []")
    case ne: False
    show ?thesis
    proof (cases "sk_script sk")
      case (Cons ev es)
      show ?thesis
      proof (cases ev)
        case (Accept n)
        then show ?thesis
          using 1 [OF ne Cons Accept refl refl] u ne Cons by (cases "min n (length data) = 0") (simp_all add: Let_def)
      qed (use u ne Cons in simp)
    qed (use u ne in simp)
  qed (use u in simp)
qed

lemma write_with_timeout_sent:
  assumes "write_with_timeout data sk = (sk', r)"
  shows "\<exists>k \<le> length data. sk_sent sk' = sk_sent sk @ take k data \<and> (r = Ok () \<longrightarrow> k = length data)"
  using write_all_sent [of data sk] assms
  by (auto simp: write_with_timeout_write_all sent_prefix_def split: prod.splits option.splits)

text \<open>What a copy has sent, in terms of what it has read.\<close>

lemma copy_sent:
  "RData [] \<notin> set rd \<Longrightarrow> copy_with_write_timeout rd sk copied = (rd', sk', r) \<Longrightarrow>
     \<exists>out. sk_sent sk' = sk_sent sk @ out \<and> prefix out (script_bytes rd)
       \<and> (\<forall>n. r = Ok n \<longrightarrow> out = script_bytes rd \<and> n = copied + length out \<and> rd' = [])"
proof (induction rd sk copied rule: copy_with_write_timeout.induct)
  case (1 rd sk copied)
  note u = copy_with_write_timeout.simps [of rd sk copied]
  show ?case
  proof (cases rd)
    case Nil
    then show ?thesis using 1(4) u by simp
  next
    case (Cons ev es)
    obtain rd1 p where pr: "poll_read rd COPY_BUF_SIZE = (rd1, p)" by fastforce
    have n: "0 < COPY_BUF_SIZE" by (simp add: COPY_BUF_SIZE_def)
    note out = poll_read_outcome [OF pr n]
    have ne: "RData [] \<notin> set rd1" using out 1(3) by auto
    show ?thesis
    proof (cases p)
      case Pending
      then have c: "copy_with_write_timeout rd1 sk copied = (rd', sk', r)" using 1(4) u Cons pr by simp
      show ?thesis using 1(2) [OF Cons pr [symmetric] Pending ne c] out Pending by simp
    next
      case (Ready q)
      show ?thesis
      proof (cases q)
        case (Err e)
        then show ?thesis using 1(4) u Cons pr Ready by auto
      next
        case (Ok got)
        have got: "script_bytes rd = got @ script_bytes rd1" using out Ready Ok by simp
        show ?thesis
        proof (cases "got = []")
          case True
          then show ?thesis using 1(3,4) u Cons pr Ready Ok out by auto
        next
          case nonempty: False
          obtain sk1 w where w: "write_with_timeout got sk = (sk1, w)" by fastforce
          from write_with_timeout_sent [OF w] obtain k where k: "k \<le> length got" "sk_sent sk1 = sk_sent sk @ take k got" "w = Ok () \<longrightarrow> k = length got"
            by blast
          show ?thesis
          proof (cases w)
            case (Err e)
            then have "rd' = rd1" "sk' = sk1" "r = Err e" using 1(4) u Cons pr Ready Ok nonempty w by simp_all
            moreover have "prefix (take k got) (got @ script_bytes rd1)" by (metis take_is_prefix prefix_prefix)
            ultimately show ?thesis using k got by auto
          next
            case w1: (Ok x)
            then have c: "copy_with_write_timeout rd1 sk1 (copied + length got) = (rd', sk', r)"
              using 1(4) u Cons pr Ready Ok nonempty w by simp
            obtain out' where o: "sk_sent sk' = sk_sent sk1 @ out'" "prefix out' (script_bytes rd1)"
                "\<forall>n. r = Ok n \<longrightarrow> out' = script_bytes rd1 \<and> n = copied + length got + length out' \<and> rd' = []"
              using 1(1) [OF Cons pr [symmetric] Ready Ok nonempty w [symmetric] w1 ne c] by blast
            have "sk_sent sk' = sk_sent sk @ got @ out'" using o(1) k w1 by simp
            moreover have "prefix (got @ out') (script_bytes rd)" using o(2) got by simp
            moreover have "\<forall>n. r = Ok n \<longrightarrow> got @ out' = script_bytes rd \<and> n = copied + length (got @ out') \<and> rd' = []"
              using o(3) got by (auto simp: add.assoc)
            ultimately show ?thesis by blast
          qed
        qed
      qed
    qed
  qed
qed

text \<open>The session ids a connection presents, in order.\<close>

fun presented :: "fsm_action list \<Rightarrow> string list" where
  "presented [] = []"
| "presented (TunnelRequest tk t p # as) = tk_session_id tk # presented as"
| "presented (FullHandshake # as) = presented as"

lemma try_pq_connect_halves:
  "try_pq_connect ob (True, True) = (h, r) \<Longrightarrow> (\<forall>e. r \<noteq> Err (HalfConsumed e)) \<and> (\<forall>e. r = Err (RehandshakeRequired e) \<longrightarrow> h = (True, True))"
proof -
  have me: "map_err ConnectError q \<noteq> Err (HalfConsumed e) \<and> map_err ConnectError q \<noteq> Err (RehandshakeRequired e)" for q :: "(unit, string) result" and e
    by (cases q) auto
  show "try_pq_connect ob (True, True) = (h, r) \<Longrightarrow> ?thesis"
    using me by (auto simp: try_pq_connect_def split: result.splits request_outcome.splits if_splits)
qed

lemma handshaking_actions:
  assumes "fsm_run ob (Handshaking \<lparr>hk_target_host = target, hk_payload = payload\<rparr>) im = (im2, acts, res)"
  shows "count_list acts FullHandshake \<le> 1 \<and> length (presented acts) \<le> 1 \<and> length acts \<le> 2
    \<and> (\<forall>tk t p. TunnelRequest tk t p \<in> set acts \<longrightarrow> t = target \<and> p = payload)
    \<and> (res = Ok () \<longrightarrow> acts \<noteq> [] \<and> (\<exists>tk. last acts = TunnelRequest tk target payload))
    \<and> (\<forall>e. res \<noteq> Err (HalfConsumed e)) \<and> distinct (presented acts)"
proof -
  obtain im1 as r where h: "handshake_ticket ob (fo_others ob im) = (im1, as, r)" by (metis prod.collapse)
  have as: "as = [] \<or> as = [FullHandshake]"
    using h by (auto simp: handshake_ticket_def split: prod.splits option.splits result.splits)
  show ?thesis
  proof (cases r)
    case (Err e)
    then show ?thesis using assms h as by auto
  next
    case (Ok tk)
    then have "acts = as @ [TunnelRequest tk target payload]" "res = snd (try_pq_connect (fo_connect ob) (True, True))" using assms h by auto
    then show ?thesis using as try_pq_connect_halves [of "fo_connect ob"] by (auto simp: prod_eq_iff)
  qed
qed

section \<open>Properties\<close>

text \<open>C27: a connection ends. It makes at most one handshake and at most two tunnel requests, every one for its own target
  and payload; it succeeds only with a tunnel request as its last action; it never finds its socket halves gone. After a
  request was refused with 428 it does not present the refused session again, whatever other connections stored in the
  meantime, as long as the handshake yields a new session id and nobody stores the refused one while it waits for the
  lock. A refusal discards only the key of the refused session: when another connection has stored the key of a new session
  meanwhile and it is still valid, the second request uses that key, without a handshake, and the key stays.\<close>

theorem connection_attempts_bounded:
  assumes "fsm_new target payload now im = (im1, f)" and "fsm_run ob f im1 = (im2, acts, res)"
    and "\<forall>x t m c. fo_others ob x = Some (t, m, c) \<longrightarrow> map_option fst x = Some t \<or> map_option fst im1 \<noteq> Some t"
    and "\<forall>t. fo_handshake ob = Ok t \<longrightarrow> map_option fst im1 \<noteq> Some (tk_session_id t)"
  shows "count_list acts FullHandshake \<le> 1 \<and> length (presented acts) \<le> 2 \<and> length acts \<le> 3
    \<and> (\<forall>tk t p. TunnelRequest tk t p \<in> set acts \<longrightarrow> t = target \<and> p = payload)
    \<and> (res = Ok () \<longrightarrow> (\<exists>tk. last acts = TunnelRequest tk target payload))
    \<and> (\<forall>e. res \<noteq> Err (HalfConsumed e)) \<and> distinct (presented acts)
    \<and> (\<forall>sid0 m0 c0 e sid m c. im1 = Some (sid0, m0, c0) \<and> snd (try_pq_connect (fo_resume ob) (True, True)) = Err (RehandshakeRequired e)
         \<and> fo_meanwhile ob im1 = Some (sid, m, c) \<and> sid \<noteq> sid0 \<and> fo_others ob (Some (sid, m, c)) = Some (sid, m, c)
         \<and> ticket_is_valid c (fo_now ob) \<longrightarrow>
           acts = [TunnelRequest \<lparr>tk_master = m0, tk_session_id = sid0\<rparr> target payload, TunnelRequest \<lparr>tk_master = m, tk_session_id = sid\<rparr> target payload]
           \<and> im2 = Some (sid, m, c))"
proof -
  obtain im' tk where load: "load_and_validate_ticket now im = (im', tk)" by fastforce
  show ?thesis
  proof (cases tk)
    case None
    then have f: "f = Handshaking \<lparr>hk_target_host = target, hk_payload = payload\<rparr>" and "im1 = None"
      using assms(1) load by (auto simp: fsm_new_def load_and_validate_ticket_def split: option.splits prod.splits if_splits)
    then show ?thesis using handshaking_actions [OF assms(2) [unfolded f]] by auto
  next
    case (Some t)
    then have im1: "im1 = Some (tk_session_id t, tk_master t, snd (snd (the im)))"
        and f: "f = Resuming \<lparr>re_ticket = t, re_target_host = target, re_payload = payload, re_halves = (True, True)\<rparr>"
      using assms(1) load by (auto simp: fsm_new_def load_and_validate_ticket_def split: option.splits prod.splits if_splits)
    let ?act = "TunnelRequest t target payload"
    obtain h q where q: "try_pq_connect (fo_resume ob) (True, True) = (h, q)" by fastforce
    show ?thesis
    proof (cases "\<exists>e. q = Err (RehandshakeRequired e)")
      case False
      then have "acts = [?act]" and "res = q" using assms(2) f q
        by (cases q; auto simp: try_resume_def Let_def split: connect_error.splits)+
      then show ?thesis using try_pq_connect_halves [OF q] q False by auto
    next
      case True
      then obtain e where e: "q = Err (RehandshakeRequired e)" by blast
      have h: "h = (True, True)" using try_pq_connect_halves [OF q] e by simp
      let ?im = "invalidate_stale_master (tk_session_id t) (fo_meanwhile ob im1)"
      obtain acts' where run: "fsm_run ob (Handshaking \<lparr>hk_target_host = target, hk_payload = payload\<rparr>) ?im = (im2, acts', res)" and acts: "acts = ?act # acts'"
        using assms(2) f q e h by (auto simp: try_resume_def Let_def split: prod.splits)
      have fresh: "tk_session_id t \<notin> set (presented acts')"
      proof
        assume "tk_session_id t \<in> set (presented acts')"
        then have "(\<exists>m c. fo_others ob ?im = Some (tk_session_id t, m, c)) \<or> (\<exists>t'. fo_handshake ob = Ok t' \<and> tk_session_id t' = tk_session_id t)"
          using run by (auto simp: handshake_ticket_def load_and_validate_ticket_def split: option.splits prod.splits if_splits result.splits)
        moreover have "map_option fst ?im \<noteq> Some (tk_session_id t)" by (auto simp: invalidate_stale_master_def split: option.splits if_splits)
        ultimately show False using assms(3,4) im1 by fastforce
      qed
      have swap: "acts' = [TunnelRequest \<lparr>tk_master = m, tk_session_id = sid\<rparr> target payload] \<and> im2 = Some (sid, m, c)"
        if "fo_meanwhile ob im1 = Some (sid, m, c)" "sid \<noteq> tk_session_id t" "fo_others ob (Some (sid, m, c)) = Some (sid, m, c)"
          "ticket_is_valid c (fo_now ob)" for sid m c
        using that run by (simp add: invalidate_stale_master_def handshake_ticket_def load_and_validate_ticket_def)
      have kept: "\<forall>sid0 m0 c0 e sid m c. im1 = Some (sid0, m0, c0) \<and> snd (try_pq_connect (fo_resume ob) (True, True)) = Err (RehandshakeRequired e)
         \<and> fo_meanwhile ob im1 = Some (sid, m, c) \<and> sid \<noteq> sid0 \<and> fo_others ob (Some (sid, m, c)) = Some (sid, m, c)
         \<and> ticket_is_valid c (fo_now ob) \<longrightarrow>
           acts = [TunnelRequest \<lparr>tk_master = m0, tk_session_id = sid0\<rparr> target payload, TunnelRequest \<lparr>tk_master = m, tk_session_id = sid\<rparr> target payload]
           \<and> im2 = Some (sid, m, c)"
      proof (intro allI impI, elim conjE)
        fix sid0 m0 c0 e sid m c
        assume a: "im1 = Some (sid0, m0, c0)" "fo_meanwhile ob im1 = Some (sid, m, c)" "sid \<noteq> sid0"
          "fo_others ob (Some (sid, m, c)) = Some (sid, m, c)" "ticket_is_valid c (fo_now ob)"
        then have "t = \<lparr>tk_master = m0, tk_session_id = sid0\<rparr>" using im1 by simp
        then show "acts = [TunnelRequest \<lparr>tk_master = m0, tk_session_id = sid0\<rparr> target payload,
            TunnelRequest \<lparr>tk_master = m, tk_session_id = sid\<rparr> target payload] \<and> im2 = Some (sid, m, c)"
          using swap [OF a(2) _ a(4,5)] a(3) acts by simp
      qed
      show ?thesis using handshaking_actions [OF run] acts fresh by (intro conjI kept) auto
    qed
  qed
qed

lemma list_all2_in_set2: "list_all2 P xs ys \<Longrightarrow> y \<in> set ys \<Longrightarrow> \<exists>x \<in> set xs. P x y"
  by (induction rule: list_all2_induct) auto

lemma redirect_parse_target:
  assumes "redirect_parse pa sec = Ok rule"
  shows "\<exists>host port p. rr_target rule = host @ '':'' @ port \<and> host \<noteq> [] \<and> CHR '':'' \<notin> set port \<and> parse_u16 port = Some p
    \<and> pa (rd_listen sec) = Some (rr_listen rule)"
proof -
  from assms obtain host port p where "rsplit_once (CHR '':'') (str_trim (rd_target sec)) = Some (host, port)"
      "host \<noteq> []" "parse_u16 port = Some p" "pa (rd_listen sec) = Some (rr_listen rule)" "rr_target rule = str_trim (rd_target sec)"
    by (auto simp: redirect_parse_def Let_def rbind_Ok_iff ok_or_Ok_iff split: if_splits)
  then show ?thesis using rsplit_once_SomeD [of "CHR '':''" "str_trim (rd_target sec)" host port] by auto
qed

lemma redirect_parse_all_rules:
  "redirect_parse_all pa secs rules0 = Ok rules \<Longrightarrow> distinct (map rr_listen rules0) \<Longrightarrow>
     distinct (map rr_listen rules) \<and> (\<exists>rs. rules = rules0 @ rs \<and> list_all2 (\<lambda>sec rule. redirect_parse pa sec = Ok rule) secs rs)"
proof (induction pa secs rules0 rule: redirect_parse_all.induct)
  case (2 pa sec secs rules0)
  from "2.prems"(1) obtain rule where r: "redirect_parse pa sec = Ok rule" "\<not> list_ex (\<lambda>r. rr_listen r = rr_listen rule) rules0"
      "redirect_parse_all pa secs (rules0 @ [rule]) = Ok rules"
    by (auto simp: rbind_Ok_iff split: if_splits)
  then have "distinct (map rr_listen (rules0 @ [rule]))" using "2.prems"(2) by (auto simp: list_ex_iff)
  from "2.IH" [OF r(2) r(3) this] r(1) show ?case by auto
qed auto

text \<open>C28: the resume window of the client fits the expiry of the server. When the client resumes with its stored key, and
  the server's entry for that session is at most half a minute older than the client's, by their own clocks, the server
  accepts the session and uses the same key.\<close>

theorem resumed_key_accepted:
  assumes "load_and_validate_ticket now im = (im', Some tk)" and "im = Some (tk_session_id tk, master, created)"
    and "map_of (st_masters st) (tk_session_id tk) = Some (user, master, created')"
    and "unat (saturating_sub now' created') \<le> unat (saturating_sub now created) + 30"
    and "b64_correct E" and "list_all b64_char (tk_session_id tk)" and "su_uuid S (tk_session_id tk) = Some u"
  shows "tk_master tk = master \<and> session_master S now' (tk_session_id tk @ '':'' @ b64_encode E a @ '':'' @ b64_encode E b) st
       = (st, Ok (b64_encode E a, b64_encode E b, master))"
proof -
  have v: "ticket_is_valid created now" and "\<lparr>tk_master = master, tk_session_id = tk_session_id tk\<rparr> = tk"
    using assms(1,2) by (auto simp: load_and_validate_ticket_def split: if_splits)
  then have tk: "tk_master tk = master" by (metis pq_session_ticket.select_convs(1))
  from v have "unat (saturating_sub now created) < 1170"
    by (simp add: ticket_is_valid_def MASTER_RESUME_WINDOW_SECS_def word_less_nat_alt)
  then have "saturating_sub now' created' \<le> MASTER_EXPIRY"
    using assms(4) by (simp add: MASTER_EXPIRY_def word_le_nat_alt)
  moreover have "CHR '':'' \<notin> set (tk_session_id tk)"
    using assms(6) by (auto simp: list_all_iff b64_char_def)
  ultimately show ?thesis using session_master_ok [OF _ assms(5,7,3)] tk by blast
qed

text \<open>A direct connection relays bytes unchanged. What a copy writes is a prefix of what it reads, in order; when it
  ends well it has written everything, up to the end of the input, and counted it.\<close>

theorem direct_copy_relays:
  assumes "RData [] \<notin> set rd" and "copy_with_write_timeout rd sk 0 = (rd', sk', r)"
  shows "\<exists>out. sk_sent sk' = sk_sent sk @ out \<and> prefix out (script_bytes rd)
    \<and> (\<forall>n. r = Ok n \<longrightarrow> out = script_bytes rd \<and> n = length out \<and> rd' = [])"
  using copy_sent [OF assms] by simp

text \<open>Accepted redirect rules are well formed: one per section, in order, with pairwise different listen addresses,
  and targets of the form host:port with a non-empty host and a port that is a 16-bit number.\<close>

theorem redirect_rules_wellformed:
  assumes "redirect_parse_all pa secs [] = Ok rules"
  shows "distinct (map rr_listen rules) \<and> map (\<lambda>sec. pa (rd_listen sec)) secs = map (Some \<circ> rr_listen) rules
    \<and> (\<forall>rule \<in> set rules. \<exists>host port p. rr_target rule = host @ '':'' @ port \<and> host \<noteq> [] \<and> CHR '':'' \<notin> set port \<and> parse_u16 port = Some p)"
proof -
  have d: "distinct (map rr_listen rules)" and l: "list_all2 (\<lambda>sec rule. redirect_parse pa sec = Ok rule) secs rules"
    using redirect_parse_all_rules [OF assms] by auto
  have "list_all2 (\<lambda>sec rule. pa (rd_listen sec) = Some (rr_listen rule)) secs rules"
    by (rule list_all2_mono [OF l]) (drule redirect_parse_target, elim exE conjE, assumption)
  then have "map (\<lambda>sec. pa (rd_listen sec)) secs = map (Some \<circ> rr_listen) rules"
    by (induction rule: list_all2_induct) auto
  moreover have "\<exists>host port p. rr_target rule = host @ '':'' @ port \<and> host \<noteq> [] \<and> CHR '':'' \<notin> set port \<and> parse_u16 port = Some p"
    if rule: "rule \<in> set rules" for rule
  proof -
    obtain sec where "redirect_parse pa sec = Ok rule" using list_all2_in_set2 [OF l rule] by blast
    then show ?thesis using redirect_parse_target by blast
  qed
  ultimately show ?thesis using d by blast
qed

text \<open>A resumption that is refused, followed by a handshake; a copy of three bytes; one redirect rule.\<close>

definition example_connect :: "nat \<Rightarrow> connect_obs" where
  "example_connect status = \<lparr>co_request = Ok (), co_outcome = ReqAnswer status [], co_race = DownloadFirst (Ok ())\<rparr>"

definition example_fsm_obs :: fsm_obs where
  "example_fsm_obs = \<lparr>fo_resume = example_connect 428, fo_meanwhile = id, fo_others = id, fo_now = 100, fo_stored = 101,
     fo_handshake = Ok \<lparr>tk_master = [2], tk_session_id = ''new''\<rparr>, fo_connect = example_connect 200\<rparr>"

theorem connection_attempts_bounded_witness:
  "\<exists>acts im. fsm_run example_fsm_obs (snd (fsm_new ''h:1'' [7] 50 (Some (''old'', [1], 40)))) (Some (''old'', [1], 40)) = (im, acts, Ok ())
     \<and> length acts = 3 \<and> distinct (presented acts) \<and> length (presented acts) \<le> 2"
proof -
  let ?t = "\<lparr>tk_master = [1], tk_session_id = ''old''\<rparr>" and ?f = "Resuming \<lparr>re_ticket = \<lparr>tk_master = [1], tk_session_id = ''old''\<rparr>, re_target_host = ''h:1'', re_payload = [7], re_halves = (True, True)\<rparr>"
  let ?acts = "[TunnelRequest ?t ''h:1'' [7], FullHandshake, TunnelRequest \<lparr>tk_master = [2], tk_session_id = ''new''\<rparr> ''h:1'' [7]]"
  have new: "fsm_new ''h:1'' [7] 50 (Some (''old'', [1], 40)) = (Some (''old'', [1], 40), ?f)"
    by (simp add: fsm_new_def load_and_validate_ticket_def ticket_is_valid_def saturating_sub_def MASTER_RESUME_WINDOW_SECS_def)
  have run: "fsm_run example_fsm_obs ?f (Some (''old'', [1], 40)) =
      (Some (''new'', [2], 101), [TunnelRequest ?t ''h:1'' [7], FullHandshake, TunnelRequest \<lparr>tk_master = [2], tk_session_id = ''new''\<rparr> ''h:1'' [7]], Ok ())"
    by (simp add: example_fsm_obs_def example_connect_def try_resume_def try_pq_connect_def check_response_status_def is_success_def
        race_upload_download_def invalidate_stale_master_def handshake_ticket_def load_and_validate_ticket_def Let_def)
  have "distinct (presented ?acts) \<and> length (presented ?acts) \<le> 2"
    using connection_attempts_bounded [OF new run] by (simp add: example_fsm_obs_def)
  then show ?thesis using new run by auto
qed

theorem resumed_key_accepted_witness:
  "session_master example_suite 1190 (''ab'' @ '':'' @ b64_encode url_b64 [1] @ '':'' @ b64_encode url_b64 [2]) (ap_stores example_app)
     = (ap_stores example_app, Ok (b64_encode url_b64 [1], b64_encode url_b64 [2], replicate 32 3))"
proof -
  let ?tk = "\<lparr>tk_master = replicate 32 3, tk_session_id = ''ab''\<rparr> :: pq_session_ticket"
  have 1: "load_and_validate_ticket 1200 (Some (''ab'', replicate 32 3, 40)) = (Some (''ab'', replicate 32 3, 40), Some ?tk)"
    by (simp add: load_and_validate_ticket_def ticket_is_valid_def saturating_sub_def MASTER_RESUME_WINDOW_SECS_def)
  have 2: "map_of (st_masters (ap_stores example_app)) (tk_session_id ?tk) = Some (''u'', replicate 32 3, 7)"
    by (simp add: example_app_def empty_stores_def registry_new_def)
  have 3: "unat (saturating_sub (1190 :: u64) 7) \<le> unat (saturating_sub (1200 :: u64) 40) + 30" by (simp add: saturating_sub_def)
  have 4: "list_all b64_char (tk_session_id ?tk)" and 5: "su_uuid example_suite (tk_session_id ?tk) = Some 0"
    by (simp_all add: b64_char_def example_suite_def)
  show ?thesis using resumed_key_accepted [OF 1 _ 2 3 url_b64_correct 4 5, of "[1]" "[2]"] by simp
qed

theorem direct_copy_relays_witness:
  "\<exists>rd sk. copy_with_write_timeout [RData [1, 2], RPending, RData [3]] \<lparr>sk_script = [Accept 1, Accept 5, Accept 5], sk_sent = []\<rparr> 0 = (rd, sk, Ok 3)
     \<and> sk_sent sk = [1, 2, 3]"
proof -
  let ?sk = "\<lparr>sk_script = [Accept 1, Accept 5, Accept 5], sk_sent = []\<rparr> :: sock"
  have c: "copy_with_write_timeout [RData [1, 2], RPending, RData [3]] ?sk 0 = ([], \<lparr>sk_script = [], sk_sent = [1, 2, 3]\<rparr>, Ok 3)"
    by (simp add: copy_with_write_timeout.simps write_with_timeout.simps COPY_BUF_SIZE_def)
  then show ?thesis using direct_copy_relays [OF _ c] by simp
qed

theorem redirect_rules_wellformed_witness:
  "\<exists>rules. redirect_parse_all Some [\<lparr>rd_listen = ''l'', rd_target = ''h:22''\<rparr>] [] = Ok rules \<and> distinct (map rr_listen rules)"
proof -
  have t: "str_trim ''h:22'' = ''h:22''" by (rule str_trim_id) (simp add: cookie_char_def b64_char_def)
  have "redirect_parse_all Some [\<lparr>rd_listen = ''l'', rd_target = ''h:22''\<rparr>] [] = Ok [\<lparr>rr_listen = ''l'', rr_target = ''h:22''\<rparr>]"
    by (simp add: redirect_parse_def t rsplit_once_def split_once_def parse_u16_def parse_unsigned_def is_ascii_digit_def
        dec_val_def digit_val_def)
  then show ?thesis using redirect_rules_wellformed by blast
qed

end
