(* ===== verification/Warp_Client.thy ===== *)
theory Warp_Client
  imports Masque Ip_Addr "HOL-Library.Sublist"
begin

text \<open>
  The WARP client, \<^verbatim>\<open>src/src/warp/mod.rs\<close>, and the CONNECT exchange of \<^verbatim>\<open>src/src/warp/masque.rs\<close>: the targets that are
  connected directly instead, the endpoint address, the shared MASQUE connection and the two attempts to open a stream
  on it.

  A QUIC connection is a number; whether it is still usable at the points where the code asks, what other tasks do to the
  shared connection while this one waits, and how establishing a connection and opening a stream end are observations.
  Networks (\<open>ip_network\<close>) are a parameter: their parser and their membership test.

  Lemmas: the tests on octets and segments are membership in a list of address blocks; the authority of a CONNECT names
  the address and port; a dial makes at most two CONNECTs and drops only a connection that it found closed.
\<close>

section \<open>Configuration\<close>

definition DEFAULT_SNI :: string where "DEFAULT_SNI = ''consumer-masque-proxy.cloudflareclient.com''"
definition DEFAULT_PORT :: nat where "DEFAULT_PORT = 443"
definition CONNECT_TIMEOUT_SECS :: nat where "CONNECT_TIMEOUT_SECS = 10"
definition KEEPALIVE_SECS :: nat where "KEEPALIVE_SECS = 25"
definition IDLE_TIMEOUT_SECS :: nat where "IDLE_TIMEOUT_SECS = 60"
definition FALLBACK_ENDPOINT :: string where "FALLBACK_ENDPOINT = ''162.159.192.1''"

record warp_section =
  wn_enabled :: bool
  wn_config_path :: "string option"
  wn_endpoint :: "string option"
  wn_endpoint_v6 :: "string option"
  wn_port :: "nat option"
  wn_sni :: "string option"
  wn_connect_timeout_secs :: "nat option"
  wn_keepalive_secs :: "nat option"
  wn_idle_timeout_secs :: "nat option"
  wn_register_model :: "string option"
  wn_register_locale :: "string option"
  wn_insecure_skip_verify :: bool
  wn_bypass_private :: bool
  wn_bypass_cidrs :: "string list"
  wn_bypass_suffixes :: "string list"

record warp_credentials =
  cr_id :: string
  cr_access_token :: string
  cr_private_key :: string
  cr_endpoint_pub_key :: string
  cr_ipv4 :: string
  cr_ipv6 :: string
  cr_endpoint_v4 :: string
  cr_endpoint_v6 :: string

fun or_opt :: "'a option \<Rightarrow> 'a option \<Rightarrow> 'a option" where
  "or_opt (Some a) y = Some a"
| "or_opt None y = y"

definition unwrap_or :: "'a option \<Rightarrow> 'a \<Rightarrow> 'a" where
  "unwrap_or x d = (case x of Some a \<Rightarrow> a | None \<Rightarrow> d)"

definition nonempty :: "string \<Rightarrow> string option" where
  "nonempty s = (if s = [] then None else Some s)"

definition resolve_endpoint :: "warp_section \<Rightarrow> warp_credentials \<Rightarrow> (ip_addr, string) result" where
  "resolve_endpoint sec creds =
     (let raw = unwrap_or
            (or_opt (Option.bind (or_opt (wn_endpoint_v6 sec) (wn_endpoint sec)) nonempty)
               (or_opt (nonempty (cr_endpoint_v4 creds)) (nonempty (cr_endpoint_v6 creds)))) FALLBACK_ENDPOINT;
          trimmed = trim_end_matches (\<lambda>c. c = CHR '']'') (trim_start_matches (\<lambda>c. c = CHR ''['') raw)
      in ok_or (parse_ip trimmed) (''warp: invalid endpoint address `'' @ raw @ ''`''))"

record masque_config =
  mc_endpoint :: "ip_addr \<times> nat"
  mc_sni :: string
  mc_connect_timeout :: nat
  mc_keepalive :: nat
  mc_idle_timeout :: nat

text \<open>The part of \<open>WarpClient::init\<close> that settles the configuration.\<close>

definition warp_masque_config :: "warp_section \<Rightarrow> warp_credentials \<Rightarrow> (masque_config, string) result" where
  "warp_masque_config sec creds =
     rbind (resolve_endpoint sec creds) (\<lambda>addr.
       Ok \<lparr>mc_endpoint = (addr, unwrap_or (wn_port sec) DEFAULT_PORT),
           mc_sni = unwrap_or (wn_sni sec) DEFAULT_SNI,
           mc_connect_timeout = unwrap_or (wn_connect_timeout_secs sec) CONNECT_TIMEOUT_SECS,
           mc_keepalive = unwrap_or (wn_keepalive_secs sec) KEEPALIVE_SECS,
           mc_idle_timeout = unwrap_or (wn_idle_timeout_secs sec) IDLE_TIMEOUT_SECS\<rparr>)"

section \<open>Targets that bypass WARP\<close>

record 'n ip_network =
  iw_parse :: "string \<Rightarrow> 'n option"
  iw_contains :: "'n \<Rightarrow> ip_addr \<Rightarrow> bool"

record 'n warp_bypass =
  wb_private :: bool
  wb_networks :: "'n list"
  wb_suffixes :: "string list"

fun parse_networks :: "'n ip_network \<Rightarrow> string list \<Rightarrow> ('n list, string) result" where
  "parse_networks W [] = Ok []"
| "parse_networks W (cidr # cidrs) =
     rbind (ok_or (iw_parse W cidr) (''warp: invalid bypass_cidrs entry `'' @ cidr @ ''`'')) (\<lambda>net.
     rbind (parse_networks W cidrs) (\<lambda>nets. Ok (net # nets)))"

definition warp_bypass_new :: "'n ip_network \<Rightarrow> warp_section \<Rightarrow> ('n warp_bypass, string) result" where
  "warp_bypass_new W sec =
     rbind (parse_networks W (wn_bypass_cidrs sec)) (\<lambda>networks.
       Ok \<lparr>wb_private = wn_bypass_private sec, wb_networks = networks,
           wb_suffixes = filter (\<lambda>s. s \<noteq> [])
             (map (\<lambda>s. map to_ascii_lowercase (trim_start_matches (\<lambda>c. c = CHR ''.'') s)) (wn_bypass_suffixes sec))\<rparr>)"

definition name_is_direct :: "'n warp_bypass \<Rightarrow> string \<Rightarrow> bool" where
  "name_is_direct B host =
     (let bare = trim_end_matches (\<lambda>c. c = CHR '']'') (trim_start_matches (\<lambda>c. c = CHR ''['') host) in
      if eq_ignore_ascii_case bare ''localhost'' then True
      else (let lower = map to_ascii_lowercase bare in
            list_ex (\<lambda>s. lower = s \<or> (case strip_suffix s lower of Some pre \<Rightarrow> strip_suffix ''.'' pre \<noteq> None | None \<Rightarrow> False))
              (wb_suffixes B)))"

definition is_private_v4 :: "u32 \<Rightarrow> bool" where
  "is_private_v4 ip =
     (let octets = v4_octets ip in
      v4_is_loopback ip \<or> v4_is_private ip \<or> v4_is_link_local ip \<or> v4_is_broadcast ip \<or> v4_is_unspecified ip
      \<or> v4_is_multicast ip \<or> v4_is_documentation ip \<or> (octets ! 0 = 100 \<and> 64 \<le> octets ! 1 \<and> octets ! 1 < 128))"

definition bypass_contains :: "'n ip_network \<Rightarrow> 'n warp_bypass \<Rightarrow> ip_addr \<Rightarrow> bool" where
  "bypass_contains W B ip =
     (if list_ex (\<lambda>n. iw_contains W n ip) (wb_networks B) then True
      else if \<not> wb_private B then False
      else (case ip of
              IpV4 v4 \<Rightarrow> is_private_v4 v4
            | IpV6 v6 \<Rightarrow>
                (case to_ipv4_mapped v6 of
                   Some v4 \<Rightarrow> is_private_v4 v4
                 | None \<Rightarrow> v6_is_loopback v6 \<or> v6_is_unspecified v6 \<or> v6_is_unique_local v6
                           \<or> v6_is_unicast_link_local v6 \<or> v6_is_multicast v6)))"

section \<open>Opening a stream\<close>

fun authority :: "ip_addr \<Rightarrow> nat \<Rightarrow> string" where
  "authority (IpV4 v4) port = show_v4 v4 @ '':'' @ show_nat port"
| "authority (IpV6 v6) port = ''['' @ show_v6 v6 @ '']:'' @ show_nat port"

text \<open>\<open>MasqueConn::establish\<close> sends this on its three unidirectional streams.\<close>

definition establish_streams :: "bytes list" where
  "establish_streams = [control_stream_bytes, [ucast STREAM_QPACK_ENCODER], [ucast STREAM_QPACK_DECODER]]"

text \<open>\<open>MasqueConn::open\<close> on a request stream: \<open>None\<close> is a write that never completes.\<close>

definition masque_open ::
    "string \<Rightarrow> sock \<Rightarrow> read_event list \<Rightarrow> sock \<times> (masque_send \<times> masque_recv \<times> read_event list, string) result option" where
  "masque_open auth send recv =
     (let block = encode_connect_headers auth;
          frame = put_varint (put_varint [] FRAME_HEADERS) (of_nat (length block)) @ block
      in case write_all frame send of
           (send, None) \<Rightarrow> (send, None)
         | (send, Some (Err e)) \<Rightarrow> (send, Some (Err (''warp: send CONNECT '' @ auth)))
         | (send, Some (Ok u)) \<Rightarrow>
             (case read_response_head auth [] recv of
                (recv, Err e) \<Rightarrow> (send, Some (Err e))
              | (recv, Ok (status, pending)) \<Rightarrow>
                  if \<not> (200 \<le> status \<and> status < 300)
                  then (send, Some (Err (''warp: CONNECT '' @ auth @ '' rejected with status '' @ show_nat status)))
                  else (send, Some (Ok (masque_send_new send, masque_recv_new pending, recv)))))"

section \<open>The shared connection\<close>

record warp_state =
  wc_cached :: "nat option"
  wc_closed :: "nat list"

text \<open>What one attempt meets: the usability of the cached connection before and after the lock, what others do while it
  waits for the lock and for the stream, and how establishing and opening end.\<close>

record 's attempt_obs =
  at_usable :: bool
  at_others :: "warp_state \<Rightarrow> warp_state"
  at_usable_locked :: bool
  at_establish :: "(nat, string) result"
  at_open :: "string \<Rightarrow> ('s, string) result"
  at_meanwhile :: "warp_state \<Rightarrow> warp_state"
  at_usable_after :: bool

definition warp_connection :: "'s attempt_obs \<Rightarrow> warp_state \<Rightarrow> warp_state \<times> (nat, string) result" where
  "warp_connection ob w =
     (case (if at_usable ob then wc_cached w else None) of
        Some conn \<Rightarrow> (w, Ok conn)
      | None \<Rightarrow>
          (let w = at_others ob w in
           case (if at_usable_locked ob then wc_cached w else None) of
             Some conn \<Rightarrow> (w, Ok conn)
           | None \<Rightarrow>
               (case at_establish ob of
                  Err e \<Rightarrow> (w, Err e)
                | Ok conn \<Rightarrow> (w\<lparr>wc_cached := Some conn\<rparr>, Ok conn))))"

definition invalidate :: "nat \<Rightarrow> warp_state \<Rightarrow> warp_state" where
  "invalidate stale w =
     (if wc_cached w = Some stale then w\<lparr>wc_closed := wc_closed w @ [stale], wc_cached := None\<rparr> else w)"

text \<open>The loop over the attempts; the second component lists the connections on which a CONNECT was sent.\<close>

fun dial_loop :: "string \<Rightarrow> 's attempt_obs list \<Rightarrow> warp_state \<Rightarrow> string option \<Rightarrow> warp_state \<times> nat list \<times> ('s, string) result" where
  "dial_loop auth [] w last_error = (w, [], Err (unwrap_or last_error ''warp: CONNECT failed''))"
| "dial_loop auth (ob # obs) w last_error =
     (case warp_connection ob w of
        (w, Err e) \<Rightarrow> (w, [], Err e)
      | (w, Ok conn) \<Rightarrow>
          (case at_open ob auth of
             Ok stream \<Rightarrow> (w, [conn], Ok stream)
           | Err e \<Rightarrow>
               (let stale = \<not> at_usable_after ob;
                    w = at_meanwhile ob w;
                    w = (if stale then invalidate conn w else w)
                in if \<not> stale then (w, [conn], Err e)
                   else (let (w, conns, r) = dial_loop auth obs w (Some e) in (w, conn # conns, r)))))"

definition warp_dial ::
    "ip_addr \<Rightarrow> nat \<Rightarrow> 's attempt_obs \<Rightarrow> 's attempt_obs \<Rightarrow> warp_state \<Rightarrow> warp_state \<times> nat list \<times> ('s, string) result" where
  "warp_dial ip port first second w = dial_loop (authority ip port) [first, second] w None"

section \<open>Lemmas: address blocks\<close>

definition in_block :: "'a::len word \<Rightarrow> 'a word \<times> nat \<Rightarrow> bool" where
  "in_block a net \<longleftrightarrow> drop_bit (LENGTH('a) - snd net) a = drop_bit (LENGTH('a) - snd net) (fst net)"

text \<open>The blocks that \<^verbatim>\<open>CONFIGURATION.md\<close> (section 3.4) names as private: 10/8, 172.16/12, 192.168/16, 127/8, 169.254/16, 100.64/10, ::1,
  fc00::/7 and fe80::/10. The code tests for more: the broadcast and the unspecified addresses, multicast (224/4, ff00::/8) and
  the three documentation networks.\<close>

definition documented_blocks_v4 :: "(u32 \<times> nat) list" where
  "documented_blocks_v4 =
     [(0x0A000000, 8), (0xAC100000, 12), (0xC0A80000, 16), (0x7F000000, 8), (0xA9FE0000, 16), (0x64400000, 10)]"

definition further_blocks_v4 :: "(u32 \<times> nat) list" where
  "further_blocks_v4 =
     [(0xFFFFFFFF, 32), (0, 32), (0xE0000000, 4), (0xC0000200, 24), (0xC6336400, 24), (0xCB007100, 24)]"

definition documented_blocks_v6 :: "(128 word \<times> nat) list" where
  "documented_blocks_v6 = [(1, 128), (0xFC000000000000000000000000000000, 7), (0xFE800000000000000000000000000000, 10)]"

definition further_blocks_v6 :: "(128 word \<times> nat) list" where
  "further_blocks_v6 = [(0, 128), (0xFF000000000000000000000000000000, 8)]"

definition private_blocks_v4 :: "(u32 \<times> nat) list" where
  "private_blocks_v4 =
     [(0x7F000000, 8), (0x0A000000, 8), (0xAC100000, 12), (0xC0A80000, 16), (0xA9FE0000, 16), (0xFFFFFFFF, 32), (0, 32),
      (0xE0000000, 4), (0xC0000200, 24), (0xC6336400, 24), (0xCB007100, 24), (0x64400000, 10)]"

definition private_blocks_v6 :: "(128 word \<times> nat) list" where
  "private_blocks_v6 =
     [(1, 128), (0, 128), (0xFC000000000000000000000000000000, 7), (0xFE800000000000000000000000000000, 10),
      (0xFF000000000000000000000000000000, 8)]"

lemma private_blocks_parts:
  "list_ex P private_blocks_v4 \<longleftrightarrow> list_ex P documented_blocks_v4 \<or> list_ex P further_blocks_v4"
  "list_ex Q private_blocks_v6 \<longleftrightarrow> list_ex Q documented_blocks_v6 \<or> list_ex Q further_blocks_v6"
  by (auto simp: private_blocks_v4_def documented_blocks_v4_def further_blocks_v4_def private_blocks_v6_def documented_blocks_v6_def
      further_blocks_v6_def)

text \<open>Two blocks overlap only if the larger one contains the address of the smaller one.\<close>

lemma in_block_both:
  assumes "in_block a x" and "in_block a y" and "snd x \<le> snd y"
  shows "in_block (fst y) x"
proof -
  have "drop_bit k w = drop_bit (k - j) (drop_bit j w)" if "j \<le> k" for j k and w :: "'a word" using that by simp
  from this [OF diff_le_mono2 [OF assms(3), of "LENGTH('a)"]] show ?thesis using assms(1,2) unfolding in_block_def by metis
qed

definition overlap :: "'a::len word \<times> nat \<Rightarrow> 'a word \<times> nat \<Rightarrow> bool" where
  "overlap x y \<longleftrightarrow> (if snd x \<le> snd y then in_block (fst y) x else in_block (fst x) y)"

lemma blocks_apart:
  assumes "list_all (\<lambda>x. list_all (\<lambda>y. \<not> overlap x y) ys) xs"
  shows "\<not> (list_ex (in_block a) xs \<and> list_ex (in_block a) ys)"
proof
  assume "list_ex (in_block a) xs \<and> list_ex (in_block a) ys"
  then obtain x y where m: "x \<in> set xs" "y \<in> set ys" and a: "in_block a x" "in_block a y" by (auto simp: list_ex_iff)
  then have "overlap x y" using in_block_both [OF a] in_block_both [OF a(2,1)] by (simp add: overlap_def)
  then show False using assms m by (auto simp: list_all_iff)
qed

lemma further_blocks_undocumented:
  "\<not> (list_ex (in_block a) documented_blocks_v4 \<and> list_ex (in_block a) further_blocks_v4)"
  "\<not> (list_ex (in_block b) documented_blocks_v6 \<and> list_ex (in_block b) further_blocks_v6)"
  by (rule blocks_apart, code_simp)+

lemma list_ex_rules: "list_ex P [] \<longleftrightarrow> False" "list_ex P (x # xs) \<longleftrightarrow> P x \<or> list_ex P xs"
  by simp_all

lemma drop_bit_eq_iff: "drop_bit k a = drop_bit k b \<longleftrightarrow> unat a div 2 ^ k = unat b div 2 ^ k" for a b :: "'a::len word"
  unfolding word_unat_eq_iff unat_drop_bit_eq by (simp add: drop_bit_eq_div)

lemma div_eq_range: "0 < k \<Longrightarrow> n div k = q \<longleftrightarrow> q * k \<le> n \<and> n < Suc q * k" for n k q :: nat
proof -
  assume k: "0 < k"
  have "n div k = q \<longleftrightarrow> q \<le> n div k \<and> n div k < Suc q" by auto
  then show ?thesis by (simp only: less_eq_div_iff_mult_less_eq [OF k] div_less_iff_less_mult [OF k])
qed

lemma list_of_length_4: "length xs = 4 \<Longrightarrow> \<exists>a b c d. xs = [a, b, c, d]"
  by (auto simp: length_Suc_conv numeral_eq_Suc)

lemma v4_octets_eq:
  assumes "N = unat a"
  shows "\<exists>o0 o1 o2 o3. v4_octets a = [o0, o1, o2, o3] \<and> N = ((o0 * 256 + o1) * 256 + o2) * 256 + o3 \<and> o0 < 256 \<and> o1 < 256 \<and> o2 < 256 \<and> o3 < 256"
proof -
  obtain o0 o1 o2 o3 where os: "v4_octets a = [o0, o1, o2, o3]" using list_of_length_4 [of "v4_octets a"] by auto
  moreover have "undigits 256 (v4_octets a) = unat a"
    using unsigned_less [of a, where ?'a = nat] by (simp add: v4_octets_def undigits_digits)
  ultimately show ?thesis using v4_octets_bound [of _ a] assms by (simp add: undigits_def)
qed

lemma is_private_v4_blocks: "is_private_v4 a \<longleftrightarrow> list_ex (in_block a) private_blocks_v4"
proof -
  obtain o0 o1 o2 o3 where os: "v4_octets a = [o0, o1, o2, o3]" and b: "o0 < 256" "o1 < 256" "o2 < 256" "o3 < 256"
      and n: "unat a = ((o0 * 256 + o1) * 256 + o2) * 256 + o3"
    using v4_octets_eq [OF refl, of a] by blast
  have dm: "(q * k + m) div k = q" if "m < k" for q k m :: nat using that by simp
  have d1: "unat a div 256 = (o0 * 256 + o1) * 256 + o2" unfolding n by (rule dm [OF b(4)])
  have "unat a div 65536 = unat a div 256 div 256" by (simp add: div_mult2_eq [symmetric])
  then have d2: "unat a div 65536 = o0 * 256 + o1" using dm [OF b(3)] unfolding d1 by simp
  have e: "(o0 * 256 + o1) div 256 = o0" "(o0 * 256 + o1) div 16 = o0 * 16 + o1 div 16" "(o0 * 256 + o1) div 64 = o0 * 4 + o1 div 64"
    using dm [OF b(2), of o0] div_plus_div_distrib_dvd_left [of 16 "o0 * 256" o1] div_plus_div_distrib_dvd_left [of 64 "o0 * 256" o1] by simp_all
  have "unat a div 16777216 = unat a div 65536 div 256" "unat a div 1048576 = unat a div 65536 div 16" "unat a div 4194304 = unat a div 65536 div 64"
    by (simp_all add: div_mult2_eq [symmetric])
  then have d3: "unat a div 16777216 = o0" "unat a div 1048576 = o0 * 16 + o1 div 16" "unat a div 4194304 = o0 * 4 + o1 div 64"
    unfolding d2 e by simp_all
  have "unat a div 268435456 = unat a div 16777216 div 16" by (simp add: div_mult2_eq [symmetric])
  then have d4: "unat a div 268435456 = o0 div 16" unfolding d3 .
  note d = d1 d2 d3 d4
  have z: "a = 0 \<longleftrightarrow> o0 = 0 \<and> o1 = 0 \<and> o2 = 0 \<and> o3 = 0" using n by (auto simp: word_unat_eq_iff)
  have blk: "in_block a (net, p) \<longleftrightarrow> unat a div 2 ^ (32 - p) = unat net div 2 ^ (32 - p)" for net p by (simp add: in_block_def drop_bit_eq_iff)
  have 1: "in_block a (0x7F000000, 8) \<longleftrightarrow> o0 = 127" "in_block a (0x0A000000, 8) \<longleftrightarrow> o0 = 10" "in_block a (0xE0000000, 4) \<longleftrightarrow> o0 div 16 = 14"
    by (simp_all add: blk d)
  have eq: "x * k + q = y * k + m \<longleftrightarrow> x = y \<and> q = m" if "q < k" "m < k" for x y k q m :: nat
    using dm [OF that(1), of x] dm [OF that(2), of y] by auto
  have 2: "in_block a (0xAC100000, 12) \<longleftrightarrow> o0 = 172 \<and> o1 div 16 = 1" "in_block a (0x64400000, 10) \<longleftrightarrow> o0 = 100 \<and> o1 div 64 = 1"
    using b(2) eq [of "o1 div 16" 16 1 o0 172] eq [of "o1 div 64" 4 1 o0 100] by (simp_all add: blk d less_mult_imp_div_less)
  have 3: "in_block a (0xC0A80000, 16) \<longleftrightarrow> o0 = 192 \<and> o1 = 168" "in_block a (0xA9FE0000, 16) \<longleftrightarrow> o0 = 169 \<and> o1 = 254"
    using b(2) eq [of o1 256 168 o0 192] eq [of o1 256 254 o0 169] by (simp_all add: blk d)
  have three: "(o0 * 256 + o1) * 256 + o2 = (x * 256 + y) * 256 + z \<longleftrightarrow> o0 = x \<and> o1 = y \<and> o2 = z" if "y < 256" "z < 256" for x y z
    unfolding eq [OF b(3) that(2)] eq [OF b(2) that(1)] by (rule conj_assoc)
  have four: "((o0 * 256 + o1) * 256 + o2) * 256 + o3 = ((x * 256 + y) * 256 + z) * 256 + w \<longleftrightarrow> o0 = x \<and> o1 = y \<and> o2 = z \<and> o3 = w"
      if "y < 256" "z < 256" "w < 256" for x y z w
    unfolding eq [OF b(4) that(3)] three [OF that(1,2)] by (simp only: conj_assoc)
  have "in_block a (net, 32) \<longleftrightarrow> unat a = unat net" for net by (simp add: blk)
  then have 4: "in_block a (0xFFFFFFFF, 32) \<longleftrightarrow> o0 = 255 \<and> o1 = 255 \<and> o2 = 255 \<and> o3 = 255" "in_block a (0, 32) \<longleftrightarrow> o0 = 0 \<and> o1 = 0 \<and> o2 = 0 \<and> o3 = 0"
    using four [of 255 255 255 255] four [of 0 0 0 0] unfolding n by simp_all
  have "in_block a (net, 24) \<longleftrightarrow> unat a div 256 = unat net div 256" for net by (simp add: blk)
  then have 6: "in_block a (0xC0000200, 24) \<longleftrightarrow> o0 = 192 \<and> o1 = 0 \<and> o2 = 2" "in_block a (0xC6336400, 24) \<longleftrightarrow> o0 = 198 \<and> o1 = 51 \<and> o2 = 100"
      "in_block a (0xCB007100, 24) \<longleftrightarrow> o0 = 203 \<and> o1 = 0 \<and> o2 = 113"
    using three [of 0 2 192] three [of 51 100 198] three [of 0 113 203] unfolding d1 by simp_all
  have "list_ex (in_block a) private_blocks_v4 \<longleftrightarrow>
      o0 = 127 \<or> o0 = 10 \<or> (o0 = 172 \<and> o1 div 16 = 1) \<or> (o0 = 192 \<and> o1 = 168) \<or> (o0 = 169 \<and> o1 = 254)
      \<or> (o0 = 255 \<and> o1 = 255 \<and> o2 = 255 \<and> o3 = 255) \<or> (o0 = 0 \<and> o1 = 0 \<and> o2 = 0 \<and> o3 = 0) \<or> o0 div 16 = 14
      \<or> (o0 = 192 \<and> o1 = 0 \<and> o2 = 2) \<or> (o0 = 198 \<and> o1 = 51 \<and> o2 = 100) \<or> (o0 = 203 \<and> o1 = 0 \<and> o2 = 113) \<or> (o0 = 100 \<and> o1 div 64 = 1)"
    by (simp only: private_blocks_v4_def list_ex_rules 1 2 3 4 6 simp_thms)
  moreover have "o1 div 16 = 1 \<longleftrightarrow> 16 \<le> o1 \<and> o1 \<le> 31" "o0 div 16 = 14 \<longleftrightarrow> 224 \<le> o0 \<and> o0 \<le> 239" "o1 div 64 = 1 \<longleftrightarrow> 64 \<le> o1 \<and> o1 < 128"
    by (auto simp: div_eq_range)
  moreover have "is_private_v4 a \<longleftrightarrow>
      o0 = 127 \<or> (o0 = 10 \<or> (o0 = 172 \<and> 16 \<le> o1 \<and> o1 \<le> 31) \<or> (o0 = 192 \<and> o1 = 168)) \<or> (o0 = 169 \<and> o1 = 254)
      \<or> (o0 = 255 \<and> o1 = 255 \<and> o2 = 255 \<and> o3 = 255) \<or> (o0 = 0 \<and> o1 = 0 \<and> o2 = 0 \<and> o3 = 0) \<or> (224 \<le> o0 \<and> o0 \<le> 239)
      \<or> ((o0 = 192 \<and> o1 = 0 \<and> o2 = 2) \<or> (o0 = 198 \<and> o1 = 51 \<and> o2 = 100) \<or> (o0 = 203 \<and> o1 = 0 \<and> o2 = 113)) \<or> (o0 = 100 \<and> 64 \<le> o1 \<and> o1 < 128)"
    by (simp add: is_private_v4_def v4_is_loopback_def v4_is_private_def v4_is_link_local_def v4_is_broadcast_def v4_is_unspecified_def
        v4_is_multicast_def v4_is_documentation_def os z Let_def)
  ultimately show ?thesis by (simp only: disj_assoc)
qed

lemma and_not_mask: "w AND NOT (mask k) = push_bit k (drop_bit k w)" for w :: "'a::len word"
  by (rule bit_eqI) (auto simp: bit_simps)

lemma high_bits_eq_iff: "w AND NOT (mask k) = v AND NOT (mask k) \<longleftrightarrow> drop_bit k w = drop_bit k v" for w v :: "'a::len word"
proof -
  have "drop_bit k (push_bit k (drop_bit k u)) = drop_bit k u" for u :: "'a word" by (rule bit_eqI) (auto simp: bit_simps dest: bit_imp_le_length)
  then show ?thesis unfolding and_not_mask by metis
qed

lemma digits_Cons: "digits b (Suc k) n = (n div b ^ k) mod b # digits b k n"
proof (induction k arbitrary: n)
  case (Suc k)
  then show ?case by (simp add: div_mult2_eq)
qed simp

lemma private_v6_blocks:
  "v6_is_loopback a \<or> v6_is_unspecified a \<or> v6_is_unique_local a \<or> v6_is_unicast_link_local a \<or> v6_is_multicast a
     \<longleftrightarrow> list_ex (in_block a) private_blocks_v6"
proof -
  define g where "g = unat a div 2 ^ 112"
  have "unat a < 2 ^ 112 * 65536" using unsigned_less [of a, where ?'a = nat] by simp
  then have lt: "g < 65536" unfolding g_def by (simp only: less_mult_imp_div_less mult.commute)
  have "digits 65536 8 (unat a) = (unat a div 65536 ^ 7) mod 65536 # digits 65536 7 (unat a)" using digits_Cons [of 65536 7] by simp
  then have g: "v6_segments a ! 0 = g" using lt by (simp add: v6_segments_def g_def)
  have ug: "unat (of_nat g :: u16) = g" using lt by (subst unat_of_nat) simp
  have blk: "in_block a (net, p) \<longleftrightarrow> unat a div 2 ^ (128 - p) = unat net div 2 ^ (128 - p)" for net p by (simp add: in_block_def drop_bit_eq_iff)
  have d: "unat a div 2 ^ (112 + k) = g div 2 ^ k" for k unfolding g_def by (simp add: power_add div_mult2_eq)
  have 1: "in_block a (1, 128) \<longleftrightarrow> a = 1" "in_block a (0, 128) \<longleftrightarrow> a = 0" by (simp_all add: in_block_def)
  have 2: "in_block a (0xFC000000000000000000000000000000, 7) \<longleftrightarrow> g div 512 = 126" using d [of 9] by (simp add: blk)
  have 3: "in_block a (0xFE800000000000000000000000000000, 10) \<longleftrightarrow> g div 64 = 1018" using d [of 6] by (simp add: blk)
  have 4: "in_block a (0xFF000000000000000000000000000000, 8) \<longleftrightarrow> g div 256 = 255" using d [of 8] by (simp add: blk)
  have m: "NOT (mask 9) = (0xFE00 :: u16)" "NOT (mask 6) = (0xFFC0 :: u16)" by code_simp+
  have "v6_is_unique_local a \<longleftrightarrow> (of_nat g :: u16) AND NOT (mask 9) = 0xFC00 AND NOT (mask 9)" 
    by (simp add: v6_is_unique_local_def g m)
  then have 5: "v6_is_unique_local a \<longleftrightarrow> g div 512 = 126" unfolding high_bits_eq_iff drop_bit_eq_iff ug by simp
  have "v6_is_unicast_link_local a \<longleftrightarrow> (of_nat g :: u16) AND NOT (mask 6) = 0xFE80 AND NOT (mask 6)"
    by (simp add: v6_is_unicast_link_local_def g m)
  then have 6: "v6_is_unicast_link_local a \<longleftrightarrow> g div 64 = 1018" unfolding high_bits_eq_iff drop_bit_eq_iff ug by simp
  show ?thesis
    by (simp only: private_blocks_v6_def list_ex_rules 1 2 3 4 5 6 simp_thms v6_is_loopback_def v6_is_unspecified_def v6_is_multicast_def g)
qed

section \<open>Lemmas: names and attempts\<close>

lemma name_is_direct_suffix:
  "name_is_direct B host \<longleftrightarrow>
     (let lower = map to_ascii_lowercase (trim_end_matches (\<lambda>c. c = CHR '']'') (trim_start_matches (\<lambda>c. c = CHR ''['') host))
      in lower = ''localhost'' \<or> (\<exists>s \<in> set (wb_suffixes B). lower = s \<or> (\<exists>pre. lower = pre @ ''.'' @ s)))"
proof -
  have suf: "(case strip_suffix s xs of Some pre \<Rightarrow> strip_suffix ''.'' pre \<noteq> None | None \<Rightarrow> False) \<longleftrightarrow> (\<exists>pre. xs = pre @ ''.'' @ s)"
    for s xs :: string
  proof
    assume "case strip_suffix s xs of Some pre \<Rightarrow> strip_suffix ''.'' pre \<noteq> None | None \<Rightarrow> False"
    then obtain pre pre' where "strip_suffix s xs = Some pre" "strip_suffix ''.'' pre = Some pre'" by (auto split: option.splits)
    then show "\<exists>pre. xs = pre @ ''.'' @ s" by (auto dest!: strip_suffix_SomeD)
  next
    assume "\<exists>pre. xs = pre @ ''.'' @ s"
    then obtain pre where "xs = (pre @ ''.'') @ s" by auto
    then show "case strip_suffix s xs of Some pre \<Rightarrow> strip_suffix ''.'' pre \<noteq> None | None \<Rightarrow> False" by (simp only: strip_suffix_append option.case) simp
  qed
  have "map to_ascii_lowercase ''localhost'' = ''localhost''" by code_simp
  then show ?thesis by (simp only: name_is_direct_def Let_def eq_ignore_ascii_case_def suf list_ex_iff) auto
qed

lemma warp_connection_cached:
  "warp_connection ob w = (w', Ok conn) \<Longrightarrow> wc_cached w' = Some conn"
  by (auto simp: warp_connection_def Let_def split: option.splits if_splits result.splits)

lemma parse_networks_length: "parse_networks W cs = Ok nets \<Longrightarrow> map Some nets = map (iw_parse W) cs"
  by (induction cs arbitrary: nets) (auto simp: rbind_Ok_iff)

section \<open>Properties\<close>

lemma to_digit_hex: "to_digit 10 c \<noteq> None \<Longrightarrow> to_digit 16 c \<noteq> None"
  by (auto simp: to_digit_def Let_def split: if_splits)

lemma show_octets_chars: "c \<in> set (show_octets first ns) \<Longrightarrow> to_digit 16 c \<noteq> None \<or> c = CHR ''.''"
  using show_radix_digits [of 10] to_digit_hex by (induction first ns rule: show_octets.induct) (auto split: if_splits)

lemma show_groups_chars: "c \<in> set (show_groups first gs) \<Longrightarrow> to_digit 16 c \<noteq> None \<or> c = CHR '':''"
  using show_radix_digits [of 16] by (induction first gs rule: show_groups.induct) (auto split: if_splits)

lemma show_ip_chars: "c \<in> set (show_ip ip) \<Longrightarrow> to_digit 16 c \<noteq> None \<or> c = CHR ''.'' \<or> c = CHR '':''"
proof (cases ip)
  case (IpV6 a)
  have "to_digit 16 (CHR ''f'') \<noteq> None" by (simp add: to_digit_def)
  moreover assume "c \<in> set (show_ip ip)"
  ultimately show ?thesis using IpV6 show_octets_chars [of c] show_groups_chars [of c]
    by (auto simp: show_v6_def show_v4_def Let_def split: option.splits prod.splits if_splits)
qed (use show_octets_chars [of c] in \<open>auto simp: show_v4_def\<close>)

lemma show_ip_no_bracket: "CHR ''['' \<notin> set (show_ip ip)" "CHR '']'' \<notin> set (show_ip ip)"
  using show_ip_chars [of "CHR ''[''" ip] show_ip_chars [of "CHR '']''" ip] by (auto simp: to_digit_def)

lemma dropWhile_bracket: "b \<notin> set xs \<Longrightarrow> dropWhile (\<lambda>c. c = b) xs = xs"
  by (cases xs) auto

lemma trim_brackets:
  assumes "host = show_ip ip \<or> host = ''['' @ show_ip ip @ '']''"
  shows "trim_end_matches (\<lambda>c. c = CHR '']'') (trim_start_matches (\<lambda>c. c = CHR ''['') host) = show_ip ip"
  using assms dropWhile_bracket [of "CHR ''[''" "show_ip ip"] dropWhile_bracket [of "CHR ''[''" "show_ip ip @ '']''"]
    dropWhile_bracket [of "CHR '']''" "rev (show_ip ip)"] show_ip_no_bracket [of ip]
  by (auto simp: trim_end_matches_def trim_start_matches_def)

text \<open>C36: which targets bypass WARP. They are those in a configured network and, with \<open>bypass_private\<close>, those in a block that the
  configuration guide lists as private or in one of the further blocks, none of whose addresses the guide lists: broadcast,
  unspecified, multicast and documentation addresses go out directly too. The tests on single octets and segments amount
  to membership in these blocks, and an IPv4-mapped IPv6 address is judged as the IPv4 address it stands for.\<close>

theorem warp_bypass_blocks:
  "(bypass_contains W B ip \<longleftrightarrow>
     list_ex (\<lambda>n. iw_contains W n ip) (wb_networks B)
     \<or> (wb_private B \<and> (case ip of
          IpV4 a \<Rightarrow> list_ex (in_block a) documented_blocks_v4 \<or> list_ex (in_block a) further_blocks_v4
        | IpV6 a \<Rightarrow> (case to_ipv4_mapped a of
            Some v4 \<Rightarrow> list_ex (in_block v4) documented_blocks_v4 \<or> list_ex (in_block v4) further_blocks_v4
          | None \<Rightarrow> list_ex (in_block a) documented_blocks_v6 \<or> list_ex (in_block a) further_blocks_v6))))
   \<and> \<not> (list_ex (in_block v4) documented_blocks_v4 \<and> list_ex (in_block v4) further_blocks_v4)
   \<and> \<not> (list_ex (in_block v6) documented_blocks_v6 \<and> list_ex (in_block v6) further_blocks_v6)"
proof (intro conjI further_blocks_undocumented)
qed (simp add: bypass_contains_def is_private_v4_blocks private_v6_blocks private_blocks_parts split: ip_addr.split option.split)

text \<open>The authority that a CONNECT through WARP carries names exactly the dialled address and port: it splits at its
  last colon into a host and a port that read back as the port and, without the brackets of the IPv6 form, as the address.\<close>

theorem authority_names_target:
  assumes "port < 2 ^ 16"
  shows "\<exists>host p. rsplit_once (CHR '':'') (authority ip port) = Some (host, p) \<and> parse_u16 p = Some port
    \<and> parse_ip (trim_end_matches (\<lambda>c. c = CHR '']'') (trim_start_matches (\<lambda>c. c = CHR ''['') host)) = Some ip"
proof -
  note port = parse_u16_show [OF assms]
  obtain host where host: "authority ip port = host @ CHR '':'' # show_nat port" "host = show_ip ip \<or> host = ''['' @ show_ip ip @ '']''"
  proof (cases ip)
    case (IpV4 a)
    then show thesis using that [of "show_v4 a"] by simp
  next
    case (IpV6 a)
    then show thesis using that [of "''['' @ show_v6 a @ '']''"] by simp
  qed
  then show ?thesis using rsplit_once_append [OF port(2)] port(1) trim_brackets [OF host(2)] parse_ip_show_ip by simp
qed

text \<open>A dial makes at most two CONNECTs. It makes the second only when the connection of the first was found closed,
  and then on another connection, unless someone else puts the closed one back; a stream it returns was opened by its
  last CONNECT for the authority of the target; and a failed attempt on a live connection is not repeated.\<close>

theorem warp_dial_attempts:
  assumes "warp_dial ip port first second w = (w', conns, r)"
  shows "length conns \<le> 2
    \<and> (\<forall>s. r = Ok s \<longrightarrow> conns \<noteq> [] \<and> at_open (if length conns = 1 then first else second) (authority ip port) = Ok s)
    \<and> (length conns = 2 \<longrightarrow> \<not> at_usable_after first)
    \<and> (\<forall>e. conns \<noteq> [] \<and> at_open first (authority ip port) = Err e \<and> at_usable_after first \<longrightarrow> r = Err e)
    \<and> (\<forall>c d. conns = [c, d] \<and> at_establish second \<noteq> Ok c \<and> (\<forall>x. wc_cached (at_others second x) = Some c \<longrightarrow> wc_cached x = Some c) \<longrightarrow> c \<noteq> d)"
proof -
  obtain w1 q where c1: "warp_connection first w = (w1, q)" by fastforce
  show ?thesis
  proof (cases q)
    case (Err e)
    then show ?thesis using assms c1 by (auto simp: warp_dial_def)
  next
    case (Ok c)
    show ?thesis
    proof (cases "at_open first (authority ip port)")
      case o: (Ok s)
      then show ?thesis using assms c1 Ok by (auto simp: warp_dial_def)
    next
      case o: (Err e)
      show ?thesis
      proof (cases "at_usable_after first")
        case True
        then show ?thesis using assms c1 Ok o by (auto simp: warp_dial_def)
      next
        case False
        define w2 where "w2 = invalidate c (at_meanwhile first w1)"
        have w2: "wc_cached w2 \<noteq> Some c" by (auto simp: w2_def invalidate_def)
        obtain w3 q2 where c2: "warp_connection second w2 = (w3, q2)" by fastforce
        have "c \<noteq> d" if "q2 = Ok d" "at_establish second \<noteq> Ok c" "\<forall>x. wc_cached (at_others second x) = Some c \<longrightarrow> wc_cached x = Some c" for d
          using c2 w2 that by (auto simp: warp_connection_def Let_def split: option.splits if_splits result.splits)
        then show ?thesis using assms c1 Ok o False c2 w2_def
          by (cases q2; cases "at_open second (authority ip port)") (auto simp: warp_dial_def Let_def split: if_splits)
      qed
    qed
  qed
qed

lemma connect_headers_short: "length auth < 2 ^ 61 \<Longrightarrow> length (encode_connect_headers auth) < 2 ^ 62"
proof -
  assume "length auth < 2 ^ 61"
  moreover have "length (put_int out f p w) \<le> length out + 11" for out f p w
    unfolding put_int_append [of out] using length_put_int_le [of f p w] by simp
  from this [of "[0, 0, INDEXED_STATIC OR STATIC_METHOD_CONNECT]" "0x50" 4 "ucast STATIC_AUTHORITY"]
    this [of "put_int [0, 0, INDEXED_STATIC OR STATIC_METHOD_CONNECT] 0x50 4 (ucast STATIC_AUTHORITY)" 0 7 "of_nat (length auth)"]
  have "length (encode_connect_headers auth) \<le> 25 + length auth" by (simp add: encode_connect_headers_def put_string_def Let_def)
  ultimately show ?thesis by simp
qed

lemma read_chunk_bytes: "read_chunk limit rd = (rd', Ok (Some d)) \<Longrightarrow> script_bytes rd = d @ script_bytes rd'"
  by (induction limit rd rule: read_chunk.induct) (auto split: if_splits)

text \<open>What a peer's byte stream says of a CONNECT: frames of other types, then a HEADERS frame whose block decodes to the
  status, then the bytes of the tunnel.\<close>

inductive peer_response :: "bytes \<Rightarrow> nat \<Rightarrow> bytes \<Rightarrow> bool" where
  answer: "get_frame_header s = Some (FRAME_HEADERS, of_nat (length block), length h) \<Longrightarrow> s = h @ block @ rest \<Longrightarrow>
     length block < 2 ^ 64 \<Longrightarrow> decode_status block = Ok status \<Longrightarrow> peer_response s status rest"
| other: "get_frame_header s = Some (ty, of_nat (length payload), length h) \<Longrightarrow> ty \<noteq> FRAME_HEADERS \<Longrightarrow> s = h @ payload @ s' \<Longrightarrow>
     length payload < 2 ^ 64 \<Longrightarrow> peer_response s' status rest \<Longrightarrow> peer_response s status rest"

lemma frame_parts:
  assumes "get_frame_header buf = Some (ty, len, used)" and "used + unat len \<le> length buf"
  obtains h p where "buf = h @ p @ drop (used + unat len) buf" and "length h = used" and "of_nat (length p) = len" and "length p < 2 ^ 64"
    and "p = take (unat len) (drop used buf)"
proof (rule that [of "take used buf" "take (unat len) (drop used buf)"])
  have "drop (used + unat len) buf = drop (unat len) (drop used buf)" by (simp add: add.commute)
  then show "buf = take used buf @ take (unat len) (drop used buf) @ drop (used + unat len) buf" by (simp only: append_take_drop_id)
  have l: "length (take (unat len) (drop used buf)) = unat len" using assms(2) by simp
  show "length (take used buf) = used" using assms(2) by simp
  show "of_nat (length (take (unat len) (drop used buf))) = len" unfolding l by simp
  show "length (take (unat len) (drop used buf)) < 2 ^ 64" unfolding l using unsigned_less [of len, where ?'a = nat] by simp
qed simp

lemma scan_response_head_peer:
  "(case scan_response_head auth buf of
      Inl (Ok (status, rest)) \<Rightarrow> \<forall>c. peer_response (buf @ c) status (rest @ c)
    | Inl (Err e) \<Rightarrow> True
    | Inr rest \<Rightarrow> \<forall>c status r. peer_response (rest @ c) status r \<longrightarrow> peer_response (buf @ c) status r)"
proof (induction auth buf rule: scan_response_head.induct)
  case (1 auth buf)
  note u = scan_response_head.simps [of auth buf]
  show ?case
  proof (cases "get_frame_header buf")
    case (Some hd)
    obtain ty len used where hd: "hd = (ty, len, used)" by (cases hd)
    show ?thesis
    proof (cases "used + unat len < 2 ^ 64 \<and> used + unat len \<le> length buf")
      case False
      then show ?thesis using u Some hd by (auto simp: Let_def)
    next
      case True
      obtain h p where f: "buf = h @ p @ drop (used + unat len) buf" "length h = used" "of_nat (length p) = len" "length p < 2 ^ 64"
          "p = take (unat len) (drop used buf)" using frame_parts [OF Some [unfolded hd]] True by blast
      have g: "get_frame_header (buf @ c) = Some (ty, of_nat (length p), length h)" for c
        using get_frame_header_append [OF Some] hd f(2,3) by simp
      have eq: "buf @ c = h @ p @ (drop (used + unat len) buf @ c)" for c using f(1) by (metis append.assoc)
      show ?thesis
      proof (cases "ty = FRAME_HEADERS")
        case ty: True
        show ?thesis
          using u Some hd True ty f(5) peer_response.answer [OF g [unfolded ty] eq f(4)]
          by (auto simp: Let_def split: result.splits)
      next
        case ty: False
        have sub: "scan_response_head auth buf = scan_response_head auth (drop (used + unat len) buf)"
          using u Some hd True ty by (simp add: Let_def)
        have IH: "case scan_response_head auth (drop (used + unat len) buf) of
            Inl (Ok (status, rest)) \<Rightarrow> \<forall>c. peer_response (drop (used + unat len) buf @ c) status (rest @ c)
          | Inl (Err e) \<Rightarrow> True
          | Inr rest \<Rightarrow> \<forall>c status r. peer_response (rest @ c) status r \<longrightarrow> peer_response (drop (used + unat len) buf @ c) status r"
          using "1.IH" [OF Some hd [symmetric] refl refl] True ty by simp
        show ?thesis unfolding sub using IH peer_response.other [OF g ty eq f(4)]
          by (auto split: sum.splits result.splits)
      qed
    qed
  qed (simp add: u)
qed

lemma read_response_head_peer:
  "read_response_head auth buf recv = (recv', Ok (status, pending)) \<Longrightarrow>
     peer_response (buf @ script_bytes recv) status (pending @ script_bytes recv')"
proof (induction auth buf recv rule: read_response_head.induct)
  case (1 auth buf recv)
  note u = read_response_head.simps [where authority = auth and buf = buf and recv = recv] and sc = scan_response_head_peer [where auth = auth and buf = buf]
  show ?case
  proof (cases "scan_response_head auth buf")
    case (Inl r)
    then show ?thesis using "1.prems" u sc by auto
  next
    case (Inr rest)
    obtain rd q where rc: "read_chunk 4096 recv = (rd, q)" by fastforce
    from "1.prems" u Inr rc obtain chunk where q: "q = Ok (Some chunk)" and le: "\<not> MAX_RESPONSE_HEAD_BUFFER < length rest"
        and more: "read_response_head auth (rest @ chunk) rd = (recv', Ok (status, pending))"
      by (auto split: if_splits result.splits option.splits)
    have "peer_response ((rest @ chunk) @ script_bytes rd) status (pending @ script_bytes recv')"
      using "1.IH" [OF Inr le rc [symmetric] q _ more] by simp
    then show ?thesis using read_chunk_bytes [OF rc [unfolded q]] sc Inr by auto
  qed
qed

text \<open>C37: opening a stream through WARP. The bytes sent are one HEADERS frame; its block is the empty prefix, the static entry for
  the method CONNECT and a literal with the static name for the authority, whose value is that of the CONNECT, and nothing else.
  On success the peer's byte stream consists of frames of other types, a HEADERS frame whose status is in the 200 class,
  and then exactly what the receiver starts with followed by what is still to come, so no byte of the tunnel is lost and
  none of the head is taken for one.\<close>

theorem masque_open_exchange:
  assumes "masque_open auth send recv = (send', Some (Ok (ms, mr, recv')))" and "length auth < 2 ^ 61"
  shows "\<exists>frame pending used block status. sk_sent send' = sk_sent send @ frame
    \<and> get_frame_header frame = Some (FRAME_HEADERS, of_nat (length block), used) \<and> drop used frame = block
    \<and> take 4 block = [0, 0, 0xCF, 0x50] \<and> get_string (drop 4 block) = Some (as_bytes auth, length block - 4, False)
    \<and> ms = masque_send_new send' \<and> mr = masque_recv_new pending
    \<and> peer_response (script_bytes recv) status (pending @ script_bytes recv') \<and> 200 \<le> status \<and> status < 300"
proof -
  define block where "block = encode_connect_headers auth"
  define frame where "frame = put_varint (put_varint [] FRAME_HEADERS) (of_nat (length block)) @ block"
  obtain sk q where w: "write_all frame send = (sk, q)" by fastforce
  obtain rd h where rh: "read_response_head auth [] recv = (rd, h)" by fastforce
  from assms(1) w rh obtain u status pending where q: "q = Some (Ok u)" and h: "h = Ok (status, pending)"
      and st: "200 \<le> status" "status < 300" and res: "send' = sk" "ms = masque_send_new sk" "mr = masque_recv_new pending" "recv' = rd"
    unfolding masque_open_def block_def [symmetric] Let_def frame_def [symmetric]
    by (auto split: option.splits result.splits if_splits)
  have sent: "sk_sent sk = sk_sent send @ frame" using write_all_sent [of frame send] w q by (auto dest: sent_prefix_ok)
  have lay: "take 4 block = [0, 0, 0xCF, 0x50]" "get_string (drop 4 block) = Some (as_bytes auth, length block - 4, False)"
    using connect_headers_layout [of auth "[]"] assms(2) by (simp_all add: block_def)
  have "length block < 2 ^ 62" using connect_headers_short [OF assms(2)] by (simp add: block_def)
  then have "unat (of_nat (length block) :: u64) < 2 ^ 62" by (simp add: unat_of_nat)
  then have hdr: "get_frame_header frame = Some (FRAME_HEADERS, of_nat (length block), varint_len FRAME_HEADERS + varint_len (of_nat (length block)))"
    unfolding frame_def by (intro get_frame_header_put) (simp_all add: wire_simps)
  have "drop (varint_len FRAME_HEADERS + varint_len (of_nat (length block))) frame = block"
    by (simp add: frame_def put_varint_append [of "put_varint [] FRAME_HEADERS"] length_put_varint)
  moreover have "peer_response (script_bytes recv) status (pending @ script_bytes rd)" using read_response_head_peer [OF rh [unfolded h]] by simp
  ultimately show ?thesis using sent hdr lay res st by blast
qed

text \<open>The IPv6 loopback on port 443; a dial whose first connection has been closed by the peer.\<close>

theorem authority_names_target_witness:
  "\<exists>host p. rsplit_once (CHR '':'') (authority (IpV6 1) 443) = Some (host, p) \<and> parse_u16 p = Some 443"
  using authority_names_target [of 443 "IpV6 1"] by auto

definition example_attempt :: "nat \<Rightarrow> bool \<Rightarrow> (nat, string) result \<Rightarrow> nat attempt_obs" where
  "example_attempt n usable opened =
     \<lparr>at_usable = True, at_others = id, at_usable_locked = True, at_establish = Ok n, at_open = (\<lambda>a. opened), at_meanwhile = id,
      at_usable_after = usable\<rparr>"

theorem warp_dial_attempts_witness:
  "\<exists>w' conns. warp_dial (IpV4 0) 80 (example_attempt 1 False (Err ''closed'')) (example_attempt 2 True (Ok 7))
       \<lparr>wc_cached = Some 0, wc_closed = []\<rparr> = (w', conns, Ok 7) \<and> length conns = 2 \<and> wc_closed w' = [0]"
proof -
  have "warp_dial (IpV4 0) 80 (example_attempt 1 False (Err ''closed'')) (example_attempt 2 True (Ok 7)) \<lparr>wc_cached = Some 0, wc_closed = []\<rparr>
      = (\<lparr>wc_cached = Some 2, wc_closed = [0]\<rparr>, [0, 2], Ok 7)"
    by (simp add: warp_dial_def example_attempt_def warp_connection_def invalidate_def Let_def)
  with warp_dial_attempts [OF this] show ?thesis by simp
qed

theorem masque_open_exchange_witness:
  "\<exists>send' ms mr recv'. masque_open ''1.1.1.1:53'' \<lparr>sk_script = [Accept 100], sk_sent = []\<rparr> [RData [1, 3, 0, 0, 0xD9, 0, 2, 7, 8]]
      = (send', Some (Ok (ms, mr, recv')))
    \<and> (\<exists>block used. get_frame_header (sk_sent send') = Some (FRAME_HEADERS, of_nat (length block), used) \<and> drop used (sk_sent send') = block
         \<and> take 4 block = [0, 0, 0xCF, 0x50] \<and> get_string (drop 4 block) = Some (as_bytes ''1.1.1.1:53'', length block - 4, False))
    \<and> (\<exists>status pending. mr = masque_recv_new pending
         \<and> peer_response [1, 3, 0, 0, 0xD9, 0, 2, 7, 8] status (pending @ script_bytes recv') \<and> 200 \<le> status \<and> status < 300)"
proof -
  let ?sk = "\<lparr>sk_script = [Accept 100], sk_sent = []\<rparr> :: sock" and ?rd = "[RData [1, 3, 0, 0, 0xD9, 0, 2, 7, 8]]"
  define frame where "frame = put_varint (put_varint [] FRAME_HEADERS) (of_nat (length (encode_connect_headers ''1.1.1.1:53''))) @ encode_connect_headers ''1.1.1.1:53''"
  have f: "length frame \<le> 100" "frame \<noteq> []" unfolding frame_def by code_simp+
  have w: "write_all frame ?sk = (\<lparr>sk_script = [], sk_sent = frame\<rparr>, Some (Ok ()))"
    using f by (simp add: write_all.simps min_def Let_def)
  have h: "get_frame_header [1, 3, 0, 0, 0xD9, 0, 2, 7, 8] = Some (1, 3, 2)" "get_frame_header [] = None" by code_simp+
  have d: "decode_status [0, 0, 0xD9] = Ok 200" by code_simp
  have "read_response_head ''1.1.1.1:53'' [] ?rd = ([], Ok (200, [0, 2, 7, 8]))"
    using h d by (simp add: read_response_head.simps scan_response_head.simps MAX_RESPONSE_HEAD_BUFFER_def FRAME_HEADERS_def)
  then have m: "masque_open ''1.1.1.1:53'' ?sk ?rd = (\<lparr>sk_script = [], sk_sent = frame\<rparr>, Some (Ok (masque_send_new \<lparr>sk_script = [], sk_sent = frame\<rparr>, masque_recv_new [0, 2, 7, 8], [])))"
    unfolding masque_open_def Let_def frame_def [symmetric] w by simp
  have rd: "script_bytes ?rd = [1, 3, 0, 0, 0xD9, 0, 2, 7, 8]" by simp
  have "length ''1.1.1.1:53'' < 2 ^ 61" by simp
  from masque_open_exchange [OF m this] obtain fr pending used block status where
      "sk_sent \<lparr>sk_script = [], sk_sent = frame\<rparr> = sk_sent ?sk @ fr" "get_frame_header fr = Some (FRAME_HEADERS, of_nat (length block), used)"
      "drop used fr = block" "take 4 block = [0, 0, 0xCF, 0x50]" "get_string (drop 4 block) = Some (as_bytes ''1.1.1.1:53'', length block - 4, False)"
      "masque_recv_new [0, 2, 7, 8] = masque_recv_new pending" "peer_response (script_bytes ?rd) status (pending @ script_bytes [])"
      "200 \<le> status" "status < 300" by (elim exE conjE)
  then show ?thesis using m unfolding rd by (intro exI conjI) (rule m, auto)
qed

end
