(* ===== verification/Dns_Client.thy ===== *)
theory Dns_Client
  imports Ip_Addr Interfaces "HOL-Library.Sublist"
begin

text \<open>
  The DNS client, \<^verbatim>\<open>src/src/dns/client.rs\<close> with the options of \<^verbatim>\<open>src/src/dns/config.rs\<close>: building a query and checking
  its response, the cache with stale answers and background refresh, one query in flight per key, the limit on
  concurrent queries, the order of the addresses, and the staggered connection attempts.

  Parameters: the message encoder and parser (\<open>domain\<close>), given by what the code reads off a parsed message. The cache
  (\<open>moka\<close>) may drop an entry at any time, which is the event \<open>DEvict\<close>. Concurrency is a sequence of events: a lookup, the
  start of a background refresh, a query that gets its permit, a query that ends. A lookup that is given up before its
  answer is not an event.

  Lemmas: an answer comes from a checked response to a query for its own key and is no older than its lifetime plus the
  stale period; every lookup is answered once or waits; there is one query per key and the limit holds; the connection
  attempts fail only after every address has been tried.
\<close>

section \<open>Options\<close>

datatype protocol = Udp | Dot

record dns_options =
  do_protocol :: protocol
  do_prefer_ipv6 :: bool
  do_cache_size :: u64
  do_client_subnet :: "ip_addr option"
  do_min_ttl :: u64
  do_max_ttl :: u64
  do_swr_ttl :: u64
  do_empty_ttl :: u64
  do_happy_eyeballs_delay_ms :: u64
  do_max_concurrent_queries :: nat

definition default_options :: dns_options where
  "default_options =
     \<lparr>do_protocol = Udp, do_prefer_ipv6 = False, do_cache_size = 1024, do_client_subnet = None, do_min_ttl = 30, do_max_ttl = 3600,
      do_swr_ttl = 3600, do_empty_ttl = 300, do_happy_eyeballs_delay_ms = 250, do_max_concurrent_queries = 1024\<rparr>"

record dns_config =
  dn_upstream :: "ip_addr \<times> nat"
  dn_tls_domain :: "string option"
  dn_options :: dns_options

definition public_default :: dns_config where
  "public_default = \<lparr>dn_upstream = (IpV4 0x01010101, 53), dn_tls_domain = None, dn_options = default_options\<rparr>"

text \<open>\<open>init_dns\<close>: the configuration it goes on with.\<close>

definition init_dns :: "dns_config \<Rightarrow> (dns_config, string) result" where
  "init_dns cfg =
     (let cfg = (if do_protocol (dn_options cfg) = Dot \<and> dn_tls_domain cfg = None
                 then cfg\<lparr>dn_tls_domain := Some (show_ip (fst (dn_upstream cfg)))\<rparr> else cfg)
      in if do_min_ttl (dn_options cfg) > do_max_ttl (dn_options cfg) then Err ''dns.options.min_ttl must not exceed max_ttl''
         else Ok cfg)"

section \<open>Queries and responses\<close>

datatype rtype = RtA | RtAAAA | RtOther nat

record dns_query =
  dq_id :: u16
  dq_recursion :: bool
  dq_question :: "string \<times> rtype"
  dq_subnet :: "(nat \<times> ip_addr) option"
  dq_udp_size :: nat

record dns_record =
  dr_rtype :: rtype
  dr_ttl :: u32
  dr_addr :: "ip_addr option"

text \<open>What the code reads off a message: \<open>sole_question\<close>, the header, and the answer section, less the records that do not
  parse; an address is that of a record that parses as its type.\<close>

record dns_message =
  dm_id :: u16
  dm_question :: "(string \<times> rtype) option"
  dm_tc :: bool
  dm_rcode :: nat
  dm_answer :: "dns_record list option"

record dns_codec =
  co_encode :: "dns_query \<Rightarrow> (bytes, string) result"
  co_parse :: "bytes \<Rightarrow> dns_message option"

definition build_query :: "dns_codec \<Rightarrow> string \<Rightarrow> rtype \<Rightarrow> ip_addr option \<Rightarrow> u16 \<Rightarrow> (bytes, string) result" where
  "build_query D domain rt ecs ident =
     co_encode D \<lparr>dq_id = ident, dq_recursion = True, dq_question = (domain, rt),
       dq_subnet = map_option (\<lambda>ip. (case ip of IpV4 a \<Rightarrow> 24 | IpV6 a \<Rightarrow> 56, ip)) ecs, dq_udp_size = 1232\<rparr>"

fun collect_answers :: "rtype \<Rightarrow> dns_record list \<Rightarrow> ip_addr list \<Rightarrow> u32 \<Rightarrow> ip_addr list \<times> u32" where
  "collect_answers qtype [] ips min_ttl = (ips, min_ttl)"
| "collect_answers qtype (rec # recs) ips min_ttl =
     (if dr_rtype rec \<noteq> qtype then collect_answers qtype recs ips min_ttl
      else (let min_ttl = min min_ttl (dr_ttl rec);
                ips = (case (qtype, dr_addr rec) of
                         (RtA, Some (IpV4 a)) \<Rightarrow> ips @ [IpV4 a]
                       | (RtAAAA, Some (IpV6 a)) \<Rightarrow> ips @ [IpV6 a]
                       | _ \<Rightarrow> ips)
            in collect_answers qtype recs ips min_ttl))"

definition clamp_u64 :: "u64 \<Rightarrow> u64 \<Rightarrow> u64 \<Rightarrow> u64" where
  "clamp_u64 x lo hi = (if x < lo then lo else if hi < x then hi else x)"

definition NXDOMAIN :: nat where "NXDOMAIN = 3"
definition NOERROR :: nat where "NOERROR = 0"

definition parse_response ::
    "dns_codec \<Rightarrow> dns_options \<Rightarrow> bytes \<Rightarrow> u16 \<Rightarrow> rtype \<Rightarrow> string \<Rightarrow> (ip_addr list \<times> u64, string) result" where
  "parse_response D opts data ident qtype domain =
     rbind (ok_or (co_parse D data) ''invalid DNS response'') (\<lambda>msg.
     if dm_id msg \<noteq> ident then Err ''DNS ID mismatch''
     else rbind (ok_or (dm_question msg) ''DNS response question missing or malformed'') (\<lambda>(qname, qt).
     let name_matches = eq_ignore_ascii_case (trim_end_matches (\<lambda>c. c = CHR ''.'') qname) (trim_end_matches (\<lambda>c. c = CHR ''.'') domain) in
     if qt \<noteq> qtype \<or> \<not> name_matches then Err (''DNS response question does not match query for '' @ domain)
     else if dm_tc msg then Err ''DNS response truncated (TC set)''
     else if dm_rcode msg = NXDOMAIN then Ok ([], do_empty_ttl opts)
     else if dm_rcode msg \<noteq> NOERROR then Err ''DNS Rcode Error''
     else (let (ips, min_ttl) = (case dm_answer msg of Some recs \<Rightarrow> collect_answers qtype recs [] (- 1) | None \<Rightarrow> ([], - 1));
               ttl = (if ips = [] then do_empty_ttl opts
                      else (let lo = min (do_min_ttl opts) (do_max_ttl opts); hi = max (do_min_ttl opts) (do_max_ttl opts)
                            in clamp_u64 (ucast min_ttl) lo hi))
           in Ok (ips, ttl))))"

section \<open>The cache and the queries in flight\<close>

type_synonym cache_key = "string \<times> rtype \<times> ip_addr option"

text \<open>The refresh flag of an entry is shared by the copies handed out: it is a number, and the flags that are set are a list.\<close>

record cache_entry =
  ce_ips :: "ip_addr list"
  ce_created_at :: u64
  ce_ttl :: u64
  ce_is_refreshing :: nat

datatype waiter = Caller nat | Refresh nat

record flight =
  fl_waiters :: "waiter list"
  fl_running :: bool

record dns_client =
  dc_cache :: "(cache_key \<times> cache_entry) list"
  dc_flags :: "nat list"
  dc_next_flag :: nat
  dc_spawned :: "(cache_key \<times> nat) list"
  dc_flights :: "(cache_key \<times> flight) list"
  dc_permits :: nat

definition with_transport :: "dns_options \<Rightarrow> dns_client" where
  "with_transport opts =
     \<lparr>dc_cache = [], dc_flags = [], dc_next_flag = 0, dc_spawned = [], dc_flights = [], dc_permits = do_max_concurrent_queries opts\<rparr>"

text \<open>An answer: the caller, the key, the time and the result.\<close>

type_synonym dns_answer = "nat \<times> cache_key \<times> u64 \<times> (ip_addr list, string) result"

text \<open>\<open>single_flight.work\<close>: join the query for the key or start one, as the crate documents it; a leader that is cancelled is not an event.\<close>

definition join_flight :: "cache_key \<Rightarrow> waiter \<Rightarrow> dns_client \<Rightarrow> dns_client" where
  "join_flight key w st =
     (case map_of (dc_flights st) key of
        Some f \<Rightarrow> st\<lparr>dc_flights := AList.update key (f\<lparr>fl_waiters := fl_waiters f @ [w]\<rparr>) (dc_flights st)\<rparr>
      | None \<Rightarrow> st\<lparr>dc_flights := dc_flights st @ [(key, \<lparr>fl_waiters = [w], fl_running = False\<rparr>)]\<rparr>)"

definition dns_lookup :: "dns_options \<Rightarrow> nat \<Rightarrow> cache_key \<Rightarrow> u64 \<Rightarrow> dns_client \<Rightarrow> dns_client \<times> dns_answer list" where
  "dns_lookup opts caller key now st =
     (case map_of (dc_cache st) key of
        None \<Rightarrow> (join_flight key (Caller caller) st, [])
      | Some entry \<Rightarrow>
          (let elapsed = saturating_sub now (ce_created_at entry) in
           if elapsed < ce_ttl entry then (st, [(caller, key, now, Ok (ce_ips entry))])
           else if elapsed < ce_ttl entry + do_swr_ttl opts
           then ((if ce_is_refreshing entry \<notin> set (dc_flags st)
                  then st\<lparr>dc_flags := ce_is_refreshing entry # dc_flags st, dc_spawned := dc_spawned st @ [(key, ce_is_refreshing entry)]\<rparr>
                  else st), [(caller, key, now, Ok (ce_ips entry))])
           else (join_flight key (Caller caller) st, [])))"

text \<open>The first step of a background refresh.\<close>

definition start_refresh :: "nat \<Rightarrow> dns_client \<Rightarrow> dns_client" where
  "start_refresh i st =
     (if i < length (dc_spawned st)
      then (let (key, flag) = dc_spawned st ! i
            in join_flight key (Refresh flag) (st\<lparr>dc_spawned := take i (dc_spawned st) @ drop (i + 1) (dc_spawned st)\<rparr>))
      else st)"

text \<open>\<open>query_upstream\<close>: waiting for a permit of the tokio semaphore, and the result of the query once the transport has answered.\<close>

definition acquire_permit :: "cache_key \<Rightarrow> dns_client \<Rightarrow> dns_client" where
  "acquire_permit key st =
     (case map_of (dc_flights st) key of
        Some f \<Rightarrow>
          if \<not> fl_running f \<and> 0 < dc_permits st
          then st\<lparr>dc_permits := dc_permits st - 1, dc_flights := AList.update key (f\<lparr>fl_running := True\<rparr>) (dc_flights st)\<rparr>
          else st
      | None \<Rightarrow> st)"

definition query_result ::
    "dns_codec \<Rightarrow> dns_options \<Rightarrow> cache_key \<Rightarrow> (bytes \<times> u16, string) result \<Rightarrow> (ip_addr list \<times> u64, string) result" where
  "query_result D opts key sent =
     (case key of (domain, rt, ecs) \<Rightarrow>
        rbind (build_query D domain rt ecs 0) (\<lambda>query.
        rbind sent (\<lambda>(resp, ident). parse_response D opts resp ident rt domain)))"

fun callers :: "waiter list \<Rightarrow> nat list" where
  "callers [] = []"
| "callers (Caller c # ws) = c # callers ws"
| "callers (Refresh f # ws) = callers ws"

fun refresh_flags :: "waiter list \<Rightarrow> nat list" where
  "refresh_flags [] = []"
| "refresh_flags (Caller c # ws) = refresh_flags ws"
| "refresh_flags (Refresh f # ws) = f # refresh_flags ws"

text \<open>\<open>query_upstream_and_cache\<close> and the answers to those who wait for it.\<close>

definition finish_query ::
    "dns_codec \<Rightarrow> dns_options \<Rightarrow> cache_key \<Rightarrow> u64 \<Rightarrow> (bytes \<times> u16, string) result \<Rightarrow> dns_client \<Rightarrow> dns_client \<times> dns_answer list" where
  "finish_query D opts key now sent st =
     (case map_of (dc_flights st) key of
        Some f \<Rightarrow>
          if \<not> fl_running f then (st, [])
          else (let st = st\<lparr>dc_permits := dc_permits st + 1, dc_flights := AList.delete key (dc_flights st)\<rparr>;
                    r = query_result D opts key sent;
                    st = (case r of
                            Ok (ips, ttl) \<Rightarrow>
                              st\<lparr>dc_cache := AList.update key \<lparr>ce_ips = ips, ce_created_at = now, ce_ttl = ttl, ce_is_refreshing = dc_next_flag st\<rparr> (dc_cache st),
                                 dc_next_flag := dc_next_flag st + 1\<rparr>
                          | Err e \<Rightarrow> st);
                    st = st\<lparr>dc_flags := filter (\<lambda>x. x \<notin> set (refresh_flags (fl_waiters f))) (dc_flags st)\<rparr>;
                    answer = (case r of Ok (ips, ttl) \<Rightarrow> Ok ips | Err e \<Rightarrow> Err (''DNS resolution error: '' @ e))
                in (st, map (\<lambda>c. (c, key, now, answer)) (callers (fl_waiters f))))
      | None \<Rightarrow> (st, []))"

datatype dns_event =
    DLookup nat cache_key u64
  | DStartRefresh nat
  | DAcquire cache_key
  | DFinish cache_key u64 "(bytes \<times> u16, string) result"
  | DEvict cache_key

fun dns_step :: "dns_codec \<Rightarrow> dns_options \<Rightarrow> dns_event \<Rightarrow> dns_client \<Rightarrow> dns_client \<times> dns_answer list" where
  "dns_step D opts (DLookup caller key now) st = dns_lookup opts caller key now st"
| "dns_step D opts (DStartRefresh i) st = (start_refresh i st, [])"
| "dns_step D opts (DAcquire key) st = (acquire_permit key st, [])"
| "dns_step D opts (DFinish key now sent) st = finish_query D opts key now sent st"
| "dns_step D opts (DEvict key) st = (st\<lparr>dc_cache := AList.delete key (dc_cache st)\<rparr>, [])"

fun dns_run :: "dns_codec \<Rightarrow> dns_options \<Rightarrow> dns_event list \<Rightarrow> dns_client \<Rightarrow> dns_client \<times> dns_answer list" where
  "dns_run D opts [] st = (st, [])"
| "dns_run D opts (e # es) st =
     (let (st, as) = dns_step D opts e st; (st, bs) = dns_run D opts es st in (st, as @ bs))"

section \<open>Addresses in order\<close>

fun interleave :: "ip_addr list \<Rightarrow> ip_addr list \<Rightarrow> ip_addr list" where
  "interleave (a # p) (b # s) = a # b # interleave p s"
| "interleave p [] = p"
| "interleave [] s = s"

definition interleave_ips :: "dns_options \<Rightarrow> ip_addr list \<Rightarrow> ip_addr list \<Rightarrow> ip_addr list" where
  "interleave_ips opts v4 v6 =
     (let (p, s) = (if do_prefer_ipv6 opts then (v6, v4) else (v4, v6)) in interleave p s)"

definition ok_or_empty :: "('a list, 'e) result \<Rightarrow> 'a list" where
  "ok_or_empty r = (case r of Ok xs \<Rightarrow> xs | Err e \<Rightarrow> [])"

text \<open>\<open>resolve\<close>: the two lookups are given by their results, the shuffles by what they make of the lists.\<close>

definition dns_resolve ::
    "dns_options \<Rightarrow> (ip_addr list \<Rightarrow> ip_addr list) \<Rightarrow> string \<Rightarrow> (ip_addr list, string) result \<Rightarrow> (ip_addr list, string) result
      \<Rightarrow> (ip_addr list, string) result" where
  "dns_resolve opts shuffle host res_a res_aaaa =
     (case parse_ip host of
        Some ip \<Rightarrow> Ok [ip]
      | None \<Rightarrow>
          (let v4 = ok_or_empty res_a; v6 = ok_or_empty res_aaaa in
           if v4 = [] \<and> v6 = [] then Err (''DNS resolution failed for '' @ host @ '': no A/AAAA records found'')
           else Ok (interleave_ips opts (shuffle v4) (shuffle v6))))"

section \<open>Connection attempts\<close>

text \<open>One attempt: through the SOCKS proxy at the given address or directly. \<open>Nothing\<close> in time is a timeout; the last
  component is the result of setting \<open>TCP_NODELAY\<close>.\<close>

definition proxy_addr :: "string \<Rightarrow> string" where
  "proxy_addr url =
     (case strip_prefix ''socks5://'' url of
        Some a \<Rightarrow> a
      | None \<Rightarrow> (case strip_prefix ''socks5h://'' url of Some a \<Rightarrow> a | None \<Rightarrow> url))"

datatype route_to = ViaSocks string ip_addr nat | DirectTo ip_addr nat

definition attempt_route :: "ip_addr \<Rightarrow> nat \<Rightarrow> string option \<Rightarrow> route_to" where
  "attempt_route ip port proxy = (case proxy of Some url \<Rightarrow> ViaSocks (proxy_addr url) ip port | None \<Rightarrow> DirectTo ip port)"

definition connect_single ::
    "(route_to \<Rightarrow> ('s, string) result option) \<Rightarrow> ('s \<Rightarrow> bool) \<Rightarrow> ip_addr \<Rightarrow> nat \<Rightarrow> string option \<Rightarrow> ('s, string) result" where
  "connect_single net nodelay ip port proxy =
     (case net (attempt_route ip port proxy) of
        None \<Rightarrow> Err ''connect timeout''
      | Some (Err e) \<Rightarrow> Err ((case proxy of Some url \<Rightarrow> ''socks5 connect: '' | None \<Rightarrow> ''tcp connect: '') @ e)
      | Some (Ok stream) \<Rightarrow> if nodelay stream then Ok stream else Err ''set_nodelay'')"

text \<open>The loop of \<open>happy_eyeballs_connect\<close>: an attempt that ends, by its place in the set, or the delay that runs out.\<close>

datatype 's happy_event = HJoined nat "('s, string) result" | HDelay

record 's happy =
  hp_waiting :: "ip_addr list"
  hp_running :: "ip_addr list"
  hp_failed :: "ip_addr list"
  hp_all_started :: bool
  hp_result :: "('s, string) result option"

definition happy_start :: "ip_addr list \<Rightarrow> 's happy" where
  "happy_start ips =
     (case ips of
        [] \<Rightarrow> \<lparr>hp_waiting = [], hp_running = [], hp_failed = [], hp_all_started = False, hp_result = Some (Err ''no IPs to connect'')\<rparr>
      | ip # rest \<Rightarrow> \<lparr>hp_waiting = rest, hp_running = [ip], hp_failed = [], hp_all_started = False, hp_result = None\<rparr>)"

definition all_failed :: "'s happy \<Rightarrow> 's happy" where
  "all_failed st =
     (if hp_all_started st \<and> hp_running st = [] then st\<lparr>hp_result := Some (Err ''all connection attempts failed'')\<rparr> else st)"

fun happy_enabled :: "'s happy_event \<Rightarrow> 's happy \<Rightarrow> bool" where
  "happy_enabled (HJoined i r) st \<longleftrightarrow> hp_result st = None \<and> i < length (hp_running st)"
| "happy_enabled HDelay st \<longleftrightarrow> hp_result st = None \<and> \<not> hp_all_started st"

fun happy_step :: "'s happy_event \<Rightarrow> 's happy \<Rightarrow> 's happy" where
  "happy_step (HJoined i r) st =
     (case r of
        Ok stream \<Rightarrow> st\<lparr>hp_result := Some (Ok stream)\<rparr>
      | Err e \<Rightarrow> all_failed (st\<lparr>hp_failed := hp_failed st @ [hp_running st ! i],
                               hp_running := take i (hp_running st) @ drop (i + 1) (hp_running st)\<rparr>))"
| "happy_step HDelay st =
     (case hp_waiting st of
        ip # rest \<Rightarrow> st\<lparr>hp_running := hp_running st @ [ip], hp_waiting := rest\<rparr>
      | [] \<Rightarrow> all_failed (st\<lparr>hp_all_started := True\<rparr>))"

inductive happy_trace :: "ip_addr list \<Rightarrow> 's happy_event list \<Rightarrow> 's happy \<Rightarrow> bool" for ips :: "ip_addr list" where
  start: "happy_trace ips [] (happy_start ips)"
| step: "happy_trace ips es st \<Longrightarrow> happy_enabled e st \<Longrightarrow> happy_trace ips (es @ [e]) (happy_step e st)"

section \<open>Lemmas: connection attempts\<close>

text \<open>Every address is waiting, being tried or has failed; the ones not waiting are the first ones.\<close>

definition happy_inv :: "ip_addr list \<Rightarrow> 's happy_event list \<Rightarrow> 's happy \<Rightarrow> bool" where
  "happy_inv ips es st \<longleftrightarrow>
     mset (hp_running st) + mset (hp_failed st) + mset (hp_waiting st) = mset ips
     \<and> suffix (hp_waiting st) ips
     \<and> (hp_all_started st \<longrightarrow> hp_waiting st = [])
     \<and> (case hp_result st of
          None \<Rightarrow> 2 * length (hp_waiting st) + length (hp_running st) + (if hp_all_started st then 0 else 1) + length es = 2 * length ips
            \<and> (hp_all_started st \<longrightarrow> hp_running st \<noteq> [])
        | Some (Ok s) \<Rightarrow> \<exists>i. last es = HJoined i (Ok s) \<and> es \<noteq> []
        | Some (Err e) \<Rightarrow> hp_running st = [] \<and> hp_waiting st = [])"

lemma mset_remove_at: "i < length xs \<Longrightarrow> mset (take i xs @ drop (i + 1) xs) + {#xs ! i#} = mset xs"
  by (metis Suc_eq_plus1 add_mset_add_single id_take_nth_drop mset.simps(2) mset_append union_mset_add_mset_right)

lemma happy_inv_start: "happy_inv ips [] (happy_start ips)"
  by (cases ips) (auto simp: happy_inv_def happy_start_def suffix_def)

lemma happy_inv_joined:
  assumes "happy_inv ips es st" and "happy_enabled (HJoined i r) st"
  shows "happy_inv ips (es @ [HJoined i r]) (happy_step (HJoined i r) st)"
proof (cases r)
  case (Ok s)
  then show ?thesis using assms by (auto simp: happy_inv_def split: option.splits result.splits)
next
  case (Err e)
  define run' where "run' = take i (hp_running st) @ drop (i + 1) (hp_running st)"
  have i: "i < length (hp_running st)" and none: "hp_result st = None" using assms(2) by auto
  have m: "mset (hp_running st) = add_mset (hp_running st ! i) (mset run')" using mset_remove_at [OF i] by (simp add: run'_def)
  have l: "length (hp_running st) = Suc (length run')" using i by (simp add: run'_def)
  have e: "happy_step (HJoined i r) st = all_failed (st\<lparr>hp_failed := hp_failed st @ [hp_running st ! i], hp_running := run'\<rparr>)"
    by (simp add: Err run'_def)
  show ?thesis unfolding e all_failed_def using assms(1) none l
    by (auto simp: happy_inv_def ac_simps m)
qed

lemma happy_inv_delay:
  assumes "happy_inv ips es st" and "happy_enabled HDelay st"
  shows "happy_inv ips (es @ [HDelay]) (happy_step HDelay st)"
  using assms by (auto simp: happy_inv_def all_failed_def suffix_def split: list.splits)

lemma happy_trace_inv: "happy_trace ips es st \<Longrightarrow> happy_inv ips es st"
proof (induction rule: happy_trace.induct)
  case start
  show ?case by (rule happy_inv_start)
next
  case (step es st e)
  then show ?case by (cases e) (auto intro: happy_inv_joined happy_inv_delay simp del: happy_step.simps happy_enabled.simps)
qed

lemma interleave_subseq: "subseq p (interleave p s) \<and> subseq s (interleave p s)"
  by (induction p s rule: interleave.induct) auto

lemma mset_interleave: "mset (interleave p s) = mset p + mset s"
  by (induction p s rule: interleave.induct) auto

text \<open>The addresses of the preferred family stand at even places at the latest, those of the other right after them.\<close>

lemma interleave_nth:
  "i < length p \<Longrightarrow> \<exists>j \<le> 2 * i. j < length (interleave p s) \<and> interleave p s ! j = p ! i"
  "i < length s \<Longrightarrow> \<exists>j \<le> 2 * i + 1. j < length (interleave p s) \<and> interleave p s ! j = s ! i"
proof -
  have "(i < length p \<longrightarrow> (\<exists>j \<le> 2 * i. j < length (interleave p s) \<and> interleave p s ! j = p ! i))
      \<and> (i < length s \<longrightarrow> (\<exists>j \<le> 2 * i + 1. j < length (interleave p s) \<and> interleave p s ! j = s ! i))" for i
  proof (induction p s arbitrary: i rule: interleave.induct)
    case (1 a p b s)
    show ?case
    proof (cases i)
      case 0
      then show ?thesis by (auto intro: exI [of _ "1 :: nat"])
    next
      case (Suc k)
      have up: "\<exists>j \<le> Suc (Suc n). j < length (a # b # interleave p s) \<and> (a # b # interleave p s) ! j = x"
        if "\<exists>j \<le> n. j < length (interleave p s) \<and> interleave p s ! j = x" for n x
      proof -
        from that obtain j where "j \<le> n" "j < length (interleave p s)" "interleave p s ! j = x" by blast
        then show ?thesis by (intro exI [of _ "Suc (Suc j)"]) simp
      qed
      show ?thesis using "1.IH" [of k] up [of "2 * k" "p ! k"] up [of "2 * k + 1" "s ! k"] Suc by simp
    qed
  next
    case (2 p i)
    then show ?case by (auto intro!: exI [of _ i])
  next
    case (3 b s i)
    then show ?case by (auto intro!: exI [of _ i])
  qed
  then show "i < length p \<Longrightarrow> \<exists>j \<le> 2 * i. j < length (interleave p s) \<and> interleave p s ! j = p ! i"
    and "i < length s \<Longrightarrow> \<exists>j \<le> 2 * i + 1. j < length (interleave p s) \<and> interleave p s ! j = s ! i" by blast+
qed

section \<open>Lemmas: queries in flight\<close>

lemma map_of_split:
  "map_of al k = Some v \<Longrightarrow> \<exists>a b. al = a @ (k, v) # b \<and> k \<notin> fst ` set a"
proof (induction al)
  case (Cons p al)
  show ?case
  proof (cases "fst p = k")
    case True
    then have "p # al = [] @ (k, v) # al" using Cons.prems by (cases p) auto
    then show ?thesis by fastforce
  next
    case False
    then obtain a b where "al = a @ (k, v) # b" "k \<notin> fst ` set a" using Cons by (cases p) auto
    then show ?thesis using False by (intro exI [of _ "p # a"] exI [of _ b]) auto
  qed
qed simp

lemma update_split: "k \<notin> fst ` set a \<Longrightarrow> AList.update k v' (a @ (k, v) # b) = a @ (k, v') # b"
  by (induction a) auto

lemma delete_split:
  "k \<notin> fst ` set a \<Longrightarrow> k \<notin> fst ` set b \<Longrightarrow> AList.delete k (a @ (k, v) # b) = a @ b"
proof -
  assume "k \<notin> fst ` set a" and "k \<notin> fst ` set b"
  moreover have "AList.delete k (xs @ ys) = AList.delete k xs @ AList.delete k ys" for xs ys :: "('a \<times> 'b) list" by (simp add: AList.delete_eq)
  ultimately show ?thesis by simp
qed

text \<open>The waiting callers and the refreshes under way.\<close>

definition waiting_callers :: "dns_client \<Rightarrow> nat list" where
  "waiting_callers st = concat (map (\<lambda>(k, f). callers (fl_waiters f)) (dc_flights st))"

definition refreshes :: "dns_client \<Rightarrow> nat list" where
  "refreshes st = map snd (dc_spawned st) @ concat (map (\<lambda>(k, f). refresh_flags (fl_waiters f)) (dc_flights st))"

definition running_queries :: "dns_client \<Rightarrow> nat" where
  "running_queries st = length (filter (\<lambda>(k, f). fl_running f) (dc_flights st))"

definition dns_inv :: "dns_options \<Rightarrow> dns_client \<Rightarrow> bool" where
  "dns_inv opts st \<longleftrightarrow>
     distinct (map fst (dc_flights st)) \<and> dc_permits st + running_queries st = do_max_concurrent_queries opts
     \<and> mset (refreshes st) = mset (dc_flags st) \<and> distinct (dc_flags st)"

lemma callers_append [simp]: "callers (xs @ ys) = callers xs @ callers ys"
  by (induction xs rule: callers.induct) auto

lemma refresh_flags_append [simp]: "refresh_flags (xs @ ys) = refresh_flags xs @ refresh_flags ys"
  by (induction xs rule: refresh_flags.induct) auto

lemma join_flight_fields:
  assumes "join_flight key w st = st'"
  shows "dc_permits st' = dc_permits st" "dc_flags st' = dc_flags st" "dc_spawned st' = dc_spawned st" "dc_cache st' = dc_cache st"
    and "running_queries st' = running_queries st"
    and "mset (waiting_callers st') = mset (waiting_callers st) + mset (callers [w])"
    and "mset (refreshes st') = mset (refreshes st) + mset (refresh_flags [w])"
    and "distinct (map fst (dc_flights st)) \<Longrightarrow> distinct (map fst (dc_flights st'))"
proof -
  show "dc_permits st' = dc_permits st" "dc_flags st' = dc_flags st" "dc_spawned st' = dc_spawned st" "dc_cache st' = dc_cache st"
    using assms by (auto simp: join_flight_def split: option.splits)
  have "running_queries st' = running_queries st \<and> mset (waiting_callers st') = mset (waiting_callers st) + mset (callers [w])
      \<and> mset (refreshes st') = mset (refreshes st) + mset (refresh_flags [w])
      \<and> (distinct (map fst (dc_flights st)) \<longrightarrow> distinct (map fst (dc_flights st')))"
  proof (cases "map_of (dc_flights st) key")
    case None
    then have "st' = st\<lparr>dc_flights := dc_flights st @ [(key, \<lparr>fl_waiters = [w], fl_running = False\<rparr>)]\<rparr>" using assms by (simp add: join_flight_def)
    moreover have "key \<notin> fst ` set (dc_flights st)" using None by (simp add: map_of_eq_None_iff)
    ultimately show ?thesis by (simp add: running_queries_def waiting_callers_def refreshes_def)
  next
    case (Some f)
    obtain a b where ab: "dc_flights st = a @ (key, f) # b" "key \<notin> fst ` set a" using map_of_split [OF Some] by blast
    then have "dc_flights st' = a @ (key, f\<lparr>fl_waiters := fl_waiters f @ [w]\<rparr>) # b" "dc_spawned st' = dc_spawned st"
      using assms Some update_split by (auto simp: join_flight_def)
    then show ?thesis using ab by (simp add: running_queries_def waiting_callers_def refreshes_def)
  qed
  then show "running_queries st' = running_queries st" "mset (waiting_callers st') = mset (waiting_callers st) + mset (callers [w])"
      "mset (refreshes st') = mset (refreshes st) + mset (refresh_flags [w])"
      "distinct (map fst (dc_flights st)) \<Longrightarrow> distinct (map fst (dc_flights st'))" by blast+
qed

lemma dns_inv_join_caller: "dns_inv opts st \<Longrightarrow> dns_inv opts (join_flight key (Caller c) st)"
  using join_flight_fields [where key = key and w = "Caller c" and st = st, OF refl] by (simp add: dns_inv_def)

lemma dns_inv_lookup:
  assumes "dns_inv opts st" and "dns_lookup opts caller key now st = (st', as)"
  shows "dns_inv opts st' \<and> mset (map fst as) + mset (waiting_callers st') = mset (waiting_callers st) + {#caller#}"
proof -
  note j = join_flight_fields [where key = key and w = "Caller caller" and st = st, OF refl] dns_inv_join_caller [OF assms(1), of key caller]
  show ?thesis
  proof (cases "map_of (dc_cache st) key")
    case None
    then show ?thesis using assms(2) j by (auto simp: dns_lookup_def)
  next
    case (Some e)
    then show ?thesis using assms j
      by (auto simp: dns_lookup_def Let_def dns_inv_def running_queries_def refreshes_def waiting_callers_def split: if_splits)
  qed
qed

lemma dns_inv_start_refresh:
  assumes "dns_inv opts st"
  shows "dns_inv opts (start_refresh i st) \<and> mset (waiting_callers (start_refresh i st)) = mset (waiting_callers st)"
proof (cases "i < length (dc_spawned st)")
  case True
  obtain key flag where kf: "dc_spawned st ! i = (key, flag)" by fastforce
  define st1 where "st1 = st\<lparr>dc_spawned := take i (dc_spawned st) @ drop (i + 1) (dc_spawned st)\<rparr>"
  have e: "start_refresh i st = join_flight key (Refresh flag) st1" using True kf by (simp add: start_refresh_def st1_def)
  have "mset (map snd (dc_spawned st)) = mset (map snd (dc_spawned st1)) + {#flag#}"
    using arg_cong [OF mset_remove_at [OF True], of "image_mset snd"] kf by (simp add: st1_def)
  moreover have "dc_flights st1 = dc_flights st" "dc_permits st1 = dc_permits st" "dc_flags st1 = dc_flags st" by (simp_all add: st1_def)
  ultimately show ?thesis using assms join_flight_fields [where key = key and w = "Refresh flag" and st = st1, OF refl] unfolding e
    by (simp add: dns_inv_def running_queries_def refreshes_def waiting_callers_def)
qed (use assms in \<open>simp add: start_refresh_def\<close>)

lemma dns_inv_acquire:
  assumes "dns_inv opts st"
  shows "dns_inv opts (acquire_permit key st) \<and> waiting_callers (acquire_permit key st) = waiting_callers st"
proof (cases "map_of (dc_flights st) key")
  case (Some f)
  obtain a b where ab: "dc_flights st = a @ (key, f) # b" "key \<notin> fst ` set a" using map_of_split [OF Some] by blast
  show ?thesis
    using assms ab Some update_split [OF ab(2), of "f\<lparr>fl_running := True\<rparr>" f b]
    by (auto simp: acquire_permit_def dns_inv_def running_queries_def refreshes_def waiting_callers_def)
qed (use assms in \<open>simp add: acquire_permit_def\<close>)

lemma filter_flags:
  assumes "mset flags = mset xs + mset ys" and "distinct flags"
  shows "mset (filter (\<lambda>x. x \<notin> set xs) flags) = mset ys"
proof -
  have "mset (filter (\<lambda>x. x \<notin> set xs) flags) = filter_mset (\<lambda>x. x \<notin> set xs) (mset xs) + filter_mset (\<lambda>x. x \<notin> set xs) (mset ys)"
    by (simp add: mset_filter assms(1))
  also have "filter_mset (\<lambda>x. x \<notin> set xs) (mset xs) = {#}" by (auto simp: multiset_eq_iff count_eq_zero_iff)
  also have "filter_mset (\<lambda>x. x \<notin> set xs) (mset ys) = mset ys"
  proof -
    have "distinct (xs @ ys)" using assms by (metis mset_append mset_eq_imp_distinct_iff)
    then show ?thesis by (auto simp: filter_mset_eq_conv)
  qed
  finally show ?thesis by simp
qed

lemma dns_inv_finish:
  assumes "dns_inv opts st" and "finish_query D opts key now sent st = (st', as)"
  shows "dns_inv opts st' \<and> mset (map fst as) + mset (waiting_callers st') = mset (waiting_callers st)"
proof (cases "map_of (dc_flights st) key")
  case (Some f)
  show ?thesis
  proof (cases "fl_running f")
    case True
    obtain a b where ab: "dc_flights st = a @ (key, f) # b" "key \<notin> fst ` set a" using map_of_split [OF Some] by blast
    have nb: "key \<notin> fst ` set b" using assms(1) ab by (auto simp: dns_inv_def)
    have fields: "dc_flights st' = a @ b" "dc_spawned st' = dc_spawned st" "dc_permits st' = dc_permits st + 1"
        "dc_flags st' = filter (\<lambda>x. x \<notin> set (refresh_flags (fl_waiters f))) (dc_flags st)" "map fst as = callers (fl_waiters f)"
      using assms(2) Some True ab delete_split [OF ab(2) nb, of f]
      by (auto simp: finish_query_def Let_def comp_def split: result.splits)
    have fl: "mset (dc_flags st) = mset (refresh_flags (fl_waiters f)) + mset (refreshes st')"
      using assms(1) ab fields by (simp add: dns_inv_def refreshes_def ac_simps)
    have "distinct (dc_flags st)" using assms(1) by (simp add: dns_inv_def)
    from filter_flags [OF fl this] have "mset (dc_flags st') = mset (refreshes st')" unfolding fields(4) .
    then show ?thesis using assms(1) ab fields True
      by (auto simp: dns_inv_def running_queries_def waiting_callers_def)
  qed (use assms Some in \<open>simp add: finish_query_def\<close>)
qed (use assms in \<open>simp add: finish_query_def\<close>)

fun lookup_callers :: "dns_event list \<Rightarrow> nat list" where
  "lookup_callers [] = []"
| "lookup_callers (DLookup c k t # es) = c # lookup_callers es"
| "lookup_callers (e # es) = lookup_callers es"

lemma dns_inv_step:
  assumes "dns_inv opts st" and "dns_step D opts e st = (st', as)"
  shows "dns_inv opts st' \<and> mset (map fst as) + mset (waiting_callers st') = mset (waiting_callers st) + mset (lookup_callers [e])"
proof (cases e)
  case (DLookup c k t)
  then show ?thesis using dns_inv_lookup [OF assms(1)] assms(2) by simp
next
  case (DStartRefresh i)
  then show ?thesis using dns_inv_start_refresh [OF assms(1), of i] assms(2) by auto
next
  case (DAcquire k)
  then show ?thesis using dns_inv_acquire [OF assms(1), of k] assms(2) by auto
next
  case (DFinish k t sent)
  then show ?thesis using dns_inv_finish [OF assms(1)] assms(2) by simp
next
  case (DEvict k)
  then show ?thesis using assms by (auto simp: dns_inv_def running_queries_def refreshes_def waiting_callers_def)
qed

lemma lookup_callers_Cons: "lookup_callers (e # es) = lookup_callers [e] @ lookup_callers es"
  by (cases e) auto

lemma dns_inv_run:
  "dns_inv opts st \<Longrightarrow> dns_run D opts es st = (st', as) \<Longrightarrow>
     dns_inv opts st' \<and> mset (map fst as) + mset (waiting_callers st') = mset (waiting_callers st) + mset (lookup_callers es)"
proof (induction es arbitrary: st as)
  case (Cons e es)
  obtain st1 bs where s: "dns_step D opts e st = (st1, bs)" by fastforce
  obtain cs where c: "dns_run D opts es st1 = (st', cs)" and as: "as = bs @ cs" using Cons.prems(2) s by (auto split: prod.splits)
  note 1 = dns_inv_step [OF Cons.prems(1) s] and 2 = Cons.IH [of st1 cs]
  have "mset (map fst as) + mset (waiting_callers st') = mset (map fst bs) + (mset (map fst cs) + mset (waiting_callers st'))"
    by (simp add: as)
  also have "\<dots> = mset (map fst bs) + (mset (waiting_callers st1) + mset (lookup_callers es))" using 1 2 c by simp
  also have "\<dots> = (mset (map fst bs) + mset (waiting_callers st1)) + mset (lookup_callers es)" by (simp only: add.assoc)
  also have "\<dots> = mset (waiting_callers st) + mset (lookup_callers [e]) + mset (lookup_callers es)" using 1 by simp
  finally show ?case using 1 2 c unfolding lookup_callers_Cons [of e es] by (simp add: add.assoc)
qed simp

interpretation dns_queries: bounded_machine "\<lambda>e st. fst (dns_step D opts e st)" "dns_inv opts" running_queries "do_max_concurrent_queries opts"
proof
  fix st e
  assume "dns_inv opts st"
  then show "dns_inv opts (fst (dns_step D opts e st))" using dns_inv_step [of opts st D e] by (metis prod.collapse)
qed (simp add: dns_inv_def)

lemma dns_run_fold: "fst (dns_run D opts es st) = fold (\<lambda>e st. fst (dns_step D opts e st)) es st"
  by (induction es arbitrary: st) (simp_all add: case_prod_beta Let_def)

lemma with_transport_inv: "dns_inv opts (with_transport opts)"
  by (simp add: dns_inv_def with_transport_def running_queries_def refreshes_def)

section \<open>Lemmas: where answers come from\<close>

definition entries_known :: "dns_codec \<Rightarrow> dns_options \<Rightarrow> dns_event list \<Rightarrow> dns_client \<Rightarrow> bool" where
  "entries_known D opts es st \<longleftrightarrow>
     (\<forall>key e. map_of (dc_cache st) key = Some e \<longrightarrow>
        (\<exists>sent. DFinish key (ce_created_at e) sent \<in> set es \<and> query_result D opts key sent = Ok (ce_ips e, ce_ttl e)))"

definition answer_known :: "dns_codec \<Rightarrow> dns_options \<Rightarrow> dns_event list \<Rightarrow> dns_answer \<Rightarrow> bool" where
  "answer_known D opts es a \<longleftrightarrow>
     (case a of (c, key, now, r) \<Rightarrow>
        \<forall>ips. r = Ok ips \<longrightarrow>
          (\<exists>t sent ttl. DFinish key t sent \<in> set es \<and> query_result D opts key sent = Ok (ips, ttl)
             \<and> (now = t \<or> saturating_sub now t < ttl \<or> saturating_sub now t < ttl + do_swr_ttl opts)))"

lemma entries_knownD:
  "entries_known D opts es st \<Longrightarrow> map_of (dc_cache st) key = Some e \<Longrightarrow>
     \<exists>sent. DFinish key (ce_created_at e) sent \<in> set es \<and> query_result D opts key sent = Ok (ce_ips e, ce_ttl e)"
  unfolding entries_known_def by blast

lemma known_mono: "set es \<subseteq> set es' \<Longrightarrow> entries_known D opts es st \<Longrightarrow> entries_known D opts es' st"
  "set es \<subseteq> set es' \<Longrightarrow> answer_known D opts es a \<Longrightarrow> answer_known D opts es' a"
  by (fastforce simp: entries_known_def, fastforce simp: answer_known_def)

lemma entries_known_cache: "entries_known D opts es st \<Longrightarrow> dc_cache st' = dc_cache st \<Longrightarrow> entries_known D opts es st'"
  by (simp add: entries_known_def)

lemma join_flight_cache [simp]: "dc_cache (join_flight key w st) = dc_cache st"
  by (rule join_flight_fields(4) [OF refl])

lemma known_lookup:
  assumes "entries_known D opts es st" and "dns_lookup opts caller key now st = (st', as)"
  shows "entries_known D opts es st' \<and> (\<forall>a \<in> set as. answer_known D opts es a)"
proof (cases "map_of (dc_cache st) key")
  case None
  then show ?thesis using assms entries_known_cache [OF assms(1), of "join_flight key (Caller caller) st"] by (auto simp: dns_lookup_def)
next
  case (Some e)
  then obtain sent where "DFinish key (ce_created_at e) sent \<in> set es" "query_result D opts key sent = Ok (ce_ips e, ce_ttl e)"
    using entries_knownD [OF assms(1)] by blast
  moreover have cache: "dc_cache st' = dc_cache st"
    using assms(2) Some by (auto simp: dns_lookup_def Let_def split: if_splits)
  moreover have "as = [] \<or> as = [(caller, key, now, Ok (ce_ips e))]
      \<and> (saturating_sub now (ce_created_at e) < ce_ttl e \<or> saturating_sub now (ce_created_at e) < ce_ttl e + do_swr_ttl opts)"
    using assms(2) Some by (auto simp: dns_lookup_def Let_def split: if_splits)
  moreover have "answer_known D opts es (caller, key, now, Ok (ce_ips e))"
    if "saturating_sub now (ce_created_at e) < ce_ttl e \<or> saturating_sub now (ce_created_at e) < ce_ttl e + do_swr_ttl opts"
    unfolding answer_known_def prod.case result.inject using that calculation(1,2) by blast
  ultimately have "\<forall>a \<in> set as. answer_known D opts es a" by auto
  then show ?thesis using entries_known_cache [OF assms(1) cache] by blast
qed

lemma known_finish:
  assumes "entries_known D opts es st" and "finish_query D opts key now sent st = (st', as)"
  shows "entries_known D opts (es @ [DFinish key now sent]) st' \<and> (\<forall>a \<in> set as. answer_known D opts (es @ [DFinish key now sent]) a)"
proof -
  have old: "entries_known D opts (es @ [DFinish key now sent]) st" by (rule known_mono(1) [OF _ assms(1)]) auto
  show ?thesis
  proof (cases "\<exists>f. map_of (dc_flights st) key = Some f \<and> fl_running f")
    case True
    then obtain f where Some: "map_of (dc_flights st) key = Some f" and True: "fl_running f" by blast
    show ?thesis
    proof (cases "query_result D opts key sent")
      case (Ok p)
      obtain ips ttl where p: "p = (ips, ttl)" by fastforce
      have c: "map_of (dc_cache st') = (map_of (dc_cache st))(key \<mapsto> \<lparr>ce_ips = ips, ce_created_at = now, ce_ttl = ttl, ce_is_refreshing = dc_next_flag st\<rparr>)"
          and as: "as = map (\<lambda>c. (c, key, now, Ok ips)) (callers (fl_waiters f))"
        using assms(2) Some True Ok p by (auto simp: finish_query_def Let_def update_conv')
      have "entries_known D opts (es @ [DFinish key now sent]) st'"
        unfolding entries_known_def c
      proof (intro allI impI)
        fix key' e
        assume e: "((map_of (dc_cache st))(key \<mapsto> \<lparr>ce_ips = ips, ce_created_at = now, ce_ttl = ttl, ce_is_refreshing = dc_next_flag st\<rparr>)) key' = Some e"
        show "\<exists>sent'. DFinish key' (ce_created_at e) sent' \<in> set (es @ [DFinish key now sent]) \<and> query_result D opts key' sent' = Ok (ce_ips e, ce_ttl e)"
        proof (cases "key' = key")
          case True
          then show ?thesis using e Ok p by auto
        next
          case False
          then show ?thesis using e entries_knownD [OF old, of key'] by simp
        qed
      qed
      then show ?thesis using as Ok p by (auto simp: answer_known_def)
    next
      case (Err e)
      have "dc_cache st' = dc_cache st" and "as = map (\<lambda>c. (c, key, now, Err (''DNS resolution error: '' @ e))) (callers (fl_waiters f))"
        using assms(2) Some True Err by (auto simp: finish_query_def Let_def)
      then show ?thesis using entries_known_cache [OF old] by (auto simp: answer_known_def)
    qed
  qed (use assms(2) old in \<open>auto simp: finish_query_def split: option.splits\<close>)
qed

lemma known_step:
  assumes "entries_known D opts es st" and "dns_step D opts e st = (st', as)"
  shows "entries_known D opts (es @ [e]) st' \<and> (\<forall>a \<in> set as. answer_known D opts (es @ [e]) a)"
proof -
  have old: "entries_known D opts (es @ [e]) st" by (rule known_mono(1) [OF _ assms(1)]) auto
  show ?thesis
  proof (cases e)
    case (DLookup c k t)
    then show ?thesis using known_lookup [OF old] assms(2) by simp
  next
    case (DStartRefresh i)
    then have "dc_cache st' = dc_cache st" "as = []"
      using assms(2) by (auto simp: start_refresh_def split: prod.splits if_splits)
    then show ?thesis using entries_known_cache [OF old] by simp
  next
    case (DAcquire k)
    then have "dc_cache st' = dc_cache st" "as = []" using assms(2) by (auto simp: acquire_permit_def split: option.splits if_splits)
    then show ?thesis using entries_known_cache [OF old] by simp
  next
    case (DFinish k t sent)
    then show ?thesis using known_finish [OF assms(1)] assms(2) by simp
  next
    case (DEvict k)
    then show ?thesis using assms(2) old by (auto simp: entries_known_def AList.delete_conv' split: if_splits)
  qed
qed

lemma known_run:
  "entries_known D opts pre st \<Longrightarrow> dns_run D opts es st = (st', as) \<Longrightarrow> \<forall>a \<in> set as. answer_known D opts (pre @ es) a"
proof (induction es arbitrary: pre st as)
  case (Cons e es)
  obtain st1 bs where s: "dns_step D opts e st = (st1, bs)" by fastforce
  obtain cs where c: "dns_run D opts es st1 = (st', cs)" and as: "as = bs @ cs" using Cons.prems(2) s by (auto split: prod.splits)
  note k = known_step [OF Cons.prems(1) s]
  have "\<forall>a \<in> set cs. answer_known D opts ((pre @ [e]) @ es) a" using Cons.IH [OF _ c] k by blast
  moreover have "\<forall>a \<in> set bs. answer_known D opts ((pre @ [e]) @ es) a" 
  proof
    fix a
    assume "a \<in> set bs"
    then have "answer_known D opts (pre @ [e]) a" using k by blast
    then show "answer_known D opts ((pre @ [e]) @ es) a" by (rule known_mono(2) [rotated]) auto
  qed
  ultimately show ?case using as by auto
qed simp

section \<open>Properties\<close>

text \<open>C30: an address that the DNS client answers with comes from a response to a query for exactly the name, type and
  subnet asked for, and that response passed the checks: either the lookup waited for that very response, or the cached
  answer was younger than its lifetime plus the period in which stale answers are allowed.\<close>

theorem dns_answers_sound:
  assumes "dns_run D opts es (with_transport opts) = (st, as)" and "(caller, key, now, Ok ips) \<in> set as"
  shows "\<exists>t sent ttl. DFinish key t sent \<in> set es \<and> query_result D opts key sent = Ok (ips, ttl)
    \<and> (now = t \<or> saturating_sub now t < ttl \<or> saturating_sub now t < ttl + do_swr_ttl opts)"
proof -
  have "entries_known D opts [] (with_transport opts)" by (simp add: entries_known_def with_transport_def)
  then have "answer_known D opts es (caller, key, now, Ok ips)" using known_run [OF _ assms(1), of "[]"] assms(2) by simp
  then show ?thesis unfolding answer_known_def by simp
qed

text \<open>C31: at every moment there is at most one query in flight for a key, never more queries at the upstream than the limit,
  and at most one background refresh for an entry; and every lookup so far has been answered exactly once or is waiting
  for a query in flight.\<close>

theorem dns_queries_single_flight:
  assumes "dns_run D opts es (with_transport opts) = (st, as)"
  shows "distinct (map fst (dc_flights st)) \<and> running_queries st \<le> do_max_concurrent_queries opts \<and> distinct (refreshes st)
    \<and> mset (map fst as) + mset (waiting_callers st) = mset (lookup_callers es)"
proof -
  have inv: "dns_inv opts st" "mset (map fst as) + mset (waiting_callers st) = mset (lookup_callers es)"
    using dns_inv_run [OF with_transport_inv assms] by (auto simp: waiting_callers_def with_transport_def)
  have "running_queries st \<le> do_max_concurrent_queries opts"
    using dns_queries.load_run [OF with_transport_inv, where es = es and D = D and opts = opts] assms by (simp add: dns_run_fold [symmetric])
  moreover have "distinct (refreshes st)" using inv(1) by (metis dns_inv_def mset_eq_imp_distinct_iff)
  ultimately show ?thesis using inv by (simp add: dns_inv_def)
qed

text \<open>The records of the answer section that have the type asked for, and the address of a record of the type.\<close>

definition answer_records :: "rtype \<Rightarrow> dns_message \<Rightarrow> dns_record list" where
  "answer_records qtype msg = filter (\<lambda>rec. dr_rtype rec = qtype) (case dm_answer msg of Some recs \<Rightarrow> recs | None \<Rightarrow> [])"

fun of_family :: "rtype \<Rightarrow> ip_addr \<Rightarrow> bool" where
  "of_family qtype (IpV4 a) = (qtype = RtA)"
| "of_family qtype (IpV6 a) = (qtype = RtAAAA)"

definition record_addrs :: "rtype \<Rightarrow> dns_record \<Rightarrow> ip_addr list" where
  "record_addrs qtype rec = (case dr_addr rec of None \<Rightarrow> [] | Some ip \<Rightarrow> if of_family qtype ip then [ip] else [])"

lemma collect_answers_eq:
  "collect_answers qtype recs ips m =
     (ips @ concat (map (record_addrs qtype) (filter (\<lambda>rec. dr_rtype rec = qtype) recs)),
      Min (insert m (dr_ttl ` set (filter (\<lambda>rec. dr_rtype rec = qtype) recs))))"
proof (induction recs arbitrary: ips m)
  case (Cons rec recs)
  have "(case (qtype, dr_addr rec) of (RtA, Some (IpV4 a)) \<Rightarrow> ips @ [IpV4 a] | (RtAAAA, Some (IpV6 a)) \<Rightarrow> ips @ [IpV6 a] | _ \<Rightarrow> ips)
      = ips @ record_addrs qtype rec"
    by (auto simp: record_addrs_def split: rtype.splits option.splits ip_addr.splits)
  moreover have "Min (insert (min m (dr_ttl rec)) X) = Min (insert m (insert (dr_ttl rec) X))" if "finite X" for X
    using that by (cases "X = {}") (auto simp: Min_insert min.assoc)
  ultimately show ?case using Cons.IH by (simp add: Let_def)
qed simp

lemma collect_answers_message:
  assumes "(case dm_answer msg of Some recs \<Rightarrow> collect_answers qtype recs [] (- 1) | None \<Rightarrow> ([], - 1)) = (ips, m)"
  shows "ips = concat (map (record_addrs qtype) (answer_records qtype msg))"
    and "ips \<noteq> [] \<Longrightarrow> m = Min (dr_ttl ` set (answer_records qtype msg))"
proof -
  show ips: "ips = concat (map (record_addrs qtype) (answer_records qtype msg))"
    using assms by (auto simp: answer_records_def collect_answers_eq split: option.splits)
  have m: "m = Min (insert (- 1) (dr_ttl ` set (answer_records qtype msg)))"
    using assms by (auto simp: answer_records_def collect_answers_eq split: option.splits)
  show "m = Min (dr_ttl ` set (answer_records qtype msg))" if "ips \<noteq> []"
  proof -
    have "answer_records qtype msg \<noteq> []" using that ips by auto
    then show ?thesis using m by (simp add: Min_insert min.absorb2)
  qed
qed

lemma clamp_u64_eq: "lo \<le> hi \<Longrightarrow> clamp_u64 x lo hi = min hi (max lo x)"
  by (auto simp: clamp_u64_def min_def max_def)

text \<open>C32: which responses are accepted, and what they yield. A response gives a result exactly when it carries the
  identifier of the query, repeats its question, is not truncated and its code is NXDOMAIN or NOERROR. NXDOMAIN yields no
  address. NOERROR yields the addresses of the answer records of the type asked for, all of them and in their order, and nothing
  else. The lifetime is the one for empty answers when there is no address, and otherwise the least lifetime of these records,
  brought between the two configured limits, in whatever order these are given.\<close>

theorem dns_response_checked:
  "parse_response D opts data ident qtype domain = Ok (ips, ttl) \<longleftrightarrow>
    (\<exists>msg qname. co_parse D data = Some msg \<and> dm_id msg = ident \<and> dm_question msg = Some (qname, qtype) \<and> \<not> dm_tc msg
      \<and> eq_ignore_ascii_case (trim_end_matches (\<lambda>c. c = CHR ''.'') qname) (trim_end_matches (\<lambda>c. c = CHR ''.'') domain)
      \<and> (dm_rcode msg = NXDOMAIN \<and> ips = []
         \<or> dm_rcode msg = NOERROR \<and> ips = concat (map (record_addrs qtype) (answer_records qtype msg)))
      \<and> ttl = (if ips = [] then do_empty_ttl opts
                else min (max (do_min_ttl opts) (do_max_ttl opts))
                       (max (min (do_min_ttl opts) (do_max_ttl opts)) (ucast (Min (dr_ttl ` set (answer_records qtype msg)))))))"
  (is "?l \<longleftrightarrow> ?r")
proof -
  have le: "min (do_min_ttl opts) (do_max_ttl opts) \<le> max (do_min_ttl opts) (do_max_ttl opts)"
    by (rule order.trans [OF min.cobounded1 max.cobounded1])
  have no: "NXDOMAIN \<noteq> NOERROR" by (simp add: NXDOMAIN_def NOERROR_def)
  show ?thesis
  proof (cases "co_parse D data")
    case None
    then show ?thesis by (simp add: parse_response_def)
  next
    case (Some msg)
    obtain addrs mt where c: "(case dm_answer msg of Some recs \<Rightarrow> collect_answers qtype recs [] (- 1) | None \<Rightarrow> ([], - 1)) = (addrs, mt)" by fastforce
    show ?thesis
      using collect_answers_message [OF c] no
      by (cases "dm_question msg") (auto simp: parse_response_def Some c Let_def clamp_u64_eq [OF le] split: if_splits)
  qed
qed

text \<open>C33: connection attempts are complete. They fail only when every address has been tried and has failed, whatever the
  order in which attempts end and delays run out; a connection is only that of an attempt that succeeded; addresses are
  tried in order, each once; something can always happen until the outcome is settled, and it is settled after at most
  two events per address.\<close>

theorem happy_eyeballs_complete:
  assumes "happy_trace ips es st"
  shows "(\<forall>e. hp_result st = Some (Err e) \<longrightarrow> mset (hp_failed st) = mset ips)
    \<and> (\<forall>s. hp_result st = Some (Ok s) \<longrightarrow> (\<exists>i. last es = HJoined i (Ok s) \<and> es \<noteq> []))
    \<and> mset (hp_running st) + mset (hp_failed st) = mset (take (length ips - length (hp_waiting st)) ips)
    \<and> (hp_result st = None \<longrightarrow> length es < 2 * length ips \<and> (happy_enabled HDelay st \<or> (\<forall>r. happy_enabled (HJoined 0 r) st)))"
proof -
  note inv = happy_trace_inv [OF assms]
  obtain pre where pre: "ips = pre @ hp_waiting st" using inv by (auto simp: happy_inv_def suffix_def)
  then have "mset (hp_running st) + mset (hp_failed st) + mset (hp_waiting st) = mset pre + mset (hp_waiting st)"
    using inv by (auto simp: happy_inv_def)
  then have "mset (hp_running st) + mset (hp_failed st) = mset (take (length ips - length (hp_waiting st)) ips)" using pre by simp
  moreover have "length es < 2 * length ips" if "hp_result st = None"
    using inv that by (cases "hp_running st") (auto simp: happy_inv_def split: if_splits)
  ultimately show ?thesis using inv by (auto simp: happy_inv_def split: option.splits result.splits)
qed

text \<open>The addresses to try are exactly those found, each as often as found, those of a family in the order given; the
  two families alternate as long as both last, the preferred one first.\<close>

theorem resolve_interleaves:
  assumes "dns_resolve opts shuffle host (Ok v4) (Ok v6) = Ok ips" and "parse_ip host = None"
    and "\<And>xs. mset (shuffle xs) = mset xs"
  shows "mset ips = mset v4 + mset v6
    \<and> (\<forall>i < length v6. \<exists>j. j \<le> (if do_prefer_ipv6 opts then 2 * i else 2 * i + 1) \<and> j < length ips \<and> ips ! j = shuffle v6 ! i)
    \<and> (\<forall>i < length v4. \<exists>j. j \<le> (if do_prefer_ipv6 opts then 2 * i + 1 else 2 * i) \<and> j < length ips \<and> ips ! j = shuffle v4 ! i)
    \<and> subseq (shuffle v4) ips \<and> subseq (shuffle v6) ips"
proof -
  have len: "length (shuffle xs) = length xs" for xs using assms(3) mset_eq_length by blast
  have "ips = (if do_prefer_ipv6 opts then interleave (shuffle v6) (shuffle v4) else interleave (shuffle v4) (shuffle v6))"
    using assms(1,2) by (auto simp: dns_resolve_def ok_or_empty_def interleave_ips_def Let_def split: if_splits)
  then show ?thesis
    using interleave_nth(1) [of _ "shuffle v6" "shuffle v4"] interleave_nth(2) [of _ "shuffle v4" "shuffle v6"]
      interleave_nth(1) [of _ "shuffle v4" "shuffle v6"] interleave_nth(2) [of _ "shuffle v6" "shuffle v4"]
      interleave_subseq [of "shuffle v6" "shuffle v4"] interleave_subseq [of "shuffle v4" "shuffle v6"]
    by (auto simp: mset_interleave assms(3) len)
qed

text \<open>One name with one address, asked for twice; two addresses of which the second answers; one address of each family.\<close>

definition example_codec :: dns_codec where
  "example_codec = \<lparr>co_encode = (\<lambda>q. Ok []), co_parse = (\<lambda>b. Some \<lparr>dm_id = 7, dm_question = Some (''a.'', RtA), dm_tc = False, dm_rcode = 0,
     dm_answer = Some [\<lparr>dr_rtype = RtA, dr_ttl = 5, dr_addr = Some (IpV4 1)\<rparr>]\<rparr>)\<rparr>"

definition example_key :: cache_key where "example_key = (''a'', RtA, None)"

definition example_dns_events :: "dns_event list" where
  "example_dns_events = [DLookup 1 example_key 10, DAcquire example_key, DFinish example_key 12 (Ok ([], 7)), DLookup 2 example_key 50]"

lemma example_response: "parse_response example_codec default_options [] 7 RtA ''a'' = Ok ([IpV4 1], 30)"
  by (simp add: parse_response_def example_codec_def default_options_def NXDOMAIN_def NOERROR_def clamp_u64_def eq_ignore_ascii_case_def
      trim_end_matches_def)

lemma example_dns_run:
  "snd (dns_run example_codec default_options example_dns_events (with_transport default_options))
     = [(1, example_key, 12, Ok [IpV4 1]), (2, example_key, 50, Ok [IpV4 1])]"
proof -
  have q: "query_result example_codec default_options example_key (Ok ([], 7)) = Ok ([IpV4 1], 30)"
    using example_response by (simp add: query_result_def example_key_def build_query_def example_codec_def)
  have f: "do_max_concurrent_queries default_options = 1024" "do_swr_ttl default_options = 3600" by (simp_all add: default_options_def)
  show ?thesis
    by (simp add: example_dns_events_def with_transport_def dns_lookup_def join_flight_def acquire_permit_def finish_query_def q f
        saturating_sub_def Let_def)
qed

theorem dns_answers_sound_witness:
  "\<exists>t sent ttl. DFinish example_key t sent \<in> set example_dns_events \<and> query_result example_codec default_options example_key sent = Ok ([IpV4 1], ttl)
     \<and> (50 = t \<or> saturating_sub 50 t < ttl \<or> saturating_sub 50 t < ttl + do_swr_ttl default_options)"
proof -
  obtain st where "dns_run example_codec default_options example_dns_events (with_transport default_options)
      = (st, [(1, example_key, 12, Ok [IpV4 1]), (2, example_key, 50, Ok [IpV4 1])])"
    using example_dns_run by (metis prod.collapse)
  from dns_answers_sound [OF this, of 2 example_key 50 "[IpV4 1]"] show ?thesis by simp
qed

theorem dns_queries_single_flight_witness:
  "\<exists>st as. dns_run example_codec default_options example_dns_events (with_transport default_options) = (st, as)
     \<and> mset (map fst as) + mset (waiting_callers st) = {#1, 2#} \<and> running_queries st \<le> 1024"
proof -
  obtain st as where r: "dns_run example_codec default_options example_dns_events (with_transport default_options) = (st, as)" by fastforce
  with dns_queries_single_flight [OF r] show ?thesis by (auto simp: example_dns_events_def default_options_def)
qed

theorem dns_response_checked_witness:
  "\<exists>msg. co_parse example_codec [] = Some msg \<and> dm_id msg = 7 \<and> \<not> dm_tc msg \<and> (dm_rcode msg = NXDOMAIN \<or> dm_rcode msg = NOERROR)"
  using example_response unfolding dns_response_checked by blast

theorem happy_eyeballs_complete_witness:
  "\<exists>st :: nat happy. happy_trace [IpV4 1, IpV4 2] [HDelay, HJoined 0 (Err ''x''), HJoined 0 (Ok 5)] st \<and> hp_result st = Some (Ok 5)
     \<and> mset (hp_running st) + mset (hp_failed st) = {#IpV4 1, IpV4 2#}"
proof -
  let ?ips = "[IpV4 1, IpV4 2]"
  have s0: "happy_trace ?ips [] (happy_start ?ips :: nat happy)" by (rule happy_trace.start)
  have s1: "happy_trace ?ips [HDelay] (happy_step HDelay (happy_start ?ips) :: nat happy)"
    using happy_trace.step [OF s0, of HDelay] by (simp add: happy_start_def)
  have s2: "happy_trace ?ips [HDelay, HJoined 0 (Err ''x'')] (happy_step (HJoined 0 (Err ''x'')) (happy_step HDelay (happy_start ?ips)) :: nat happy)"
    using happy_trace.step [OF s1, of "HJoined 0 (Err ''x'')"] by (simp add: happy_start_def)
  have s3: "happy_trace ?ips [HDelay, HJoined 0 (Err ''x''), HJoined 0 (Ok 5)]
      (happy_step (HJoined 0 (Ok 5)) (happy_step (HJoined 0 (Err ''x'')) (happy_step HDelay (happy_start ?ips))) :: nat happy)"
    using happy_trace.step [OF s2, of "HJoined 0 (Ok 5)"] by (simp add: happy_start_def all_failed_def)
  show ?thesis using happy_eyeballs_complete [OF s3] s3 by (auto simp: happy_start_def all_failed_def)
qed

theorem resolve_interleaves_witness:
  "\<exists>ips. dns_resolve default_options rev ''x'' (Ok [IpV4 1, IpV4 2]) (Ok [IpV6 3]) = Ok ips \<and> mset ips = {#IpV4 1, IpV4 2, IpV6 3#}"
proof -
  have v4: "read_ipv4 ''x'' = None" by (rule read_ipv4_None) (simp add: to_digit_def)
  have "read_groups 8 0 ''x'' = ([], False, ''x'')"
    using read_groups.simps(2) [of 7 0 "''x''"] v4 by (simp add: read_separator_def read_number_def to_digit_def)
  then have p: "parse_ip ''x'' = None" using v4 by (simp add: parse_ip_def read_ipv6_def strip_prefix_def)
  obtain ips where r: "dns_resolve default_options rev ''x'' (Ok [IpV4 1, IpV4 2]) (Ok [IpV6 3]) = Ok ips"
    by (auto simp: dns_resolve_def p ok_or_empty_def)
  have "mset ips = mset [IpV4 1, IpV4 2] + mset [IpV6 3]" by (rule conjunct1 [OF resolve_interleaves [OF r p]]) simp
  then show ?thesis using r by simp
qed

end
