(* ===== verification/Upstream_Connect.thy ===== *)
theory Upstream_Connect
  imports Warp_Client Dns_Client
begin

text \<open>
  Connecting the server to a target, \<^verbatim>\<open>src/src/server/connection.rs\<close>: directly, through a SOCKS proxy, or through WARP, with the
  set-up of the resolver from \<^verbatim>\<open>src/src/server/mod.rs\<close>. The network is given by what it answers to each way of reaching an
  address; the resolver and the WARP client are given by their results, as the theories of these components model them.
  Every call of the network is listed, in order.

  Lemmas: with WARP, an address that is not to be reached directly is only ever dialled through WARP, and the attempts stop
  at the first success or after four addresses.
\<close>

definition MAX_ADDRESS_ATTEMPTS :: nat where "MAX_ADDRESS_ATTEMPTS = 4"

datatype ('s, 'm) upstream = UpDirect 's | UpWarp 'm

text \<open>Ways of reaching a target: a host name is left to the system's resolver or to the proxy.\<close>

datatype net_call = TcpIp ip_addr nat | TcpHost string nat | SocksIp string ip_addr nat | SocksHost string string nat | WarpDial ip_addr nat

record ('s, 'm) network =
  nw_connect :: "net_call \<Rightarrow> ('s, string) result"
  nw_nodelay :: "'s \<Rightarrow> bool"
  nw_dial :: "ip_addr \<Rightarrow> nat \<Rightarrow> ('m, string) result"

record ('n) warp_client =
  wl_networks :: "'n ip_network"
  wl_bypass :: "'n warp_bypass"

record 's dns_handle =
  dh_resolve :: "string \<Rightarrow> ip_addr option \<Rightarrow> (ip_addr list, string) result"
  dh_connect :: "string \<Rightarrow> nat \<Rightarrow> ip_addr option \<Rightarrow> string option \<Rightarrow> net_call list \<times> ('s, string) result"

definition is_direct_ip :: "'n warp_client \<Rightarrow> ip_addr \<Rightarrow> bool" where
  "is_direct_ip W ip = bypass_contains (wl_networks W) (wl_bypass W) ip"

definition is_direct_name :: "'n warp_client \<Rightarrow> string \<Rightarrow> bool" where
  "is_direct_name W host = name_is_direct (wl_bypass W) host"

definition resolve_target :: "'s dns_handle option \<Rightarrow> ip_addr option \<Rightarrow> string \<Rightarrow> (ip_addr list, string) result" where
  "resolve_target dns client_subnet host =
     (case parse_ip host of
        Some ip \<Rightarrow> Ok [ip]
      | None \<Rightarrow>
          if eq_ignore_ascii_case host ''localhost'' then Ok [IpV4 0x7F000001, IpV6 1]
          else (case dns of
                  None \<Rightarrow> Err (''warp: `'' @ host @ ''` needs a DNS resolver but none is configured'')
                | Some d \<Rightarrow> dh_resolve d host client_subnet))"

text \<open>A call of the network and the stream it yields.\<close>

definition net_stream :: "('s, 'm) network \<Rightarrow> string \<Rightarrow> net_call \<Rightarrow> ('s, string) result" where
  "net_stream N label call =
     rbind (map_err (\<lambda>e. label @ e) (nw_connect N call)) (\<lambda>stream. if nw_nodelay N stream then Ok stream else Err ''set_nodelay'')"

definition connect_ip :: "('s, 'm) network \<Rightarrow> string option \<Rightarrow> ip_addr \<Rightarrow> nat \<Rightarrow> net_call list \<times> ('s, string) result" where
  "connect_ip N socks5_proxy ip port =
     (case socks5_proxy of
        Some proxy \<Rightarrow> ([SocksIp proxy ip port], net_stream N ''socks5 connect: '' (SocksIp proxy ip port))
      | None \<Rightarrow> ([TcpIp ip port], net_stream N ''tcp connect: '' (TcpIp ip port)))"

text \<open>\<open>connect_direct\<close>: with a resolver, its staggered attempts, given by the calls they make and their result.\<close>

definition connect_direct ::
    "('s, 'm) network \<Rightarrow> 's dns_handle option \<Rightarrow> ip_addr option \<Rightarrow> string option \<Rightarrow> string \<Rightarrow> nat \<Rightarrow> net_call list \<times> ('s, string) result" where
  "connect_direct N dns client_subnet socks5_proxy host port =
     (case dns of
        Some d \<Rightarrow>
          (let (calls, r) = dh_connect d host port client_subnet socks5_proxy
           in (calls, rbind (map_err (\<lambda>e. ''dns error: '' @ e) r) (\<lambda>stream. if nw_nodelay N stream then Ok stream else Err ''set_nodelay'')))
      | None \<Rightarrow>
          (case socks5_proxy of
             Some p \<Rightarrow> ([SocksHost p host port], net_stream N ''socks5 connect: '' (SocksHost p host port))
           | None \<Rightarrow> ([TcpHost host port], net_stream N ''tcp connect: '' (TcpHost host port))))"

text \<open>The loop over the addresses, with the error of the last attempt.\<close>

fun connect_loop ::
    "('s, 'm) network \<Rightarrow> 'n warp_client \<Rightarrow> bool \<Rightarrow> string option \<Rightarrow> string \<Rightarrow> nat \<Rightarrow> ip_addr list \<Rightarrow> string option
      \<Rightarrow> net_call list \<times> (('s, 'm) upstream, string) result" where
  "connect_loop N W force_direct socks5_proxy host port [] last_error =
     ([], Err (unwrap_or last_error (''no address to connect for '' @ host)))"
| "connect_loop N W force_direct socks5_proxy host port (ip # ips) last_error =
     (let (calls, attempt) =
            (if force_direct \<or> is_direct_ip W ip
             then (let (calls, r) = connect_ip N socks5_proxy ip port in (calls, rbind r (\<lambda>s. Ok (UpDirect s))))
             else ([WarpDial ip port], rbind (nw_dial N ip port) (\<lambda>m. Ok (UpWarp m))))
      in case attempt of
           Ok up \<Rightarrow> (calls, Ok up)
         | Err e \<Rightarrow> (let (more, r) = connect_loop N W force_direct socks5_proxy host port ips (Some e) in (calls @ more, r)))"

definition connect_upstream ::
    "('s, 'm) network \<Rightarrow> 'n warp_client option \<Rightarrow> 's dns_handle option \<Rightarrow> ip_addr option \<Rightarrow> string option \<Rightarrow> string \<Rightarrow> nat
      \<Rightarrow> net_call list \<times> (('s, 'm) upstream, string) result" where
  "connect_upstream N warp dns client_subnet socks5_proxy host port =
     (case warp of
        None \<Rightarrow> (let (calls, r) = connect_direct N dns client_subnet socks5_proxy host port in (calls, rbind r (\<lambda>s. Ok (UpDirect s))))
      | Some W \<Rightarrow>
          (case resolve_target dns client_subnet host of
             Err e \<Rightarrow> ([], Err e)
           | Ok addresses \<Rightarrow>
               connect_loop N W (is_direct_name W host) socks5_proxy host port (take MAX_ADDRESS_ATTEMPTS addresses) None))"

text \<open>The resolver that \<open>build_state\<close> sets up: with WARP there is always one.\<close>

definition effective_dns :: "bool \<Rightarrow> dns_config option \<Rightarrow> (dns_config option, string) result" where
  "effective_dns warp cfg =
     (case (if cfg = None \<and> warp then Some public_default else cfg) of
        Some dc \<Rightarrow> rbind (init_dns dc) (\<lambda>dc. Ok (Some dc))
      | None \<Rightarrow> Ok None)"

section \<open>Lemmas\<close>

fun call_ip :: "net_call \<Rightarrow> ip_addr option" where
  "call_ip (TcpIp ip p) = Some ip"
| "call_ip (SocksIp x ip p) = Some ip"
| "call_ip (WarpDial ip p) = Some ip"
| "call_ip (TcpHost h p) = None"
| "call_ip (SocksHost x h p) = None"

fun call_port :: "net_call \<Rightarrow> nat" where
  "call_port (TcpIp ip p) = p"
| "call_port (SocksIp x ip p) = p"
| "call_port (WarpDial ip p) = p"
| "call_port (TcpHost h p) = p"
| "call_port (SocksHost x h p) = p"

lemma connect_ip_calls:
  "connect_ip N proxy ip port = (calls, r) \<Longrightarrow>
     \<exists>call. calls = [call] \<and> call_ip call = Some ip \<and> call_port call = port \<and> (\<forall>i p. call \<noteq> WarpDial i p) \<and> (\<exists>l. r = net_stream N l call)"
  by (auto simp: connect_ip_def split: option.splits)

lemma connect_loop_calls:
  "connect_loop N W force proxy host port ips last_error = (calls, r) \<Longrightarrow>
     prefix (map call_ip calls) (map Some ips)
     \<and> (\<forall>call \<in> set calls. call_port call = port \<and> (\<forall>ip. call_ip call = Some ip \<longrightarrow> (call = WarpDial ip port \<longleftrightarrow> \<not> (force \<or> is_direct_ip W ip))))
     \<and> (\<forall>m. r = Ok (UpWarp m) \<longrightarrow> (\<exists>ip. calls \<noteq> [] \<and> last calls = WarpDial ip port \<and> nw_dial N ip port = Ok m))
     \<and> (\<forall>s. r = Ok (UpDirect s) \<longrightarrow> (\<exists>l. calls \<noteq> [] \<and> net_stream N l (last calls) = Ok s))
     \<and> (\<forall>e. r = Err e \<longrightarrow> map call_ip calls = map Some ips)"
proof (induction ips arbitrary: last_error calls r)
  case Nil
  then show ?case by auto
next
  case (Cons ip ips)
  show ?case
  proof (cases "force \<or> is_direct_ip W ip")
    case True
    obtain cs q where ci: "connect_ip N proxy ip port = (cs, q)" by fastforce
    from connect_ip_calls [OF ci] obtain call l where c: "cs = [call]" "call_ip call = Some ip" "call_port call = port"
        "\<forall>i p. call \<noteq> WarpDial i p" "q = net_stream N l call" by blast
    show ?thesis
    proof (cases q)
      case (Ok s)
      then have "calls = [call]" "r = Ok (UpDirect s)" using Cons.prems True ci c(1) by auto
      then show ?thesis using c True Ok by auto
    next
      case (Err e)
      obtain more where m: "connect_loop N W force proxy host port ips (Some e) = (more, r)" and calls: "calls = call # more"
        using Cons.prems True ci c(1) Err by (auto split: prod.splits)
      note ih = Cons.IH [OF m]
      have "more \<noteq> []" if "r = Ok x" for x
        using ih that by (cases x) auto
      then show ?thesis using ih c True calls by auto
    qed
  next
    case False
    show ?thesis
    proof (cases "nw_dial N ip port")
      case (Ok m)
      then have "calls = [WarpDial ip port]" "r = Ok (UpWarp m)" using Cons.prems False by auto
      then show ?thesis using Ok False by auto
    next
      case (Err e)
      obtain more where m: "connect_loop N W force proxy host port ips (Some e) = (more, r)" and calls: "calls = WarpDial ip port # more"
        using Cons.prems False Err by (auto split: prod.splits)
      note ih = Cons.IH [OF m]
      have "more \<noteq> []" if "r = Ok x" for x
        using ih that by (cases x) auto
      then show ?thesis using ih False calls by auto
    qed
  qed
qed

section \<open>Properties\<close>

text \<open>C34: with WARP, traffic never falls back to a direct connection. Every call of the network is for one of the first four
  addresses of the target, in their order, on the port asked for; it goes through WARP exactly when neither the name nor the
  address is to be reached directly; a stream that is returned is that of the last call; and the connection fails only
  after all of these addresses have been tried.\<close>

theorem warp_never_falls_back:
  assumes "connect_upstream N (Some W) dns client_subnet socks5_proxy host port = (calls, r)"
    and "resolve_target dns client_subnet host = Ok addresses"
  shows "length calls \<le> 4 \<and> prefix (map call_ip calls) (map Some (take 4 addresses))
    \<and> (\<forall>call \<in> set calls. \<exists>ip. call_ip call = Some ip \<and> call_port call = port
         \<and> (call = WarpDial ip port \<longleftrightarrow> \<not> is_direct_name W host \<and> \<not> is_direct_ip W ip))
    \<and> (\<forall>m. r = Ok (UpWarp m) \<longrightarrow> (\<exists>ip. last calls = WarpDial ip port \<and> nw_dial N ip port = Ok m))
    \<and> (\<forall>s. r = Ok (UpDirect s) \<longrightarrow> (\<exists>l. net_stream N l (last calls) = Ok s))
    \<and> (\<forall>e. r = Err e \<longrightarrow> map call_ip calls = map Some (take 4 addresses))"
proof -
  have "connect_loop N W (is_direct_name W host) socks5_proxy host port (take 4 addresses) None = (calls, r)"
    using assms by (simp add: connect_upstream_def MAX_ADDRESS_ATTEMPTS_def)
  note c = connect_loop_calls [OF this]
  note pre = conjunct1 [OF c] and each = conjunct1 [OF conjunct2 [OF c]] and res = conjunct2 [OF conjunct2 [OF c]]
  have len: "length calls \<le> 4" using prefix_length_le [OF pre] by simp
  have calls: "\<forall>call \<in> set calls. \<exists>ip. call_ip call = Some ip \<and> call_port call = port
      \<and> (call = WarpDial ip port \<longleftrightarrow> \<not> is_direct_name W host \<and> \<not> is_direct_ip W ip)"
  proof
    fix call
    assume call: "call \<in> set calls"
    then have "call_ip call \<in> set (map Some (take 4 addresses))" using set_mono_prefix [OF pre] by auto
    then obtain ip where ip: "call_ip call = Some ip" by auto
    moreover have "call_port call = port \<and> (call = WarpDial ip port \<longleftrightarrow> \<not> (is_direct_name W host \<or> is_direct_ip W ip))"
      using bspec [OF each call] ip by blast
    ultimately show "\<exists>ip. call_ip call = Some ip \<and> call_port call = port
        \<and> (call = WarpDial ip port \<longleftrightarrow> \<not> is_direct_name W host \<and> \<not> is_direct_ip W ip)" by blast
  qed
  from res have "\<forall>m. r = Ok (UpWarp m) \<longrightarrow> (\<exists>ip. last calls = WarpDial ip port \<and> nw_dial N ip port = Ok m)"
      "\<forall>s. r = Ok (UpDirect s) \<longrightarrow> (\<exists>l. net_stream N l (last calls) = Ok s)" "\<forall>e. r = Err e \<longrightarrow> map call_ip calls = map Some (take 4 addresses)"
    by blast+
  with len pre calls show ?thesis by (intro conjI)
qed

text \<open>A private address, which is reached directly, and a public one, which is not reached at all.\<close>

definition example_network :: "(nat, nat) network" where
  "example_network = \<lparr>nw_connect = (\<lambda>c. Err ''refused''), nw_nodelay = (\<lambda>s. True), nw_dial = (\<lambda>ip p. Err ''no route'')\<rparr>"

definition example_warp :: "unit warp_client" where
  "example_warp = \<lparr>wl_networks = \<lparr>iw_parse = (\<lambda>s. None), iw_contains = (\<lambda>n ip. False)\<rparr>,
     wl_bypass = \<lparr>wb_private = True, wb_networks = [], wb_suffixes = []\<rparr>\<rparr>"

definition example_handle :: "nat dns_handle" where
  "example_handle = \<lparr>dh_resolve = (\<lambda>h s. Ok [IpV4 0x0A000001, IpV4 0x01010101]), dh_connect = (\<lambda>h p s x. ([], Err ''unused''))\<rparr>"

theorem warp_never_falls_back_witness:
  "\<exists>calls e. connect_upstream example_network (Some example_warp) (Some example_handle) None None ''x'' 80 = (calls, Err e)
     \<and> map call_ip calls = [Some (IpV4 0x0A000001), Some (IpV4 0x01010101)]"
proof -
  have v4: "read_ipv4 ''x'' = None" by (rule read_ipv4_None) (simp add: to_digit_def)
  have "read_groups 8 0 ''x'' = ([], False, ''x'')"
    using read_groups.simps(2) [of 7 0 "''x''"] v4 by (simp add: read_separator_def read_number_def to_digit_def)
  then have p: "parse_ip ''x'' = None" using v4 by (simp add: parse_ip_def read_ipv6_def strip_prefix_def)
  then have rt: "resolve_target (Some example_handle) None ''x'' = Ok [IpV4 0x0A000001, IpV4 0x01010101]"
    by (simp add: resolve_target_def example_handle_def eq_ignore_ascii_case_def)
  obtain calls r where c: "connect_upstream example_network (Some example_warp) (Some example_handle) None None ''x'' 80 = (calls, r)" by fastforce
  note f = warp_never_falls_back [OF c rt]
  have "\<exists>e. r = Err e"
  proof (cases r)
    case (Ok up)
    then show ?thesis using f by (cases up) (auto simp: net_stream_def example_network_def)
  qed auto
  then show ?thesis using c f by auto
qed

end
