(* ===== verification/Dns_Transport.thy ===== *)
theory Dns_Transport
  imports Upstream_Connect
begin

text \<open>
  The transports of DNS queries, \<^verbatim>\<open>src/src/dns/transport.rs\<close>: single datagrams, and one shared stream (DNS over TCP or TLS)
  on which queries are told apart by their identifiers.

  The stream transport is a task and its reader, both driven by events: a query that is sent, the task taking the next
  query off its channel, bytes that arrive, the reader ending, and a query that runs out of time. How connecting and writing
  end is part of the event; random identifiers are a list of candidates. \<open>sp_log\<close> records the queries, for the lemmas only.

  Lemmas: messages keep their boundaries however the stream is cut; a response goes to the one query that has its
  identifier; every query is answered once or is still waiting.
\<close>

definition UDP_RECV_BUF :: nat where "UDP_RECV_BUF = 2048"

section \<open>Datagrams\<close>

text \<open>The identifier in the first two bytes of the query; \<open>None\<close> is the panic on a shorter buffer.\<close>

definition put_id :: "u16 \<Rightarrow> bytes \<Rightarrow> bytes option" where
  "put_id ident data = (if length data < 2 then None else Some (u16_to_be ident @ drop 2 data))"

datatype udp_outcome = UdpError string | UdpTimeout | UdpReply bytes

definition udp_send :: "u16 \<Rightarrow> bytes \<Rightarrow> udp_outcome \<Rightarrow> (bytes \<times> u16, string) result option" where
  "udp_send ident data outcome =
     map_option (\<lambda>query. case outcome of
         UdpError e \<Rightarrow> Err e
       | UdpTimeout \<Rightarrow> Err ''UDP upstream timeout''
       | UdpReply buf \<Rightarrow> Ok (take UDP_RECV_BUF buf, ident)) (put_id ident data)"

section \<open>Messages on a stream\<close>

definition write_message :: "bytes \<Rightarrow> bytes" where
  "write_message data = u16_to_be (of_nat (length data)) @ data"

text \<open>One round of \<open>reader_loop\<close>: the next message, if it is complete, and how many bytes it takes.\<close>

definition next_message :: "bytes \<Rightarrow> (bytes \<times> nat) option" where
  "next_message buf =
     (if length buf < 2 then None
      else (let msg_len = unat (u16_from_be (take 2 buf)) in
            if length buf < 2 + msg_len then None else Some (take msg_len (drop 2 buf), 2 + msg_len)))"

function read_messages :: "bytes \<Rightarrow> bytes list \<times> bytes" where
  "read_messages buf =
     (case next_message buf of
        None \<Rightarrow> ([], buf)
      | Some (m, used) \<Rightarrow> (let (ms, rest) = read_messages (drop used buf) in (m # ms, rest)))"
  by pat_completeness auto
termination
  by (relation "measure length") (auto simp: next_message_def Let_def split: if_splits)

declare read_messages.simps [simp del]

section \<open>The stream transport\<close>

type_synonym tp_answer = "nat \<times> (bytes \<times> u16, string) result"

record stream_transport =
  sp_pending :: "(u16 \<times> nat) list"
  sp_queue :: "(bytes \<times> u16) list"
  sp_writer :: "sock option"
  sp_reader :: "bytes option"
  sp_log :: "(nat \<times> u16 \<times> bytes) list"

definition stream_transport_new :: stream_transport where
  "stream_transport_new = \<lparr>sp_pending = [], sp_queue = [], sp_writer = None, sp_reader = None, sp_log = []\<rparr>"

text \<open>\<open>assign_id_and_register\<close>: the first candidate that no pending query has.\<close>

definition assign_id_and_register :: "u16 list \<Rightarrow> bytes \<Rightarrow> nat \<Rightarrow> stream_transport \<Rightarrow> (stream_transport \<times> u16 \<times> bytes) option" where
  "assign_id_and_register candidates data req st =
     (case find (\<lambda>c. map_of (sp_pending st) c = None) candidates of
        None \<Rightarrow> None
      | Some ident \<Rightarrow>
          map_option (\<lambda>data. (st\<lparr>sp_pending := sp_pending st @ [(ident, req)], sp_log := sp_log st @ [(req, ident, data)]\<rparr>, ident, data))
            (put_id ident data))"

text \<open>\<open>pending.remove(&id)\<close> with an answer to the query, and \<open>pending.drain()\<close> with an error for all.\<close>

definition answer_id :: "u16 \<Rightarrow> (bytes, string) result \<Rightarrow> stream_transport \<Rightarrow> stream_transport \<times> tp_answer list" where
  "answer_id ident r st =
     (case map_of (sp_pending st) ident of
        None \<Rightarrow> (st, [])
      | Some req \<Rightarrow> (st\<lparr>sp_pending := AList.delete ident (sp_pending st)\<rparr>, [(req, rbind r (\<lambda>resp. Ok (resp, ident)))]))"

definition drain_pending :: "string \<Rightarrow> stream_transport \<Rightarrow> stream_transport \<times> tp_answer list" where
  "drain_pending e st = (st\<lparr>sp_pending := []\<rparr>, map (\<lambda>(ident, req). (req, Err e)) (sp_pending st))"

definition stream_send :: "nat \<Rightarrow> bytes \<Rightarrow> u16 list \<Rightarrow> bool \<Rightarrow> stream_transport \<Rightarrow> stream_transport \<times> tp_answer list" where
  "stream_send req data candidates closed st =
     (case assign_id_and_register candidates data req st of
        None \<Rightarrow> (st, [])
      | Some (st, ident, data) \<Rightarrow>
          if closed then answer_id ident (Err ''DNS transport actor closed'') st
          else (st\<lparr>sp_queue := sp_queue st @ [(data, ident)]\<rparr>, []))"

text \<open>The write of a query: \<open>false\<close> is an error or the time limit.\<close>

definition write_query :: "bytes \<Rightarrow> sock \<Rightarrow> sock \<times> bool" where
  "write_query data w =
     (case write_all (u16_to_be (of_nat (length data))) w of
        (w, Some (Ok u)) \<Rightarrow> (case write_all data w of (w, r) \<Rightarrow> (w, r = Some (Ok ())))
      | (w, r) \<Rightarrow> (w, False))"

text \<open>The task takes the next query: it connects when there is no connection, and writes.\<close>

definition actor_next :: "(sock, string) result \<Rightarrow> stream_transport \<Rightarrow> stream_transport \<times> tp_answer list" where
  "actor_next connector st =
     (case sp_queue st of
        [] \<Rightarrow> (st, [])
      | (data, ident) # queue \<Rightarrow>
          (let st = st\<lparr>sp_queue := queue\<rparr> in
           case (case sp_writer st of
                   Some w \<Rightarrow> Ok (st, w)
                 | None \<Rightarrow> rbind connector (\<lambda>s. Ok (st\<lparr>sp_writer := Some s, sp_reader := Some []\<rparr>, s))) of
             Err e \<Rightarrow> answer_id ident (Err (''connect failed: '' @ e)) st
           | Ok (st, w) \<Rightarrow>
               (case write_query data w of
                  (w, True) \<Rightarrow> (st\<lparr>sp_writer := Some w\<rparr>, [])
                | (w, False) \<Rightarrow>
                    (let (st, as) = drain_pending ''write failed, connection reset'' st
                     in (st\<lparr>sp_writer := None, sp_reader := None\<rparr>, as)))))"

text \<open>What the reader does with a message, and with the messages that a chunk completes.\<close>

definition deliver :: "bytes \<Rightarrow> stream_transport \<Rightarrow> stream_transport \<times> tp_answer list" where
  "deliver m st = (if 2 \<le> length m then answer_id (u16_from_be (take 2 m)) (Ok m) st else (st, []))"

fun deliver_all :: "bytes list \<Rightarrow> stream_transport \<Rightarrow> stream_transport \<times> tp_answer list" where
  "deliver_all [] st = (st, [])"
| "deliver_all (m # ms) st = (let (st, as) = deliver m st; (st, bs) = deliver_all ms st in (st, as @ bs))"

definition reader_chunk :: "bytes \<Rightarrow> stream_transport \<Rightarrow> stream_transport \<times> tp_answer list" where
  "reader_chunk chunk st =
     (case sp_reader st of
        None \<Rightarrow> (st, [])
      | Some buf \<Rightarrow> (let (ms, rest) = read_messages (buf @ chunk) in deliver_all ms (st\<lparr>sp_reader := Some rest\<rparr>)))"

definition reader_exit :: "stream_transport \<Rightarrow> stream_transport \<times> tp_answer list" where
  "reader_exit st =
     (case sp_reader st of
        None \<Rightarrow> (st, [])
      | Some buf \<Rightarrow> drain_pending ''connection reset by remote'' (st\<lparr>sp_writer := None, sp_reader := None\<rparr>))"

text \<open>The time limit of \<open>send\<close>. Its remaining way out, a response channel that is closed without an answer, is never taken: a sender
  that leaves the map of pending queries is used in the same step by whoever removes it, which is the equation of
  multisets in \<open>tp_effect\<close> below.\<close>

definition query_timeout :: "u16 \<Rightarrow> stream_transport \<Rightarrow> stream_transport \<times> tp_answer list" where
  "query_timeout ident st = answer_id ident (Err ''DNS query timeout'') st"

datatype tp_event =
    TSend nat bytes "u16 list" bool
  | TActor "(sock, string) result"
  | TChunk bytes
  | TReaderExit
  | TTimeout u16

fun tp_step :: "tp_event \<Rightarrow> stream_transport \<Rightarrow> stream_transport \<times> tp_answer list" where
  "tp_step (TSend req data candidates closed) st = stream_send req data candidates closed st"
| "tp_step (TActor connector) st = actor_next connector st"
| "tp_step (TChunk chunk) st = reader_chunk chunk st"
| "tp_step TReaderExit st = reader_exit st"
| "tp_step (TTimeout ident) st = query_timeout ident st"

fun tp_run :: "tp_event list \<Rightarrow> stream_transport \<Rightarrow> stream_transport \<times> tp_answer list" where
  "tp_run [] st = (st, [])"
| "tp_run (e # es) st = (let (st, as) = tp_step e st; (st, bs) = tp_run es st in (st, as @ bs))"

section \<open>Choosing the transport\<close>

datatype 'name connector = WarpConnector "ip_addr \<times> nat" | DirectDot "ip_addr \<times> nat" 'name | WarpDot "ip_addr \<times> nat" 'name

datatype 'name transport = TrUdp "ip_addr \<times> nat" | TrStream "'name connector"

text \<open>\<open>server_name\<close> is \<open>ServerName::try_from\<close> of rustls.\<close>

definition tls_server_name :: "(string \<Rightarrow> 'name option) \<Rightarrow> dns_config \<Rightarrow> ('name, string) result" where
  "tls_server_name server_name cfg =
     rbind (ok_or (dn_tls_domain cfg) ''DoT requires a TLS domain'') (\<lambda>domain.
       ok_or (server_name domain) (''invalid TLS domain: '' @ domain))"

definition build_transport :: "(string \<Rightarrow> 'name option) \<Rightarrow> dns_config \<Rightarrow> 'n warp_client option \<Rightarrow> ('name transport, string) result" where
  "build_transport server_name cfg warp =
     (let upstream = dn_upstream cfg;
          via_warp = (case warp of Some W \<Rightarrow> \<not> is_direct_ip W (fst upstream) | None \<Rightarrow> False)
      in case do_protocol (dn_options cfg) of
           Udp \<Rightarrow> Ok (if via_warp then TrStream (WarpConnector upstream) else TrUdp upstream)
         | Dot \<Rightarrow> rbind (tls_server_name server_name cfg) (\<lambda>name.
             Ok (TrStream (if via_warp then WarpDot upstream name else DirectDot upstream name))))"

section \<open>Lemmas: messages\<close>

lemma next_message_write:
  assumes "length m < 2 ^ 16"
  shows "next_message (write_message m @ rest) = Some (m, length (write_message m))"
proof -
  have "unat (of_nat (length m) :: u16) = length m" using assms by (subst unat_of_nat) simp
  then show ?thesis by (simp add: next_message_def write_message_def Let_def)
qed

interpretation dns_message_codec: prefix_codec "\<lambda>m. length m < 2 ^ 16" write_message next_message
  by unfold_locales (rule next_message_write)

lemma next_message_append: "next_message a = Some (m, used) \<Longrightarrow> next_message (a @ b) = Some (m, used) \<and> used \<le> length a"
  by (auto simp: next_message_def Let_def split: if_splits)

lemma read_messages_append:
  "read_messages a = (ms, r) \<Longrightarrow> read_messages (a @ b) = (let (ms', r') = read_messages (r @ b) in (ms @ ms', r'))"
proof (induction a arbitrary: ms rule: read_messages.induct)
  case (1 a)
  show ?case
  proof (cases "next_message a")
    case None
    then have "ms = [] \<and> r = a" using "1.prems" by (simp add: read_messages.simps [of a])
    then show ?thesis by simp
  next
    case (Some p)
    obtain m used where p: "p = (m, used)" by fastforce
    obtain ms1 where m1: "read_messages (drop used a) = (ms1, r)" and ms: "ms = m # ms1"
      using "1.prems" Some p by (auto simp: read_messages.simps [of a] split: prod.splits)
    note n = next_message_append [OF Some [unfolded p], of b]
    show ?thesis
      using "1.IH" [OF Some p [symmetric] m1] n ms by (simp add: read_messages.simps [of "a @ b"] split: prod.splits)
  qed
qed

lemma read_messages_write:
  "\<forall>m \<in> set ms. length m < 2 ^ 16 \<Longrightarrow> next_message rest = None \<Longrightarrow> read_messages (concat (map write_message ms) @ rest) = (ms, rest)"
proof (induction ms)
  case Nil
  then show ?case by (simp add: read_messages.simps)
next
  case (Cons m ms)
  then show ?case
    using dns_message_codec.get_put [of m "concat (map write_message ms) @ rest"]
    by (simp add: read_messages.simps [of "write_message m @ concat (map write_message ms) @ rest"])
qed

lemma read_messages_rest: "read_messages a = (ms, r) \<Longrightarrow> next_message r = None"
proof (induction a arbitrary: ms rule: read_messages.induct)
  case (1 a)
  then show ?case
    by (cases "next_message a") (auto simp: read_messages.simps [of a] split: prod.splits)
qed

lemma deliver_all_append:
  "deliver_all (ms @ ns) st = (let (st, as) = deliver_all ms st; (st, bs) = deliver_all ns st in (st, as @ bs))"
  by (induction ms arbitrary: st) (auto simp: Let_def split: prod.splits)

lemma deliver_reader: "deliver m (st\<lparr>sp_reader := r\<rparr>) = apfst (\<lambda>st. st\<lparr>sp_reader := r\<rparr>) (deliver m st)"
  by (simp add: deliver_def answer_id_def split: option.splits)

lemma deliver_all_reader: "deliver_all ms (st\<lparr>sp_reader := r\<rparr>) = apfst (\<lambda>st. st\<lparr>sp_reader := r\<rparr>) (deliver_all ms st)"
  by (induction ms arbitrary: st) (simp_all add: deliver_reader Let_def split: prod.splits)

lemma run_chunks:
  "sp_reader st = Some buf \<Longrightarrow> next_message buf = None \<Longrightarrow>
   tp_run (map TChunk chunks) st =
     (let (ms, rest) = read_messages (buf @ concat chunks) in deliver_all ms (st\<lparr>sp_reader := Some rest\<rparr>))"
proof (induction chunks arbitrary: st buf)
  case Nil
  then show ?case by (simp add: read_messages.simps)
next
  case (Cons c cs)
  obtain ms r where mr: "read_messages (buf @ c) = (ms, r)" by fastforce
  obtain st1 as where d: "deliver_all ms st = (st1, as)" by fastforce
  obtain ns r' where nr: "read_messages (r @ concat cs) = (ns, r')" by fastforce
  have "tp_run (map TChunk cs) (st1\<lparr>sp_reader := Some r\<rparr>) = deliver_all ns (st1\<lparr>sp_reader := Some r'\<rparr>)"
    using Cons.IH [of "st1\<lparr>sp_reader := Some r\<rparr>" r] read_messages_rest [OF mr] nr by simp
  then show ?case
    using Cons.prems mr nr d read_messages_append [OF mr, of "concat cs"]
    by (simp add: reader_chunk_def deliver_all_reader deliver_all_append split: prod.splits)
qed

section \<open>Lemmas: queries and answers\<close>

text \<open>The state's invariant: identifiers in use are distinct and belong to a query whose bytes carry them.\<close>

definition tp_inv :: "stream_transport \<Rightarrow> bool" where
  "tp_inv st \<longleftrightarrow>
     distinct (map fst (sp_pending st)) \<and>
     (\<forall>(ident, req) \<in> set (sp_pending st). \<exists>data. (req, ident, data) \<in> set (sp_log st)) \<and>
     (\<forall>(req, ident, data) \<in> set (sp_log st). take 2 data = u16_to_be ident)"

fun answer_matches :: "(nat \<times> u16 \<times> bytes) list \<Rightarrow> tp_answer \<Rightarrow> bool" where
  "answer_matches log (req, Err e) = True"
| "answer_matches log (req, Ok (resp, ident)) =
     ((\<exists>data. (req, ident, data) \<in> set log) \<and> u16_from_be (take 2 resp) = ident)"

text \<open>What every operation does to the state: the invariant stays, answers match, no query is lost or answered twice.\<close>

definition tp_effect :: "stream_transport \<Rightarrow> stream_transport \<times> tp_answer list \<Rightarrow> bool" where
  "tp_effect st p \<longleftrightarrow>
     tp_inv (fst p) \<and> set (sp_log st) \<subseteq> set (sp_log (fst p)) \<and>
     (\<forall>a \<in> set (snd p). answer_matches (sp_log (fst p)) a) \<and>
     mset (map fst (snd p)) + mset (map snd (sp_pending (fst p))) + mset (map fst (sp_log st)) =
       mset (map snd (sp_pending st)) + mset (map fst (sp_log (fst p)))"

lemma answer_matches_mono: "answer_matches l a \<Longrightarrow> set l \<subseteq> set l' \<Longrightarrow> answer_matches l' a"
  by (induction l a rule: answer_matches.induct) auto

lemma tp_effect_refl: "tp_inv st \<Longrightarrow> tp_effect st (st, [])"
  by (simp add: tp_effect_def)

lemma multiset_balance:
  fixes A B :: "'a multiset"
  assumes "A + P1 + L0 = P0 + L1" and "B + P2 + L1 = P1 + L2"
  shows "(A + B) + P2 + L0 = P0 + L2"
proof -
  have "((A + B) + P2 + L0) + (P1 + L1) = (A + P1 + L0) + (B + P2 + L1)" by (simp add: ac_simps)
  also have "\<dots> = (P0 + L1) + (P1 + L2)" by (simp add: assms)
  also have "\<dots> = (P0 + L2) + (P1 + L1)" by (simp add: ac_simps)
  finally show ?thesis by simp
qed

lemma tp_effect_trans:
  assumes "tp_effect st (st1, as)" and "tp_effect st1 (st2, bs)"
  shows "tp_effect st (st2, as @ bs)"
proof -
  have "\<forall>a \<in> set as. answer_matches (sp_log st2) a"
    using assms answer_matches_mono by (fastforce simp: tp_effect_def)
  moreover have "mset (map fst (as @ bs)) + mset (map snd (sp_pending st2)) + mset (map fst (sp_log st)) =
      mset (map snd (sp_pending st)) + mset (map fst (sp_log st2))"
  proof -
    have a: "mset (map fst as) + mset (map snd (sp_pending st1)) + mset (map fst (sp_log st)) =
        mset (map snd (sp_pending st)) + mset (map fst (sp_log st1))"
      and b: "mset (map fst bs) + mset (map snd (sp_pending st2)) + mset (map fst (sp_log st1)) =
        mset (map snd (sp_pending st1)) + mset (map fst (sp_log st2))"
      using assms by (simp_all add: tp_effect_def)
    show ?thesis using multiset_balance [OF a b] by simp
  qed
  ultimately show ?thesis using assms by (auto simp: tp_effect_def)
qed

text \<open>Updates of the connection do not matter to it.\<close>

lemma tp_effect_conn [simp]:
  "tp_effect (st\<lparr>sp_queue := q\<rparr>) p = tp_effect st p"
  "tp_effect (st\<lparr>sp_writer := w\<rparr>) p = tp_effect st p"
  "tp_effect (st\<lparr>sp_reader := r\<rparr>) p = tp_effect st p"
  "tp_effect st (st'\<lparr>sp_queue := q\<rparr>, as) = tp_effect st (st', as)"
  "tp_effect st (st'\<lparr>sp_writer := w\<rparr>, as) = tp_effect st (st', as)"
  "tp_effect st (st'\<lparr>sp_reader := r\<rparr>, as) = tp_effect st (st', as)"
  by (simp_all add: tp_effect_def tp_inv_def)

lemma tp_inv_conn [simp]:
  "tp_inv (st\<lparr>sp_queue := q\<rparr>) = tp_inv st"
  "tp_inv (st\<lparr>sp_writer := w\<rparr>) = tp_inv st"
  "tp_inv (st\<lparr>sp_reader := r\<rparr>) = tp_inv st"
  by (simp_all add: tp_inv_def)

lemma put_id_prefix: "put_id ident data = Some d \<Longrightarrow> take 2 d = u16_to_be ident"
  by (auto simp: put_id_def split: if_splits)

lemma assign_effect:
  assumes "tp_inv st" and "assign_id_and_register candidates data req st = Some (st', ident, d)"
  shows "tp_effect st (st', [])"
proof -
  obtain c where c: "find (\<lambda>c. map_of (sp_pending st) c = None) candidates = Some c" and p: "put_id c data = Some d"
    and st': "st' = st\<lparr>sp_pending := sp_pending st @ [(c, req)], sp_log := sp_log st @ [(req, c, d)]\<rparr>"
    using assms(2) by (auto simp: assign_id_and_register_def split: option.splits)
  have "c \<notin> fst ` set (sp_pending st)" using c by (auto simp: find_Some_iff map_of_eq_None_iff)
  then show ?thesis using assms(1) put_id_prefix [OF p] st' by (fastforce simp: tp_effect_def tp_inv_def)
qed

lemma answer_effect:
  assumes "tp_inv st" and "\<And>resp. r = Ok resp \<Longrightarrow> u16_from_be (take 2 resp) = ident"
  shows "tp_effect st (answer_id ident r st)"
proof (cases "map_of (sp_pending st) ident")
  case (Some req)
  obtain a b where ab: "sp_pending st = a @ (ident, req) # b" "ident \<notin> fst ` set a" using map_of_split [OF Some] by blast
  have b: "ident \<notin> fst ` set b" using assms(1) ab by (auto simp: tp_inv_def)
  have "answer_matches (sp_log st) (req, rbind r (\<lambda>resp. Ok (resp, ident)))"
    using assms ab(1) by (cases r) (fastforce simp: tp_inv_def)+
  then show ?thesis
    using assms(1) Some ab(1) delete_split [OF ab(2) b] by (auto simp: answer_id_def tp_effect_def tp_inv_def)
qed (use assms(1) in \<open>simp add: answer_id_def tp_effect_refl\<close>)

lemma drain_effect:
  assumes "tp_inv st"
  shows "tp_effect st (drain_pending e st)"
proof -
  have "map (\<lambda>x. fst (case x of (ident, req) \<Rightarrow> (req, Err e))) ps = map snd ps" for ps :: "(u16 \<times> nat) list" and e :: string
    by auto
  then show ?thesis using assms by (auto simp: drain_pending_def tp_effect_def tp_inv_def comp_def case_prod_beta)
qed

lemma send_effect:
  assumes "tp_inv st"
  shows "tp_effect st (stream_send req data candidates closed st)"
proof (cases "assign_id_and_register candidates data req st")
  case (Some p)
  obtain st1 ident d where p: "p = (st1, ident, d)" by (cases p) auto
  note a = assign_effect [OF assms Some [unfolded p]]
  have "tp_effect st1 (answer_id ident (Err ''DNS transport actor closed'') st1)"
    using a by (intro answer_effect) (auto simp: tp_effect_def)
  then have "tp_effect st (answer_id ident (Err ''DNS transport actor closed'') st1)"
    using tp_effect_trans [OF a] by (metis append_Nil prod.collapse)
  then show ?thesis using a Some p by (simp add: stream_send_def)
qed (use assms in \<open>simp add: stream_send_def tp_effect_refl\<close>)

lemma actor_effect:
  assumes "tp_inv st"
  shows "tp_effect st (actor_next connector st)"
proof (cases "sp_queue st")
  case (Cons q queue)
  obtain data ident where q: "q = (data, ident)" by fastforce
  have fail: "tp_effect st (answer_id ident (Err e) (st\<lparr>sp_queue := queue\<rparr>))" for e
    using answer_effect [of "st\<lparr>sp_queue := queue\<rparr>" "Err e" ident] assms by simp
  have writing: "tp_effect st (case write_query data w of
      (w, True) \<Rightarrow> (s\<lparr>sp_writer := Some w\<rparr>, [])
    | (w, False) \<Rightarrow> (let (st, as) = drain_pending e s in (st\<lparr>sp_writer := None, sp_reader := None\<rparr>, as)))"
    if s: "\<And>p. tp_effect s p = tp_effect st p" "tp_inv s" for w s e
    using tp_effect_refl [OF s(2)] drain_effect [OF s(2), of e] s(1)
    by (auto split: prod.splits bool.splits)
  show ?thesis
  proof (cases "sp_writer st")
    case (Some w)
    then show ?thesis using writing [of "st\<lparr>sp_queue := queue\<rparr>"] assms Cons q by (simp add: actor_next_def Let_def)
  next
    case None
    then show ?thesis
      using writing [where s = "st\<lparr>sp_queue := queue, sp_writer := Some s, sp_reader := Some []\<rparr>" and w = s for s] fail assms Cons q
      by (cases connector) (simp_all add: actor_next_def Let_def)
  qed
qed (use assms in \<open>simp add: actor_next_def tp_effect_refl\<close>)

lemma deliver_effect: "tp_inv st \<Longrightarrow> tp_effect st (deliver m st)"
  by (auto simp: deliver_def tp_effect_refl intro!: answer_effect)

lemma deliver_all_effect: "tp_inv st \<Longrightarrow> tp_effect st (deliver_all ms st)"
proof (induction ms arbitrary: st)
  case (Cons m ms)
  obtain st1 as where d: "deliver m st = (st1, as)" by fastforce
  have e: "tp_effect st (st1, as)" using deliver_effect [OF Cons.prems, of m] d by simp
  then have "tp_effect st1 (deliver_all ms st1)" by (intro Cons.IH) (simp add: tp_effect_def)
  then show ?case using tp_effect_trans [OF e] d by (cases "deliver_all ms st1") auto
qed (simp add: tp_effect_refl)

lemma step_effect: "tp_inv st \<Longrightarrow> tp_effect st (tp_step e st)"
proof (cases e)
  case (TChunk chunk)
  assume i: "tp_inv st"
  have "tp_effect st (deliver_all ms (st\<lparr>sp_reader := r\<rparr>))" for ms r
    using deliver_all_effect [of "st\<lparr>sp_reader := r\<rparr>" ms] i by simp
  then show ?thesis using TChunk i by (auto simp: reader_chunk_def tp_effect_refl split: option.splits prod.splits)
next
  case TReaderExit
  assume i: "tp_inv st"
  have "tp_effect st (drain_pending x (st\<lparr>sp_writer := None, sp_reader := None\<rparr>))" for x
    using drain_effect [of "st\<lparr>sp_writer := None, sp_reader := None\<rparr>" x] i by simp
  then show ?thesis using TReaderExit i by (auto simp: reader_exit_def tp_effect_refl split: option.splits)
qed (auto simp: query_timeout_def intro: send_effect actor_effect answer_effect)

lemma run_effect: "tp_inv st \<Longrightarrow> tp_effect st (tp_run es st)"
proof (induction es arbitrary: st)
  case (Cons e es)
  obtain st1 as where d: "tp_step e st = (st1, as)" by fastforce
  have e: "tp_effect st (st1, as)" using step_effect [OF Cons.prems, of e] d by simp
  then have "tp_effect st1 (tp_run es st1)" by (intro Cons.IH) (simp add: tp_effect_def)
  then show ?case using tp_effect_trans [OF e] d by (cases "tp_run es st1") auto
qed (simp add: tp_effect_refl)

lemma new_effect: "tp_effect stream_transport_new (tp_run es stream_transport_new)"
  by (rule run_effect) (simp add: tp_inv_def stream_transport_new_def)

section \<open>Properties\<close>

text \<open>C35: On a shared DNS stream a response reaches the query it answers and no other: whatever queries, bytes, failures
  and time-outs come in whatever order, a query that gets a response gets one whose first two bytes are the identifier
  which that very query was sent with; and every query is answered exactly once or is still waiting.\<close>

theorem dns_stream_answers_match:
  assumes "tp_run es stream_transport_new = (st, as)"
  shows "(\<forall>req resp ident. (req, Ok (resp, ident)) \<in> set as \<longrightarrow>
            (\<exists>data. (req, ident, data) \<in> set (sp_log st) \<and> take 2 data = u16_to_be ident) \<and> u16_from_be (take 2 resp) = ident)
     \<and> mset (map fst as) + mset (map snd (sp_pending st)) = mset (map fst (sp_log st))"
proof -
  have e: "tp_effect stream_transport_new (st, as)" using new_effect [of es] assms by simp
  then have "mset (map fst as) + mset (map snd (sp_pending st)) = mset (map fst (sp_log st))"
    by (simp add: tp_effect_def stream_transport_new_def)
  moreover have "(\<exists>data. (req, ident, data) \<in> set (sp_log st) \<and> take 2 data = u16_to_be ident) \<and> u16_from_be (take 2 resp) = ident"
    if "(req, Ok (resp, ident)) \<in> set as" for req resp ident
    using e that by (fastforce simp: tp_effect_def tp_inv_def)
  ultimately show ?thesis by blast
qed

definition tp_example :: "tp_event list" where
  "tp_example =
     [TSend 0 [0, 0, 1] [7] False, TSend 1 [0, 0, 2] [7, 9] False,
      TActor (Ok \<lparr>sk_script = replicate 4 (Accept 9), sk_sent = []\<rparr>), TActor (Err ''unused''),
      TChunk [0, 3, 0], TChunk [9, 5], TTimeout 7]"

lemma tp_example_run:
  "snd (tp_run tp_example stream_transport_new) = [(1, Ok ([0, 9, 5], 9)), (0, Err ''DNS query timeout'')]"
  by code_simp

theorem dns_stream_answers_match_witness:
  "(\<exists>data. (1, 9, data) \<in> set (sp_log (fst (tp_run tp_example stream_transport_new))) \<and> take 2 data = u16_to_be 9) \<and>
   u16_from_be (take 2 [0, 9, 5]) = 9"
  using dns_stream_answers_match [of tp_example] tp_example_run by (cases "tp_run tp_example stream_transport_new") auto

text \<open>Messages keep their boundaries on the stream: however the bytes of correctly framed messages, and of an
  incomplete one behind them, are cut into reads, the reader hands on those messages in order and keeps the rest.\<close>

theorem dns_messages_chunking:
  assumes "\<forall>m \<in> set ms. length m < 2 ^ 16" and "next_message rest = None"
    and "concat chunks = concat (map write_message ms) @ rest" and "sp_reader st = Some []"
  shows "tp_run (map TChunk chunks) st = deliver_all ms (st\<lparr>sp_reader := Some rest\<rparr>)"
  using run_chunks [OF assms(4), of chunks] read_messages_write [OF assms(1,2)] assms(3) by (simp add: next_message_def)

theorem dns_messages_chunking_witness:
  "tp_run (map TChunk [[0], [3, 0, 7], [5, 0], [2, 0]]) (stream_transport_new\<lparr>sp_pending := [(7, 4)], sp_reader := Some []\<rparr>) =
     deliver_all [[0, 7, 5]] (stream_transport_new\<lparr>sp_pending := [(7, 4)], sp_reader := Some [0, 2, 0]\<rparr>)"
proof -
  have "next_message [0, 2, 0] = None" by code_simp
  moreover have "concat [[0], [3, 0, 7], [5, 0], [2, 0]] = concat (map write_message [[0, 7, 5]]) @ [0, 2, 0]" by code_simp
  ultimately show ?thesis
    using dns_messages_chunking [of "[[0, 7, 5]]" "[0, 2, 0]" "[[0], [3, 0, 7], [5, 0], [2, 0]]"
        "stream_transport_new\<lparr>sp_pending := [(7, 4)], sp_reader := Some []\<rparr>"] by simp
qed

end
