(* ===== verification/Der_Pin.thy ===== *)
theory Der_Pin
  imports Prelude "HOL-Library.Sublist"
begin

unbundle bit_operations_syntax

text \<open>
  The pinned key of the WARP endpoint, \<^verbatim>\<open>src/src/warp/masque.rs\<close>: the small DER reader that finds the public key in a
  certificate, and the two certificate verifiers. The signature checks of the verifiers are calls of rustls and are not
  part of the model.

  Lemmas: the reader inverts DER encoding up to four length bytes; what it returns is always a part of its input. The
  property: on an X.509 certificate the pinned verifier accepts exactly the pinned key.
\<close>

section \<open>Reading DER\<close>

definition read_der_len :: "bytes \<Rightarrow> (nat \<times> nat) option" where
  "read_der_len buf =
     (case buf of
        [] \<Rightarrow> None
      | first # rest \<Rightarrow>
          if first AND 0x80 = 0 then Some (unat first, 1)
          else (let count = unat (first AND 0x7F) in
                if count = 0 \<or> 4 < count then None
                else if length rest < count then None
                else Some (be_decode (take count rest), 1 + count)))"

definition read_tlv :: "bytes \<Rightarrow> (bytes \<times> bytes) option" where
  "read_tlv buf =
     (case buf of
        [] \<Rightarrow> None
      | first # rest \<Rightarrow>
          if first AND 0x1F = 0x1F then None
          else Option.bind (read_der_len rest) (\<lambda>(len, len_bytes).
            let header = 1 + len_bytes; stop = header + len in
            if stop \<le> length buf then Some (take len (drop header buf), drop stop buf) else None))"

fun skip_tlvs :: "nat \<Rightarrow> bytes \<Rightarrow> bytes option" where
  "skip_tlvs 0 cursor = Some cursor"
| "skip_tlvs (Suc n) cursor = Option.bind (read_tlv cursor) (\<lambda>(_, rest). skip_tlvs n rest)"

definition extract_spki :: "bytes \<Rightarrow> bytes option" where
  "extract_spki cert =
     Option.bind (read_tlv cert) (\<lambda>(cert_body, _).
     Option.bind (read_tlv cert_body) (\<lambda>(tbs, _).
     Option.bind (if take 1 tbs = [0xA0] then skip_tlvs 1 tbs else Some tbs) (\<lambda>cursor.
     Option.bind (skip_tlvs 5 cursor) (\<lambda>cursor.
     Option.bind (read_tlv cursor) (\<lambda>(_, rest). Some (take (length cursor - length rest) cursor))))))"

section \<open>The certificate verifiers\<close>

datatype certificate_error = BadEncoding | UnknownIssuer

text \<open>\<open>SpkiPinVerifier\<close> with the expected key, and \<open>AcceptAnyCert\<close>.\<close>

datatype cert_verifier = SpkiPinVerifier bytes | AcceptAnyCert

fun verify_server_cert :: "cert_verifier \<Rightarrow> bytes \<Rightarrow> (unit, certificate_error) result" where
  "verify_server_cert (SpkiPinVerifier expected) end_entity =
     rbind (ok_or (extract_spki end_entity) BadEncoding) (\<lambda>spki. if spki = expected then Ok () else Err UnknownIssuer)"
| "verify_server_cert AcceptAnyCert end_entity = Ok ()"

definition choose_verifier :: "bytes option \<Rightarrow> cert_verifier" where
  "choose_verifier endpoint_spki = (case endpoint_spki of Some spki \<Rightarrow> SpkiPinVerifier spki | None \<Rightarrow> AcceptAnyCert)"

section \<open>DER encoding, as reference\<close>

fun len_octets :: "nat \<Rightarrow> nat" where
  "len_octets n = (if n < 2 ^ 8 then 1 else if n < 2 ^ 16 then 2 else if n < 2 ^ 24 then 3 else 4)"

definition der_len :: "nat \<Rightarrow> bytes" where
  "der_len n = (if n < 128 then [of_nat n] else (0x80 OR of_nat (len_octets n)) # be_encode (len_octets n) n)"

definition der_tlv :: "byte \<Rightarrow> bytes \<Rightarrow> bytes" where
  "der_tlv tag content = tag # der_len (length content) @ content"

text \<open>The parts of an X.509 certificate; what follows the key, and the signature, is arbitrary.\<close>

record x509 =
  x_version :: "bytes option"
  x_serial :: bytes
  x_sigalg :: bytes
  x_issuer :: bytes
  x_validity :: bytes
  x_subject :: bytes
  x_spki :: bytes
  x_extensions :: bytes
  x_signature :: bytes

definition spki_der :: "x509 \<Rightarrow> bytes" where
  "spki_der x = der_tlv 0x30 (x_spki x)"

definition tbs_content :: "x509 \<Rightarrow> bytes" where
  "tbs_content x =
     (case x_version x of Some v \<Rightarrow> der_tlv 0xA0 v | None \<Rightarrow> []) @ der_tlv 0x02 (x_serial x) @ der_tlv 0x30 (x_sigalg x) @
     der_tlv 0x30 (x_issuer x) @ der_tlv 0x30 (x_validity x) @ der_tlv 0x30 (x_subject x) @ spki_der x @ x_extensions x"

definition certificate_der :: "x509 \<Rightarrow> bytes" where
  "certificate_der x = der_tlv 0x30 (der_tlv 0x30 (tbs_content x) @ x_signature x)"

section \<open>Lemmas: reading what was encoded\<close>

lemma read_der_len_der_len:
  assumes "n < 2 ^ 32"
  shows "read_der_len (der_len n @ r) = Some (n, length (der_len n))"
proof (cases "n < 128")
  case True
  have "(of_nat n :: byte) AND 0x80 = 0"
  proof -
    have "(of_nat n :: byte) = take_bit 7 (of_nat n)"
      using True by (simp add: take_bit_nat_eq_self take_bit_of_nat)
    moreover have "\<not> bit (2 ^ 7 :: byte) i" if "i < 7" for i using that by (simp only: bit_exp_iff) simp
    then have "take_bit 7 (w :: byte) AND 0x80 = 0" for w by (intro bit_eqI) (auto simp: bit_simps)
    ultimately show ?thesis by metis
  qed
  then show ?thesis using True by (simp add: der_len_def read_der_len_def unat_of_nat)
next
  case False
  have "len_octets n \<in> {1, 2, 3, 4} \<and> n < 256 ^ len_octets n" using assms by simp
  then obtain k where k: "len_octets n = k" "k \<in> {1, 2, 3, 4}" "n < 256 ^ k" by blast
  have "((0x80 :: byte) OR of_nat k) AND 0x80 \<noteq> 0" "unat (((0x80 :: byte) OR of_nat k) AND 0x7F) = k" "k \<noteq> 0" "\<not> 4 < k"
    using k(2) by auto
  then show ?thesis
    using False k(3) by (simp add: der_len_def read_der_len_def k(1) be_decode_encode Let_def del: len_octets.simps)
qed

lemma read_tlv_der_tlv:
  assumes "length content < 2 ^ 32" and "tag AND 0x1F \<noteq> 0x1F"
  shows "read_tlv (der_tlv tag content @ r) = Some (content, r)"
  using read_der_len_der_len [OF assms(1), of "content @ r"] assms(2) by (simp add: read_tlv_def der_tlv_def Let_def)

lemma read_tlv_suffix: "read_tlv buf = Some (content, rest) \<Longrightarrow> suffix rest buf \<and> sublist content buf"
  by (auto simp: read_tlv_def Let_def suffix_drop split: list.splits if_splits bind_splits
      intro!: suffix_ConsI sublist_order.order_trans [OF sublist_take sublist_order.order_trans [OF sublist_drop suffix_imp_sublist]])

lemma skip_tlvs_suffix: "skip_tlvs n buf = Some rest \<Longrightarrow> suffix rest buf"
proof (induction n arbitrary: buf)
  case (Suc n)
  then obtain c r where "read_tlv buf = Some (c, r)" "skip_tlvs n r = Some rest" by (auto split: bind_splits)
  then show ?case using Suc.IH read_tlv_suffix suffix_order.order_trans by blast
qed simp

text \<open>What is taken for the key is a part of the certificate.\<close>

lemma extract_spki_sublist: "extract_spki cert = Some spki \<Longrightarrow> sublist spki cert"
proof -
  assume "extract_spki cert = Some spki"
  then obtain body r1 tbs r2 c1 c2 where 1: "read_tlv cert = Some (body, r1)" "read_tlv body = Some (tbs, r2)"
    and 2: "(if take 1 tbs = [0xA0] then skip_tlvs 1 tbs else Some tbs) = Some c1" "skip_tlvs 5 c1 = Some c2"
    and 3: "prefix spki c2"
    by (auto simp: extract_spki_def take_is_prefix split: bind_splits)
  have "suffix c1 tbs" using 2(1) skip_tlvs_suffix by (auto split: if_splits simp del: skip_tlvs.simps)
  then have "sublist c2 tbs" using skip_tlvs_suffix [OF 2(2)] suffix_imp_sublist suffix_order.order_trans by blast
  then show ?thesis
    using 3 read_tlv_suffix [OF 1(1)] read_tlv_suffix [OF 1(2)] prefix_imp_sublist sublist_order.order_trans by metis
qed

lemma length_der_tlv: "length content < length (der_tlv tag content)"
  by (simp add: der_tlv_def)

lemma extract_spki_certificate:
  assumes "length (certificate_der x) < 2 ^ 32"
  shows "extract_spki (certificate_der x) = Some (spki_der x)"
proof -
  let ?tbs = "tbs_content x"
  have l: "length (der_tlv 0x30 ?tbs @ x_signature x) < 2 ^ 32"
    using assms length_der_tlv [of "der_tlv 0x30 ?tbs @ x_signature x" "0x30"] by (simp add: certificate_der_def)
  then have t: "length ?tbs < 2 ^ 32" using length_der_tlv [of ?tbs "0x30"] by simp
  have part: "length c < 2 ^ 32" if "length (der_tlv tag c) \<le> length ?tbs" for tag c
    using that t length_der_tlv [of c tag] by simp
  have fields: "length (x_serial x) < 2 ^ 32" "length (x_sigalg x) < 2 ^ 32" "length (x_issuer x) < 2 ^ 32" "length (x_validity x) < 2 ^ 32"
      "length (x_subject x) < 2 ^ 32" "length (x_spki x) < 2 ^ 32"
    by (rule part [of "0x02"]; simp add: tbs_content_def) (rule part [of "0x30"]; simp add: tbs_content_def spki_der_def)+
  have version: "length v < 2 ^ 32" if "x_version x = Some v" for v by (rule part [of "0xA0"]) (simp add: tbs_content_def that)
  have 1: "read_tlv (certificate_der x) = Some (der_tlv 0x30 ?tbs @ x_signature x, [])"
    using read_tlv_der_tlv [OF l, of "0x30" "[]"] by (simp add: certificate_der_def)
  have 2: "read_tlv (der_tlv 0x30 ?tbs @ x_signature x) = Some (?tbs, x_signature x)" using read_tlv_der_tlv [OF t, of "0x30"] by simp
  define cur where "cur = der_tlv 0x02 (x_serial x) @ der_tlv 0x30 (x_sigalg x) @ der_tlv 0x30 (x_issuer x) @ der_tlv 0x30 (x_validity x) @
    der_tlv 0x30 (x_subject x) @ spki_der x @ x_extensions x"
  have 3: "(if take 1 ?tbs = [0xA0] then skip_tlvs 1 ?tbs else Some ?tbs) = Some cur"
  proof (cases "x_version x")
    case None
    then show ?thesis by (simp add: tbs_content_def cur_def) (simp add: der_tlv_def)
  next
    case (Some v)
    have "take 1 (der_tlv 0xA0 v @ cur) = [0xA0]" by (simp add: der_tlv_def)
    then show ?thesis
      using read_tlv_der_tlv [OF version [OF Some], of "0xA0" cur] Some by (simp add: tbs_content_def flip: cur_def)
  qed
  have five: "(5 :: nat) = Suc (Suc (Suc (Suc (Suc 0))))" by simp
  have 4: "skip_tlvs 5 cur = Some (spki_der x @ x_extensions x)"
    using fields by (simp add: five cur_def read_tlv_der_tlv)
  have "read_tlv (spki_der x @ x_extensions x) = Some (x_spki x, x_extensions x)"
    using fields(6) by (simp add: spki_der_def read_tlv_der_tlv)
  then show ?thesis using 1 2 3 4 by (simp add: extract_spki_def)
qed

section \<open>Properties\<close>

text \<open>C38: The endpoint of the WARP tunnel is authenticated by its public key: a pinned verifier accepts a certificate below
  4 GB exactly if the DER encoding of its subject public key is the pinned one, whatever the version, the other fields, their sizes
  and what follows are; and whatever bytes it accepts contain the pinned key.\<close>

theorem spki_pin_decides:
  assumes "length (certificate_der x) < 2 ^ 32"
  shows "verify_server_cert (choose_verifier (Some key)) (certificate_der x) = (if spki_der x = key then Ok () else Err UnknownIssuer)
     \<and> (\<forall>cert. verify_server_cert (choose_verifier (Some key)) cert = Ok () \<longrightarrow> sublist key cert)"
proof (intro conjI allI impI)
  show "verify_server_cert (choose_verifier (Some key)) (certificate_der x) = (if spki_der x = key then Ok () else Err UnknownIssuer)"
    by (simp add: choose_verifier_def extract_spki_certificate [OF assms])
  fix cert
  assume "verify_server_cert (choose_verifier (Some key)) cert = Ok ()"
  then have "extract_spki cert = Some key"
    by (cases "extract_spki cert") (auto simp: choose_verifier_def split: if_splits)
  then show "sublist key cert" by (rule extract_spki_sublist)
qed

theorem spki_pin_decides_witness:
  "verify_server_cert (choose_verifier (Some [0x30, 1, 7])) (certificate_der
     \<lparr>x_version = Some [2, 1, 2], x_serial = [5], x_sigalg = [], x_issuer = [1], x_validity = [], x_subject = [2], x_spki = [7],
      x_extensions = [9, 9], x_signature = [1]\<rparr>) = Ok ()"
  using spki_pin_decides [of "\<lparr>x_version = Some [2, 1, 2], x_serial = [5], x_sigalg = [], x_issuer = [1], x_validity = [], x_subject = [2],
      x_spki = [7], x_extensions = [9, 9], x_signature = [1]\<rparr>" "[0x30, 1, 7]"]
  by (simp add: certificate_der_def tbs_content_def der_tlv_def der_len_def spki_der_def)

end
