(* ===== verification/Civil_Time.thy ===== *)
theory Civil_Time
  imports Prelude
begin

text \<open>
  The time stamp of a registration, \<^verbatim>\<open>src/src/warp/register.rs\<close>: calendar date and time of day from seconds since the epoch.

  The computation counts in 400-year eras that begin on the first of March. The lemmas split a day of an era into centuries,
  groups of four years, years and days, and find the year and month formulas right on each part. The reference is the
  Gregorian calendar: leap years, lengths of months, and the number of a day as the days of all years and months before it.
\<close>

section \<open>The computation\<close>

text \<open>\<open>i64\<close> arithmetic; \<open>div\<close> and \<open>mod\<close> by a positive number are \<open>div_euclid\<close> and \<open>rem_euclid\<close>, and equal \<open>/\<close> and
  \<open>%\<close> on what is not negative. No intermediate value leaves the range of \<open>i64\<close>.\<close>

definition civil_from_unix :: "int \<Rightarrow> int \<times> int \<times> int \<times> int \<times> int \<times> int" where
  "civil_from_unix secs =
     (let days = secs div 86400;
          rem = secs mod 86400;
          z = days + 719468;
          era = z div 146097;
          doe = z mod 146097;
          yoe = (doe - doe div 1460 + doe div 36524 - doe div 146096) div 365;
          y = yoe + era * 400;
          doy = doe - (365 * yoe + yoe div 4 - yoe div 100);
          mp = (5 * doy + 2) div 153;
          d = doy - (153 * mp + 2) div 5 + 1;
          m = (if mp < 10 then mp + 3 else mp - 9);
          y = (if m \<le> 2 then y + 1 else y)
      in (y, m, d, rem div 3600, (rem mod 3600) div 60, rem mod 60))"

text \<open>\<open>{n:02}\<close> and \<open>{n:04}\<close>: the sign counts towards the width and stands before the zeros.\<close>

definition pad_zero :: "nat \<Rightarrow> int \<Rightarrow> string" where
  "pad_zero w n =
     (let sign = (if n < 0 then ''-'' else []); s = show_nat (nat \<bar>n\<bar>)
      in sign @ replicate (w - length sign - length s) (CHR ''0'') @ s)"

definition cf_time_string :: "u64 \<Rightarrow> string" where
  "cf_time_string secs =
     (let (y, mo, d, h, mi, s) = civil_from_unix (sint secs)
      in pad_zero 4 y @ ''-'' @ pad_zero 2 mo @ ''-'' @ pad_zero 2 d @ ''T'' @ pad_zero 2 h @ '':'' @ pad_zero 2 mi @ '':'' @
         pad_zero 2 s @ ''.000+00:00'')"

section \<open>The Gregorian calendar\<close>

definition leap_year :: "int \<Rightarrow> bool" where
  "leap_year y \<longleftrightarrow> y mod 4 = 0 \<and> y mod 100 \<noteq> 0 \<or> y mod 400 = 0"

definition leap_day :: "int \<Rightarrow> int" where
  "leap_day y = (if leap_year y then 1 else 0)"

definition month_days :: "int \<Rightarrow> int \<Rightarrow> int" where
  "month_days y m = (if m = 2 then 28 + leap_day y else if m \<in> {4, 6, 9, 11} then 30 else 31)"

definition days_before_month :: "int \<Rightarrow> int \<Rightarrow> int" where
  "days_before_month y m = sum_list (map (month_days y) [1..m - 1])"

text \<open>The day that is the first of January of year 1 has number 1.\<close>

definition days_before_year :: "int \<Rightarrow> int" where
  "days_before_year y = 365 * (y - 1) + (y - 1) div 4 - (y - 1) div 100 + (y - 1) div 400"

definition day_number :: "int \<Rightarrow> int \<Rightarrow> int \<Rightarrow> int" where
  "day_number y m d = days_before_year y + days_before_month y m + d"

definition valid_date :: "int \<Rightarrow> int \<Rightarrow> int \<Rightarrow> bool" where
  "valid_date y m d \<longleftrightarrow> 1 \<le> m \<and> m \<le> 12 \<and> 1 \<le> d \<and> d \<le> month_days y m"

section \<open>Lemmas: the day of an era\<close>

text \<open>\<open>c\<close> centuries, \<open>q\<close> groups of four years, \<open>r\<close> years and \<open>s\<close> days; the year has a day 365 if the next February has a leap day.\<close>

definition era_parts :: "int \<Rightarrow> int \<Rightarrow> int \<Rightarrow> int \<Rightarrow> bool" where
  "era_parts c q r s \<longleftrightarrow>
     0 \<le> c \<and> c \<le> 3 \<and> 0 \<le> q \<and> q \<le> 24 \<and> 0 \<le> r \<and> r \<le> 3 \<and> 0 \<le> s \<and>
     s \<le> (if r = 3 \<and> (q < 24 \<or> c = 3) then 365 else 364)"

lemma capped_div:
  fixes a b k :: int
  assumes "0 < b" and "0 \<le> k" and "0 \<le> a" and "a \<le> b * (k + 1)"
  shows "0 \<le> min k (a div b)" and "min k (a div b) \<le> k" and "0 \<le> a - b * min k (a div b)" and "a - b * min k (a div b) \<le> b"
    and "a - b * min k (a div b) = b \<Longrightarrow> min k (a div b) = k"
proof -
  have m: "a - b * (a div b) = a mod b" "0 \<le> a mod b" "a mod b < b" using assms(1) by (simp_all add: minus_mult_div_eq_mod)
  have "b * k \<le> a" if "k \<le> a div b"
  proof -
    have "b * k \<le> b * (a div b)" using that assms(1) by simp
    then show ?thesis using m by linarith
  qed
  moreover have "b * (k + 1) = b * k + b" by (simp add: algebra_simps)
  ultimately show "0 \<le> a - b * min k (a div b)" "a - b * min k (a div b) \<le> b" "a - b * min k (a div b) = b \<Longrightarrow> min k (a div b) = k"
    unfolding min_def using m assms(4) by (cases "k \<le> a div b"; simp only: if_True if_False; linarith)+
  show "0 \<le> min k (a div b)" "min k (a div b) \<le> k" using assms by (auto simp: pos_imp_zdiv_nonneg_iff)
qed

lemma era_parts_exist:
  assumes "0 \<le> doe" and "doe < 146097"
  obtains c q r s where "doe = 36524 * c + 1461 * q + 365 * r + s" and "era_parts c q r s"
proof -
  define c where "c = min 3 (doe div 36524)"
  define n1 where "n1 = doe - 36524 * c"
  define q where "q = n1 div 1461"
  define n2 where "n2 = n1 mod 1461"
  define r where "r = min 3 (n2 div 365)"
  define s where "s = n2 - 365 * r"
  have c: "0 \<le> c" "c \<le> 3" "0 \<le> n1" "n1 \<le> 36524" "n1 = 36524 \<Longrightarrow> c = 3"
    using capped_div [of 36524 3 doe] assms by (simp_all add: c_def n1_def)
  have q: "0 \<le> q" "q \<le> 24" "n1 = 1461 * q + n2" "0 \<le> n2" "n2 \<le> 1460"
    using c(3,4) by (auto simp: q_def n2_def)
  have r: "0 \<le> r" "r \<le> 3" "0 \<le> s" "s \<le> 365" "s = 365 \<Longrightarrow> r = 3 \<and> n2 = 1460"
    using capped_div [of 365 3 n2] q(4,5) by (auto simp: r_def s_def)
  have "s = 365 \<Longrightarrow> r = 3 \<and> (q < 24 \<or> c = 3)" using r(5) c(4,5) q(2,3) by (cases "q = 24") auto
  moreover have "s \<noteq> 365 \<Longrightarrow> s \<le> 364" using r(4) by linarith
  ultimately have "era_parts c q r s" using c(1,2) q(1,2) r(1-4) unfolding era_parts_def by (cases "s = 365") auto
  moreover have "doe = 36524 * c + 1461 * q + 365 * r + s" using q(3) by (simp add: n1_def s_def)
  ultimately show thesis using that by blast
qed

lemma div_unique_int: "b * k \<le> a \<Longrightarrow> a < b * (k + 1) \<Longrightarrow> 0 < b \<Longrightarrow> a div b = k" for a b k :: int
  by (intro int_div_pos_eq [where r = "a - b * k"]) (auto simp: algebra_simps)

lemma year_of_era:
  assumes doe: "doe = 36524 * c + 1461 * q + 365 * r + s" and parts: "era_parts c q r s"
  shows "(doe - doe div 1460 + doe div 36524 - doe div 146096) div 365 = 100 * c + 4 * q + r"
proof -
  note p = parts [unfolded era_parts_def]
  have s: "s \<le> 365" using p by (auto split: if_splits)
  have century: "doe div 36524 - doe div 146096 = c"
  proof (cases "doe = 146096")
    case True
    then have "c = 3" using p s doe by auto
    then show ?thesis using True by simp
  next
    case False
    have "1461 * q + 365 * r + s \<le> 36523 \<or> c = 3" using p by (auto split: if_splits)
    then have "doe < 36524 * (c + 1)" "doe < 146096" using False doe p s by auto
    moreover have "36524 * c \<le> doe" "0 \<le> doe" using doe p by auto
    ultimately have "doe div 36524 = c" "doe div 146096 = 0" by (auto intro: div_unique_int)
    then show ?thesis by simp
  qed
  obtain e where e: "doe div 1460 = 25 * c + q + e" "0 \<le> s - e" "s - e \<le> 364"
  proof (cases "24 * c + q + 365 * r + s < 1460")
    case True
    then have "s \<le> 364" using p by (auto split: if_splits)
    moreover have "doe div 1460 = 25 * c + q + 0" using True doe p by (intro div_unique_int) auto
    ultimately show thesis using that p by auto
  next
    case False
    then have "1 \<le> s" using p by auto
    moreover have "doe div 1460 = 25 * c + q + 1" using False doe p s by (intro div_unique_int) auto
    ultimately show thesis using that s by auto
  qed
  have "doe - doe div 1460 + doe div 36524 - doe div 146096 = 365 * (100 * c + 4 * q + r) + (s - e)"
    using century e(1) doe by simp
  then show ?thesis using e(2,3) by (intro div_unique_int) auto
qed

lemma year_parts:
  assumes "era_parts c q r s"
  shows "(100 * c + 4 * q + r) div 4 = 25 * c + q" and "(100 * c + 4 * q + r) div 100 = c"
    and "0 \<le> 100 * c + 4 * q + r" and "100 * c + 4 * q + r < 400"
  using assms by (auto simp: era_parts_def intro!: div_unique_int)

lemma multiple_upto: "0 < v \<Longrightarrow> v \<le> n \<Longrightarrow> v mod n = 0 \<longleftrightarrow> v = n" for v n :: int
  by (cases "v = n") (auto simp: mod_pos_pos_trivial)

lemma leap_after:
  assumes "era_parts c q r s"
  shows "leap_year (400 * era + (100 * c + 4 * q + r) + 1) \<longleftrightarrow> r = 3 \<and> (q < 24 \<or> c = 3)"
proof -
  let ?y = "400 * era + (100 * c + 4 * q + r) + 1"
  have "?y = r + 1 + (100 * era + 25 * c + q) * 4" "?y = 4 * q + r + 1 + (4 * era + c) * 100" "?y = 100 * c + 4 * q + r + 1 + era * 400"
    by (simp_all add: algebra_simps)
  then have 4: "?y mod 4 = (r + 1) mod 4" and 100: "?y mod 100 = (4 * q + r + 1) mod 100"
      and 400: "?y mod 400 = (100 * c + 4 * q + r + 1) mod 400"
    by (metis mod_mult_self1)+
  have p: "0 \<le> c" "c \<le> 3" "0 \<le> q" "q \<le> 24" "0 \<le> r" "r \<le> 3" using assms by (simp_all add: era_parts_def)
  have 0: "4 * q + r + 1 = 100 \<longleftrightarrow> q = 24 \<and> r = 3" "100 * c + 4 * q + r + 1 = 400 \<longleftrightarrow> c = 3 \<and> q = 24 \<and> r = 3"
    using p by (intro iffI conjI; linarith)+
  have "(r + 1) mod 4 = 0 \<longleftrightarrow> r = 3" using p multiple_upto [of "r + 1" 4] by auto
  moreover have "(4 * q + r + 1) mod 100 = 0 \<longleftrightarrow> q = 24 \<and> r = 3" using p 0(1) multiple_upto [of "4 * q + r + 1" 100] by simp
  moreover have "(100 * c + 4 * q + r + 1) mod 400 = 0 \<longleftrightarrow> c = 3 \<and> q = 24 \<and> r = 3"
    using p 0(2) multiple_upto [of "100 * c + 4 * q + r + 1" 400] by simp
  ultimately show ?thesis using assms unfolding leap_year_def 4 100 400 by (auto simp: era_parts_def)
qed

section \<open>Lemmas: the day of a year\<close>

lemma leap_year_step: "days_before_year (y + 1) = days_before_year y + 365 + leap_day y"
proof -
  have step: "y div n = (y - 1) div n + (if y mod n = 0 then 1 else 0)" if "0 < n" for n :: int
  proof (cases "y mod n = 0")
    case True
    then have "y = n * (y div n)" by (metis add.right_neutral mult_div_mod_eq)
    then have "(y - 1) div n = y div n - 1" using that by (intro div_unique_int) (auto simp: algebra_simps)
    then show ?thesis using True by simp
  next
    case False
    then have "0 < y mod n" using that by (simp add: order_less_le)
    moreover have "y mod n < n" "y = n * (y div n) + y mod n" using that by simp_all
    moreover have "n * (y div n + 1) = n * (y div n) + n" by (simp add: algebra_simps)
    ultimately have "n * (y div n) \<le> y - 1" "y - 1 < n * (y div n + 1)" by linarith+
    then have "(y - 1) div n = y div n" using that by (rule div_unique_int)
    then show ?thesis using False by simp
  qed
  have d: "y mod 400 = 0 \<Longrightarrow> y mod 100 = 0" "y mod 100 = 0 \<Longrightarrow> y mod 4 = 0"
    using dvd_trans [of 100 400 y] dvd_trans [of 4 100 y] by (simp_all add: mod_eq_0_iff_dvd)
  have sum: "365 * y + b4 - b100 + b400 = 365 * (y - 1) + a4 - a100 + a400 + 365 + (if p4 \<and> \<not> p100 \<or> p400 then 1 else 0)"
    if "b4 = a4 + (if p4 then 1 else 0)" "b100 = a100 + (if p100 then 1 else 0)" "b400 = a400 + (if p400 then 1 else 0)" "p400 \<Longrightarrow> p100" "p100 \<Longrightarrow> p4"
    for a4 a100 a400 b4 b100 b400 :: int and p4 p100 p400
    using that by auto
  show ?thesis
    unfolding days_before_year_def leap_day_def leap_year_def add_diff_cancel_right' by (rule sum [OF step step step]) (use d in simp_all)
qed

lemma upto_months:
  "[1..(0::int)] = []" "[1..(2::int)] = [1, 2]" "[1..(3::int)] = [1, 2, 3]" "[1..(4::int)] = [1, 2, 3, 4]"
  "[1..(5::int)] = [1, 2, 3, 4, 5]" "[1..(6::int)] = [1, 2, 3, 4, 5, 6]" "[1..(7::int)] = [1, 2, 3, 4, 5, 6, 7]"
  "[1..(8::int)] = [1, 2, 3, 4, 5, 6, 7, 8]" "[1..(9::int)] = [1, 2, 3, 4, 5, 6, 7, 8, 9]"
  "[1..(10::int)] = [1, 2, 3, 4, 5, 6, 7, 8, 9, 10]" "[1..(11::int)] = [1, 2, 3, 4, 5, 6, 7, 8, 9, 10, 11]"
  by (simp_all add: upto_rec1)

lemma month_table:
  fixes y :: int
  defines "f \<equiv> 28 + leap_day y"
  shows "days_before_month y 1 = 0" "days_before_month y 2 = 31" "days_before_month y 3 = 31 + f" "days_before_month y 4 = 62 + f"
    "days_before_month y 5 = 92 + f" "days_before_month y 6 = 123 + f" "days_before_month y 7 = 153 + f" "days_before_month y 8 = 184 + f"
    "days_before_month y 9 = 215 + f" "days_before_month y 10 = 245 + f" "days_before_month y 11 = 276 + f" "days_before_month y 12 = 306 + f"
  by (simp_all add: days_before_month_def month_days_def upto_months f_def)

text \<open>The day \<open>s\<close> of the year that begins in March of \<open>y\<close>.\<close>

definition date_in_year :: "int \<Rightarrow> int \<Rightarrow> int \<times> int \<times> int" where
  "date_in_year y s =
     (let mp = (5 * s + 2) div 153; d = s - (153 * mp + 2) div 5 + 1; m = (if mp < 10 then mp + 3 else mp - 9)
      in (if m \<le> 2 then y + 1 else y, m, d))"

lemma date_in_year_correct:
  assumes "0 \<le> s" and "s \<le> 364 + leap_day (y + 1)" and "date_in_year y s = (y', m, d)"
  shows "valid_date y' m d \<and> day_number y' m d = days_before_year (y + 1) + s - 305"
proof -
  define mp where "mp = (5 * s + 2) div 153"
  have b: "153 * mp \<le> 5 * s + 2" "5 * s + 2 < 153 * mp + 153"
    using mult_div_mod_eq [of 153 "5 * s + 2"] pos_mod_bound [of 153 "5 * s + 2"] pos_mod_sign [of 153 "5 * s + 2"] unfolding mp_def by linarith+
  have s: "s \<le> 365" using assms(2) by (auto simp: leap_day_def split: if_splits)
  have "0 \<le> mp" "mp \<le> 11" using b s assms(1) by linarith+
  then have "mp \<in> set [0..11]" by simp
  then have "mp \<in> {0, 1, 2, 3, 4, 5, 6, 7, 8, 9, 10, 11}" by (simp add: upto_rec1 del: set_upto)
  moreover have dt: "m = (if mp < 10 then mp + 3 else mp - 9)" "y' = (if m \<le> 2 then y + 1 else y)" "d = s - (153 * mp + 2) div 5 + 1"
    using assms(3) unfolding date_in_year_def mp_def [symmetric] Let_def by auto
  ultimately show ?thesis
    using b assms(1,2) leap_year_step [of y] unfolding valid_date_def day_number_def
    by (elim insertE emptyE; simp add: month_table month_days_def)
qed

lemma days_before_year_era:
  assumes "0 \<le> yoe" and "yoe < 400"
  shows "days_before_year (400 * era + yoe + 1) = 146097 * era + 365 * yoe + yoe div 4 - yoe div 100"
proof -
  have "(400 * era + yoe) div 4 = 100 * era + yoe div 4" "(400 * era + yoe) div 100 = 4 * era + yoe div 100"
      "(400 * era + yoe) div 400 = era + yoe div 400"
    using div_mult_self2 [of 4 yoe "100 * era"] div_mult_self2 [of 100 yoe "4 * era"] div_mult_self2 [of 400 yoe era] by (simp_all add: add.commute)
  moreover have "yoe div 400 = 0" using assms by simp
  moreover have "365 * (400 * era + yoe) + x - y + z = 146097 * era + 365 * yoe + a - b"
    if "x = 100 * era + a" "y = 4 * era + b" "z = era + 0" for x y z a b using that by simp
  ultimately show ?thesis unfolding days_before_year_def add_diff_cancel_right' by metis
qed

lemma civil_from_unix_parts:
  assumes era: "era = (secs div 86400 + 719468) div 146097"
  obtains c q r s where "era_parts c q r s"
    and "secs div 86400 + 719468 = 146097 * era + (36524 * c + 1461 * q + 365 * r + s)"
    and "civil_from_unix secs = (case date_in_year (400 * era + (100 * c + 4 * q + r)) s of (y, m, d) \<Rightarrow>
           (y, m, d, secs mod 86400 div 3600, secs mod 86400 mod 3600 div 60, secs mod 86400 mod 60))"
proof -
  define doe where "doe = (secs div 86400 + 719468) mod 146097"
  obtain c q r s where doe: "doe = 36524 * c + 1461 * q + 365 * r + s" and p: "era_parts c q r s"
    by (rule era_parts_exist [of doe]) (simp_all add: doe_def)
  note y = year_of_era [OF doe p] and yp = year_parts [OF p]
  have "doe - (365 * (100 * c + 4 * q + r) + (100 * c + 4 * q + r) div 4 - (100 * c + 4 * q + r) div 100) = s"
    unfolding yp(1,2) using doe by simp
  then have "civil_from_unix secs = (case date_in_year (400 * era + (100 * c + 4 * q + r)) s of (y, m, d) \<Rightarrow>
      (y, m, d, secs mod 86400 div 3600, secs mod 86400 mod 3600 div 60, secs mod 86400 mod 60))"
    unfolding civil_from_unix_def date_in_year_def Let_def era [symmetric] doe_def [symmetric] y
    by (simp only: prod.case mult.commute add.commute)
  moreover have "secs div 86400 + 719468 = 146097 * era + (36524 * c + 1461 * q + 365 * r + s)"
    unfolding doe [symmetric] era doe_def by simp
  ultimately show thesis using that p by blast
qed

section \<open>Properties\<close>

text \<open>C40: The date of a time stamp is the Gregorian one: for every number of seconds, before or after the epoch, the
  computed date exists (a day of its month, the leap day only in leap years), the time of day is in range, and the days from the
  first of January 1970 to that date together with the time of day make up exactly that number of seconds.\<close>

theorem civil_date_correct:
  assumes "civil_from_unix secs = (y, m, d, h, mi, s)"
  shows "valid_date y m d \<and> 0 \<le> h \<and> h < 24 \<and> 0 \<le> mi \<and> mi < 60 \<and> 0 \<le> s \<and> s < 60
    \<and> secs = (day_number y m d - day_number 1970 1 1) * 86400 + h * 3600 + mi * 60 + s"
proof -
  define era where "era = (secs div 86400 + 719468) div 146097"
  obtain c q r n where p: "era_parts c q r n"
    and z: "secs div 86400 + 719468 = 146097 * era + (36524 * c + 1461 * q + 365 * r + n)"
    and cv: "civil_from_unix secs = (case date_in_year (400 * era + (100 * c + 4 * q + r)) n of (y, m, d) \<Rightarrow>
      (y, m, d, secs mod 86400 div 3600, secs mod 86400 mod 3600 div 60, secs mod 86400 mod 60))"
    by (rule civil_from_unix_parts [OF era_def])
  then have dt: "date_in_year (400 * era + (100 * c + 4 * q + r)) n = (y, m, d)"
    and t: "h = secs mod 86400 div 3600" "mi = secs mod 86400 mod 3600 div 60" "s = secs mod 86400 mod 60"
    using assms by (cases "date_in_year (400 * era + (100 * c + 4 * q + r)) n"; simp only: prod.case prod.inject)+
  have n: "0 \<le> n" "n \<le> 364 + leap_day (400 * era + (100 * c + 4 * q + r) + 1)"
    using p unfolding leap_day_def leap_after [OF p] by (auto simp: era_parts_def split: if_splits)
  note date = date_in_year_correct [OF n dt]
  have "day_number 1970 1 1 = 719163" by (simp add: day_number_def days_before_year_def days_before_month_def)
  moreover have "days_before_year (400 * era + (100 * c + 4 * q + r) + 1) = 146097 * era + (36524 * c + 1461 * q + 365 * r)"
    unfolding days_before_year_era [OF year_parts(3,4) [OF p]] year_parts(1,2) [OF p] by simp
  ultimately have days: "day_number y m d - day_number 1970 1 1 = secs div 86400" using date z by linarith
  define rem where "rem = secs mod 86400"
  have rem: "0 \<le> rem" "rem < 86400" "secs = secs div 86400 * 86400 + rem" unfolding rem_def by simp_all
  have "rem = rem div 3600 * 3600 + rem mod 3600 div 60 * 60 + rem mod 3600 mod 60" by simp
  moreover have "rem mod 3600 mod 60 = rem mod 60" by (rule mod_mod_cancel) simp
  ultimately have "secs = (day_number y m d - day_number 1970 1 1) * 86400 + h * 3600 + mi * 60 + s"
    using rem(3) t unfolding days rem_def by linarith
  moreover have "0 \<le> h" "h < 24" "0 \<le> mi" "mi < 60" "0 \<le> s" "s < 60"
    using rem(1,2) unfolding t rem_def [symmetric] by auto
  ultimately show ?thesis using date by blast
qed

theorem civil_date_correct_witness:
  "valid_date 2026 11 2 \<and> 1793602800 = (day_number 2026 11 2 - day_number 1970 1 1) * 86400 + 7 * 3600 + 0 * 60 + 0"
proof -
  have "civil_from_unix 1793602800 = (2026, 11, 2, 7, 0, 0)" by code_simp
  from civil_date_correct [OF this] show ?thesis by blast
qed

end
