(* ===== verification/Warp_Register.thy ===== *)
theory Warp_Register
  imports Warp_Client Cookies Der_Pin Civil_Time
begin

unbundle bit_operations_syntax

text \<open>
  The device registration of the WARP client, \<^verbatim>\<open>src/src/warp/register.rs\<close>: the stored credentials, the two requests to the
  registration service, the device key, and the helpers (hexadecimal, port). It also has the part of
  \<open>WarpClient::init\<close> that chooses what the endpoint's certificate is checked against.

  The elliptic-curve keys (p256), base64 and JSON (serde) are parameters with their documented laws; the two HTTP exchanges
  are the replies to the requests that the code builds.

  Lemmas: the port stripped from an address. Property: what a registration returns serves the next start.
\<close>

section \<open>Constants and messages\<close>

definition API_URL :: string where "API_URL = ''https://api.cloudflareclient.com''"
definition API_VERSION :: string where "API_VERSION = ''v0a4471''"
definition DEFAULT_MODEL :: string where "DEFAULT_MODEL = ''PC''"
definition DEFAULT_LOCALE :: string where "DEFAULT_LOCALE = ''en_US''"

record peer =
  pe_public_key :: string
  pe_endpoint_v4 :: string
  pe_endpoint_v6 :: string

record account_data =
  ac_id :: string
  ac_token :: string
  ac_peers :: "peer list"
  ac_v4 :: string
  ac_v6 :: string

record register_options =
  ro_model :: string
  ro_locale :: string

section \<open>Helpers\<close>

definition strip_port :: "string \<Rightarrow> string" where
  "strip_port addr =
     (let addr = str_trim addr in
      case Option.bind (strip_prefix ''['' addr) (split_once (CHR '']'')) of
        Some (host, _) \<Rightarrow> ''['' @ host @ '']''
      | None \<Rightarrow>
          (case rsplit_once (CHR '':'') addr of
             Some (host, port) \<Rightarrow>
               if CHR '':'' \<notin> set host \<and> port \<noteq> [] \<and> list_all is_ascii_digit port then host else addr
           | None \<Rightarrow> addr))"

fun hex_lower :: "bytes \<Rightarrow> string" where
  "hex_lower [] = []"
| "hex_lower (b # bs) = digit_char (unat (drop_bit 4 b)) # digit_char (unat (b AND 0x0F)) # hex_lower bs"

section \<open>Device keys and credentials\<close>

record 'k device_keys =
  dk_from_slice :: "bytes \<Rightarrow> 'k option"
  dk_public_der :: "'k \<Rightarrow> bytes option"
  dk_to_pkcs8 :: "'k \<Rightarrow> bytes option"
  dk_from_pkcs8 :: "bytes \<Rightarrow> 'k option"

text \<open>The random scalars in the order they are drawn; the loop looks at sixteen.\<close>

fun key_attempts :: "'k device_keys \<Rightarrow> nat \<Rightarrow> (nat \<Rightarrow> bytes) \<Rightarrow> nat \<Rightarrow> ('k \<times> bytes, string) result" where
  "key_attempts K 0 scalars i = Err ''warp: failed to generate a device key''"
| "key_attempts K (Suc n) scalars i =
     (case dk_from_slice K (scalars i) of
        None \<Rightarrow> key_attempts K n scalars (Suc i)
      | Some key \<Rightarrow> rbind (ok_or (dk_public_der K key) ''warp: encode public key'') (\<lambda>spki. Ok (key, spki)))"

definition generate_device_key :: "'k device_keys \<Rightarrow> (nat \<Rightarrow> bytes) \<Rightarrow> ('k \<times> bytes, string) result" where
  "generate_device_key K scalars = key_attempts K 16 scalars 0"

definition signing_key :: "b64 \<Rightarrow> 'k device_keys \<Rightarrow> warp_credentials \<Rightarrow> ('k, string) result" where
  "signing_key E K creds =
     rbind (ok_or (b64_decode E (cr_private_key creds)) ''warp: private_key is not valid base64'') (\<lambda>der.
       ok_or (dk_from_pkcs8 K der) ''warp: private_key is not a PKCS#8 EC key'')"

text \<open>\<open>str::lines\<close> and \<open>str::trim_start\<close>.\<close>

function split_lines :: "string \<Rightarrow> string list" where
  "split_lines s =
     (if s = [] then []
      else case split_once (CHR 0x0A) s of
             None \<Rightarrow> [s]
           | Some (l, r) \<Rightarrow> unwrap_or (strip_suffix [CHR 0x0D] l) l # split_lines r)"
  by pat_completeness auto
termination
  by (relation "measure length") (auto dest: split_once_SomeD)

declare split_lines.simps [simp del]

definition str_trim_start :: "string \<Rightarrow> string" where
  "str_trim_start s = bytes_to_str (trim_seqs unicode_ws (as_bytes s))"

definition starts_with :: "string \<Rightarrow> string \<Rightarrow> bool" where
  "starts_with p s \<longleftrightarrow> strip_prefix p s \<noteq> None"

definition endpoint_spki :: "b64 \<Rightarrow> warp_credentials \<Rightarrow> (bytes, string) result" where
  "endpoint_spki E creds =
     (let raw = str_trim (cr_endpoint_pub_key creds) in
      if starts_with ''-----BEGIN'' raw
      then ok_or (b64_decode E (concat (filter (\<lambda>line. \<not> starts_with ''-----'' (str_trim_start line)) (split_lines raw))))
             ''warp: endpoint_pub_key is not valid PEM''
      else ok_or (b64_decode E raw) ''warp: endpoint_pub_key is not valid base64'')"

section \<open>Registration\<close>

record api_request =
  rq_method :: string
  rq_url :: string
  rq_authorization :: "string option"
  rq_body :: "(string \<times> string) list"

definition registration_request :: "b64 \<Rightarrow> register_options \<Rightarrow> bytes \<Rightarrow> bytes \<Rightarrow> u64 \<Rightarrow> api_request" where
  "registration_request E opts wg_key serial now =
     \<lparr>rq_method = ''POST'', rq_url = API_URL @ ''/'' @ API_VERSION @ ''/reg'', rq_authorization = None,
      rq_body = [(''key'', b64_encode E wg_key), (''install_id'', ''''), (''fcm_token'', ''''), (''tos'', cf_time_string now),
        (''model'', ro_model opts), (''serial_number'', hex_lower serial), (''os_version'', ''''), (''key_type'', ''curve25519''),
        (''tunnel_type'', ''wireguard''), (''locale'', ro_locale opts)]\<rparr>"

definition enrollment_request :: "b64 \<Rightarrow> string \<Rightarrow> string \<Rightarrow> bytes \<Rightarrow> api_request" where
  "enrollment_request E ident token spki =
     \<lparr>rq_method = ''PATCH'', rq_url = API_URL @ ''/'' @ API_VERSION @ ''/reg/'' @ ident, rq_authorization = Some (''Bearer '' @ token),
      rq_body = [(''key'', b64_encode E spki), (''key_type'', ''secp256r1''), (''tunnel_type'', ''masque'')]\<rparr>"

definition enrolled_credentials :: "b64 \<Rightarrow> account_data \<Rightarrow> bytes \<Rightarrow> account_data \<Rightarrow> (warp_credentials, string) result" where
  "enrolled_credentials E account pkcs8 enrolled =
     (case ac_peers enrolled of
        [] \<Rightarrow> Err ''warp: enrollment response has no peers''
      | p # _ \<Rightarrow>
          if pe_public_key p = [] then Err ''warp: enrollment response has no peer public key''
          else Ok \<lparr>cr_id = ac_id account, cr_access_token = ac_token account, cr_private_key = b64_encode E pkcs8,
                   cr_endpoint_pub_key = pe_public_key p, cr_ipv4 = ac_v4 enrolled, cr_ipv6 = ac_v6 enrolled,
                   cr_endpoint_v4 = strip_port (pe_endpoint_v4 p), cr_endpoint_v6 = strip_port (pe_endpoint_v6 p)\<rparr>)"

text \<open>\<open>api\<close> is \<open>send\<close>: the parsed account in the reply to a request, or its error. The result has the requests made.\<close>

definition register_device ::
  "b64 \<Rightarrow> 'k device_keys \<Rightarrow> (api_request \<Rightarrow> (account_data, string) result) \<Rightarrow> register_options \<Rightarrow> bytes \<Rightarrow> bytes \<Rightarrow> u64 \<Rightarrow>
   (nat \<Rightarrow> bytes) \<Rightarrow> api_request list \<times> (warp_credentials, string) result" where
  "register_device E K api opts wg_key serial now scalars =
     (let req1 = registration_request E opts wg_key serial now in
      case api req1 of
        Err e \<Rightarrow> ([req1], Err e)
      | Ok account \<Rightarrow>
          if ac_token account = [] then ([req1], Err ''warp: registration response did not contain a token'')
          else case generate_device_key K scalars of
            Err e \<Rightarrow> ([req1], Err e)
          | Ok (key, spki) \<Rightarrow>
              (case dk_to_pkcs8 K key of
                 None \<Rightarrow> ([req1], Err ''warp: encode device key'')
               | Some pkcs8 \<Rightarrow>
                   (let req2 = enrollment_request E (ac_id account) (ac_token account) spki in
                    ([req1, req2],
                     rbind (api req2) (enrolled_credentials E account pkcs8)))))"

text \<open>The file is \<open>None\<close> when it does not exist or cannot be read; JSON is a printer and a parser. \<open>written\<close> is
  the file after the attempt to write it; if that failed the credentials are used all the same.\<close>

record credentials_json =
  cj_print :: "warp_credentials \<Rightarrow> bytes"
  cj_parse :: "bytes \<Rightarrow> warp_credentials option"

definition load_credentials :: "credentials_json \<Rightarrow> b64 \<Rightarrow> 'k device_keys \<Rightarrow> bytes option \<Rightarrow> warp_credentials option" where
  "load_credentials J E K file =
     Option.bind (Option.bind file (cj_parse J)) (\<lambda>creds. if is_ok (signing_key E K creds) then Some creds else None)"

definition save_credentials :: "credentials_json \<Rightarrow> (bytes \<Rightarrow> bytes option) \<Rightarrow> warp_credentials \<Rightarrow> bytes option" where
  "save_credentials J written creds = written (cj_print J creds)"

definition load_or_register ::
  "credentials_json \<Rightarrow> b64 \<Rightarrow> 'k device_keys \<Rightarrow> (unit \<Rightarrow> api_request list \<times> (warp_credentials, string) result) \<Rightarrow>
   (bytes \<Rightarrow> bytes option) \<Rightarrow> bytes option \<Rightarrow> bytes option \<times> api_request list \<times> (warp_credentials, string) result" where
  "load_or_register J E K register written file =
     (case load_credentials J E K file of
        Some creds \<Rightarrow> (file, [], Ok creds)
      | None \<Rightarrow>
          (case register () of
             (reqs, Err e) \<Rightarrow> (file, reqs, Err e)
           | (reqs, Ok creds) \<Rightarrow> (save_credentials J written creds, reqs, Ok creds)))"

section \<open>What the endpoint is checked against\<close>

definition init_verifier :: "b64 \<Rightarrow> warp_section \<Rightarrow> warp_credentials \<Rightarrow> (cert_verifier, string) result" where
  "init_verifier E sec creds =
     (if wn_insecure_skip_verify sec then Ok (choose_verifier None)
      else rbind (endpoint_spki E creds) (\<lambda>spki. Ok (choose_verifier (Some spki))))"

section \<open>Lemmas: ports and addresses\<close>

lemma str_trim_ends:
  assumes "s \<noteq> []" and "33 \<le> (of_char (hd s) :: nat)" "of_char (hd s) < (128 :: nat)"
    and "33 \<le> (of_char (last s) :: nat)" "of_char (last s) < (128 :: nat)"
  shows "str_trim s = s"
proof -
  have ends: "(of_char c :: byte) \<notin> hd ` set unicode_ws \<and> (of_char c :: byte) \<notin> hd ` set (map rev unicode_ws)"
    if "33 \<le> (of_char c :: nat)" "of_char c < (128 :: nat)" for c
  proof -
    have "33 \<le> (of_char c :: byte)" "(of_char c :: byte) < 128" using that by (simp_all add: word_less_nat_alt word_le_nat_alt unat_of_char_byte)
    then show ?thesis by (auto simp: unicode_ws_def)
  qed
  moreover have "hd (as_bytes s) = of_char (hd s)" "hd (rev (as_bytes s)) = of_char (last s)"
    using assms(1) by (simp_all add: as_bytes_def hd_map hd_rev last_map)
  ultimately have "hd (as_bytes s) \<notin> hd ` set unicode_ws" "hd (rev (as_bytes s)) \<notin> hd ` set (map rev unicode_ws)"
    using assms(2-5) by simp_all
  then show ?thesis using trim_seqs_id by (simp add: str_trim_def)
qed

lemma hex_digit_code: "to_digit 16 c \<noteq> None \<Longrightarrow> 33 \<le> (of_char c :: nat) \<and> of_char c < (128 :: nat)"
  by (auto simp: to_digit_def Let_def split: if_splits)

lemma show_nat_digits: "show_nat n \<noteq> [] \<and> list_all is_ascii_digit (show_nat n)"
proof -
  have "show_nat n \<noteq> []" "\<forall>c \<in> set (show_nat n). to_digit 10 c \<noteq> None" using show_radix_digits [of 10 n] by (auto simp: show_nat_radix)
  moreover have "is_ascii_digit c" if "to_digit 10 c \<noteq> None" for c
    using that by (auto simp: to_digit_def is_ascii_digit_def Let_def split: if_splits)
  ultimately show ?thesis by (auto simp: list_all_iff)
qed

lemma show_ip_nonempty: "show_ip ip \<noteq> []"
proof -
  have "parse_ip [] = None" by (simp add: parse_ip_def read_ipv4_None read_ipv6_def read_groups_end ends_groups_def strip_prefix_def)
  then show ?thesis using parse_ip_show_ip [of ip] by auto
qed

text \<open>A registration service writes the address of its endpoint as an authority.\<close>

lemma strip_port_authority:
  assumes "port < 2 ^ 16"
  shows "strip_port (authority ip port) = (case ip of IpV4 a \<Rightarrow> show_v4 a | IpV6 a \<Rightarrow> ''['' @ show_v6 a @ '']'')"
proof -
  note digits = show_nat_digits [of port] and colon = parse_u16_show(2) [OF assms]
  have code: "33 \<le> (of_char c :: nat) \<and> of_char c < (128 :: nat)" if "c \<in> set (show_ip ip) \<or> is_ascii_digit c \<or> c = CHR ''[''" for c
    using that show_ip_chars [of c ip] hex_digit_code [of c] by (auto simp: is_ascii_digit_def)
  have "show_nat port \<noteq> []" "is_ascii_digit (last (show_nat port))" using digits by (auto simp: list_all_iff)
  then have last: "last (authority ip port) = last (show_nat port)" "authority ip port \<noteq> []" by (cases ip; simp)+
  have hd: "hd (authority ip port) = CHR ''['' \<or> hd (authority ip port) \<in> set (show_ip ip)"
    using show_ip_nonempty [of ip] by (cases ip) auto
  have trim: "str_trim (authority ip port) = authority ip port"
    using code [of "hd (authority ip port)"] code [of "last (show_nat port)"] hd last \<open>is_ascii_digit _\<close> by (intro str_trim_ends) auto
  show ?thesis
  proof (cases ip)
    case (IpV4 a)
    have "CHR '':'' \<notin> set (show_v4 a)" using show_octets_chars [of "CHR '':''" True "v4_octets a"] by (auto simp: show_v4_def to_digit_def)
    moreover have "strip_prefix ''['' (authority ip port) = None"
      using show_ip_no_bracket(1) [of ip] IpV4 by (cases "show_v4 a") (auto simp: strip_prefix_def split: if_splits)
    ultimately show ?thesis
      using IpV4 digits colon rsplit_once_append [OF colon, of "show_v4 a"] unfolding strip_port_def trim by simp
  next
    case (IpV6 a)
    have "split_once (CHR '']'') (show_v6 a @ '']:'' @ show_nat port) = Some (show_v6 a, '':'' @ show_nat port)"
      using split_once_append [of "CHR '']''" "show_v6 a" "'':'' @ show_nat port"] show_ip_no_bracket(2) [of ip] IpV6 by simp
    then show ?thesis using IpV6 unfolding strip_port_def trim by (simp add: strip_prefix_def)
  qed
qed

text \<open>The endpoint that a registration reports is the one that is dialled when none is configured.\<close>

lemma registered_endpoint_resolves:
  assumes "port < 2 ^ 16" and "cr_endpoint_v4 creds = strip_port (authority ip port)"
    and "wn_endpoint sec = None" and "wn_endpoint_v6 sec = None"
  shows "resolve_endpoint sec creds = Ok ip"
proof -
  have host: "cr_endpoint_v4 creds = show_ip ip \<or> cr_endpoint_v4 creds = ''['' @ show_ip ip @ '']''"
    using assms(2) strip_port_authority [OF assms(1), of ip] by (cases ip) auto
  then have "nonempty (cr_endpoint_v4 creds) = Some (cr_endpoint_v4 creds)" using show_ip_nonempty [of ip] by (auto simp: nonempty_def)
  moreover have "trim_end_matches (\<lambda>c. c = CHR '']'') (trim_start_matches (\<lambda>c. c = CHR ''['') (cr_endpoint_v4 creds)) = show_ip ip"
    using host by (rule trim_brackets)
  ultimately show ?thesis using assms(3,4) by (simp add: resolve_endpoint_def unwrap_or_def parse_ip_show_ip)
qed

section \<open>Lemmas: keys and registration\<close>

text \<open>Sixteen draws: the key comes from the first usable scalar among them.\<close>

lemma key_attempts_Ok:
  "key_attempts K n scalars i = Ok (key, spki) \<Longrightarrow>
   (\<exists>j < n. dk_from_slice K (scalars (i + j)) = Some key \<and> (\<forall>k < j. dk_from_slice K (scalars (i + k)) = None)) \<and> dk_public_der K key = Some spki"
proof (induction n arbitrary: i)
  case (Suc n)
  show ?case
  proof (cases "dk_from_slice K (scalars i)")
    case None
    with Suc.prems have "key_attempts K n scalars (Suc i) = Ok (key, spki)" by simp
    from Suc.IH [OF this] obtain j where j: "j < n" "dk_from_slice K (scalars (Suc i + j)) = Some key"
        "\<forall>k < j. dk_from_slice K (scalars (Suc i + k)) = None" and s: "dk_public_der K key = Some spki"
      by blast
    have "dk_from_slice K (scalars (i + k)) = None" if "k < Suc j" for k using that j(3) None by (cases k) auto
    then show ?thesis using j(1,2) s by (intro conjI exI [of _ "Suc j"]) auto
  next
    case (Some k)
    then have "k = key \<and> dk_public_der K key = Some spki" using Suc.prems by (auto simp: rbind_Ok_iff ok_or_Ok_iff)
    then show ?thesis using Some by (intro conjI exI [of _ 0]) auto
  qed
qed simp

lemma enrolled_key: "enrolled_credentials E account pkcs8 enrolled = Ok creds \<Longrightarrow> cr_private_key creds = b64_encode E pkcs8"
  by (auto simp: enrolled_credentials_def split: list.splits if_splits)

lemma register_device_Ok:
  assumes "register_device E K api opts wg_key serial now scalars = (reqs, Ok creds)"
  obtains account :: account_data and key spki pkcs8 where "generate_device_key K scalars = Ok (key, spki)" and "dk_to_pkcs8 K key = Some pkcs8"
    and "cr_private_key creds = b64_encode E pkcs8"
    and "reqs = [registration_request E opts wg_key serial now, enrollment_request E (ac_id account) (ac_token account) spki]"
    and "ac_token account \<noteq> []"
proof -
  note r = assms [unfolded register_device_def Let_def]
  obtain account where a: "api (registration_request E opts wg_key serial now) = Ok account" and t: "ac_token account \<noteq> []"
    using r by (cases "api (registration_request E opts wg_key serial now)") (auto split: if_splits)
  obtain key spki where g: "generate_device_key K scalars = Ok (key, spki)" using r a t by (cases "generate_device_key K scalars") auto
  obtain pkcs8 where k: "dk_to_pkcs8 K key = Some pkcs8" using r a t g by (cases "dk_to_pkcs8 K key") auto
  obtain enrolled where "enrolled_credentials E account pkcs8 enrolled = Ok creds"
    and q: "reqs = [registration_request E opts wg_key serial now, enrollment_request E (ac_id account) (ac_token account) spki]"
    using r a t g k by (auto simp: rbind_Ok_iff)
  then have "cr_private_key creds = b64_encode E pkcs8" by (simp add: enrolled_key)
  then show thesis using that g k q t by blast
qed

section \<open>Properties\<close>

text \<open>C39: A registration serves every later start. With no usable credentials on disk and a file that can be written,
  a registration that succeeds makes two requests, the second one enrolling the public key of the device key that the stored private
  key decodes to; and whenever the program starts again it loads the very same credentials and makes no request.\<close>

theorem registration_serves_restart:
  assumes "\<forall>data. b64_decode E (b64_encode E data) = Some data"
    and "\<forall>key der. dk_to_pkcs8 K key = Some der \<longrightarrow> dk_from_pkcs8 K der = Some key"
    and "\<forall>c. cj_parse J (cj_print J c) = Some c"
    and "load_credentials J E K file = None"
    and "load_or_register J E K (\<lambda>_. register_device E K api opts wg_key serial now scalars) Some file = (file', reqs, Ok creds)"
  shows "load_or_register J E K register written file' = (file', [], Ok creds)
    \<and> (\<exists>key spki. signing_key E K creds = Ok key \<and> dk_public_der K key = Some spki
         \<and> length reqs = 2 \<and> (''key'', b64_encode E spki) \<in> set (rq_body (reqs ! 1)))"
proof -
  have r: "register_device E K api opts wg_key serial now scalars = (reqs, Ok creds)" and f: "file' = Some (cj_print J creds)"
    using assms(4,5) by (auto simp: load_or_register_def save_credentials_def split: prod.splits result.splits)
  from r obtain account :: account_data and key spki pkcs8 where g: "generate_device_key K scalars = Ok (key, spki)" "dk_to_pkcs8 K key = Some pkcs8"
      "cr_private_key creds = b64_encode E pkcs8"
    and reqs: "reqs = [registration_request E opts wg_key serial now, enrollment_request E (ac_id account) (ac_token account) spki]"
    by (rule register_device_Ok)
  have key: "signing_key E K creds = Ok key" using g(2,3) assms(1,2) by (simp add: signing_key_def)
  then have "load_credentials J E K file' = Some creds" using f assms(3) by (simp add: load_credentials_def)
  moreover have "dk_public_der K key = Some spki" using key_attempts_Ok [OF g(1) [unfolded generate_device_key_def]] by simp
  ultimately show ?thesis using key reqs by (simp add: load_or_register_def enrollment_request_def)
qed

text \<open>A concrete key store, in which a key is its own encoding, and a concrete text of credentials.\<close>

definition example_keys :: "bytes device_keys" where
  "example_keys = \<lparr>dk_from_slice = (\<lambda>s. if s = [] then None else Some s), dk_public_der = (\<lambda>k. Some (rev k)), dk_to_pkcs8 = Some, dk_from_pkcs8 = Some\<rparr>"

fun put_text :: "string \<Rightarrow> bytes" where
  "put_text [] = [0]"
| "put_text (c # cs) = 1 # of_char c # put_text cs"

fun get_text :: "bytes \<Rightarrow> (string \<times> bytes) option" where
  "get_text [] = None"
| "get_text (b # bs) =
     (if b = 0 then Some ([], bs)
      else case bs of [] \<Rightarrow> None | c # bs \<Rightarrow> map_option (\<lambda>(cs, bs). (char_of (unat c) # cs, bs)) (get_text bs))"

fun get_texts :: "nat \<Rightarrow> bytes \<Rightarrow> string list option" where
  "get_texts 0 bs = Some []"
| "get_texts (Suc n) bs = Option.bind (get_text bs) (\<lambda>(s, bs). map_option ((#) s) (get_texts n bs))"

definition credentials_of :: "string list \<Rightarrow> warp_credentials" where
  "credentials_of f = \<lparr>cr_id = f ! 0, cr_access_token = f ! 1, cr_private_key = f ! 2, cr_endpoint_pub_key = f ! 3, cr_ipv4 = f ! 4,
     cr_ipv6 = f ! 5, cr_endpoint_v4 = f ! 6, cr_endpoint_v6 = f ! 7\<rparr>"

definition example_json :: credentials_json where
  "example_json =
     \<lparr>cj_print = (\<lambda>c. put_text (cr_id c) @ put_text (cr_access_token c) @ put_text (cr_private_key c) @ put_text (cr_endpoint_pub_key c) @
        put_text (cr_ipv4 c) @ put_text (cr_ipv6 c) @ put_text (cr_endpoint_v4 c) @ put_text (cr_endpoint_v6 c)),
      cj_parse = (\<lambda>b. map_option credentials_of (get_texts 8 b))\<rparr>"

lemma get_put_text: "get_text (put_text s @ rest) = Some (s, rest)"
  by (induction s) (simp_all add: unat_of_char_byte)

lemma example_json_roundtrip: "cj_parse example_json (cj_print example_json c) = Some c"
proof -
  have eight: "(8 :: nat) = Suc (Suc (Suc (Suc (Suc (Suc (Suc (Suc 0)))))))" by simp
  show ?thesis
    using get_put_text [of "cr_endpoint_v6 c" "[]"] by (simp add: eight example_json_def get_put_text credentials_of_def)
qed

definition example_account :: account_data where
  "example_account = \<lparr>ac_id = ''d'', ac_token = ''t'', ac_peers = [\<lparr>pe_public_key = ''k'', pe_endpoint_v4 = ''1.2.3.4:0'', pe_endpoint_v6 = ''[::1]:0''\<rparr>],
     ac_v4 = ''172.16.0.2'', ac_v6 = []\<rparr>"

definition example_start :: "bytes option \<Rightarrow> bytes option \<times> api_request list \<times> (warp_credentials, string) result" where
  "example_start file = load_or_register example_json url_b64 example_keys
     (\<lambda>_. register_device url_b64 example_keys (\<lambda>_. Ok example_account) \<lparr>ro_model = DEFAULT_MODEL, ro_locale = DEFAULT_LOCALE\<rparr>
            (replicate 32 7) (replicate 8 1) 0 (\<lambda>i. if i < 2 then [] else [5])) Some file"

theorem registration_serves_restart_witness:
  "\<exists>file reqs creds. example_start None = (file, reqs, Ok creds) \<and> length reqs = 2 \<and> example_start file = (file, [], Ok creds)"
proof -
  obtain f reqs creds where s: "example_start None = (f, reqs, Ok creds)"
    by (auto simp: example_start_def load_or_register_def load_credentials_def register_device_def example_account_def
        generate_device_key_def example_keys_def numeral_eq_Suc enrolled_credentials_def Let_def)
  show ?thesis
    using registration_serves_restart [of url_b64 example_keys example_json, OF _ _ _ _ s [unfolded example_start_def]] s
      url_b64_correct example_json_roundtrip
    by (fastforce simp: b64_correct_def example_keys_def load_credentials_def example_start_def)
qed

end
