(* ===== verification/End_To_End.thy ===== *)
theory End_To_End
  imports Server_Handlers Upload_Loop
begin

text \<open>
  The two halves of a tunnel from end to end: client code, the HTTP bodies between, and server code together.

  Upload: the body of the tunnel request and the upload loop of the client, the request handler of the server that decodes a
  body and forwards its frames, and the upload actor that writes to the target. Download: the segments of the tunnel actor and
  the download loop of the client. The lemmas say what one server request forwards of a body of whole frames, under any number
  of polls and any point at which the actor stops accepting; and they split numbered frames into the bodies that carry them.
\<close>

section \<open>What the server forwards of a body\<close>

lemma decode_stream_more:
  "decode_stream B n d inner = (xs, r) \<Longrightarrow>
   \<exists>ys r'. decode_stream B (n + k) d inner = (xs @ ys, r') \<and> (r \<noteq> None \<longrightarrow> ys = [] \<and> r' = r)"
proof (induction n arbitrary: d inner xs r)
  case 0
  then show ?case by (cases "decode_stream B k d inner") auto
next
  case (Suc n)
  obtain d' inner' p where poll: "decoder_poll_next B d inner = (d', inner', p)" by (metis prod.collapse)
  consider "p = Pending" | "p = Ready None" | e where "p = Ready (Some (Err e))" | f where "p = Ready (Some (Ok f))"
    by (metis option.exhaust poll.exhaust result.exhaust)
  then show ?case
  proof cases
    case 1
    then show ?thesis using Suc.IH [of d' inner' xs r] Suc.prems poll by simp
  next
    case 4
    obtain fs r0 where fs: "decode_stream B n d' inner' = (fs, r0)" by fastforce
    then have "xs = f # fs" "r = r0" using Suc.prems poll 4 by auto
    then show ?thesis using Suc.IH [OF fs] poll 4 by (auto split: prod.splits)
  qed (use Suc.prems poll in auto)
qed

text \<open>\<open>fs\<close> are the frames of a body with their numbers and payloads.\<close>

lemma forward_body_frames:
  assumes "\<forall>(f, seq, data) \<in> set fs. decodes_as B C enc f seq data" and "chunk_bytes chunks = concat (map fst fs)" and "no_errors chunks"
    and "forward_body B C enc chunks polls accepts m1 m2 = (frames, r)"
  shows "prefix frames (map snd fs)" and "r = Ok () \<Longrightarrow> frames = map snd fs"
proof -
  obtain xs fin where d: "decode_stream B polls (decoder_new C enc MAX_FRAME_BUF_SIZE) chunks = (xs, fin)" by fastforce
  have "decode_stream B (polls + Suc (length fs + length chunks)) (decoder_new C enc MAX_FRAME_BUF_SIZE) chunks = (map snd fs, Some (Ok ()))"
    using assms(1-3) by (intro decode_whole_frames) auto
  with decode_stream_more [OF d, of "Suc (length fs + length chunks)"]
  have xs: "prefix xs (map snd fs)" "fin \<noteq> None \<longrightarrow> xs = map snd fs" by (auto simp: prefix_def)
  show "prefix frames (map snd fs)"
    using assms(4) d xs(1) take_is_prefix [of accepts xs]
    by (auto simp: forward_body_def split: if_splits option.splits result.splits intro: prefix_order.order_trans)
  show "frames = map snd fs" if "r = Ok ()"
    using assms(4) d xs(2) that by (auto simp: forward_body_def bad_gateway_def request_timeout_def bad_request_def split: if_splits option.splits result.splits)
qed

section \<open>Numbered frames\<close>

text \<open>Frames with number and payload, numbered from zero; no payload is empty.\<close>

definition numbered :: "base122 \<Rightarrow> frame_cipher \<Rightarrow> encoding_type \<Rightarrow> (bytes \<times> u64 \<times> bytes) list \<Rightarrow> bool" where
  "numbered B C enc fs \<longleftrightarrow>
     (\<forall>(f, q, d) \<in> set fs. decodes_as B C enc f q d \<and> d \<noteq> []) \<and> map (fst \<circ> snd) fs = map of_nat [0..<length fs]"

abbreviation payloads :: "(bytes \<times> u64 \<times> bytes) list \<Rightarrow> bytes" where
  "payloads fs \<equiv> concat (map (snd \<circ> snd) fs)"

text \<open>What the sender sends under a number.\<close>

definition sender_data :: "(bytes \<times> u64 \<times> bytes) list \<Rightarrow> u64 \<Rightarrow> bytes" where
  "sender_data fs s = (if unat s < length fs then snd (snd (fs ! unat s)) else [])"

lemma numbered_nth: "numbered B C enc fs \<Longrightarrow> i < length fs \<Longrightarrow> fst (snd (fs ! i)) = of_nat i"
proof -
  assume "numbered B C enc fs" and i: "i < length fs"
  then have "map (fst \<circ> snd) fs ! i = map of_nat [0..<length fs] ! i" by (simp add: numbered_def)
  then show ?thesis using i by simp
qed

lemma sender_data_frame:
  assumes "numbered B C enc fs" and "length fs < 2 ^ 64" and "(q, d) \<in> set (map snd fs)"
  shows "d = sender_data fs q" and "unat q < length fs"
proof -
  obtain i where i: "i < length fs" "snd (fs ! i) = (q, d)" using assms(3) by (auto simp: in_set_conv_nth)
  then have "q = of_nat i" using numbered_nth [OF assms(1) i(1)] by simp
  then have "unat q = i" using i(1) assms(2) by (simp add: unat_of_nat)
  then show "d = sender_data fs q" "unat q < length fs" using i by (simp_all add: sender_data_def)
qed

lemma stream_from_sender: "n < 2 ^ 64 \<Longrightarrow> concat (stream_from (sender_data fs) 0 n) = payloads (take n fs)"
proof (induction n)
  case (Suc n)
  have "unat (of_nat n :: u64) = n" using Suc.prems by (simp add: unat_of_nat)
  then have "sender_data fs (of_nat n) = (if n < length fs then snd (snd (fs ! n)) else [])" by (simp add: sender_data_def)
  then show ?case using Suc by (simp add: stream_from_def take_Suc_conv_app_nth)
qed simp

lemma numbered_length:
  assumes "numbered B C enc fs"
  shows "length fs \<le> length (payloads fs)"
proof -
  have "\<forall>x \<in> set fs. snd (snd x) \<noteq> []" using assms by (auto simp: numbered_def)
  then show ?thesis
  proof (induction fs)
    case (Cons x fs)
    then show ?case by (cases "snd (snd x)") auto
  qed simp
qed

text \<open>A list of bodies whose frames are consecutive parts of one list.\<close>

lemma map_eq_concat:
  "map h gs = concat fss @ cur \<Longrightarrow> \<exists>gss gcur. gs = concat gss @ gcur \<and> map (map h) gss = fss \<and> map h gcur = cur"
proof (induction fss arbitrary: gs)
  case Nil
  then show ?case by (intro exI [of _ "[]"] exI [of _ gs]) simp
next
  case (Cons fs fss)
  then have "map h gs = fs @ (concat fss @ cur)" by simp
  then obtain a b where ab: "gs = a @ b" "map h a = fs" "map h b = concat fss @ cur" by (metis map_eq_append_conv)
  from Cons.IH [OF ab(3)] obtain gss gcur where "b = concat gss @ gcur" "map (map h) gss = fss" "map h gcur = cur" by blast
  then show ?case using ab by (intro exI [of _ "a # gss"] exI [of _ gcur]) simp
qed

lemma frame_list_triples:
  assumes "frame_list_ok B C enc s fs ds"
  obtains gs where "map (\<lambda>(f, q, d). (q, f)) gs = fs" and "map (snd \<circ> snd) gs = ds"
    and "\<forall>(f, q, d) \<in> set gs. decodes_as B C enc f q d \<and> d \<noteq> []" and "map (fst \<circ> snd) gs = map (\<lambda>i. s + of_nat i) [0..<length gs]"
proof -
  have all: "list_all2 (\<lambda>(n, f) d. decodes_as B C enc f n d \<and> d \<noteq> []) fs ds" and num: "map fst fs = map (\<lambda>i. s + of_nat i) [0..<length fs]"
    using assms by (simp_all add: frame_list_ok_def)
  have "\<exists>gs. map (\<lambda>(f, q, d). (q, f)) gs = fs \<and> map (snd \<circ> snd) gs = ds \<and> (\<forall>(f, q, d) \<in> set gs. decodes_as B C enc f q d \<and> d \<noteq> [])"
    using all
  proof (induction rule: list_all2_induct)
    case (Cons x xs y ys)
    then obtain gs where "map (\<lambda>(f, q, d). (q, f)) gs = xs" "map (snd \<circ> snd) gs = ys" "\<forall>(f, q, d) \<in> set gs. decodes_as B C enc f q d \<and> d \<noteq> []"
      by blast
    then show ?case using Cons.hyps by (intro exI [of _ "(snd x, fst x, y) # gs"]) (auto split: prod.splits)
  qed simp
  then obtain gs where gs: "map (\<lambda>(f, q, d). (q, f)) gs = fs" "map (snd \<circ> snd) gs = ds" "\<forall>(f, q, d) \<in> set gs. decodes_as B C enc f q d \<and> d \<noteq> []"
    by blast
  have "map (fst \<circ> snd) gs = map fst (map (\<lambda>(f, q, d). (q, f)) gs)" by (simp add: comp_def case_prod_beta)
  then have "map (fst \<circ> snd) gs = map (\<lambda>i. s + of_nat i) [0..<length gs]" using num gs(1) by (metis length_map)
  then show thesis using that gs by blast
qed

lemma numbered_append:
  assumes "numbered B C enc fs" and "\<forall>(f, q, d) \<in> set gs. decodes_as B C enc f q d \<and> d \<noteq> []"
    and "map (fst \<circ> snd) gs = map (\<lambda>i. of_nat (length fs) + of_nat i) [0..<length gs]"
  shows "numbered B C enc (fs @ gs)"
proof -
  have "map (\<lambda>i. of_nat (length fs) + of_nat i) [0..<length gs] = map (of_nat :: nat \<Rightarrow> u64) [length fs..<length fs + length gs]"
    by (rule nth_equalityI) simp_all
  moreover have "[0..<length fs + length gs] = [0..<length fs] @ [length fs..<length fs + length gs]" by (metis add.left_neutral upt_add_eq_append zero_le)
  ultimately show ?thesis using assms by (auto simp: numbered_def)
qed

section \<open>The sender\<close>

lemma global_range: "validate_traffic cfg = Ok () \<Longrightarrow> fst (pc_range (tc_global cfg)) \<le> snd (pc_range (tc_global cfg))"
  by (auto simp: validate_traffic_def Let_def split: if_splits)

text \<open>The bodies the client sends, the one of the tunnel request first, are consecutive parts of one list of numbered frames.\<close>

lemma upload_sender:
  assumes env: "env_ok env" and val: "validate_traffic cfg = Ok ()" and C: "cipher_contract C" and rd: "RData [] \<notin> set rd"
    and enc: "encode_initial_payload (se_b122 env) (se_rng env) (se_nonce env) early max_bytes C cfg = Some (Ok (body0, remaining, n0))"
    and trace: "upload_trace env (upload_loop_new now rnd (resolve_config cfg) conc flight remaining rd C (of_nat n0)) es u"
  obtains parts cur where "numbered (se_b122 env) C (tc_encoding_type cfg) (concat parts @ cur)"
    and "body0 # ul_posted u = map (\<lambda>p. concat (map fst p)) parts"
    and "early @ script_bytes rd = payloads (concat parts @ cur) @ unsent (ul_shaper u) (ul_reader u)"
    and "ul_point u = Finished (Ok ()) \<longrightarrow> cur = [] \<and> unsent (ul_shaper u) (ul_reader u) = []"
proof -
  let ?B = "se_b122 env" and ?enc = "tc_encoding_type cfg"
  have encoding: "rc_encoding (resolve_config cfg) = ?enc" by (simp add: resolve_config_def)
  obtain fs0 where i: "body0 = concat (map fst fs0)" "remaining = drop max_bytes early" "n0 = length fs0" "numbered ?B C ?enc fs0"
      "payloads fs0 = take max_bytes early"
    using initial_body_frames [OF C _ _ _ global_range [OF val], of ?B "se_rng env" "se_nonce env" early max_bytes] env enc
    by (auto simp: env_ok_def numbered_def)
  note new = upload_loop_new_inv [OF val C rd refl]
  from upload_trace_stream [OF env new(1,2) trace] obtain fss cur0 where fss: "ul_posted u = map body_of fss" "point_holds (ul_point u) cur0"
      and at: "stream_at ?B C ?enc (of_nat n0) (remaining @ script_bytes rd) (concat fss @ cur0) (ul_shaper u) (ul_reader u)"
      and e: "point_ended (ul_point u) \<longrightarrow> unsent (ul_shaper u) (ul_reader u) = []"
    by (auto simp: stream_inv_def encoding)
  from at obtain ds where fl: "frame_list_ok ?B C ?enc (of_nat n0) (concat fss @ cur0) ds"
      and ds: "remaining @ script_bytes rd = concat ds @ unsent (ul_shaper u) (ul_reader u)"
    by (auto simp: stream_at_def)
  from fl obtain gs where gs: "map (\<lambda>(f, q, d). (q, f)) gs = concat fss @ cur0" "map (snd \<circ> snd) gs = ds"
      "\<forall>(f, q, d) \<in> set gs. decodes_as ?B C ?enc f q d \<and> d \<noteq> []" "map (fst \<circ> snd) gs = map (\<lambda>i. of_nat n0 + of_nat i) [0..<length gs]"
    by (rule frame_list_triples)
  from map_eq_concat [OF gs(1)] obtain gss cur where g: "gs = concat gss @ cur" "map (map (\<lambda>(f, q, d). (q, f))) gss = fss"
      "map (\<lambda>(f, q, d). (q, f)) cur = cur0"
    by blast
  have "ul_posted u = map (\<lambda>p. concat (map fst p)) gss"
    unfolding fss(1) g(2) [symmetric] by (simp add: body_of_def comp_def case_prod_beta)
  moreover have "numbered ?B C ?enc (fs0 @ concat gss @ cur)" using numbered_append [OF i(4) gs(3)] gs(4) i(3) g(1) by simp
  moreover have "early @ script_bytes rd = payloads (fs0 @ concat gss @ cur) @ unsent (ul_shaper u) (ul_reader u)"
    using ds gs(2) g(1) i(2,5) by (metis append.assoc append_take_drop_id concat_append map_append)
  moreover have "cur = [] \<and> unsent (ul_shaper u) (ul_reader u) = []" if "ul_point u = Finished (Ok ())" using e fss(2) that g(3) by auto
  ultimately show thesis using that [of "fs0 # gss" cur] i(1) by simp
qed

section \<open>The receiver\<close>

text \<open>A request that reaches the server: how its body arrives, how often it is polled, and how many frames the actor accepts.\<close>

type_synonym server_request = "chunk_event list \<times> nat \<times> nat"

definition request_frames :: "base122 \<Rightarrow> frame_cipher \<Rightarrow> encoding_type \<Rightarrow> server_request \<Rightarrow> (u64 \<times> bytes) list \<times> (unit, server_error) result" where
  "request_frames B C enc r = forward_body B C enc (fst r) (fst (snd r)) (snd (snd r)) ''frame decode error: '' ''upload actor closed''"

text \<open>Events of the upload actor that come from these requests; \<open>E\<close> gives the marker of an acknowledgement.\<close>

fun from_requests :: "base122 \<Rightarrow> frame_cipher \<Rightarrow> encoding_type \<Rightarrow> server_request list \<Rightarrow> (ack \<Rightarrow> u64) \<Rightarrow> upload_event \<Rightarrow> bool" where
  "from_requests B C enc reqs E (UCmd now (UFrame seq data)) \<longleftrightarrow> (\<exists>r \<in> set reqs. (seq, data) \<in> set (fst (request_frames B C enc r)))"
| "from_requests B C enc reqs E (UCmd now (UEos max_seq a)) \<longleftrightarrow> max_seq = E a"
| "from_requests B C enc reqs E ev \<longleftrightarrow> True"

text \<open>The request carried the body \<open>b\<close>, was served with success, and the actor has seen all its frames.\<close>

definition fully_served :: "base122 \<Rightarrow> frame_cipher \<Rightarrow> encoding_type \<Rightarrow> upload_event list \<Rightarrow> bytes \<Rightarrow> server_request \<Rightarrow> bool" where
  "fully_served B C enc evs b r \<longleftrightarrow>
     chunk_bytes (fst r) = b \<and> snd (request_frames B C enc r) = Ok () \<and> fst ` set (fst (request_frames B C enc r)) \<subseteq> frame_seqs evs"

lemma request_frames_part:
  assumes "numbered B C enc (concat parts @ cur)" and "p \<in> set parts" and "chunk_bytes (fst r) = concat (map fst p)" and "no_errors (fst r)"
  shows "set (fst (request_frames B C enc r)) \<subseteq> set (map snd p)"
    and "snd (request_frames B C enc r) = Ok () \<Longrightarrow> fst (request_frames B C enc r) = map snd p"
proof -
  have dec: "\<forall>(f, seq, data) \<in> set p. decodes_as B C enc f seq data" using assms(1,2) by (fastforce simp: numbered_def)
  obtain frames res where f: "request_frames B C enc r = (frames, res)" by fastforce
  note fw = forward_body_frames [OF dec assms(3,4), of "fst (snd r)" "snd (snd r)" "''frame decode error: ''" "''upload actor closed''" frames res]
  show "set (fst (request_frames B C enc r)) \<subseteq> set (map snd p)" using fw(1) f set_mono_prefix by (fastforce simp: request_frames_def)
  show "snd (request_frames B C enc r) = Ok () \<Longrightarrow> fst (request_frames B C enc r) = map snd p" using fw(2) f by (simp add: request_frames_def)
qed

lemma events_from_sender:
  assumes num: "numbered B C enc (concat parts @ cur)" and len: "length (concat parts @ cur) < 2 ^ 64"
    and reqs: "\<forall>r \<in> set reqs. no_errors (fst r) \<and> chunk_bytes (fst r) \<in> set (map (\<lambda>p. concat (map fst p)) parts)"
    and "from_requests B C enc reqs E ev"
  shows "from_sender (sender_data (concat parts @ cur)) E ev"
proof -
  have "data = sender_data (concat parts @ cur) seq" if r: "r \<in> set reqs" "(seq, data) \<in> set (fst (request_frames B C enc r))" for r seq data
  proof -
    obtain p where p: "p \<in> set parts" "chunk_bytes (fst r) = concat (map fst p)" "no_errors (fst r)" using reqs r(1) by auto
    then have "(seq, data) \<in> set (map snd p)" using request_frames_part(1) [OF num p] r(2) by blast
    then have "(seq, data) \<in> set (map snd (concat parts @ cur))" using p(1) by auto
    then show ?thesis by (rule sender_data_frame(1) [OF num len])
  qed
  note frame = this
  show ?thesis
  proof (cases ev)
    case (UCmd now cmd)
    then show ?thesis using assms(4) frame by (cases cmd) auto
  qed simp_all
qed

lemma served_seqs:
  assumes num: "numbered B C enc (concat parts @ cur)" and "\<forall>r \<in> set reqs. no_errors (fst r)"
    and "\<forall>b \<in> set (map (\<lambda>p. concat (map fst p)) parts). \<exists>r \<in> set reqs. fully_served B C enc evs b r" and i: "i < length (concat parts)"
  shows "of_nat i \<in> frame_seqs evs"
proof -
  obtain p where p: "p \<in> set parts" "concat parts ! i \<in> set p" using nth_mem [OF i] by auto
  obtain r where r: "r \<in> set reqs" "fully_served B C enc evs (concat (map fst p)) r" using assms(3) p(1) by auto
  then have "fst (request_frames B C enc r) = map snd p"
    using request_frames_part(2) [OF num p(1), of r] assms(2) by (auto simp: fully_served_def)
  then have "fst (snd (concat parts ! i)) \<in> frame_seqs evs" using r(2) p(2) by (force simp: fully_served_def)
  moreover have "fst (snd (concat parts ! i)) = of_nat i" using numbered_nth [OF num, of i] i by (simp add: nth_append)
  ultimately show ?thesis by simp
qed

section \<open>Properties\<close>

text \<open>C4: An upload from end to end. The client encodes its first bytes into the tunnel request and posts the rest with its upload
  loop; the server decodes the bodies that reach it (in any order, repeated or not, in any chunks, cut off by poll limits or by the
  actor) and forwards frames; the upload actor reorders and writes. At every moment in which the actor is receiving, the target has
  been given a prefix of what the local application sent; and when the loop has ended with success and every body was served, it has been
  given all of it.\<close>

theorem upload_end_to_end:
  assumes "env_ok env" and "validate_traffic cfg = Ok ()" and "cipher_contract C" and "RData [] \<notin> set rd"
    and "encode_initial_payload (se_b122 env) (se_rng env) (se_nonce env) early max_bytes C cfg = Some (Ok (body0, remaining, n0))"
    and "upload_trace env (upload_loop_new now rnd (resolve_config cfg) conc flight remaining rd C (of_nat n0)) es u"
    and "\<forall>r \<in> set reqs. no_errors (fst r) \<and> chunk_bytes (fst r) \<in> set (body0 # ul_posted u)"
    and "list_all (from_requests (se_b122 env) C (tc_encoding_type cfg) reqs E) evs"
    and "length evs < 2 ^ 64" and "length (early @ script_bytes rd) < 2 ^ 64" and "Upload_Actor.carries up []"
    and "upload_run evs (upload_new ms up 0) = (ua, False)" and "ua_phase ua = Reordering ro"
  shows "\<exists>up' w. ua_upstream ua = Some up' \<and> Upload_Actor.carries up' w \<and> prefix w (early @ script_bytes rd)
     \<and> (ul_point u = Finished (Ok ())
          \<and> (\<forall>b \<in> set (body0 # ul_posted u). \<exists>r \<in> set reqs. fully_served (se_b122 env) C (tc_encoding_type cfg) evs b r)
        \<longrightarrow> w = early @ script_bytes rd)"
proof -
  let ?B = "se_b122 env" and ?enc = "tc_encoding_type cfg"
  obtain parts cur where num: "numbered ?B C ?enc (concat parts @ cur)" and bodies: "body0 # ul_posted u = map (\<lambda>p. concat (map fst p)) parts"
    and stream: "early @ script_bytes rd = payloads (concat parts @ cur) @ unsent (ul_shaper u) (ul_reader u)"
    and fin: "ul_point u = Finished (Ok ()) \<longrightarrow> cur = [] \<and> unsent (ul_shaper u) (ul_reader u) = []"
    by (rule upload_sender [OF assms(1-6)])
  let ?fs = "concat parts @ cur"
  have len: "length ?fs < 2 ^ 64" using numbered_length [OF num] assms(10) unfolding stream by simp
  have evs: "list_all (from_sender (sender_data ?fs) E) evs"
    using assms(8) events_from_sender [OF num len assms(7) [unfolded bodies]] by (auto simp: list_all_iff)
  obtain n up' where up: "ua_upstream ua = Some up'" "Upload_Actor.carries up' (concat (stream_from (sender_data ?fs) 0 n))"
      and ri: "reorder_inv (sender_data ?fs) E 0 (frame_seqs evs) (length evs) n ro"
      and complete: "\<forall>N. (\<forall>i < N. 0 + of_nat i \<in> frame_seqs evs) \<and> unat (0 :: u64) + N < 2 ^ 64 \<longrightarrow> N \<le> n"
    using upload_reordering_stream [OF assms(11) evs _ assms(12,13)] assms(9) by auto
  have "n < 2 ^ 64" using ri assms(9) by (simp add: reorder_inv_def)
  then have w: "concat (stream_from (sender_data ?fs) 0 n) = payloads (take n ?fs)" by (rule stream_from_sender)
  have "prefix (payloads (take n ?fs)) (early @ script_bytes rd)"
    unfolding stream by (metis append.assoc append_take_drop_id concat_append map_append prefixI)
  moreover have "payloads (take n ?fs) = early @ script_bytes rd"
    if "ul_point u = Finished (Ok ())" "\<forall>b \<in> set (body0 # ul_posted u). \<exists>r \<in> set reqs. fully_served ?B C ?enc evs b r"
  proof -
    have "\<forall>i < length (concat parts). of_nat i \<in> frame_seqs evs"
      using served_seqs [OF num _ that(2) [unfolded bodies]] assms(7) by blast
    then have "length (concat parts) \<le> n" using complete [rule_format, of "length (concat parts)"] len by simp
    then show ?thesis using fin that(1) stream by simp
  qed
  ultimately show ?thesis using up w by auto
qed

section \<open>Download\<close>

text \<open>A response brings the frames of a segment, in the order they were delivered; and so do all answers to continuation requests.\<close>

definition relays :: "response_body \<Rightarrow> (nat \<times> u64 \<times> bytes) list \<Rightarrow> bool" where
  "relays body seg \<longleftrightarrow> (\<forall>e. BodyFail e \<notin> set body) \<and> event_bytes body = concat (map (snd \<circ> snd) seg)"

fun answers_relay :: "rotate_obs list \<Rightarrow> (nat \<times> u64 \<times> bytes) list list \<Rightarrow> bool" where
  "answers_relay [] segs \<longleftrightarrow> segs = []"
| "answers_relay (ob # obs) segs \<longleftrightarrow>
     segs \<noteq> [] \<and> (\<forall>body. send_continue_request (ro_prefetch ob) = Ok body \<or> send_continue_request (ro_continue ob) = Ok body
         \<longrightarrow> relays body (hd segs))
     \<and> answers_relay obs (tl segs)"

lemma frame_list_ok_split:
  "frame_list_ok B C enc seq (xs @ ys) ds \<Longrightarrow>
   \<exists>ds1 ds2. ds = ds1 @ ds2 \<and> frame_list_ok B C enc seq xs ds1 \<and> frame_list_ok B C enc (seq + of_nat (length ds1)) ys ds2"
proof (induction xs arbitrary: seq ds)
  case Nil
  then show ?case by (intro exI [of _ "[]"] exI [of _ ds]) (simp add: frame_list_ok_Nil)
next
  case (Cons x xs)
  obtain n f where x: "x = (n, f)" by fastforce
  from Cons.prems obtain d ds' where d: "ds = d # ds'" "n = seq" "decodes_as B C enc f seq d" "d \<noteq> []" "frame_list_ok B C enc (seq + 1) (xs @ ys) ds'"
    unfolding x by (auto elim: frame_list_ok_ConsE)
  from Cons.IH [OF d(5)] obtain ds1 ds2 where "ds' = ds1 @ ds2" "frame_list_ok B C enc (seq + 1) xs ds1"
      "frame_list_ok B C enc (seq + 1 + of_nat (length ds1)) ys ds2"
    by blast
  then show ?case
    using d x by (intro exI [of _ "d # ds1"] exI [of _ ds2]) (simp add: frame_list_ok_Cons algebra_simps)
qed

lemma relays_carries:
  assumes "relays body seg" and "frame_list_ok (dc_b122 cfg) (dc_cipher cfg) (dc_encoding cfg) seq (map snd seg) ds"
  shows "Download_Loop.carries cfg seq body ds"
  using assms by (auto simp: Download_Loop.carries_def relays_def comp_def intro!: exI [of _ "map snd seg"])

lemma answers_carry:
  "answers_relay obs segs \<Longrightarrow> frame_list_ok (dc_b122 cfg) (dc_cipher cfg) (dc_encoding cfg) seq (map snd (concat segs @ later)) ds \<Longrightarrow>
   \<exists>dss rest. ds = concat dss @ rest \<and> obs_carry cfg seq obs dss \<and> (later = [] \<longrightarrow> rest = [])"
proof (induction obs segs arbitrary: seq ds rule: answers_relay.induct)
  case (1 segs)
  then show ?case by (intro exI [of _ "[]"] exI [of _ ds]) (auto simp: frame_list_ok_def)
next
  case (2 ob obs segs)
  then obtain sg more where segs: "segs = sg # more" by (cases segs) auto
  have "frame_list_ok (dc_b122 cfg) (dc_cipher cfg) (dc_encoding cfg) seq (map snd sg @ map snd (concat more @ later)) ds" using 2(3) segs by simp
  from frame_list_ok_split [OF this] obtain ds1 ds2 where ds: "ds = ds1 @ ds2" "frame_list_ok (dc_b122 cfg) (dc_cipher cfg) (dc_encoding cfg) seq (map snd sg) ds1"
      "frame_list_ok (dc_b122 cfg) (dc_cipher cfg) (dc_encoding cfg) (seq + of_nat (length ds1)) (map snd (concat more @ later)) ds2"
    by blast
  from 2(1) [of "seq + of_nat (length ds1)" ds2] 2(2) segs ds(3) obtain dss rest where "ds2 = concat dss @ rest"
      "obs_carry cfg (seq + of_nat (length ds1)) obs dss" "later = [] \<longrightarrow> rest = []"
    by auto
  then show ?case using ds(1,2) 2(2) segs relays_carries by (intro exI [of _ "ds1 # dss"] exI [of _ rest]) auto
qed

text \<open>C5: A download from end to end. The tunnel actor of the server reads from the target and delivers frames in segments,
  under any interleaving of commands, timeouts and polls; the client takes the segments one response after the other, in any chunks, with
  or without prefetching. What the client writes to the local application is always a prefix of what the target sent; and when it
  has taken everything delivered so far, only what is still in the server's shaper or unread is missing.\<close>

theorem download_end_to_end:
  assumes "env_ok env" and "validate_traffic cfg = Ok ()" and "cipher_contract C"
    and "t0 = fst (take_segment (on_upstream_connected now rnd rd wh (resolve_config cfg) C 0
                    (set_upload_channel tx handle (tunnel_new i registry limit activity))))"
    and "tunnel_run env es t0 = Some t" and "tn_delivered t = concat (seg # segs) @ later"
    and "relays body seg" and "answers_relay obs segs"
    and "dcfg = \<lparr>dc_b122 = se_b122 env, dc_cipher = C, dc_encoding = tc_encoding_type cfg, dc_max_bytes = limit'\<rparr>"
    and "sk_sent sk = []" and "download_run dcfg obs (download_new dcfg body sk) = (a, r)"
  shows "prefix (sk_sent (dl_sock a)) (script_bytes rd)
     \<and> (r = None \<and> later = [] \<longrightarrow> (\<exists>rest. script_bytes rd = sk_sent (dl_sock a) @ rest \<and> (\<forall>(sh, rd') \<in># shapers t. unsent sh rd' = rest)))"
proof -
  have encoding: "rc_encoding (resolve_config cfg) = tc_encoding_type cfg" by (simp add: resolve_config_def)
  obtain t' where "tunnel_run env es t0 = Some t'" "tunnel_inv (se_b122 env) C (tc_encoding_type cfg) 0 (script_bytes rd) t'"
    using tunnel_inv_run [OF assms(1) tunnel_started_inv [OF assms(2-4), of "se_b122 env", unfolded encoding]] by blast
  then have "tunnel_inv (se_b122 env) C (tc_encoding_type cfg) 0 (script_bytes rd) t" using assms(5) by simp
  then obtain all rest where fl: "frame_list_ok (se_b122 env) C (tc_encoding_type cfg) 0 (map snd (tn_delivered t)) all"
      and rest: "script_bytes rd = concat all @ rest"
      and held: "\<forall>(sh, rd) \<in># shapers t. shaper_ok sh \<and> sh_cipher sh = C \<and> sh_encoding sh = tc_encoding_type cfg
             \<and> sh_seq sh = 0 + of_nat (length (tn_delivered t)) \<and> unsent sh rd = rest"
    by (auto simp: tunnel_inv_def)
  have sh: "\<forall>(sh, rd') \<in># shapers t. unsent sh rd' = rest" using held by blast
  let ?ok = "frame_list_ok (dc_b122 dcfg) (dc_cipher dcfg) (dc_encoding dcfg)"
  have "?ok 0 (map snd seg @ map snd (concat segs @ later)) all" using fl assms(6,9) by simp
  from frame_list_ok_split [OF this] obtain ds more where ds: "all = ds @ more" "?ok 0 (map snd seg) ds" "?ok (of_nat (length ds)) (map snd (concat segs @ later)) more"
    by auto
  obtain dss left where dss: "more = concat dss @ left" "obs_carry dcfg (of_nat (length ds)) obs dss" "later = [] \<longrightarrow> left = []"
    using answers_carry [OF assms(8) ds(3)] by blast
  have "clean (download_new dcfg body sk)"
    by (simp add: download_new_def Let_def clean_def buffers_new_def buffers_ok_def buffered_def)
  moreover have "run_inv dcfg obs (dl_phase (download_new dcfg body sk)) (ds # dss)"
    using relays_carries [OF assms(7) ds(2)] dss(2) by (auto simp: download_new_def Let_def)
  ultimately obtain k where "prefix (sk_sent (dl_sock a)) (concat (concat (take k (ds # dss))))"
      and none: "r = None \<longrightarrow> sk_sent (dl_sock a) = concat (concat (ds # dss))"
    using download_run_outcome [OF _ _ assms(11), of "ds # dss"] assms(10) by (auto simp: run_outcome_def download_new_def Let_def)
  moreover have "prefix (concat (concat (take k (ds # dss)))) (script_bytes rd)"
    unfolding rest ds(1) dss(1) by (metis append.assoc append_take_drop_id concat.simps(2) concat_append prefixI)
  ultimately have "prefix (sk_sent (dl_sock a)) (script_bytes rd)" by (meson prefix_order.order_trans)
  moreover have "script_bytes rd = sk_sent (dl_sock a) @ rest" if "r = None" "later = []"
    using none that dss(1,3) ds(1) rest by simp
  ultimately show ?thesis using sh by blast
qed

section \<open>Examples\<close>

lemma example_config_valid: "validate_traffic example_config = Ok ()"
  by (simp add: validate_traffic_def example_config_def)

text \<open>A tunnel over a target that sends three bytes, polled twice; the client gets what was delivered in one chunk.\<close>

definition example_download_tunnel :: tunnel where
  "example_download_tunnel =
     fst (take_segment (on_upstream_connected 0 0 [RData [1, 2], RPending, RData [3]] None (resolve_config example_config)
       example_cipher 0 (set_upload_channel 5 6 (tunnel_new 9 [(9, SActive, 0)] (Some 2) 0))))"

theorem download_end_to_end_witness:
  "\<exists>t body a r. tunnel_run example_env [TSegmentPoll (\<lambda>_. True) 0 0 0, TSegmentPoll (\<lambda>_. True) 0 0 0] example_download_tunnel = Some t
     \<and> relays body (tn_delivered t)
     \<and> download_run example_cfg [] (download_new example_cfg body \<lparr>sk_script = [Accept 1, Accept 9], sk_sent = []\<rparr>) = (a, r)
     \<and> prefix (sk_sent (dl_sock a)) [1, 2, 3]"
proof -
  let ?es = "[TSegmentPoll (\<lambda>_. True) 0 0 0, TSegmentPoll (\<lambda>_. True) 0 0 0]" and ?sk = "\<lparr>sk_script = [Accept 1, Accept 9], sk_sent = []\<rparr> :: sock"
  obtain t where t: "tunnel_run example_env ?es example_download_tunnel = Some t"
    using tunnel_inv_run [OF example_env_ok tunnel_started_inv [OF example_config_valid example_cipher_contract example_download_tunnel_def,
        of "se_b122 example_env"]] by blast
  let ?body = "[BodyChunk (concat (map (snd \<circ> snd) (tn_delivered t)))]"
  obtain a r where d: "download_run example_cfg [] (download_new example_cfg ?body ?sk) = (a, r)" by fastforce
  have b: "relays ?body (tn_delivered t)" by (simp add: relays_def)
  have c: "example_cfg = \<lparr>dc_b122 = se_b122 example_env, dc_cipher = example_cipher, dc_encoding = tc_encoding_type example_config, dc_max_bytes = Some 1\<rparr>"
    by (simp add: example_cfg_def example_env_def example_config_def)
  have "prefix (sk_sent (dl_sock a)) [1, 2, 3]"
    using download_end_to_end [OF example_env_ok example_config_valid example_cipher_contract example_download_tunnel_def t _ b _ c _ d, of "[]" "[]"] by simp
  then show ?thesis using t b d by blast
qed

text \<open>One byte in the tunnel request and nothing after it.\<close>

lemma empty_upload_trace:
  defines "u0 \<equiv> upload_loop_new 0 0 (resolve_config example_config) 1 20480 [] [] example_cipher 1"
  shows "upload_trace example_env u0 [PollSeal (\<lambda>_. False) 0, GoOn] (u0\<lparr>ul_point := Finished (Ok ())\<rparr>)"
proof -
  have "poll_fill_and_seal example_env (\<lambda>_. False) 0 (ul_shaper u0) [] [] = Some (ul_shaper u0, [], Ready (Ok None))"
    by (simp add: poll_fill_and_seal.simps u0_def upload_loop_new_def with_seq_def seal_threshold_of_def resolve_config_def
        example_config_def wire_simps)
  then have "upload_loop_step example_env (PollSeal (\<lambda>_. False) 0) u0 = Some (u0\<lparr>ul_point := Draining 0\<rparr>)"
    by (simp add: u0_def upload_loop_new_def poll_shaper_def after_fill_def tasks_len_def)
  from upload_trace.step [OF upload_trace.start this] have "upload_trace example_env u0 [PollSeal (\<lambda>_. False) 0] (u0\<lparr>ul_point := Draining 0\<rparr>)"
    by simp
  from upload_trace.step [OF this, of GoOn] show ?thesis by simp
qed

lemma one_byte_body:
  obtains f where "encode_initial_payload (se_b122 example_env) (se_rng example_env) (se_nonce example_env) [9] 10 example_cipher example_config
      = Some (Ok (f, [], 1))"
    and "request_frames (se_b122 example_env) example_cipher (tc_encoding_type example_config) ([Chunk f], 9, 9) = ([(0, [9])], Ok ())"
proof -
  obtain fs where fs: "encode_initial_payload (se_b122 example_env) (se_rng example_env) (se_nonce example_env) [9] 10 example_cipher example_config
        = Some (Ok (concat (map fst fs), drop 10 [9], length fs))"
      "numbered (se_b122 example_env) example_cipher (tc_encoding_type example_config) fs" "payloads fs = take 10 [9]"
    using initial_body_frames [OF example_cipher_contract _ _ _ global_range [OF example_config_valid], of "se_b122 example_env" "se_rng example_env"
        "se_nonce example_env" "[9]" 10] example_env_ok
    by (auto simp: env_ok_def numbered_def)
  have "length fs \<le> 1" "fs \<noteq> []" using numbered_length [OF fs(2)] fs(3) by auto
  then obtain f q d where one: "fs = [(f, q, d)]" by (cases fs) auto
  then have "q = 0" "d = [9]" using fs(2,3) by (auto simp: numbered_def)
  moreover have "decode_stream (se_b122 example_env) 9 (decoder_new example_cipher (tc_encoding_type example_config) MAX_FRAME_BUF_SIZE) [Chunk f]
      = (map snd fs, Some (Ok ()))"
    using fs(2) one by (intro decode_whole_frames) (auto simp: numbered_def)
  ultimately show thesis using that [of f] fs(1) one by (simp add: request_frames_def forward_body_def)
qed

lemma one_byte_run:
  "upload_run [UCmd 0 (UFrame 0 [9])] (upload_new 0 (DirectWrite \<lparr>sk_script = [Accept 5], sk_sent = []\<rparr>) 0)
     = (\<lparr>ua_phase = Reordering \<lparr>ro_next_seq = 1, ro_pending = [], ro_pending_bytes = 0, ro_eos_waiters = []\<rparr>,
         ua_upstream = Some (DirectWrite \<lparr>sk_script = [], sk_sent = [9]\<rparr>), ua_last_activity = 0, ua_answers = [], ua_dropped = []\<rparr>, False)"
  by (simp add: upload_new_def upload_step_def upload_dispatch_def upload_handle_frame_def drain_runs.simps MAX_WRITE_IOV_def
      collect_run_numeral remove_next_def write_run_def write_tcp_frames_def write_all.simps release_waiters.simps answer_def Let_def)

theorem upload_end_to_end_witness:
  "\<exists>f. encode_initial_payload (se_b122 example_env) (se_rng example_env) (se_nonce example_env) [9] 10 example_cipher example_config = Some (Ok (f, [], 1))
     \<and> request_frames (se_b122 example_env) example_cipher (tc_encoding_type example_config) ([Chunk f], 9, 9) = ([(0, [9])], Ok ())
     \<and> Upload_Actor.carries (DirectWrite \<lparr>sk_script = [], sk_sent = [9]\<rparr>) ([9] @ script_bytes [])"
proof -
  obtain f where f: "encode_initial_payload (se_b122 example_env) (se_rng example_env) (se_nonce example_env) [9] 10 example_cipher example_config
      = Some (Ok (f, [], 1))"
    and r: "request_frames (se_b122 example_env) example_cipher (tc_encoding_type example_config) ([Chunk f], 9, 9) = ([(0, [9])], Ok ())"
    by (rule one_byte_body)
  let ?u = "(upload_loop_new 0 0 (resolve_config example_config) 1 20480 [] [] example_cipher 1)\<lparr>ul_point := Finished (Ok ())\<rparr>"
  have posted: "ul_posted ?u = []" by (simp add: upload_loop_new_def Let_def)
  have "\<exists>up' w. Some (DirectWrite \<lparr>sk_script = [], sk_sent = [9]\<rparr>) = Some up' \<and> Upload_Actor.carries up' w \<and> w = [9] @ script_bytes []"
    using upload_end_to_end [OF example_env_ok example_config_valid example_cipher_contract _ f _ _ _ _ _ _ one_byte_run, of "[]" 0 0 1 20480
        "[PollSeal (\<lambda>_. False) 0, GoOn]" ?u "[([Chunk f], 9, 9)]" "\<lambda>_. 0"] empty_upload_trace r posted
    by (auto simp: fully_served_def)
  then have "Upload_Actor.carries (DirectWrite \<lparr>sk_script = [], sk_sent = [9]\<rparr>) ([9] @ script_bytes [])" by blast
  then show ?thesis using f r by blast
qed

end
