(* ===== verification/Start_Up.thy ===== *)
theory Start_Up
  imports Client_State Dns_Transport Warp_Register
begin

text \<open>
  From the configuration to the running programs. The client: \<^verbatim>\<open>src/src/client/mod.rs\<close> (\<open>build_state\<close>), the start of
  \<^verbatim>\<open>src/src/bin/client.rs\<close> and the accept loops of it and of \<^verbatim>\<open>src/src/client/redirect.rs\<close>, which share
  one semaphore. The server: \<open>build_state\<close> of \<^verbatim>\<open>src/src/server/mod.rs\<close> with \<open>WarpClient::init\<close>, and the two
  subcommands of \<^verbatim>\<open>src/src/bin/server.rs\<close>. The records of the configuration are those of
  \<^verbatim>\<open>src/src/config/mod.rs\<close>, less the logging section. Reading the file (TOML), URLs, sockets and the TLS and
  QUIC libraries are parameters.

  Lemmas: a configuration that is accepted meets what the upload loop relies on; the redirect listeners are those of the
  configuration; the accept loops never serve more connections than configured and turn one away only when that many are
  being served; a server with WARP enabled either starts with it and with a resolver or does not start.
\<close>

section \<open>Client configuration and state\<close>

definition MAX_IN_FLIGHT_BYTES :: nat where "MAX_IN_FLIGHT_BYTES = 2 * 1024 * 1024"
definition UPLOAD_CONCURRENCY :: nat where "UPLOAD_CONCURRENCY = 128"
definition MIN_IN_FLIGHT_BYTES :: nat where "MIN_IN_FLIGHT_BYTES = 20 * 1024"
definition MAX_LOCAL_CONNECTIONS :: nat where "MAX_LOCAL_CONNECTIONS = 1024"

record client_proxy_auth =
  cx_username :: string
  cx_password :: string

record client_section =
  cn_listen :: string
  cn_remote :: string
  cn_address :: "string option"
  cn_public_key :: string
  cn_auth :: "client_proxy_auth option"
  cn_max_connections :: "nat option"
  cn_max_in_flight_bytes :: "nat option"
  cn_upload_concurrency :: "nat option"

record client_auth_section =
  ca_token :: string

record client_top_config =
  ct_client :: client_section
  ct_auth :: client_auth_section
  ct_traffic_shaping :: traffic_config
  ct_bypass_files :: "string list"
  ct_redirect :: "redirect_section list"

text \<open>The shared state, less the handshake lock, which guards no data.\<close>

record 'n shared_state =
  ss_remote_str :: string
  ss_auth_header :: string
  ss_traffic_config :: traffic_config
  ss_resolved_traffic :: resolved_config
  ss_bypass :: "'n bypass_rules option"
  ss_server_public_key :: bytes
  ss_proxy_auth :: "(string \<times> string) option"
  ss_initial_master :: "initial_master_entry option"
  ss_max_download_bytes :: "u64 option"
  ss_max_connections :: nat
  ss_max_in_flight_bytes :: nat
  ss_upload_concurrency :: nat

text \<open>The libraries: base64 in both alphabets, IP networks, the bypass files, \<open>Url::parse\<close> with \<open>as_str\<close> and
  \<open>host_str\<close>, \<open>SocketAddr::from_str\<close>, \<open>TcpListener::bind\<close> with \<open>local_addr\<close> given the addresses
  already bound, and whether the HTTP client can be built.\<close>

record ('n, 'a) client_env =
  cv_url_safe :: b64
  cv_standard :: "bytes \<Rightarrow> string"
  cv_net :: "'n ipnet"
  cv_read :: "string \<Rightarrow> (bypass_file, string) result"
  cv_url :: "string \<Rightarrow> string option"
  cv_host :: "string \<Rightarrow> string option"
  cv_addr :: "string \<Rightarrow> 'a option"
  cv_bind :: "'a list \<Rightarrow> 'a \<Rightarrow> 'a option"
  cv_http_client :: "string \<Rightarrow> bool"

definition client_bypass :: "('n, 'a) client_env \<Rightarrow> string list \<Rightarrow> ('n bypass_rules option, string) result" where
  "client_bypass V bypass_files =
     (if bypass_files = [] then Ok None
      else rbind (map_err (\<lambda>e. ''failed to load bypass rules: '' @ e) (bypass_load (cv_net V) (cv_read V) bypass_files)) (\<lambda>rules.
             Ok (if rules_is_empty rules then None else Some rules)))"

definition proxy_credentials :: "('n, 'a) client_env \<Rightarrow> client_proxy_auth \<Rightarrow> string \<times> string" where
  "proxy_credentials V a =
     (''Basic '' @ cv_standard V (as_bytes (cx_username a @ '':'' @ cx_password a)), cx_username a)"

definition client_build_state :: "('n, 'a) client_env \<Rightarrow> client_top_config \<Rightarrow> ('n shared_state, string) result" where
  "client_build_state V cfg =
     rbind (map_err (\<lambda>e. ''invalid traffic_shaping config: '' @ e) (validate_traffic (ct_traffic_shaping cfg))) (\<lambda>_.
     let max_in_flight_bytes = unwrap_or (cn_max_in_flight_bytes (ct_client cfg)) MAX_IN_FLIGHT_BYTES;
         upload_concurrency = unwrap_or (cn_upload_concurrency (ct_client cfg)) UPLOAD_CONCURRENCY
     in if max_in_flight_bytes < MIN_IN_FLIGHT_BYTES
        then Err (''max_in_flight_bytes ('' @ show_nat max_in_flight_bytes @ '') must be at least '' @ show_nat MIN_IN_FLIGHT_BYTES
               @ '' (one maximum-size encoded frame)'')
        else if upload_concurrency = 0 then Err ''upload_concurrency must be at least 1''
        else
          rbind (client_bypass V (ct_bypass_files cfg)) (\<lambda>bypass.
          rbind (map_err (\<lambda>e. ''invalid client.public_key: '' @ e) (decode_fixed_32 (cv_url_safe V) (cn_public_key (ct_client cfg)))) (\<lambda>server_public_key.
          rbind (ok_or (cv_url V (cn_remote (ct_client cfg))) ''invalid server URL'') (\<lambda>remote_str.
            Ok \<lparr>ss_remote_str = remote_str, ss_auth_header = ''Bearer '' @ ca_token (ct_auth cfg),
                ss_traffic_config = ct_traffic_shaping cfg, ss_resolved_traffic = resolve_config (ct_traffic_shaping cfg),
                ss_bypass = bypass, ss_server_public_key = server_public_key,
                ss_proxy_auth = map_option (proxy_credentials V) (cn_auth (ct_client cfg)), ss_initial_master = None,
                ss_max_download_bytes = tc_max_download_bytes (ct_traffic_shaping cfg),
                ss_max_connections = unwrap_or (cn_max_connections (ct_client cfg)) MAX_LOCAL_CONNECTIONS,
                ss_max_in_flight_bytes = max_in_flight_bytes, ss_upload_concurrency = upload_concurrency\<rparr>))))"

section \<open>The accept loops\<close>

text \<open>What listens: the proxy itself, or a redirect with its target. A permit is held from the accept to the end of the
  connection's task, however that ends. \<open>sv_backoffs\<close> counts the pauses after failed accepts, \<open>sv_rejected\<close> the connections
  that were turned away.\<close>

datatype endpoint = ProxyEndpoint | RedirectEndpoint string

record serving =
  sv_permits :: nat
  sv_open :: "(nat \<times> endpoint) list"
  sv_next :: nat
  sv_rejected :: nat
  sv_backoffs :: nat

datatype accept_event = AcceptOk endpoint | AcceptFails endpoint error_kind | ConnectionEnds nat

definition accept_retries :: "error_kind \<Rightarrow> bool" where
  "accept_retries k \<longleftrightarrow> k = ConnectionAborted \<or> k = ConnectionReset \<or> k = Interrupted \<or> k = WouldBlock"

text \<open>\<open>Semaphore::new\<close> panics above \<open>usize::MAX >> 3\<close>; a configured number of connections beyond that does not get here.\<close>

definition serving_new :: "nat \<Rightarrow> serving" where
  "serving_new max_connections = \<lparr>sv_permits = max_connections, sv_open = [], sv_next = 1, sv_rejected = 0, sv_backoffs = 0\<rparr>"

fun accept_step :: "accept_event \<Rightarrow> serving \<Rightarrow> serving" where
  "accept_step (AcceptFails l k) s = (if accept_retries k then s else s\<lparr>sv_backoffs := sv_backoffs s + 1\<rparr>)"
| "accept_step (AcceptOk l) s =
     (if sv_permits s = 0 then s\<lparr>sv_rejected := sv_rejected s + 1\<rparr>
      else s\<lparr>sv_permits := sv_permits s - 1, sv_open := sv_open s @ [(sv_next s, l)], sv_next := sv_next s + 1\<rparr>)"
| "accept_step (ConnectionEnds c) s =
     (if c \<in> fst ` set (sv_open s)
      then s\<lparr>sv_permits := sv_permits s + 1, sv_open := filter (\<lambda>(i, l). i \<noteq> c) (sv_open s)\<rparr>
      else s)"

section \<open>Starting the client\<close>

record ('n, 'a) client_program =
  cp_state :: "'n shared_state"
  cp_resolves_to :: string
  cp_listeners :: "('a \<times> endpoint) list"
  cp_serving :: serving

text \<open>\<open>redirect::spawn\<close> up to the accept loop, for one rule after the other; \<open>bound\<close> are the listeners there are.\<close>

fun spawn_redirects ::
    "('n, 'a) client_env \<Rightarrow> 'a redirect_rule list \<Rightarrow> ('a \<times> endpoint) list \<Rightarrow> (('a \<times> endpoint) list, string) result" where
  "spawn_redirects V [] bound = Ok bound"
| "spawn_redirects V (rule # rules) bound =
     rbind (ok_or (cv_bind V (map fst bound) (rr_listen rule)) ''[[redirect]] bind failed'') (\<lambda>local.
       spawn_redirects V rules (bound @ [(local, RedirectEndpoint (rr_target rule))]))"

definition client_start :: "('n, 'a) client_env \<Rightarrow> client_top_config \<Rightarrow> (('n, 'a) client_program, string) result" where
  "client_start V cfg =
     rbind (client_build_state V cfg) (\<lambda>state.
     rbind (ok_or (cv_addr V (cn_listen (ct_client cfg))) ''invalid socket address'') (\<lambda>addr.
     rbind (ok_or (cv_bind V [] addr) ''bind'') (\<lambda>local.
     rbind (ok_or (cv_url V (ss_remote_str state)) ''invalid remote URL'') (\<lambda>remote_url.
     rbind (ok_or (cv_host V remote_url) ''No domain in remote URL'') (\<lambda>domain.
     let final_addr = unwrap_or (cn_address (ct_client cfg)) domain in
     if \<not> cv_http_client V final_addr then Err ''http client''
     else
       rbind (redirect_parse_all (cv_addr V) (ct_redirect cfg) []) (\<lambda>rules.
       rbind (spawn_redirects V rules [(local, ProxyEndpoint)]) (\<lambda>listeners.
         Ok \<lparr>cp_state = state, cp_resolves_to = final_addr, cp_listeners = listeners,
             cp_serving = serving_new (ss_max_connections state)\<rparr>)))))))"

section \<open>Server configuration and state\<close>

definition MAX_TUNNELS :: nat where "MAX_TUNNELS = 1024"

record server_section =
  se_listen :: string
  se_path :: string
  se_private_key :: string
  se_max_tunnels :: "nat option"

record auth_section =
  as_secret :: string

record proxy_section =
  ps_socks5 :: "string option"

record server_top_config =
  sg_server :: server_section
  sg_auth :: auth_section
  sg_proxy :: "proxy_section option"
  sg_dns :: "dns_config option"
  sg_warp :: "warp_section option"
  sg_traffic_shaping :: traffic_config

text \<open>The libraries of \<open>WarpClient::init\<close>: base64, the device keys, the API of the registration service, JSON, the file at a
  path before the start and after an attempt to write it, the random draws, rustls and quinn.\<close>

record ('k, 't, 'n) warp_env =
  we_b64 :: b64
  we_keys :: "'k device_keys"
  we_json :: credentials_json
  we_api :: "api_request \<Rightarrow> (account_data, string) result"
  we_file :: "string \<Rightarrow> bytes option"
  we_written :: "string \<Rightarrow> bytes \<Rightarrow> bytes option"
  we_default_path :: string
  we_wg_key :: bytes
  we_serial :: bytes
  we_now :: u64
  we_scalars :: "nat \<Rightarrow> bytes"
  we_tls :: "'k \<Rightarrow> cert_verifier \<Rightarrow> ('t, string) result"
  we_bind :: "ip_addr \<Rightarrow> bool"
  we_idle :: "nat \<Rightarrow> bool"
  we_quic :: "'t \<Rightarrow> bool"
  we_networks :: "'n ip_network"

definition warp_credentials_of :: "('k, 't, 'n) warp_env \<Rightarrow> warp_section \<Rightarrow> (warp_credentials, string) result" where
  "warp_credentials_of V sec =
     (let path = unwrap_or (wn_config_path sec) (we_default_path V);
          opts = \<lparr>ro_model = unwrap_or (wn_register_model sec) DEFAULT_MODEL, ro_locale = unwrap_or (wn_register_locale sec) DEFAULT_LOCALE\<rparr>;
          (file, reqs, r) = load_or_register (we_json V) (we_b64 V) (we_keys V)
            (\<lambda>_. register_device (we_b64 V) (we_keys V) (we_api V) opts (we_wg_key V) (we_serial V) (we_now V) (we_scalars V))
            (we_written V path) (we_file V path)
      in map_err (\<lambda>e. ''warp: cannot obtain credentials: '' @ e) r)"

definition warp_bind_address :: "ip_addr \<Rightarrow> ip_addr" where
  "warp_bind_address addr = (case addr of IpV4 a \<Rightarrow> IpV4 0 | IpV6 a \<Rightarrow> IpV6 0)"

text \<open>\<open>MasqueConfig::client_config\<close>, as far as it can fail.\<close>

definition quic_client_config :: "('k, 't, 'n) warp_env \<Rightarrow> masque_config \<Rightarrow> 't \<Rightarrow> (unit, string) result" where
  "quic_client_config V cfg tls =
     (if \<not> we_idle V (mc_idle_timeout cfg) then Err ''warp: invalid idle timeout''
      else if \<not> we_quic V tls then Err ''warp: QUIC TLS config rejected''
      else Ok ())"

definition warp_client_init ::
    "('k, 't, 'n) warp_env \<Rightarrow> warp_section \<Rightarrow> ('n warp_client \<times> masque_config \<times> warp_state, string) result" where
  "warp_client_init V sec =
     rbind (warp_credentials_of V sec) (\<lambda>creds.
     rbind (signing_key (we_b64 V) (we_keys V) creds) (\<lambda>key.
     rbind (init_verifier (we_b64 V) sec creds) (\<lambda>verifier.
     rbind (we_tls V key verifier) (\<lambda>tls.
     rbind (warp_masque_config sec creds) (\<lambda>masque.
       if \<not> we_bind V (warp_bind_address (fst (mc_endpoint masque))) then Err ''warp: cannot bind UDP socket''
       else
         rbind (quic_client_config V masque tls) (\<lambda>_.
         rbind (warp_bypass_new (we_networks V) sec) (\<lambda>bypass.
           Ok (\<lparr>wl_networks = we_networks V, wl_bypass = bypass\<rparr>, masque, \<lparr>wc_cached = None, wc_closed = []\<rparr>))))))))"

text \<open>The state of the server: what the handlers read (\<open>app\<close>) and what connecting upstream reads.\<close>

record ('k, 'n, 'name) server_state =
  st_token_key :: 'k
  st_socks5_proxy :: "string option"
  st_dns_client :: "(dns_config \<times> 'name transport) option"
  st_warp :: "('n warp_client \<times> masque_config \<times> warp_state) option"
  st_client_subnet :: "ip_addr option"
  st_app :: app

definition server_warp :: "('k, 't, 'n) warp_env \<Rightarrow> warp_section option \<Rightarrow> (('n warp_client \<times> masque_config \<times> warp_state) option, string) result" where
  "server_warp V section =
     (case section of
        Some sec \<Rightarrow>
          if wn_enabled sec then rbind (map_err (\<lambda>e. ''warp initialization failed: '' @ e) (warp_client_init V sec)) (\<lambda>w. Ok (Some w))
          else Ok None
      | None \<Rightarrow> Ok None)"

definition server_dns ::
    "(string \<Rightarrow> 'name option) \<Rightarrow> ('n warp_client \<times> masque_config \<times> warp_state) option \<Rightarrow> dns_config option
      \<Rightarrow> ((dns_config \<times> 'name transport) option \<times> ip_addr option, string) result" where
  "server_dns server_name warp cfg =
     rbind (effective_dns (warp \<noteq> None) cfg) (\<lambda>dc. case dc of
         None \<Rightarrow> Ok (None, None)
       | Some dc \<Rightarrow> rbind (build_transport server_name dc (map_option fst warp)) (\<lambda>transport.
           Ok (Some (dc, transport), do_client_subnet (dn_options dc))))"

text \<open>\<open>key_from_secret\<close> derives a key of the right length, so that its \<open>expect\<close> cannot fail; \<open>None\<close> is a panic.\<close>

definition server_build_state ::
    "'k aead \<Rightarrow> hkdf \<Rightarrow> b64 \<Rightarrow> (string \<Rightarrow> 'name option) \<Rightarrow> ('d, 't, 'n) warp_env \<Rightarrow> server_top_config
      \<Rightarrow> (('k, 'n, 'name) server_state, string) result option" where
  "server_build_state A hk E server_name V cfg =
     (case rbind (map_err (\<lambda>e. ''invalid traffic_shaping config: '' @ e) (validate_traffic (sg_traffic_shaping cfg))) (\<lambda>_.
           rbind (server_warp V (sg_warp cfg)) (\<lambda>warp.
           rbind (server_dns server_name warp (sg_dns cfg)) (\<lambda>(dns_client, client_subnet).
           rbind (map_err (\<lambda>e. ''invalid server.private_key: '' @ e) (decode_fixed_32 E (se_private_key (sg_server cfg)))) (\<lambda>private_key.
             Ok (warp, dns_client, client_subnet, private_key))))) of
        Err e \<Rightarrow> Some (Err e)
      | Ok (warp, dns_client, client_subnet, private_key) \<Rightarrow>
          map_option (\<lambda>token_key. Ok
            \<lparr>st_token_key = token_key, st_socks5_proxy = Option.bind (sg_proxy cfg) ps_socks5, st_dns_client = dns_client, st_warp = warp,
             st_client_subnet = client_subnet,
             st_app = \<lparr>ap_cfg = sg_traffic_shaping cfg, ap_private_key = private_key, ap_stores = empty_stores,
                       ap_permits = unwrap_or (se_max_tunnels (sg_server cfg)) MAX_TUNNELS, ap_tunnels = [], ap_uploads = [],
                       ap_upload_cmds = [], ap_upload_closed = [], ap_next_channel = 0\<rparr>\<rparr>)
            (key_from_secret A hk (as_bytes (as_secret (sg_auth cfg)))))"

text \<open>The two subcommands of the server program; \<open>keypair\<close> is the pair of keys drawn.\<close>

definition gen_token :: "'k aead \<Rightarrow> hkdf \<Rightarrow> b64 \<Rightarrow> bytes \<Rightarrow> string \<Rightarrow> string \<Rightarrow> u64 \<Rightarrow> string option" where
  "gen_token A hk E nonce secret user exp =
     Option.bind (key_from_secret A hk (as_bytes secret)) (\<lambda>key. token_issue A E key nonce \<lparr>cl_sub = user, cl_exp = exp\<rparr>)"

definition gen_key :: "b64 \<Rightarrow> bytes \<times> bytes \<Rightarrow> string \<times> string" where
  "gen_key E keypair = (encode_fixed_32 E (fst keypair), encode_fixed_32 E (snd keypair))"

section \<open>Lemmas: the client\<close>

lemmas config_consts = MAX_IN_FLIGHT_BYTES_def UPLOAD_CONCURRENCY_def MIN_IN_FLIGHT_BYTES_def MAX_LOCAL_CONNECTIONS_def

lemma client_build_state_Ok:
  assumes "client_build_state V cfg = Ok st"
  shows "validate_traffic (ct_traffic_shaping cfg) = Ok ()"
    and "ss_traffic_config st = ct_traffic_shaping cfg \<and> ss_resolved_traffic st = resolve_config (ct_traffic_shaping cfg)"
    and "MIN_IN_FLIGHT_BYTES \<le> ss_max_in_flight_bytes st" and "0 < ss_upload_concurrency st"
    and "decode_fixed_32 (cv_url_safe V) (cn_public_key (ct_client cfg)) = Ok (ss_server_public_key st)"
    and "ss_max_connections st = unwrap_or (cn_max_connections (ct_client cfg)) MAX_LOCAL_CONNECTIONS"
  using assms by (auto simp: client_build_state_def rbind_Ok_iff Let_def split: if_splits)

text \<open>The least budget that is accepted has room for more than one frame of either encoding.\<close>

lemma min_in_flight_holds_frame: "max_encoded_frame_len enc < MIN_IN_FLIGHT_BYTES"
  by (cases enc) (simp_all add: MIN_IN_FLIGHT_BYTES_def max_encoded_frame_len_def wire_simps)

lemma redirect_parse_trims: "redirect_parse pa sec = Ok rule \<Longrightarrow> str_trim (rd_target sec) = rr_target rule"
  by (auto simp: redirect_parse_def rbind_Ok_iff Let_def split: if_splits)

lemma spawn_redirects_Ok:
  "spawn_redirects V rules bound = Ok ls \<Longrightarrow>
     \<exists>locals. length locals = length rules \<and> ls = bound @ zip locals (map (RedirectEndpoint \<circ> rr_target) rules)
       \<and> (\<forall>i < length rules. cv_bind V (map fst bound @ take i locals) (rr_listen (rules ! i)) = Some (locals ! i))"
proof (induction rules arbitrary: bound)
  case (Cons rule rules)
  then obtain a where a: "cv_bind V (map fst bound) (rr_listen rule) = Some a"
    and r: "spawn_redirects V rules (bound @ [(a, RedirectEndpoint (rr_target rule))]) = Ok ls"
    by (auto simp: rbind_Ok_iff)
  from Cons.IH [OF r] obtain locals where l: "length locals = length rules"
      "ls = (bound @ [(a, RedirectEndpoint (rr_target rule))]) @ zip locals (map (RedirectEndpoint \<circ> rr_target) rules)"
      "\<forall>i < length rules. cv_bind V (map fst (bound @ [(a, RedirectEndpoint (rr_target rule))]) @ take i locals) (rr_listen (rules ! i)) = Some (locals ! i)"
    by blast
  have "cv_bind V (map fst bound @ take i (a # locals)) (rr_listen ((rule # rules) ! i)) = Some ((a # locals) ! i)"
    if "i < length (rule # rules)" for i
    using that a l(3) by (cases i) auto
  then show ?case using l(1,2) by (intro exI [of _ "a # locals"]) (simp add: o_def)
qed simp

section \<open>Lemmas: admission\<close>

text \<open>Every connection that is served holds one permit of the semaphore, and its number is its own.\<close>

definition serving_ok :: "nat \<Rightarrow> serving \<Rightarrow> bool" where
  "serving_ok limit s \<longleftrightarrow> sv_permits s + length (sv_open s) = limit \<and> distinct (map fst (sv_open s)) \<and> (\<forall>c \<in> fst ` set (sv_open s). c < sv_next s)"

lemma length_filter_key:
  "distinct (map fst xs) \<Longrightarrow> c \<in> fst ` set xs \<Longrightarrow> Suc (length (filter (\<lambda>(i, l). i \<noteq> c) xs)) = length xs"
proof (induction xs)
  case (Cons x xs)
  have "filter (\<lambda>(i, l). i \<noteq> c) xs = xs" if "c \<notin> fst ` set xs" using that by (intro filter_True) force
  with Cons show ?case by (cases x) auto
qed simp

lemma serving_ok_step: "serving_ok limit s \<Longrightarrow> serving_ok limit (accept_step e s)"
proof (cases e)
  case (ConnectionEnds c)
  assume ok: "serving_ok limit s"
  show ?thesis
  proof (cases "c \<in> fst ` set (sv_open s)")
    case True
    have "distinct (map fst (filter (\<lambda>(i, l). i \<noteq> c) (sv_open s)))" using ok by (auto simp: serving_ok_def intro: distinct_map_filter)
    then show ?thesis using ok ConnectionEnds True length_filter_key [of "sv_open s" c] by (auto simp: serving_ok_def)
  qed (use ok ConnectionEnds in simp)
qed (auto simp: serving_ok_def)

lemma serving_ok_new: "serving_ok limit (serving_new limit)"
  by (simp add: serving_ok_def serving_new_def)

interpretation admission: bounded_machine accept_step "serving_ok limit" "\<lambda>s. length (sv_open s)" limit
proof
  show "serving_ok limit (accept_step e s)" if "serving_ok limit s" for e s using that by (rule serving_ok_step)
  show "length (sv_open s) \<le> limit" if "serving_ok limit s" for s using that by (simp add: serving_ok_def)
qed

lemma client_start_serving:
  assumes "client_start V cfg = Ok cp"
  shows "serving_ok (unwrap_or (cn_max_connections (ct_client cfg)) MAX_LOCAL_CONNECTIONS) (cp_serving cp)"
proof -
  obtain st where "client_build_state V cfg = Ok st" and "cp_serving cp = serving_new (ss_max_connections st)"
    using assms by (auto simp: client_start_def rbind_Ok_iff Let_def split: if_splits)
  then show ?thesis using client_build_state_Ok(6) serving_ok_new by metis
qed

lemma connections_end: "sv_open (fold accept_step (map ConnectionEnds cs) s) = filter (\<lambda>(c, l). c \<notin> set cs) (sv_open s)"
proof (induction cs arbitrary: s)
  case (Cons c cs)
  have "sv_open (accept_step (ConnectionEnds c) s) = filter (\<lambda>(i, l). i \<noteq> c) (sv_open s)"
    by (cases "c \<in> fst ` set (sv_open s)") (force intro!: filter_True [symmetric])+
  then show ?case using Cons.IH [of "accept_step (ConnectionEnds c) s"] by (simp add: filter_filter case_prod_unfold conj_commute)
qed simp

section \<open>Lemmas: the server\<close>

lemma server_build_state_Ok:
  assumes "server_build_state A hk E server_name V cfg = Some (Ok st)"
  shows "validate_traffic (sg_traffic_shaping cfg) = Ok ()" and "server_warp V (sg_warp cfg) = Ok (st_warp st)"
    and "server_dns server_name (st_warp st) (sg_dns cfg) = Ok (st_dns_client st, st_client_subnet st)"
    and "decode_fixed_32 E (se_private_key (sg_server cfg)) = Ok (ap_private_key (st_app st))"
    and "key_from_secret A hk (as_bytes (as_secret (sg_auth cfg))) = Some (st_token_key st)"
  using assms by (auto simp: server_build_state_def rbind_Ok_iff split: result.splits)

text \<open>WARP that is enabled is never dropped silently: the server starts with it and with a resolver, or it does not start.\<close>

lemma server_starts_with_warp:
  assumes "server_build_state A hk E server_name V cfg = Some (Ok st)"
  shows "(st_warp st \<noteq> None) = (\<exists>sec. sg_warp cfg = Some sec \<and> wn_enabled sec)"
    and "(st_dns_client st \<noteq> None) = (sg_dns cfg \<noteq> None \<or> st_warp st \<noteq> None)"
proof -
  note s = server_build_state_Ok(2,3) [OF assms]
  show "(st_warp st \<noteq> None) = (\<exists>sec. sg_warp cfg = Some sec \<and> wn_enabled sec)"
    using s(1) by (cases "st_warp st") (auto simp: server_warp_def rbind_Ok_iff split: option.splits if_splits)
  show "(st_dns_client st \<noteq> None) = (sg_dns cfg \<noteq> None \<or> st_warp st \<noteq> None)"
    using s(2) by (cases "st_dns_client st") (auto simp: server_dns_def effective_dns_def rbind_Ok_iff split: option.splits if_splits)
qed

text \<open>The keys that \<open>gen-key\<close> prints are accepted by the two programs and are the keys that were drawn.\<close>

lemma generated_keys_configure:
  assumes "b64_correct E" and "length sk = 32" and "length pk = 32" and "gen_key E (sk, pk) = (private_key, public_key)"
  shows "decode_fixed_32 E private_key = Ok sk" and "decode_fixed_32 E public_key = Ok pk"
  using assms by (auto simp: gen_key_def decode_encode_fixed_32)

lemma configured_keys:
  assumes "b64_correct E" and "length sk = 32" and "length pk = 32"
    and "gen_key E (sk, pk) = (se_private_key (sg_server scfg), cn_public_key (ct_client ccfg))"
    and "server_build_state A hk E server_name W scfg = Some (Ok sst)" and "client_build_state V ccfg = Ok cst" and "cv_url_safe V = E"
  shows "ap_private_key (st_app sst) = sk \<and> ss_server_public_key cst = pk"
  using generated_keys_configure [OF assms(1-4)] server_build_state_Ok(4) [OF assms(5)] client_build_state_Ok(5) [OF assms(6)] assms(7)
  by simp

section \<open>Properties\<close>

text \<open>C23: The listeners of the client share one limit. After any sequence of accepts, failed accepts and ends of connections the
  client serves no more connections than \<open>max_connections\<close>; it turns a new one away exactly when it serves that many,
  and otherwise serves it; a connection stays in service until its own end, whatever happens to others; and once the open
  connections have ended every permit is back.\<close>

theorem connections_admitted:
  assumes "client_start V cfg = Ok cp" and "s = fold accept_step es (cp_serving cp)"
    and "m = unwrap_or (cn_max_connections (ct_client cfg)) MAX_LOCAL_CONNECTIONS"
  shows "length (sv_open s) \<le> m
    \<and> sv_open (accept_step (AcceptOk l) s) = (if length (sv_open s) = m then sv_open s else sv_open s @ [(sv_next s, l)])
    \<and> sv_rejected (accept_step (AcceptOk l) s) = (if length (sv_open s) = m then sv_rejected s + 1 else sv_rejected s)
    \<and> (\<forall>c k. (c, k) \<in> set (sv_open s) \<longrightarrow> e \<noteq> ConnectionEnds c \<longrightarrow> (c, k) \<in> set (sv_open (accept_step e s)))
    \<and> sv_permits (fold accept_step (map ConnectionEnds (map fst (sv_open s))) s) = m"
proof -
  have ok: "serving_ok m s" using admission.inv_run [OF client_start_serving [OF assms(1)]] assms(2,3) by simp
  have "filter (\<lambda>(c, l). c \<notin> set (map fst (sv_open s))) (sv_open s) = []" by (auto simp: filter_empty_conv image_iff)
  then have "sv_open (fold accept_step (map ConnectionEnds (map fst (sv_open s))) s) = []" by (simp only: connections_end)
  with admission.inv_run [OF ok, of "map ConnectionEnds (map fst (sv_open s))"]
  have returned: "sv_permits (fold accept_step (map ConnectionEnds (map fst (sv_open s))) s) = m" by (simp add: serving_ok_def)
  have keep: "(c, k) \<in> set (sv_open (accept_step e s))" if "(c, k) \<in> set (sv_open s)" "e \<noteq> ConnectionEnds c" for c k
    using that by (cases e) auto
  have "sv_permits s = 0 \<longleftrightarrow> length (sv_open s) = m" using ok by (auto simp: serving_ok_def)
  then show ?thesis using admission.inv_load [OF ok] returned keep by auto
qed

text \<open>C24: A configuration that the client accepts keeps its uploads going. As long as the upload loop of a connection runs,
  with the settings the client has taken from its configuration, no more requests are in flight than \<open>upload_concurrency\<close>
  and no more body bytes than \<open>max_in_flight_bytes\<close>, and the loop is never stuck: a request is running whose end it waits
  for, or it can go on by itself.\<close>

theorem configured_upload_live:
  assumes "client_build_state V cfg = Ok st" and "env_ok env" and "cipher_contract C" and "RData [] \<notin> set rd"
    and "upload_trace env (upload_loop_new now rnd (ss_resolved_traffic st) (ss_upload_concurrency st) (ss_max_in_flight_bytes st)
           payload rd C seq0) es u"
    and "\<forall>r. ul_point u \<noteq> Finished r"
  shows "length (ul_running u) \<le> ss_upload_concurrency st \<and> length (concat (map snd (ul_running u))) \<le> ss_max_in_flight_bytes st
     \<and> (ul_running u \<noteq> [] \<or> (\<exists>ev u'. upload_loop_step env ev u = Some u'))"
proof -
  note st = client_build_state_Ok [OF assms(1)]
  have "max_encoded_frame_len (rc_encoding (resolve_config (ct_traffic_shaping cfg))) < ss_max_in_flight_bytes st"
    using min_in_flight_holds_frame st(3) by (rule less_le_trans)
  then show ?thesis
    using upload_loop_bounded_and_live [OF assms(2) st(1) assms(3,4) _ _ st(4) assms(6)] assms(5) st(2) by simp
qed

text \<open>C29: The client listens where its configuration says. When it starts there is the listener of the proxy and one listener per
  redirect section, in order, bound to the listen address of the section while the earlier ones are bound; the listen
  addresses of the sections are pairwise different, and every target is a non-empty host, a colon and a 16-bit number.\<close>

theorem client_listens_as_configured:
  fixes V :: "('n, 'a) client_env" and cp :: "('n, 'a) client_program"
  assumes "client_start V cfg = Ok cp"
  shows "\<exists>addr local (rules :: 'a redirect_rule list) locals. cv_addr V (cn_listen (ct_client cfg)) = Some addr \<and> cv_bind V [] addr = Some local
    \<and> map (\<lambda>sec. cv_addr V (rd_listen sec)) (ct_redirect cfg) = map (Some \<circ> rr_listen) rules
    \<and> map (\<lambda>sec. str_trim (rd_target sec)) (ct_redirect cfg) = map rr_target rules
    \<and> distinct (map rr_listen rules) \<and> length locals = length rules
    \<and> cp_listeners cp = (local, ProxyEndpoint) # zip locals (map (RedirectEndpoint \<circ> rr_target) rules)
    \<and> (\<forall>i < length rules. cv_bind V (local # take i locals) (rr_listen (rules ! i)) = Some (locals ! i))
    \<and> (\<forall>rule \<in> set rules. \<exists>host port p. rr_target rule = host @ '':'' @ port \<and> host \<noteq> [] \<and> CHR '':'' \<notin> set port \<and> parse_u16 port = Some p)"
proof -
  obtain addr local rules where a: "cv_addr V (cn_listen (ct_client cfg)) = Some addr" "cv_bind V [] addr = Some local"
    and r: "redirect_parse_all (cv_addr V) (ct_redirect cfg) [] = Ok rules"
    and l: "spawn_redirects V rules [(local, ProxyEndpoint)] = Ok (cp_listeners cp)"
    using assms by (auto simp: client_start_def rbind_Ok_iff Let_def split: if_splits)
  obtain locals where "length locals = length rules"
      "cp_listeners cp = (local, ProxyEndpoint) # zip locals (map (RedirectEndpoint \<circ> rr_target) rules)"
      "\<forall>i < length rules. cv_bind V (local # take i locals) (rr_listen (rules ! i)) = Some (locals ! i)"
    using spawn_redirects_Ok [OF l] by auto
  moreover have "list_all2 (\<lambda>sec rule. redirect_parse (cv_addr V) sec = Ok rule) (ct_redirect cfg) rules"
    using redirect_parse_all_rules [OF r] by simp
  then have "map (\<lambda>sec. str_trim (rd_target sec)) (ct_redirect cfg) = map rr_target rules"
    by (induction rule: list_all2_induct) (auto dest: redirect_parse_trims)
  ultimately show ?thesis
    using a redirect_rules_wellformed [OF r] by - (rule exI [of _ addr], rule exI [of _ local], rule exI [of _ rules], rule exI [of _ locals], simp)
qed

section \<open>Examples\<close>

text \<open>A client with one redirect and room for one connection; \<open>SocketAddr\<close> is a string here and every address can be bound once.\<close>

definition example_client_env :: "(u32 \<times> nat, string) client_env" where
  "example_client_env = \<lparr>cv_url_safe = url_b64, cv_standard = (\<lambda>bs. []), cv_net = demo_net, cv_read = (\<lambda>path. Err ''no such file''),
     cv_url = Some, cv_host = Some, cv_addr = Some, cv_bind = (\<lambda>bound a. if a \<in> set bound then None else Some a), cv_http_client = (\<lambda>a. True)\<rparr>"

definition example_client_cfg :: client_top_config where
  "example_client_cfg =
     \<lparr>ct_client = \<lparr>cn_listen = ''p'', cn_remote = ''h'', cn_address = None, cn_public_key = encode_fixed_32 url_b64 (replicate 32 7),
        cn_auth = None, cn_max_connections = Some 1, cn_max_in_flight_bytes = Some 20480, cn_upload_concurrency = Some 1\<rparr>,
      ct_auth = \<lparr>ca_token = ''t''\<rparr>, ct_traffic_shaping = example_config, ct_bypass_files = [],
      ct_redirect = [\<lparr>rd_listen = ''l'', rd_target = ''h:22''\<rparr>]\<rparr>"

definition example_shared_state :: "(u32 \<times> nat) shared_state" where
  "example_shared_state =
     \<lparr>ss_remote_str = ''h'', ss_auth_header = ''Bearer t'', ss_traffic_config = example_config, ss_resolved_traffic = resolve_config example_config,
      ss_bypass = None, ss_server_public_key = replicate 32 7, ss_proxy_auth = None, ss_initial_master = None,
      ss_max_download_bytes = tc_max_download_bytes example_config, ss_max_connections = 1, ss_max_in_flight_bytes = 20480, ss_upload_concurrency = 1\<rparr>"

lemma example_client_state: "client_build_state example_client_env example_client_cfg = Ok example_shared_state"
proof -
  have "decode_fixed_32 url_b64 (encode_fixed_32 url_b64 (replicate 32 7)) = Ok (replicate 32 7)"
    by (rule decode_encode_fixed_32 [OF url_b64_correct]) simp
  then show ?thesis
    by (simp add: client_build_state_def example_client_env_def example_client_cfg_def example_shared_state_def example_traffic_valid
        client_bypass_def unwrap_or_def MIN_IN_FLIGHT_BYTES_def)
qed

definition example_program :: "(u32 \<times> nat, string) client_program" where
  "example_program = \<lparr>cp_state = example_shared_state, cp_resolves_to = ''h'',
     cp_listeners = [(''p'', ProxyEndpoint), (''l'', RedirectEndpoint ''h:22'')], cp_serving = serving_new 1\<rparr>"

lemma example_client_start: "client_start example_client_env example_client_cfg = Ok example_program"
proof -
  have t: "str_trim ''h:22'' = ''h:22''" by (rule str_trim_id) (simp add: cookie_char_def b64_char_def)
  have "redirect_parse_all Some [\<lparr>rd_listen = ''l'', rd_target = ''h:22''\<rparr>] [] = Ok [\<lparr>rr_listen = ''l'', rr_target = ''h:22''\<rparr>]"
    by (simp add: redirect_parse_def t rsplit_once_def split_once_def parse_u16_def parse_unsigned_def is_ascii_digit_def
        dec_val_def digit_val_def)
  then show ?thesis using example_client_state
    by (simp add: client_start_def example_client_env_def example_client_cfg_def example_program_def example_shared_state_def unwrap_or_def)
qed

theorem connections_admitted_witness:
  "length (sv_open (fold accept_step [AcceptOk ProxyEndpoint, AcceptOk (RedirectEndpoint ''h:22'')] (cp_serving example_program))) \<le> 1
   \<and> sv_permits (fold accept_step (map ConnectionEnds (map fst (sv_open
        (fold accept_step [AcceptOk ProxyEndpoint, AcceptOk (RedirectEndpoint ''h:22'')] (cp_serving example_program)))))
        (fold accept_step [AcceptOk ProxyEndpoint, AcceptOk (RedirectEndpoint ''h:22'')] (cp_serving example_program))) = 1"
proof -
  have "1 = unwrap_or (cn_max_connections (ct_client example_client_cfg)) MAX_LOCAL_CONNECTIONS"
    by (simp add: example_client_cfg_def unwrap_or_def)
  note adm = connections_admitted [OF example_client_start refl this, of "[AcceptOk ProxyEndpoint, AcceptOk (RedirectEndpoint ''h:22'')]"]
  show ?thesis by (rule conjI [OF conjunct1 [OF adm] conjunct2 [OF conjunct2 [OF conjunct2 [OF conjunct2 [OF adm]]]]])
qed

theorem configured_upload_live_witness:
  "\<exists>ev u'. upload_loop_step example_env ev (upload_loop_new 0 0 (ss_resolved_traffic example_shared_state)
     (ss_upload_concurrency example_shared_state) (ss_max_in_flight_bytes example_shared_state) [] [] example_cipher 40) = Some u'"
    (is "\<exists>ev u'. upload_loop_step _ ev ?u = _")
proof -
  have "\<forall>r. ul_point ?u \<noteq> Finished r" "ul_running ?u = []" by (simp_all add: upload_loop_new_def)
  then show ?thesis
    using configured_upload_live [OF example_client_state example_env_ok example_cipher_contract _ upload_trace.start [of example_env ?u]] by simp
qed

theorem client_listens_as_configured_witness:
  "\<exists>addr local (rules :: string redirect_rule list) locals. cv_bind example_client_env [] addr = Some local \<and> length locals = length rules
     \<and> map (\<lambda>sec. str_trim (rd_target sec)) (ct_redirect example_client_cfg) = map rr_target rules
     \<and> cp_listeners example_program = (local, ProxyEndpoint) # zip locals (map (RedirectEndpoint \<circ> rr_target) rules)"
proof -
  obtain addr local and rules :: "string redirect_rule list" and locals where "cv_bind example_client_env [] addr = Some local"
      "length locals = length rules" "map (\<lambda>sec. str_trim (rd_target sec)) (ct_redirect example_client_cfg) = map rr_target rules"
      "cp_listeners example_program = (local, ProxyEndpoint) # zip locals (map (RedirectEndpoint \<circ> rr_target) rules)"
    using client_listens_as_configured [OF example_client_start] by (elim exE conjE)
  then show ?thesis by - (rule exI [of _ addr], rule exI [of _ local], rule exI [of _ rules], rule exI [of _ locals], simp)
qed

end
