(* ===== verification/Spec2Isabelle.thy ===== *)
theory Spec2Isabelle
  imports H3 Crypto Framing Traffic_Shaper Buf_Pool Frame_Decoder Streams Errors Masque Upstream_Write Upload_Actor
    Stream_Registry Token Cookies Tunnel_Actor Handshake Server_Handlers Bypass Download_Loop Upload_Loop
    Proxy Client_State Ip_Addr Warp_Client Dns_Client Upstream_Connect Dns_Transport Der_Pin Civil_Time Warp_Register End_To_End Start_Up
begin

text \<open>
  httproxy carries TCP connections through ordinary-looking HTTP requests. A client program accepts local connections (as
  an HTTP proxy, or on fixed redirect ports) and opens one tunnel per connection; a server program ends the tunnels and connects
  to the targets. Payload travels in encrypted, padded and numbered frames: from the client in the bodies of many POST
  requests that may run at once and arrive in any order, to the client in the body of one answer after the other. This
  development models both programs as executable HOL functions and step machines and proves that they do what they are for. The
  sources are named below relative to \<^verbatim>\<open>src/src/\<close>.

  \<^bold>\<open>How a connection passes through the parts.\<close> \<open>Start_Up\<close> turns the configuration into the state of the programs and admits
  connections. \<open>Proxy\<close> reads the request head, checks the credentials and settles the target; \<open>Bypass\<close> decides whether the
  target is reached directly; \<open>Client_State\<close> resumes a session or runs the \<open>Handshake\<close> and sends the tunnel request that
  \<open>Cookies\<close> lays out. \<open>Server_Handlers\<close> dispatches it (tokens: \<open>Token\<close>; stream ids and master keys:
  \<open>Stream_Registry\<close>), connects with \<open>Upstream_Connect\<close>, which asks \<open>Dns_Client\<close> and may go through WARP (\<open>Warp_Client\<close>,
  \<open>Masque\<close>, \<open>H3\<close>), and starts a \<open>Tunnel_Actor\<close> and an \<open>Upload_Actor\<close>. From then on \<open>Upload_Loop\<close> feeds
  \<open>Upload_Actor\<close> and \<open>Tunnel_Actor\<close> feeds \<open>Download_Loop\<close>; the frames are made by \<open>Traffic_Shaper\<close> and read by
  \<open>Frame_Decoder\<close> in the format of \<open>Framing\<close> over the ciphers of \<open>Crypto\<close>. \<open>End_To_End\<close> puts the two directions together.

  \<^bold>\<open>Theories, sources and results.\<close>
  \<^item> \<open>Prelude\<close>, \<open>Interfaces\<close>, \<open>Streams\<close>: machine words, \<open>Result\<close>, \<open>Poll\<close>, byte and string operations of the standard
    library; the contracts several components share, as locales (self-delimiting codecs, stores that are pruned, writers with
    partial acceptance, event machines with an invariant and a bound), each interpreted where a component provides it;
    sockets as scripts of read events and of accepted amounts, so that a theorem about all scripts is one about all peers.
  \<^item> \<open>Crypto\<close> (\<^verbatim>\<open>crypto/\<close>): layout of sealed data, overriding against default methods of the cipher, key derivation, key texts.
  \<^item> \<open>Framing\<close>, \<open>Traffic_Shaper\<close>, \<open>Buf_Pool\<close> (\<^verbatim>\<open>shaper/\<close>): both encodings round-trip under any padding and an incomplete frame
    waits; the shaper conserves bytes and numbers frames consecutively; the stage pointer is only an optimisation; the
    buffer pool keeps its limits.
  \<^item> \<open>Frame_Decoder\<close> (\<^verbatim>\<open>server/stream.rs\<close>): frames do not depend on how a body is cut into chunks.
  \<^item> \<open>Errors\<close> (\<^verbatim>\<open>error/mod.rs\<close>): messages, status codes and conversions.
  \<^item> \<open>H3\<close>, \<open>Masque\<close>, \<open>Der_Pin\<close> (\<^verbatim>\<open>warp/h3.rs\<close>, \<^verbatim>\<open>warp/masque.rs\<close>): varints, QPACK and frame headers; what is written as DATA frames
    comes out of the receiver; the payload of a foreign frame can reach the reader when a read hits it half way (a defect);
    the pinned verifier accepts exactly the pinned public key.
  \<^item> \<open>Upstream_Write\<close>, \<open>Upload_Actor\<close> (\<^verbatim>\<open>server/upstream.rs\<close>, \<^verbatim>\<open>server/actor/upload.rs\<close>): vectored writes with partial acceptance;
    whatever the order of arrival, the target receives the stream in order, a positive answer means everything up to that
    number is written, and every request is answered once.
  \<^item> \<open>Stream_Registry\<close>, \<open>Token\<close> (\<^verbatim>\<open>server/stream_registry.rs\<close>, \<^verbatim>\<open>server/janitor.rs\<close>, \<^verbatim>\<open>server/token.rs\<close>): no stream id is used twice, the life
    time of master keys and stream ids under every interleaving with the janitors; tokens open to their claims and only
    authentic, unexpired ones open.
  \<^item> \<open>Cookies\<close>, \<open>Handshake\<close> (\<^verbatim>\<open>client/utils.rs\<close>, \<^verbatim>\<open>server/utils.rs\<close>, \<^verbatim>\<open>client/handshake.rs\<close>, \<^verbatim>\<open>server/handlers.rs\<close>): both sides end with the same
    key and session id.
  \<^item> \<open>Tunnel_Actor\<close> (\<^verbatim>\<open>server/actor/tunnel.rs\<close>): the download is continuous across segments and the shaper is never in two
    places; stopping is final; two situations in which a tunnel is lost (defects).
  \<^item> \<open>Server_Handlers\<close> (\<^verbatim>\<open>server/handlers.rs\<close>): a tunnel request opens the tunnel it describes; a failed one leaves nothing behind.
  \<^item> \<open>Ip_Addr\<close>, \<open>Bypass\<close> (\<^verbatim>\<open>bypass/mod.rs\<close>): addresses as the standard library reads and prints them; the compiled rules refine the
    meaning of the rule files.
  \<^item> \<open>Download_Loop\<close>, \<open>Upload_Loop\<close> (\<^verbatim>\<open>client/actor/\<close>): ordered, complete delivery to the local socket across rotations; bodies
    are whole frames in order, requests and bytes in flight stay within the limits and the loop is never stuck.
  \<^item> \<open>Proxy\<close>, \<open>Client_State\<close> (\<^verbatim>\<open>client/proxy.rs\<close>, \<^verbatim>\<open>client/actor/connection.rs\<close>, \<^verbatim>\<open>client/state.rs\<close>, \<^verbatim>\<open>client/connection.rs\<close>,
    \<^verbatim>\<open>client/redirect.rs\<close>): plain requests are rewritten as specified, credentials guard the tunnel, the attempts of a
    connection are bounded and a resumed key is one the server still has.
  \<^item> \<open>Dns_Client\<close>, \<open>Dns_Transport\<close> (\<^verbatim>\<open>dns/\<close>): answers stem from checked responses and are never older than allowed; one query per
    key, bounded concurrency, every caller answered once; on a shared stream responses reach the right query; the
    happy-eyeballs race tries every address.
  \<^item> \<open>Upstream_Connect\<close>, \<open>Warp_Client\<close>, \<open>Warp_Register\<close>, \<open>Civil_Time\<close> (\<^verbatim>\<open>server/connection.rs\<close>, \<^verbatim>\<open>warp/mod.rs\<close>,
    \<^verbatim>\<open>warp/register.rs\<close>): with WARP no target outside the bypass is reached directly, the bypass tests are address blocks, a registration
    serves later starts, dates are Gregorian.
  \<^item> \<open>Start_Up\<close> (\<^verbatim>\<open>client/mod.rs\<close>, \<^verbatim>\<open>server/mod.rs\<close>, \<^verbatim>\<open>config/mod.rs\<close>, \<^verbatim>\<open>bin/\<close>): an accepted configuration meets what the loops rely
    on, the listeners are the configured ones, and the accept loops keep the limit of connections.
  \<^item> \<open>End_To_End\<close>: the target receives a prefix of what the local application sent, and all of it when every request was served; the
    local application receives a prefix of what the target sent.

  \<^bold>\<open>Conventions.\<close> Structs are records, enums datatypes, \<open>u8\<close> to \<open>u64\<close> words of that width; \<open>usize\<close> is \<open>nat\<close> where the code
  only counts buffered bytes or list elements, with casts to narrower types written out. Errors are values of \<open>result\<close>, a panic
  is \<open>None\<close>. An \<open>async\<close> function is a function of what it observes at its waiting points, or a step machine whose events are
  what happens there next, when other tasks act on the same state in between. Time, random draws and the network are arguments.

  \<^bold>\<open>Bounds.\<close> Loops that poll take the number of polls (\<open>collect_frames\<close>, \<open>decode_stream\<close>); the theorems hold for every number,
  or say how many are enough (as many as there are frames and chunks, plus one). All other recursion is shown to terminate.

  \<^bold>\<open>Libraries as parameters.\<close> AES-GCM, HKDF, base64, base122, X25519, ML-KEM, UUIDs, the parsers of HTTP, URLs and TOML, JSON, DNS
  messages, IP networks, rustls and quinn are arguments of the definitions that use them; what is relied on is stated
  as a predicate (\<open>aead_correct\<close>, \<open>b64_correct\<close>, \<open>cipher_contract\<close>, \<dots>), shown to be satisfiable on a concrete instance.

  \<^bold>\<open>Not modelled.\<close> Logging; command lines and the reading of the configuration file; the router and listener of the server (axum),
  the spawning of the janitors and the runtime; the set-up of TLS and QUIC and the self-signed client certificate beyond its
  failures; the HTTP exchange of the registration (\<open>send\<close>); opening the TCP, TLS or WARP stream of a DNS transport; the
  floating-point generation of the jitter table, which is a parameter of the shaper; the delegating \<open>AsyncRead\<close> and \<open>AsyncWrite\<close>
  implementations, wiping of keys, buffer capacities outside the pool, and tests. A query of a DNS stream that times out in the
  same instant as its answer arrives is modelled as one of the two orders.
\<close>

end
